(* ===== verification/Prelude.thy ===== *)
theory Prelude
  imports Main "HOL-Library.Word"
begin

text \<open>
  The library the component theories share: the machine integers and the
  exception values of the C++ code, the sequencing of operations that may
  throw, big-endian byte strings, and a locale for components that are a state
  with operations and an invariant.

  Counters of the code are \<open>std::uint64_t\<close> and wrap, so they are 64-bit
  words here. \<open>std::size_t\<close> values that are lengths of containers are
  natural numbers. Clock readings are integers (nanosecond ticks).
\<close>

unbundle bit_operations_syntax

section \<open>Types\<close>

type_synonym u8 = "8 word"
type_synonym u16 = "16 word"
type_synonym u32 = "32 word"
type_synonym u64 = "64 word"
type_synonym byte = "8 word"
type_synonym bytes = "8 word list"

text \<open>A reading of a clock, or a difference of two readings, in nanoseconds.\<close>

type_synonym nanos = int

definition millis :: "int \<Rightarrow> nanos" where
  "millis n = n * 1000000"

text \<open>The exception classes the code throws, with the message.\<close>

datatype exn =
    Invalid_argument string
  | Runtime_error string
  | Length_error string
  | Logic_error string
  | Out_of_range string

type_synonym 'a result = "exn + 'a"

section \<open>Collections of facts\<close>

named_theorems result_simps \<open>evaluation of operations that may throw\<close>
named_theorems codec_simps \<open>reading back what was written to a byte buffer\<close>
named_theorems invs \<open>invariants kept by the operations of a component\<close>

section \<open>Operations that may throw\<close>

definition ensure :: "bool \<Rightarrow> exn \<Rightarrow> 'a result \<Rightarrow> 'a result" where
  "ensure c e k = (if c then k else Inl e)"

fun ebind :: "'a result \<Rightarrow> ('a \<Rightarrow> 'b result) \<Rightarrow> 'b result" where
  "ebind (Inl e) k = Inl e"
| "ebind (Inr x) k = k x"

fun emap :: "('a \<Rightarrow> 'b result) \<Rightarrow> 'a list \<Rightarrow> 'b list result" where
  "emap f [] = Inr []"
| "emap f (x # xs) = ebind (f x) (\<lambda>y. ebind (emap f xs) (\<lambda>ys. Inr (y # ys)))"

fun efold :: "('s \<Rightarrow> 'a \<Rightarrow> 's result) \<Rightarrow> 's \<Rightarrow> 'a list \<Rightarrow> 's result" where
  "efold f s [] = Inr s"
| "efold f s (x # xs) = ebind (f s x) (\<lambda>t. efold f t xs)"

lemma ensure_True [simp, result_simps]: "ensure True e k = k"
  by (simp add: ensure_def)

lemma ensure_False [simp, result_simps]: "ensure False e k = Inl e"
  by (simp add: ensure_def)

lemma ensure_eq_Inr [simp, result_simps]: "ensure c e k = Inr y \<longleftrightarrow> c \<and> k = Inr y"
  by (simp add: ensure_def)

lemma ebind_eq_Inr [result_simps]: "ebind m k = Inr y \<longleftrightarrow> (\<exists>x. m = Inr x \<and> k x = Inr y)"
  by (cases m) auto

lemma emap_Inr: "(\<And>x. x \<in> set xs \<Longrightarrow> f x = Inr (g x)) \<Longrightarrow> emap f xs = Inr (map g xs)"
  by (induction xs) auto

lemma efold_append: "efold f s (xs @ ys) = ebind (efold f s xs) (\<lambda>t. efold f t ys)"
proof (induction xs arbitrary: s)
  case Nil
  then show ?case by simp
next
  case (Cons x xs)
  then show ?case by (cases "f s x") simp_all
qed

lemma efold_Inr: "(\<And>s x. x \<in> set xs \<Longrightarrow> P s \<Longrightarrow> f s x = Inr (g s x) \<and> P (g s x)) \<Longrightarrow> P s \<Longrightarrow>
    efold f s xs = Inr (foldl g s xs) \<and> P (foldl g s xs)"
  by (induction xs arbitrary: s) auto

lemma emap_append: "emap f (xs @ ys) = ebind (emap f xs) (\<lambda>us. ebind (emap f ys) (\<lambda>vs. Inr (us @ vs)))"
proof (induction xs)
  case Nil
  then show ?case by (cases "emap f ys") simp_all
next
  case (Cons x xs)
  then show ?case by (cases "f x"; cases "emap f xs"; cases "emap f ys") simp_all
qed

lemma emap_cong: "(\<And>x. x \<in> set xs \<Longrightarrow> f x = g x) \<Longrightarrow> emap f xs = emap g xs"
  by (induction xs) simp_all

lemma emap_length: "emap f xs = Inr ys \<Longrightarrow> length ys = length xs"
  by (induction xs arbitrary: ys) (auto simp: ebind_eq_Inr)

lemma emap_all: "emap f xs = Inr ys \<Longrightarrow> (\<And>x y. x \<in> set xs \<Longrightarrow> f x = Inr y \<Longrightarrow> P y) \<Longrightarrow> \<forall>y \<in> set ys. P y"
proof (induction xs arbitrary: ys)
  case Nil
  then show ?case by simp
next
  case (Cons x xs)
  from Cons.prems(1) obtain z zs where z: "f x = Inr z" "emap f xs = Inr zs" "ys = z # zs"
    by (auto simp: ebind_eq_Inr)
  have "P z" using Cons.prems(2) [OF _ z(1)] by simp
  moreover have "\<forall>y \<in> set zs. P y" by (rule Cons.IH [OF z(2)]) (use Cons.prems(2) in auto)
  ultimately show ?case by (simp add: z)
qed

section \<open>Big-endian byte strings\<close>

text \<open>
  The code writes a value by shifting it right and masking
  (\<open>(value >> (8 * (count - index - 1))) & 0xff\<close>) and reads it by
  accumulating \<open>(result << 8) | byte\<close>. \<open>be_bytes\<close> and \<open>be_value\<close>
  are the two loops on their own; the components place them in their buffers.
\<close>

definition be_byte :: "u64 \<Rightarrow> nat \<Rightarrow> nat \<Rightarrow> byte" where
  "be_byte value count index = ucast (drop_bit (8 * (count - index - 1)) value AND 0xff)"

definition be_bytes :: "nat \<Rightarrow> u64 \<Rightarrow> bytes" where
  "be_bytes count value = map (be_byte value count) [0..<count]"

definition be_value :: "bytes \<Rightarrow> u64" where
  "be_value bs = foldl (\<lambda>result b. push_bit 8 result OR ucast b) 0 bs"

lemma length_be_bytes [simp]: "length (be_bytes n v) = n"
  by (simp add: be_bytes_def)

lemma byte_mask: "(0xff :: u64) = mask 8"
  by (simp add: mask_eq_exp_minus_1)

lemma be_byte_eq: "be_byte v n i = ucast (drop_bit (8 * (n - i - 1)) v)"
  unfolding be_byte_def byte_mask
  by (rule bit_word_eqI) (auto simp add: bit_simps)

lemma be_value_snoc: "be_value (bs @ [b]) = push_bit 8 (be_value bs) OR ucast b"
  by (simp add: be_value_def)

lemma be_bytes_snoc: "be_bytes (Suc n) v = be_bytes n (drop_bit 8 v) @ [ucast v]"
proof (rule nth_equalityI)
  show "be_bytes (Suc n) v ! i = (be_bytes n (drop_bit 8 v) @ [ucast v]) ! i"
    if "i < length (be_bytes (Suc n) v)" for i
  proof (cases "i < n")
    case True
    then have "8 * (Suc n - i - 1) = 8 + 8 * (n - i - 1)" by simp
    with True show ?thesis
      by (simp add: be_bytes_def nth_append be_byte_eq ac_simps del: upt_Suc)
  next
    case False
    with that have "i = n" by simp
    then show ?thesis by (simp add: be_bytes_def nth_append be_byte_eq del: upt_Suc)
  qed
qed simp

lemma be_value_be_bytes: "be_value (be_bytes n v) = take_bit (8 * n) v"
proof (induction n arbitrary: v)
  case 0
  show ?case by (simp add: be_bytes_def be_value_def)
next
  case (Suc n)
  show ?case
    unfolding be_bytes_snoc be_value_snoc Suc
    by (rule bit_word_eqI) (auto simp add: bit_simps)
qed


lemma be_value_exact: "unat v < 2 ^ (8 * n) \<Longrightarrow> be_value (be_bytes n v) = v"
  unfolding be_value_be_bytes
  by (simp add: word_unat_eq_iff unsigned_take_bit_eq take_bit_nat_eq_self)

lemma be_value_8: "be_value (be_bytes 8 v) = v"
  by (rule be_value_exact) (use unsigned_less [of v] in simp)

lemma be_value_4: "be_value (be_bytes 4 (ucast (v :: u32))) = ucast v"
proof (rule be_value_exact)
  show "unat (ucast v :: u64) < 2 ^ (8 * 4)"
  proof -
    have "unat v < 2 ^ LENGTH(32)" by (rule unsigned_less)
    then show ?thesis by (simp add: unsigned_ucast_eq take_bit_nat_eq_self)
  qed
qed

lemma bit_be_value: "bit (be_value bs) m \<Longrightarrow> m < 8 * length bs"
proof (induction bs arbitrary: m rule: rev_induct)
  case Nil
  then show ?case by (simp add: be_value_def)
next
  case (snoc b bs)
  from snoc.prems consider "8 \<le> m" "bit (be_value bs) (m - 8)" | "bit b m"
    by (auto simp: be_value_snoc bit_simps)
  then show ?case
  proof cases
    case 1
    from snoc.IH [OF 1(2)] 1(1) show ?thesis by simp
  next
    case 2
    then have "m < LENGTH(8)" by (rule bit_imp_le_length)
    then show ?thesis by simp
  qed
qed

lemma be_bytes_be_value: "length bs \<le> 8 \<Longrightarrow> be_bytes (length bs) (be_value bs) = bs"
proof (induction bs rule: rev_induct)
  case Nil
  show ?case by (simp add: be_bytes_def)
next
  case (snoc b bs)
  have "drop_bit 8 (push_bit 8 (be_value bs) OR ucast b) = be_value bs"
  proof (rule bit_word_eqI)
    show "bit (drop_bit 8 (push_bit 8 (be_value bs) OR ucast b)) n = bit (be_value bs) n" for n
      using bit_be_value [of bs n] bit_imp_le_length [of b "8 + n"] snoc.prems
      by (auto simp add: bit_simps)
  qed
  moreover have "ucast (push_bit 8 (be_value bs) OR ucast b) = b"
    by (rule bit_word_eqI) (auto simp add: bit_simps)
  ultimately show ?case using snoc by (simp add: be_bytes_snoc be_value_snoc)
qed

lemma unat_be_value_less: "length bs \<le> 8 \<Longrightarrow> unat (be_value bs) < 2 ^ (8 * length bs)"
proof -
  have "take_bit (8 * length bs) (be_value bs) = be_value bs"
    by (rule bit_word_eqI) (auto simp add: bit_simps dest: bit_be_value)
  then have "unat (be_value bs) = take_bit (8 * length bs) (unat (be_value bs))"
    by (metis unsigned_take_bit_eq)
  then show ?thesis by (metis take_bit_nat_less_exp)
qed
section \<open>Parts of a byte string\<close>

text \<open>
  \<open>write_at\<close> overwrites a part of a buffer in place, \<open>read_at\<close> reads a part. A
  read is unaffected by a write to a disjoint part: with concrete offsets the
  rules below let the simplifier read any field back from a buffer that was
  filled field by field.
\<close>

definition write_at :: "'a list \<Rightarrow> nat \<Rightarrow> 'a list \<Rightarrow> 'a list" where
  "write_at out off bs = take off out @ bs @ drop (off + length bs) out"

definition read_at :: "'a list \<Rightarrow> nat \<Rightarrow> nat \<Rightarrow> 'a list" where
  "read_at w off n = take n (drop off w)"

lemma length_write_at [simp, codec_simps]:
  "off + length bs \<le> length out \<Longrightarrow> length (write_at out off bs) = length out"
  by (simp add: write_at_def)

lemma length_read_at [simp]: "off + n \<le> length w \<Longrightarrow> length (read_at w off n) = n"
  by (simp add: read_at_def)

lemma read_at_write_at_same [codec_simps]:
  "off + length bs \<le> length out \<Longrightarrow> n = length bs \<Longrightarrow> read_at (write_at out off bs) off n = bs"
  by (simp add: read_at_def write_at_def)

lemma read_at_write_at_before:
  "off \<le> length out \<Longrightarrow> o' + n \<le> off \<Longrightarrow> read_at (write_at out off bs) o' n = read_at out o' n"
  by (simp add: read_at_def write_at_def drop_take min_absorb1)

lemma read_at_write_at_after:
  "off + length bs \<le> length out \<Longrightarrow> off + length bs \<le> o' \<Longrightarrow>
     read_at (write_at out off bs) o' n = read_at out o' n"
  by (simp add: read_at_def write_at_def)

lemma read_at_write_at_other [codec_simps]:
  "off + length bs \<le> length out \<Longrightarrow> o' + n \<le> off \<or> off + length bs \<le> o' \<Longrightarrow>
     read_at (write_at out off bs) o' n = read_at out o' n"
  using read_at_write_at_before [of off out o' n bs] read_at_write_at_after [of off bs out o' n] by auto

lemma nth_read_at: "off + n \<le> length w \<Longrightarrow> i < n \<Longrightarrow> read_at w off n ! i = w ! (off + i)"
  by (simp add: read_at_def)

lemma write_at_read_at: "write_at w off (read_at w off n) = w" if "off + n \<le> length w"
proof -
  have "read_at w off n @ drop (off + n) w = drop off w"
    by (metis read_at_def append_take_drop_id drop_drop add.commute)
  with that show ?thesis by (simp add: write_at_def)
qed

section \<open>Word arithmetic that does not wrap\<close>

lemma unat_word_mult_small: "unat (a :: u64) * unat b < 2 ^ 64 \<Longrightarrow> unat (a * b) = unat a * unat b"
  by (simp add: unat_word_ariths)

lemma unat_word_add_small: "unat (a :: u64) + unat b < 2 ^ 64 \<Longrightarrow> unat (a + b) = unat a + unat b"
  by (simp add: unat_word_ariths)

lemma unat_ucast_32_64 [simp]: "unat (ucast (r :: u32) :: u64) = unat r"
proof -
  have "unat r < 2 ^ LENGTH(32)" by (rule unsigned_less)
  then show ?thesis by (simp add: unsigned_ucast_eq take_bit_nat_eq_self)
qed

section \<open>Byte strings and words, continued\<close>

lemma foldl_update_write_at:
  "off + n \<le> length out \<Longrightarrow>
     foldl (\<lambda>o' i. o'[off + i := f i]) out [0..<n] = write_at out off (map f [0..<n])"
proof (induction n)
  case 0
  then show ?case by (simp add: write_at_def)
next
  case (Suc n)
  then have "foldl (\<lambda>o' i. o'[off + i := f i]) out [0..<Suc n]
      = (write_at out off (map f [0..<n]))[off + n := f n]" by simp
  also have "\<dots> = write_at out off (map f [0..<Suc n])"
  proof (rule nth_equalityI)
    show "length ((write_at out off (map f [0..<n]))[off + n := f n])
        = length (write_at out off (map f [0..<Suc n]))"
      using Suc.prems by simp
  next
    fix i
    assume "i < length ((write_at out off (map f [0..<n]))[off + n := f n])"
    with Suc.prems have i: "i < length out" by simp
    show "(write_at out off (map f [0..<n]))[off + n := f n] ! i
        = write_at out off (map f [0..<Suc n]) ! i"
      using i Suc.prems
      by (auto simp: write_at_def nth_list_update nth_append less_Suc_eq simp del: upt_Suc)
  qed
  finally show ?case .
qed

lemma read_at_conv_map: "off + n \<le> length w \<Longrightarrow> read_at w off n = map (\<lambda>i. w ! (off + i)) [0..<n]"
  by (rule nth_equalityI) (simp_all add: nth_read_at)

lemma unat32_less [simp]: "unat (x :: u32) < 4294967296" "unat x < 18446744073709551616"
  using unsigned_less [of x, where ?'a = nat] by simp_all

lemma unat64_less [simp]: "unat (x :: u64) < 18446744073709551616"
  using unsigned_less [of x, where ?'a = nat] by simp

lemma ucast_ucast_32_64 [simp]: "ucast (ucast (x :: u32) :: u64) = x"
  by (rule bit_word_eqI) (auto simp: bit_simps)

lemma read_at_add: "read_at w off (m + n) = read_at w off m @ read_at w (off + m) n"
  by (simp add: read_at_def take_add add.commute)

lemma be_bytes_read_at: "off + n \<le> length w \<Longrightarrow> n \<le> 8 \<Longrightarrow> be_bytes n (be_value (read_at w off n)) = read_at w off n"
  using be_bytes_be_value [of "read_at w off n"] by simp

lemma be_bytes_0 [simp]: "be_bytes 0 v = []"
  by (simp add: be_bytes_def)

lemma be_bytes_append: "be_bytes (m + n) v = be_bytes m (drop_bit (8 * n) v) @ be_bytes n v"
  by (induction n arbitrary: v) (simp_all add: be_bytes_snoc add.commute)

lemma be_value_append: "length b \<le> 7 \<Longrightarrow> be_value (a @ b) = push_bit (8 * length b) (be_value a) OR be_value b"
proof (induction b rule: rev_induct)
  case Nil
  show ?case by (simp add: be_value_def)
next
  case (snoc x b)
  then have "be_value ((a @ b) @ [x]) = push_bit 8 (push_bit (8 * length b) (be_value a) OR be_value b) OR ucast x"
    by (simp only: be_value_snoc) simp
  then show ?case
    by (simp add: be_value_snoc push_bit_or or.assoc add.commute)
qed

lemma ucast_be_value_32:
  "off + 4 \<le> length w \<Longrightarrow> (ucast (ucast (be_value (read_at w off 4)) :: u32) :: u64) = be_value (read_at w off 4)"
  using unat_be_value_less [of "read_at w off 4"]
  by (simp add: word_unat_eq_iff unsigned_ucast_eq unsigned_take_bit_eq take_bit_nat_eq_self)

lemma be_bytes_8_ucast: "be_bytes 8 (ucast (x :: u32)) = replicate 4 0 @ be_bytes 4 (ucast x)"
proof -
  have "drop_bit 32 (ucast x :: u64) = 0"
    by (rule bit_word_eqI) (auto simp: bit_simps dest: bit_imp_le_length)
  moreover have "be_bytes 4 0 = replicate 4 0"
    by (simp add: be_bytes_def be_byte_def numeral_eq_Suc)
  ultimately show ?thesis using be_bytes_append [of 4 4 "ucast x"] by simp
qed

lemma concat_read_at: "concat (map (\<lambda>i. read_at w (off + i * 4) 4) [0..<n]) = read_at w off (4 * n)"
proof (induction n)
  case 0
  show ?case by (simp add: read_at_def)
next
  case (Suc n)
  have "read_at w off (4 * Suc n) = read_at w off (4 * n) @ read_at w (off + n * 4) 4"
    using read_at_add [of w off "4 * n" 4] by (simp add: algebra_simps)
  with Suc show ?case by simp
qed

lemma of_nat_u64_eq_0: "n < 2 ^ 64 \<Longrightarrow> (of_nat n :: u64) = 0 \<longleftrightarrow> n = 0"
proof -
  assume "n < 2 ^ 64"
  then have "unat (of_nat n :: u64) = n" by (simp add: unat_of_nat)
  moreover have "(of_nat n :: u64) = 0 \<longleftrightarrow> unat (of_nat n :: u64) = 0" by (simp only: unsigned_eq_0_iff)
  ultimately show ?thesis by simp
qed

section \<open>Components as transition systems\<close>

text \<open>
  A component is a state and operations on it; its invariant is kept by every
  operation, so it holds after any sequence of operations. Each component
  interprets this locale for its own operations and invariant.
\<close>

locale transition_system =
  fixes step :: "'s \<Rightarrow> 'e \<Rightarrow> 's"
    and good :: "'s \<Rightarrow> bool"
  assumes step_good: "good s \<Longrightarrow> good (step s e)"
begin

lemma run_good: "good s \<Longrightarrow> good (foldl step s es)"
  by (induction es arbitrary: s) (auto intro: step_good)

lemma run_prefix_good: "good s \<Longrightarrow> good (foldl step s (take n es))"
  by (rule run_good)

end

text \<open>
  A transition system with an observable value that only moves in one
  direction along \<open>le\<close>, such as a counter or a generation number.
\<close>

locale monotone_system = transition_system +
  fixes obs :: "'a \<Rightarrow> nat"
  assumes step_mono: "good s \<Longrightarrow> obs s \<le> obs (step s e)"
begin

lemma run_mono: "good s \<Longrightarrow> obs s \<le> obs (foldl step s es)"
proof (induction es arbitrary: s)
  case Nil
  then show ?case by simp
next
  case (Cons e es)
  have "obs s \<le> obs (step s e)" by (rule step_mono) (rule Cons.prems)
  also have "\<dots> \<le> obs (foldl step (step s e) es)"
    using Cons.prems by (intro Cons.IH step_good)
  finally show ?case by simp
qed

end

section \<open>Message formats\<close>

text \<open>
  A validated message format: encoding succeeds exactly on the valid messages,
  decoding returns what was encoded, and only valid messages are ever decoded.
  The laws give that an encoding names one message, and that a decoded
  message can be sent on.
\<close>

locale wire_format =
  fixes valid :: "'m \<Rightarrow> bool"
    and enc :: "'m \<Rightarrow> 'w result"
    and dec :: "'w \<Rightarrow> 'm result"
  assumes enc_valid: "valid m \<Longrightarrow> \<exists>w. enc m = Inr w \<and> dec w = Inr m"
    and enc_invalid: "\<not> valid m \<Longrightarrow> \<exists>e. enc m = Inl e"
    and dec_valid: "dec w = Inr m \<Longrightarrow> valid m"
begin

lemma enc_ok_iff: "(\<exists>w. enc m = Inr w) \<longleftrightarrow> valid m"
  using enc_valid enc_invalid by (metis Inl_Inr_False)

lemma dec_enc: "enc m = Inr w \<Longrightarrow> dec w = Inr m"
  using enc_ok_iff enc_valid by (metis sum.inject(2))

lemma enc_inj: "enc m = Inr w \<Longrightarrow> enc m' = Inr w \<Longrightarrow> m = m'"
  using dec_enc by (metis sum.inject(2))

lemma relay: "dec w = Inr m \<Longrightarrow> \<exists>w'. enc m = Inr w' \<and> dec w' = Inr m"
  using dec_valid enc_valid by blast

lemma transport: "emap enc ms = Inr ws \<Longrightarrow> emap dec ws = Inr ms"
proof (induction ms arbitrary: ws)
  case Nil
  then show ?case by simp
next
  case (Cons m ms)
  then obtain w ws' where "enc m = Inr w" "emap enc ms = Inr ws'" "ws = w # ws'"
    by (auto simp: ebind_eq_Inr)
  with Cons.IH show ?case by (simp add: dec_enc)
qed

end

end
