(* ===== verification/Status.thy ===== *)
theory Status
  imports Prelude
begin

text \<open>
  The status service (\<open>include/sdr/status.hpp\<close>, \<open>src/status.cpp\<close>, and
  \<open>serve_status_transaction\<close> of \<open>src/radio_services.cpp\<close>): the decoder of one
  length-prefixed request that may arrive in any pieces, the encoder of the
  response, and the transaction that serves one request on a connection. The JSON
  library is a parameter: parsing and dumping are the fields of \<open>json\<close>.
\<close>

definition maximum_status_request_bytes :: nat where
  "maximum_status_request_bytes = 1024"

definition maximum_status_response_bytes :: nat where
  "maximum_status_response_bytes = 4096"

section \<open>The request decoder\<close>

record status_decoder =
  sd_header :: bytes
  sd_payload :: bytes
  sd_header_bytes :: nat
  sd_payload_bytes :: nat
  sd_expected :: nat
  sd_complete :: bool
  sd_failed :: bool

definition new_decoder :: status_decoder where
  "new_decoder = \<lparr>sd_header = replicate 4 0, sd_payload = replicate maximum_status_request_bytes 0,
     sd_header_bytes = 0, sd_payload_bytes = 0, sd_expected = 0, sd_complete = False, sd_failed = False\<rparr>"

text \<open>The second half of the loop body: the payload.\<close>

definition feed_payload :: "status_decoder \<Rightarrow> bytes \<Rightarrow> status_decoder \<times> bytes" where
  "feed_payload d input =
    (let count = min (length input) (sd_expected d - sd_payload_bytes d);
         d = d\<lparr>sd_payload := write_at (sd_payload d) (sd_payload_bytes d) (take count input),
               sd_payload_bytes := sd_payload_bytes d + count\<rparr>;
         input = drop count input;
         complete = (sd_payload_bytes d = sd_expected d)
     in if complete \<and> input \<noteq> [] then (d\<lparr>sd_failed := True, sd_complete := False\<rparr>, input)
        else (d\<lparr>sd_complete := complete\<rparr>, input))"

text \<open>One round of the loop: the state and the rest of the input.\<close>

definition feed_round :: "status_decoder \<Rightarrow> bytes \<Rightarrow> status_decoder \<times> bytes" where
  "feed_round d input =
    (if sd_header_bytes d < 4 then
       let count = min (length input) (4 - sd_header_bytes d);
           d = d\<lparr>sd_header := write_at (sd_header d) (sd_header_bytes d) (take count input),
                 sd_header_bytes := sd_header_bytes d + count\<rparr>;
           input = drop count input
       in if sd_header_bytes d \<noteq> 4 then (d, input)
          else let expected = unat (be_value (sd_header d));
                   d = d\<lparr>sd_expected := expected\<rparr>
               in if expected = 0 \<or> expected > maximum_status_request_bytes
                  then (d\<lparr>sd_failed := True\<rparr>, input)
                  else feed_payload d input
     else feed_payload d input)"

text \<open>The loop, with fuel for its rounds; None when it runs out.\<close>

fun feed_loop :: "nat \<Rightarrow> status_decoder \<Rightarrow> bytes \<Rightarrow> status_decoder option" where
  "feed_loop fuel d input =
     (if input = [] \<or> sd_failed d \<or> sd_complete d then Some d
      else case fuel of 0 \<Rightarrow> None
        | Suc fuel' \<Rightarrow> (case feed_round d input of (d', input') \<Rightarrow> feed_loop fuel' d' input'))"

declare feed_loop.simps [simp del]

definition feed :: "status_decoder \<Rightarrow> bytes \<Rightarrow> (status_decoder \<times> bool) option" where
  "feed d input =
     (if sd_failed d \<or> sd_complete d then Some (d\<lparr>sd_failed := True\<rparr>, False)
      else case feed_loop (Suc (length input)) d input of
             None \<Rightarrow> None
           | Some d' \<Rightarrow> Some (d', \<not> sd_failed d'))"

text \<open>The JSON library: parsing throws on malformed text; \<open>value\<close> throws on a value of another type.\<close>

record 'j json =
  js_parse :: "bytes \<Rightarrow> 'j result"
  js_is_object :: "'j \<Rightarrow> bool"
  js_size :: "'j \<Rightarrow> nat"
  js_value_int :: "'j \<Rightarrow> string \<Rightarrow> int \<Rightarrow> int result"
  js_value_string :: "'j \<Rightarrow> string \<Rightarrow> string \<Rightarrow> string result"

definition unsupported_request :: exn where
  "unsupported_request = Invalid_argument ''unsupported status request''"

definition take_request :: "'j json \<Rightarrow> status_decoder \<Rightarrow> ('j \<times> status_decoder) result" where
  "take_request J d =
     ensure (sd_complete d \<and> \<not> sd_failed d) (Logic_error ''status request is incomplete'')
      (ebind (js_parse J (take (sd_payload_bytes d) (sd_payload d))) (\<lambda>request.
       ensure (js_is_object J request \<and> js_size J request = 2) unsupported_request
      (ebind (js_value_int J request ''version'' 0) (\<lambda>v.
       ensure (v = 1) unsupported_request
      (ebind (js_value_string J request ''operation'' []) (\<lambda>operation.
       ensure (operation = ''get_status'') unsupported_request
         (Inr (request, d\<lparr>sd_complete := False\<rparr>))))))))"

section \<open>The response\<close>

text \<open>\<open>payload\<close> is the text \<open>response.dump()\<close> returns.\<close>

definition encode_status_response :: "bytes \<Rightarrow> bytes result" where
  "encode_status_response payload =
     (if payload = [] \<or> length payload > maximum_status_response_bytes
      then Inl (Length_error ''status response exceeds configured bound'')
      else Inr (map (\<lambda>index. be_byte (of_nat (length payload)) 4 index) [0..<4] @ payload))"

section \<open>The control slot\<close>

record control_slot =
  cs_next_generation :: u64
  cs_active_generation :: "u64 option"
  cs_last_liveness :: nanos

definition new_slot :: control_slot where
  "new_slot = \<lparr>cs_next_generation = 1, cs_active_generation = None, cs_last_liveness = 0\<rparr>"

definition acquire :: "control_slot \<Rightarrow> nanos \<Rightarrow> control_slot \<times> u64 option" where
  "acquire s now =
     (if cs_active_generation s \<noteq> None \<or> cs_next_generation s = 0 then (s, None)
      else (\<lparr>cs_next_generation = cs_next_generation s + 1,
             cs_active_generation = Some (cs_next_generation s), cs_last_liveness = now\<rparr>,
            Some (cs_next_generation s)))"

definition observe_liveness :: "control_slot \<Rightarrow> u64 \<Rightarrow> nanos \<Rightarrow> control_slot \<times> bool" where
  "observe_liveness s generation now =
     (if cs_active_generation s \<noteq> Some generation \<or> now < cs_last_liveness s then (s, False)
      else (s\<lparr>cs_last_liveness := now\<rparr>, True))"

definition release :: "control_slot \<Rightarrow> u64 \<Rightarrow> control_slot \<times> bool" where
  "release s generation =
     (if cs_active_generation s \<noteq> Some generation then (s, False)
      else (s\<lparr>cs_active_generation := None\<rparr>, True))"

definition release_if_stale :: "control_slot \<Rightarrow> nanos \<Rightarrow> nanos \<Rightarrow> control_slot \<times> bool" where
  "release_if_stale s now timeout =
     (if cs_active_generation s = None \<or> now < cs_last_liveness s \<or> now - cs_last_liveness s < timeout
      then (s, False)
      else (s\<lparr>cs_active_generation := None\<rparr>, True))"

definition snapshot :: "control_slot \<Rightarrow> bool \<times> u64 option" where
  "snapshot s = (cs_active_generation s \<noteq> None, cs_active_generation s)"

section \<open>Serving one request\<close>

text \<open>
  The connection as the transaction sees it: what each call of \<open>recv\<close> and \<open>send\<close> does.
  A step waits for the descriptor first; \<open>None\<close> is a wait that timed out or a call that
  failed or found the connection closed. \<open>recv\<close> delivers at most 256 bytes and \<open>send\<close>
  takes at least one byte and at most those offered.
\<close>

record connection =
  cn_received :: "bytes option list"
  cn_accepted :: "nat option list"

fun receive_request :: "status_decoder \<Rightarrow> bytes option list \<Rightarrow> status_decoder option" where
  "receive_request d script =
     (if sd_complete d then Some d
      else case script of
             [] \<Rightarrow> None
           | received # rest \<Rightarrow>
               (case received of
                  None \<Rightarrow> None
                | Some chunk \<Rightarrow>
                    if take 256 chunk = [] then None
                    else (case feed d (take 256 chunk) of
                           None \<Rightarrow> None
                         | Some r \<Rightarrow> if snd r then receive_request (fst r) rest else None)))"

declare receive_request.simps [simp del]

fun send_response :: "bytes \<Rightarrow> nat \<Rightarrow> nat option list \<Rightarrow> nat \<times> bool" where
  "send_response response offset script =
     (if offset \<ge> length response then (offset, True)
      else case script of
             [] \<Rightarrow> (offset, False)
           | accepted # rest \<Rightarrow>
               (case accepted of
                  None \<Rightarrow> (offset, False)
                | Some count \<Rightarrow>
                    if count = 0 then (offset, False)
                    else send_response response (offset + min count (length response - offset)) rest))"

declare send_response.simps [simp del]

text \<open>The bytes the peer is sent, and the result.\<close>

definition serve_status_transaction :: "'j json \<Rightarrow> bytes \<Rightarrow> connection \<Rightarrow> bytes \<times> bool" where
  "serve_status_transaction J status c =
     (case receive_request new_decoder (cn_received c) of
        None \<Rightarrow> ([], False)
      | Some d \<Rightarrow>
          (case take_request J d of
             Inl _ \<Rightarrow> ([], False)
           | Inr _ \<Rightarrow>
               (case encode_status_response status of
                  Inl _ \<Rightarrow> ([], False)
                | Inr response \<Rightarrow>
                    (case send_response response 0 (cn_accepted c) of
                       (sent, ok) \<Rightarrow> (take sent response, ok)))))"

section \<open>Parsers of a byte stream that comes in pieces\<close>

text \<open>
  A parser that is fed the pieces of a byte stream implements a function of the whole
  stream when its state after every non-empty piece represents the bytes so far.
  What it reports is then independent of how the stream was cut.
\<close>

locale fragment_parser =
  fixes feed1 :: "'s \<Rightarrow> 'b list \<Rightarrow> 's"
    and start :: 's
    and represents :: "'s \<Rightarrow> 'b list \<Rightarrow> bool"
    and report :: "'s \<Rightarrow> 'v"
    and spec :: "'b list \<Rightarrow> 'v"
  assumes start_represents: "represents start []"
    and feed_represents: "represents s bs \<Longrightarrow> c \<noteq> [] \<Longrightarrow> represents (feed1 s c) (bs @ c)"
    and report_spec: "represents s bs \<Longrightarrow> report s = spec bs"
begin

lemma run_represents: "represents s bs \<Longrightarrow> \<forall>c \<in> set cs. c \<noteq> [] \<Longrightarrow> represents (foldl feed1 s cs) (bs @ concat cs)"
proof (induction cs arbitrary: s bs)
  case Nil
  then show ?case by simp
next
  case (Cons c cs)
  then have "represents (feed1 s c) (bs @ c)" by (intro feed_represents) simp_all
  from Cons.IH [OF this] Cons.prems show ?case by simp
qed

lemma run_report: "\<forall>c \<in> set cs. c \<noteq> [] \<Longrightarrow> report (foldl feed1 start cs) = spec (concat cs)"
  using run_represents [OF start_represents, of cs] by (auto dest: report_spec)

lemma fragmentation_independent:
  "\<forall>c \<in> set cs. c \<noteq> [] \<Longrightarrow> \<forall>c \<in> set ds. c \<noteq> [] \<Longrightarrow> concat cs = concat ds \<Longrightarrow>
     report (foldl feed1 start cs) = report (foldl feed1 start ds)"
  by (simp add: run_report)

end

section \<open>The decoder implements the frame format\<close>

datatype decoded = Partial | Complete bytes | Failed

text \<open>The specification: four bytes of length, between 1 and 1024, and that many bytes.\<close>

definition frame_spec :: "bytes \<Rightarrow> decoded" where
  "frame_spec bs =
     (if length bs < 4 then Partial
      else let n = unat (be_value (take 4 bs)) in
        if n = 0 \<or> n > maximum_status_request_bytes then Failed
        else if length bs < 4 + n then Partial
        else if length bs = 4 + n then Complete (drop 4 bs)
        else Failed)"

definition decoder_report :: "status_decoder \<Rightarrow> decoded" where
  "decoder_report d = (if sd_failed d then Failed
     else if sd_complete d then Complete (take (sd_payload_bytes d) (sd_payload d)) else Partial)"

text \<open>A decoder that has not failed holds the bytes it was fed.\<close>

definition holds :: "status_decoder \<Rightarrow> bytes \<Rightarrow> bool" where
  "holds d bs \<longleftrightarrow> length (sd_header d) = 4 \<and> length (sd_payload d) = maximum_status_request_bytes \<and>
     sd_header_bytes d = min 4 (length bs) \<and> sd_payload_bytes d = length bs - 4 \<and>
     take (sd_header_bytes d) (sd_header d) = take 4 bs \<and>
     take (sd_payload_bytes d) (sd_payload d) = drop 4 bs \<and>
     (4 \<le> length bs \<longrightarrow> sd_expected d = unat (be_value (take 4 bs)) \<and> 0 < sd_expected d \<and>
        sd_expected d \<le> maximum_status_request_bytes \<and> sd_payload_bytes d \<le> sd_expected d \<and>
        (sd_complete d \<longleftrightarrow> sd_payload_bytes d = sd_expected d)) \<and>
     (length bs < 4 \<longrightarrow> \<not> sd_complete d)"

definition represents :: "status_decoder \<Rightarrow> bytes \<Rightarrow> bool" where
  "represents d bs \<longleftrightarrow> (if frame_spec bs = Failed then sd_failed d else \<not> sd_failed d \<and> holds d bs)"

lemma take_write_at: "off \<le> length out \<Longrightarrow> off + length bs \<le> length out \<Longrightarrow>
    take (off + length bs) (write_at out off bs) = take off out @ bs"
  by (simp add: write_at_def)

lemma represents_report: "represents d bs \<Longrightarrow> decoder_report d = frame_spec bs"
proof -
  assume r: "represents d bs"
  show ?thesis
  proof (cases "frame_spec bs = Failed")
    case True
    with r show ?thesis by (simp add: represents_def decoder_report_def)
  next
    case False
    with r have h: "holds d bs" and nf: "\<not> sd_failed d" by (simp_all add: represents_def)
    show ?thesis
    proof (cases "length bs < 4")
      case True
      with h nf show ?thesis by (simp add: decoder_report_def frame_spec_def holds_def)
    next
      case len: False
      define n where "n = unat (be_value (take 4 bs))"
      have e: "0 < n" "n \<le> maximum_status_request_bytes" "length bs - 4 \<le> n" "sd_complete d \<longleftrightarrow> length bs - 4 = n"
        "take (sd_payload_bytes d) (sd_payload d) = drop 4 bs"
        using h len unfolding holds_def n_def by auto
      then have "frame_spec bs = (if length bs - 4 = n then Complete (drop 4 bs) else Partial)"
        using len by (simp add: frame_spec_def Let_def n_def [symmetric]) linarith
      with e nf show ?thesis by (simp add: decoder_report_def)
    qed
  qed
qed

lemma frame_spec_failed: "frame_spec bs = Failed \<Longrightarrow> frame_spec (bs @ c) = Failed"
  by (auto simp: frame_spec_def Let_def split: if_splits)

lemma frame_spec_complete: "frame_spec bs = Complete p \<Longrightarrow> c \<noteq> [] \<Longrightarrow> frame_spec (bs @ c) = Failed"
  by (auto simp: frame_spec_def Let_def split: if_splits)

lemma feed_payload_holds:
  assumes h: "holds d bs" and len: "4 \<le> length bs" and nc: "\<not> sd_complete d" and nf: "\<not> sd_failed d"
  shows "\<exists>d' rest. feed_payload d c = (d', rest) \<and> represents d' (bs @ c) \<and> (rest = [] \<or> sd_failed d')"
proof -
  let ?r = "sd_expected d - sd_payload_bytes d" and ?p = "sd_payload_bytes d"
  have p: "?p < sd_expected d" "sd_expected d \<le> 1024" "?p = length bs - 4"
    "length (sd_payload d) = 1024" "sd_expected d = unat (be_value (take 4 bs))" "0 < sd_expected d"
    "take ?p (sd_payload d) = drop 4 bs"
    using h len nc by (auto simp: holds_def maximum_status_request_bytes_def)
  define k where "k = min (length c) ?r"
  define out where "out = write_at (sd_payload d) ?p (take k c)"
  have k: "?p + k \<le> 1024" "k \<le> length c" using p by (auto simp: k_def)
  have lk: "length (take k c) = k" using k by simp
  have out: "length out = 1024" "take (?p + k) out = drop 4 bs @ take k c"
    using take_write_at [of ?p "sd_payload d" "take k c", unfolded lk] length_write_at [of ?p "take k c" "sd_payload d", unfolded lk] k p
    by (simp_all add: out_def)
  show ?thesis
  proof (cases "length c > ?r")
    case True
    then have "k = ?r" by (simp add: k_def)
    moreover have "frame_spec (bs @ c) = Failed"
      using True p len by (auto simp: frame_spec_def Let_def maximum_status_request_bytes_def)
    ultimately show ?thesis using True p
      by (simp add: feed_payload_def Let_def k_def [symmetric] represents_def)
  next
    case False
    then have kc: "k = length c" by (simp add: k_def)
    have "frame_spec (bs @ c) \<noteq> Failed"
      using False p len by (auto simp: frame_spec_def Let_def maximum_status_request_bytes_def)
    moreover have "holds (d\<lparr>sd_payload := out, sd_payload_bytes := ?p + k, sd_complete := (?p + k = sd_expected d)\<rparr>) (bs @ c)"
      using h len p out False kc by (auto simp: holds_def maximum_status_request_bytes_def)
    moreover have "write_at (sd_payload d) ?p c = out" using kc by (simp add: out_def)
    ultimately show ?thesis using nf kc False
      by (simp add: feed_payload_def Let_def k_def [symmetric] represents_def)
  qed
qed

lemma feed_round_represents:
  assumes h: "holds d bs" and nc: "\<not> sd_complete d" and nf: "\<not> sd_failed d" and c: "c \<noteq> []"
  shows "\<exists>d' rest. feed_round d c = (d', rest) \<and> represents d' (bs @ c) \<and> (rest = [] \<or> sd_failed d')"
proof (cases "4 \<le> length bs")
  case True
  then have "sd_header_bytes d = 4" using h by (simp add: holds_def)
  then show ?thesis using feed_payload_holds [OF h True nc nf] by (simp add: feed_round_def)
next
  case False
  let ?hb = "sd_header_bytes d"
  define k where "k = min (length c) (4 - ?hb)"
  define out where "out = write_at (sd_header d) ?hb (take k c)"
  let ?d = "d\<lparr>sd_header := out, sd_header_bytes := ?hb + k\<rparr>"
  have hb: "?hb = length bs" "length (sd_header d) = 4" "take ?hb (sd_header d) = bs"
    "sd_payload_bytes d = 0" "length (sd_payload d) = maximum_status_request_bytes"
    using h False by (auto simp: holds_def)
  have lk: "length (take k c) = k" by (simp add: k_def)
  have k4: "?hb + k \<le> 4" using hb False by (simp add: k_def)
  have out: "length out = 4" "take (?hb + k) out = bs @ take k c"
    using take_write_at [of ?hb "sd_header d" "take k c", unfolded lk] length_write_at [of ?hb "take k c" "sd_header d", unfolded lk] hb k4
    by (simp_all add: out_def)
  show ?thesis
  proof (cases "length bs + length c < 4")
    case True
    then have kc: "k = length c" by (simp add: k_def hb)
    have "holds ?d (bs @ c)"
      using hb out True kc nc by (simp add: holds_def)
    moreover have "frame_spec (bs @ c) = Partial" using True by (simp add: frame_spec_def)
    moreover have "write_at (sd_header d) ?hb c = out" using kc by (simp add: out_def)
    ultimately show ?thesis
      using True kc hb nf False by (simp add: feed_round_def Let_def k_def [symmetric] represents_def)
  next
    case full: False
    then have k: "k = 4 - length bs" "k \<le> length c" using False by (auto simp: k_def hb)
    then have kk: "length bs + k = 4" using False by simp
    define n where "n = unat (be_value out)"
    have o: "out = bs @ take k c" "out = take 4 (bs @ c)" using out kk hb k by simp_all
    let ?e = "?d\<lparr>sd_expected := n\<rparr>"
    have round: "feed_round d c = (if n = 0 \<or> n > maximum_status_request_bytes then (?e\<lparr>sd_failed := True\<rparr>, drop k c)
        else feed_payload ?e (drop k c))"
    proof -
      have lt: "?hb < 4" using False hb by simp
      show ?thesis
        unfolding feed_round_def if_P [OF lt] Let_def k_def [symmetric] out_def [symmetric]
        using hb kk by (simp add: n_def)
    qed
    show ?thesis
    proof (cases "n = 0 \<or> n > maximum_status_request_bytes")
      case True
      moreover have "frame_spec (bs @ c) = Failed"
        using True full by (simp add: frame_spec_def Let_def n_def o(2) [symmetric] del: take_append)
      ultimately show ?thesis by (simp add: round represents_def)
    next
      case ok: False
      have "holds ?e out"
        using hb(2-5) out(1) ok kk nc by (simp add: holds_def n_def hb(1))
      moreover have "4 \<le> length out" "\<not> sd_complete ?e" "\<not> sd_failed ?e" using out nc nf by simp_all
      ultimately obtain d' rest where "feed_payload ?e (drop k c) = (d', rest)" "represents d' (out @ drop k c)"
        "rest = [] \<or> sd_failed d'"
        using feed_payload_holds [of ?e out "drop k c"] by blast
      moreover have "out @ drop k c = bs @ c" unfolding o(1) by simp
      ultimately show ?thesis using ok by (simp add: round)
    qed
  qed
qed

lemma feed_represents:
  assumes r: "represents d bs" and c: "c \<noteq> []"
  shows "\<exists>d'. feed d c = Some (d', \<not> sd_failed d') \<and> represents d' (bs @ c)"
proof (cases "sd_failed d \<or> sd_complete d")
  case True
  then have "frame_spec (bs @ c) = Failed"
    using represents_report [OF r] frame_spec_failed [of bs c] frame_spec_complete [OF _ c, of bs]
    by (cases "frame_spec bs") (auto simp: decoder_report_def split: if_splits)
  with True show ?thesis by (simp add: feed_def represents_def)
next
  case False
  then have "holds d bs" using r by (auto simp: represents_def split: if_splits)
  from feed_round_represents [OF this _ _ c] False obtain d' rest where
    d': "feed_round d c = (d', rest)" "represents d' (bs @ c)" "rest = [] \<or> sd_failed d'" by auto
  have "feed_loop (length c) d' rest = Some d'"
    using d'(3) by (subst feed_loop.simps) auto
  then have "feed_loop (Suc (length c)) d c = Some d'"
    using False c d'(1) by (subst feed_loop.simps) simp
  with False d'(2) show ?thesis by (simp add: feed_def)
qed

definition feed_state :: "status_decoder \<Rightarrow> bytes \<Rightarrow> status_decoder" where
  "feed_state d c = (case feed d c of None \<Rightarrow> d | Some (d', _) \<Rightarrow> d')"

lemma new_decoder_represents: "represents new_decoder []"
  by (simp add: represents_def frame_spec_def holds_def new_decoder_def)

interpretation status_request: fragment_parser feed_state new_decoder represents decoder_report frame_spec
proof
  show "represents new_decoder []" by (rule new_decoder_represents)
  show "represents (feed_state s c) (bs @ c)" if "represents s bs" "c \<noteq> []" for s bs c
    using feed_represents [OF that] by (auto simp: feed_state_def)
  show "decoder_report s = frame_spec bs" if "represents s bs" for s bs
    using that by (rule represents_report)
qed

section \<open>The request\<close>

text \<open>C18. However the bytes of a connection are cut into non-empty pieces, the decoder reports the frame
  format's view of all of them: incomplete, the payload of the one complete frame, or failed
  (a length of zero or above 1024, or a byte after the frame). Every call of \<open>feed\<close>
  returns, with true exactly when the decoder has not failed.\<close>

theorem status_request_pieces:
  assumes "\<forall>c \<in> set cs. c \<noteq> []" and "c \<noteq> []"
  shows "decoder_report (foldl feed_state new_decoder cs) = frame_spec (concat cs) \<and>
    (\<exists>d ok. feed (foldl feed_state new_decoder cs) c = Some (d, ok) \<and>
       (ok \<longleftrightarrow> frame_spec (concat cs @ c) \<noteq> Failed))"
proof -
  have r: "represents (foldl feed_state new_decoder cs) (concat cs)"
    using status_request.run_represents [OF new_decoder_represents assms(1)] by simp
  from feed_represents [OF r assms(2)] obtain d where
    "feed (foldl feed_state new_decoder cs) c = Some (d, \<not> sd_failed d)" "represents d (concat cs @ c)" by blast
  then show ?thesis
    using represents_report [OF r] by (auto simp: represents_def split: if_splits)
qed

text \<open>A frame as a client sends it.\<close>

definition request_frame :: "bytes \<Rightarrow> bytes" where
  "request_frame p = be_bytes 4 (of_nat (length p)) @ p"

lemma of_nat_4096: "n \<le> 4096 \<Longrightarrow> unat (of_nat n :: u64) = n"
  by (simp add: unat_of_nat)

lemma length_prefix: "length p \<le> 4096 \<Longrightarrow> unat (be_value (be_bytes 4 (of_nat (length p)))) = length p"
  using be_value_exact [of "of_nat (length p)" 4] by (simp add: of_nat_4096)

lemma frame_spec_request:
  "0 < length p \<Longrightarrow> length p \<le> maximum_status_request_bytes \<Longrightarrow> frame_spec (request_frame p) = Complete p"
  by (simp add: frame_spec_def request_frame_def Let_def length_prefix maximum_status_request_bytes_def)

lemma frame_spec_Complete:
  assumes "frame_spec bs = Complete p"
  shows "bs = request_frame p \<and> 0 < length p \<and> length p \<le> maximum_status_request_bytes"
proof -
  define n where "n = unat (be_value (take 4 bs))"
  have n: "4 \<le> length bs" "0 < n" "n \<le> maximum_status_request_bytes" "length bs = 4 + n" "p = drop 4 bs"
    using assms by (auto simp: frame_spec_def Let_def n_def split: if_splits)
  have "of_nat n = be_value (take 4 bs)" by (simp add: n_def)
  then have "be_bytes 4 (of_nat n) = take 4 bs"
    using be_bytes_be_value [of "take 4 bs"] n by simp
  with n show ?thesis by (simp add: request_frame_def)
qed

text \<open>The decoder completes exactly on the frames of payloads of 1 to 1024 bytes, with that payload.\<close>

lemma status_request_roundtrip:
  assumes "\<forall>c \<in> set cs. c \<noteq> []"
  shows "decoder_report (foldl feed_state new_decoder cs) = Complete p \<longleftrightarrow>
    concat cs = be_bytes 4 (of_nat (length p)) @ p \<and> 1 \<le> length p \<and> length p \<le> 1024"
proof
  assume "decoder_report (foldl feed_state new_decoder cs) = Complete p"
  then have "frame_spec (concat cs) = Complete p" by (simp only: status_request.run_report [OF assms])
  from frame_spec_Complete [OF this]
  show "concat cs = be_bytes 4 (of_nat (length p)) @ p \<and> 1 \<le> length p \<and> length p \<le> 1024"
    by (simp only: request_frame_def maximum_status_request_bytes_def Suc_le_eq One_nat_def)
next
  assume p: "concat cs = be_bytes 4 (of_nat (length p)) @ p \<and> 1 \<le> length p \<and> length p \<le> 1024"
  then have "frame_spec (request_frame p) = Complete p"
    by (intro frame_spec_request) (auto simp: maximum_status_request_bytes_def)
  with p show "decoder_report (foldl feed_state new_decoder cs) = Complete p"
    by (simp only: status_request.run_report [OF assms] request_frame_def)
qed

section \<open>The response and the transaction\<close>

lemma encode_status_response_Inr:
  "encode_status_response p = Inr w \<longleftrightarrow> w = be_bytes 4 (of_nat (length p)) @ p \<and> p \<noteq> [] \<and> length p \<le> 4096"
  by (auto simp: encode_status_response_def be_bytes_def maximum_status_response_bytes_def)

text \<open>
  The connection delivers \<open>p\<close> when some first of its calls of \<open>recv\<close> all succeed with bytes,
  and the bytes they deliver, at most 256 each, are one frame with that payload and nothing after it.
\<close>

definition delivered_after :: "bytes \<Rightarrow> bytes option list \<Rightarrow> bytes \<Rightarrow> bool" where
  "delivered_after bs script p \<longleftrightarrow>
     (\<exists>n \<le> length script. (\<forall>received \<in> set (take n script). \<exists>chunk. received = Some chunk \<and> chunk \<noteq> []) \<and>
        frame_spec (bs @ concat (map (\<lambda>received. take 256 (the received)) (take n script))) = Complete p)"

lemma delivered_after_Nil: "delivered_after bs [] p \<longleftrightarrow> frame_spec bs = Complete p"
  by (simp add: delivered_after_def)

lemma delivered_after_Cons:
  "delivered_after bs (received # script) p \<longleftrightarrow> frame_spec bs = Complete p \<or>
     (\<exists>chunk. received = Some chunk \<and> chunk \<noteq> [] \<and> delivered_after (bs @ take 256 chunk) script p)"
proof
  assume "delivered_after bs (received # script) p"
  then obtain n where n: "n \<le> Suc (length script)" "\<forall>r \<in> set (take n (received # script)). \<exists>chunk. r = Some chunk \<and> chunk \<noteq> []"
    "frame_spec (bs @ concat (map (\<lambda>r. take 256 (the r)) (take n (received # script)))) = Complete p"
    by (auto simp: delivered_after_def)
  show "frame_spec bs = Complete p \<or>
     (\<exists>chunk. received = Some chunk \<and> chunk \<noteq> [] \<and> delivered_after (bs @ take 256 chunk) script p)"
  proof (cases n)
    case 0
    with n(3) show ?thesis by simp
  next
    case (Suc m)
    with n obtain chunk where "received = Some chunk" "chunk \<noteq> []" by auto
    with n Suc show ?thesis by (auto simp: delivered_after_def)
  qed
next
  assume "frame_spec bs = Complete p \<or>
     (\<exists>chunk. received = Some chunk \<and> chunk \<noteq> [] \<and> delivered_after (bs @ take 256 chunk) script p)"
  then show "delivered_after bs (received # script) p"
  proof (elim disjE exE conjE)
    assume "frame_spec bs = Complete p"
    then show ?thesis unfolding delivered_after_def by (intro exI [of _ 0]) simp
  next
    fix chunk assume c: "received = Some chunk" "chunk \<noteq> []" "delivered_after (bs @ take 256 chunk) script p"
    then obtain n where "n \<le> length script" "\<forall>r \<in> set (take n script). \<exists>chunk. r = Some chunk \<and> chunk \<noteq> []"
      "frame_spec ((bs @ take 256 chunk) @ concat (map (\<lambda>r. take 256 (the r)) (take n script))) = Complete p"
      by (auto simp: delivered_after_def)
    with c show ?thesis unfolding delivered_after_def by (intro exI [of _ "Suc n"]) simp
  qed
qed

lemma delivered_after_Failed: "frame_spec bs = Failed \<Longrightarrow> \<not> delivered_after bs script p"
  by (auto simp: delivered_after_def frame_spec_failed)

lemma delivered_after_Complete: "frame_spec bs = Complete p \<Longrightarrow> delivered_after bs script q \<longleftrightarrow> q = p"
proof (cases script)
  case (Cons received rest)
  assume c: "frame_spec bs = Complete p"
  have "\<not> delivered_after (bs @ take 256 chunk) rest q" if "chunk \<noteq> []" for chunk
    by (rule delivered_after_Failed [OF frame_spec_complete [OF c]]) (use that in simp)
  with c show ?thesis unfolding Cons delivered_after_Cons by auto
qed (auto simp: delivered_after_Nil)

lemma receive_request_delivered:
  "represents d bs \<Longrightarrow> \<not> sd_failed d \<Longrightarrow>
   (case receive_request d script of None \<Rightarrow> \<forall>p. \<not> delivered_after bs script p
    | Some d' \<Rightarrow> sd_complete d' \<and> \<not> sd_failed d' \<and>
        (\<forall>p. delivered_after bs script p \<longleftrightarrow> p = take (sd_payload_bytes d') (sd_payload d')))"
proof (induction script arbitrary: d bs)
  case Nil
  then show ?case using represents_report [of d bs]
    by (auto simp: receive_request.simps [of d "[]"] delivered_after_Nil decoder_report_def)
next
  case (Cons received script)
  note report = represents_report [OF Cons.prems(1)]
  show ?case
  proof (cases "sd_complete d")
    case True
    then have "frame_spec bs = Complete (take (sd_payload_bytes d) (sd_payload d))"
      using report Cons.prems(2) by (simp add: decoder_report_def)
    with True Cons.prems(2) show ?thesis
      by (auto simp: receive_request.simps [of d "received # script"] delivered_after_Complete)
  next
    case False
    then have partial: "frame_spec bs = Partial" using report Cons.prems(2) by (simp add: decoder_report_def)
    show ?thesis
    proof (cases "\<exists>chunk. received = Some chunk \<and> chunk \<noteq> []")
      case no: False
      then show ?thesis using False partial
        by (auto simp: receive_request.simps [of d "received # script"] delivered_after_Cons split: option.splits)
    next
      case True
      then obtain chunk where r: "received = Some chunk" "chunk \<noteq> []" by blast
      then have ne: "take 256 chunk \<noteq> []" by simp
      from feed_represents [OF Cons.prems(1) ne] obtain d\<^sub>1 where
        d: "feed d (take 256 chunk) = Some (d\<^sub>1, \<not> sd_failed d\<^sub>1)" "represents d\<^sub>1 (bs @ take 256 chunk)" by blast
      have step: "delivered_after bs (received # script) p \<longleftrightarrow> delivered_after (bs @ take 256 chunk) script p" for p
        using partial r by (simp add: delivered_after_Cons)
      show ?thesis
      proof (cases "sd_failed d\<^sub>1")
        case True
        then have "frame_spec (bs @ take 256 chunk) = Failed"
          using represents_report [OF d(2)] by (simp add: decoder_report_def)
        then have "\<not> delivered_after bs (received # script) p" for p using step delivered_after_Failed by blast
        moreover have "receive_request d (received # script) = None"
          using True False r ne d(1) by (simp add: receive_request.simps [of d "Some chunk # script"])
        ultimately show ?thesis by simp
      next
        case ok: False
        have "receive_request d (received # script) = receive_request d\<^sub>1 script"
          using ok False r ne d(1) by (simp add: receive_request.simps [of d "Some chunk # script"])
        with Cons.IH [OF d(2) ok] show ?thesis by (simp add: step split: option.splits)
      qed
    qed
  qed
qed

text \<open>What the first calls of \<open>send\<close> take that do not fail.\<close>

definition taken :: "nat option list \<Rightarrow> nat" where
  "taken script = sum_list (map the (takeWhile (\<lambda>a. a \<noteq> None \<and> a \<noteq> Some 0) script))"

lemma send_response_taken:
  "off \<le> length w \<Longrightarrow> send_response w off script = (min (length w) (off + taken script), length w \<le> off + taken script)"
proof (induction script arbitrary: off)
  case Nil
  then show ?case by (simp add: send_response.simps [of w off "[]"] taken_def)
next
  case (Cons a script)
  show ?case
  proof (cases "off < length w \<and> a \<noteq> None \<and> a \<noteq> Some 0")
    case True
    then obtain n where n: "a = Some n" "n \<noteq> 0" by auto
    let ?off = "off + min n (length w - off)"
    have "send_response w off (a # script) = send_response w ?off script"
      using True n by (simp add: send_response.simps [of w off "Some n # script"])
    also have "\<dots> = (min (length w) (?off + taken script), length w \<le> ?off + taken script)"
      by (rule Cons.IH) (use True in \<open>auto simp: min_def\<close>)
    also have "\<dots> = (min (length w) (off + taken (a # script)), length w \<le> off + taken (a # script))"
      using n by (auto simp: taken_def min_def)
    finally show ?thesis .
  next
    case False
    with Cons.prems show ?thesis
      by (auto simp: send_response.simps [of w off "a # script"] taken_def split: option.splits)
  qed
qed

text \<open>A request that asks for the status: version 1 and the operation, and nothing else.\<close>

definition asks_for_status :: "'j json \<Rightarrow> bytes \<Rightarrow> bool" where
  "asks_for_status J p \<longleftrightarrow> (\<exists>request. js_parse J p = Inr request \<and> js_is_object J request \<and> js_size J request = 2 \<and>
     js_value_int J request ''version'' 0 = Inr 1 \<and> js_value_string J request ''operation'' [] = Inr ''get_status'')"

lemma take_request_asks:
  "sd_complete d \<Longrightarrow> \<not> sd_failed d \<Longrightarrow>
     (\<exists>r. take_request J d = Inr r) \<longleftrightarrow> asks_for_status J (take (sd_payload_bytes d) (sd_payload d))"
  by (auto simp: take_request_def asks_for_status_def ebind_eq_Inr)

text \<open>C35. What the transaction sends is determined by what it received: when the bytes of the connection's reads
  are exactly one complete frame, without a byte after it in the read that completes it, whose payload parses to
  an object of exactly the version 1 and the operation \<open>get_status\<close>, and the status has between 1
  and 4096 bytes, it sends of the length-prefixed status as many bytes as the socket takes, and reports success
  exactly when that is all of them. In every other case it sends nothing and fails.\<close>

theorem status_transaction:
  "serve_status_transaction J status c =
    (if (\<exists>p. delivered_after [] (cn_received c) p \<and> asks_for_status J p) \<and> status \<noteq> [] \<and> length status \<le> 4096
     then (take (taken (cn_accepted c)) (be_bytes 4 (of_nat (length status)) @ status), 4 + length status \<le> taken (cn_accepted c))
     else ([], False))"
proof (cases "receive_request new_decoder (cn_received c)")
  case None
  then show ?thesis using receive_request_delivered [OF new_decoder_represents, of "cn_received c"]
    by (simp add: serve_status_transaction_def new_decoder_def)
next
  case (Some d)
  then have d: "sd_complete d" "\<not> sd_failed d"
    "\<And>p. delivered_after [] (cn_received c) p \<longleftrightarrow> p = take (sd_payload_bytes d) (sd_payload d)"
    using receive_request_delivered [OF new_decoder_represents, of "cn_received c"] by (simp_all add: new_decoder_def)
  note asks = take_request_asks [OF d(1,2), of J]
  show ?thesis
  proof (cases "asks_for_status J (take (sd_payload_bytes d) (sd_payload d)) \<and> status \<noteq> [] \<and> length status \<le> 4096")
    case True
    then obtain r where r: "take_request J d = Inr r" using asks by blast
    let ?w = "be_bytes 4 (of_nat (length status)) @ status"
    have w: "encode_status_response status = Inr ?w" using True by (simp add: encode_status_response_Inr)
    have l: "length ?w = 4 + length status" by simp
    have s: "send_response ?w 0 (cn_accepted c) = (min (length ?w) (taken (cn_accepted c)), length ?w \<le> taken (cn_accepted c))"
      using send_response_taken [of 0 ?w "cn_accepted c"] by simp
    show ?thesis using True
      by (simp add: serve_status_transaction_def Some r w s d(3) del: length_append append_assoc take_append) (simp add: min_def)
  next
    case False
    then have "take_request J d = Inr r \<Longrightarrow> \<exists>e. encode_status_response status = Inl e" for r
      using asks by (cases "encode_status_response status") (auto simp: encode_status_response_Inr)
    with False show ?thesis
      by (auto simp: serve_status_transaction_def Some d(3) split: sum.splits)
  qed
qed

section \<open>The control slot\<close>

text \<open>
  A slot with one owner: it is claimed only when free, a claim that fails changes nothing,
  and it is released by naming its owner.
\<close>

locale exclusive_slot =
  fixes owner :: "'s \<Rightarrow> 'g option"
    and claim :: "'s \<Rightarrow> 't \<Rightarrow> 's \<times> 'g option"
    and free :: "'s \<Rightarrow> 'g \<Rightarrow> 's \<times> bool"
  assumes claim_Some: "claim s t = (s', Some g) \<Longrightarrow> owner s = None \<and> owner s' = Some g"
    and claim_None: "claim s t = (s', None) \<Longrightarrow> s' = s"
    and free_owner: "owner s = Some g \<Longrightarrow> \<exists>s'. free s g = (s', True) \<and> owner s' = None"
    and free_other: "owner s \<noteq> Some g \<Longrightarrow> free s g = (s, False)"
begin

lemma held: "owner s = Some g \<Longrightarrow> claim s t = (s, None)"
  using claim_Some claim_None by (metis option.distinct(1) option.exhaust prod.exhaust)

lemma claim_free: "claim s t = (s', Some g) \<Longrightarrow> \<exists>s''. free s' g = (s'', True) \<and> owner s'' = None"
  using claim_Some free_owner by blast

lemma stale_free: "claim s t = (s', Some g) \<Longrightarrow> g' \<noteq> g \<Longrightarrow> free s' g' = (s', False)"
  using claim_Some free_other by (metis option.inject)

end

interpretation slot: exclusive_slot cs_active_generation acquire release
  by unfold_locales (auto simp: acquire_def release_def split: if_splits)

datatype slot_event = Acquire nanos | Observe u64 nanos | Release u64 | Release_if_stale nanos nanos

fun slot_step :: "control_slot \<Rightarrow> slot_event \<Rightarrow> control_slot" where
  "slot_step s (Acquire now) = fst (acquire s now)"
| "slot_step s (Observe g now) = fst (observe_liveness s g now)"
| "slot_step s (Release g) = fst (release s g)"
| "slot_step s (Release_if_stale now timeout) = fst (release_if_stale s now timeout)"

text \<open>The generations a sequence of events acquires, in order.\<close>

fun acquired :: "control_slot \<Rightarrow> slot_event list \<Rightarrow> u64 list" where
  "acquired s [] = []"
| "acquired s (e # es) =
     (case e of Acquire now \<Rightarrow> (case snd (acquire s now) of None \<Rightarrow> [] | Some g \<Rightarrow> [g]) | _ \<Rightarrow> []) @
     acquired (slot_step s e) es"

definition generations :: "control_slot \<Rightarrow> nat" where
  "generations s = (if cs_next_generation s = 0 then 2 ^ 64 else unat (cs_next_generation s))"

definition slot_ok :: "control_slot \<Rightarrow> bool" where
  "slot_ok s \<longleftrightarrow> (case cs_active_generation s of None \<Rightarrow> True | Some g \<Rightarrow> 0 < unat g \<and> unat g < generations s)"

lemma generations_acquire:
  "acquire s now = (s', Some g) \<Longrightarrow> unat g = generations s \<and> generations s' = Suc (generations s) \<and> slot_ok s'"
proof -
  assume a: "acquire s now = (s', Some g)"
  then have g: "cs_next_generation s \<noteq> 0" "g = cs_next_generation s" "cs_next_generation s' = g + 1" "cs_active_generation s' = Some g"
    by (auto simp: acquire_def split: if_splits)
  have S: "unat (g + 1) = Suc (unat g) mod 2 ^ 64" by (simp add: unat_word_ariths)
  have zero: "g + 1 = 0 \<longleftrightarrow> unat (g + 1) = 0" by (simp only: unsigned_eq_0_iff)
  have le: "Suc (unat g) \<le> 2 ^ 64" by (rule Suc_leI) simp
  have "generations s' = Suc (unat g)"
  proof (cases "Suc (unat g) = 2 ^ 64")
    case True
    then have "unat (g + 1) = 0" unfolding S by simp
    then show ?thesis using True g(3) zero by (simp add: generations_def)
  next
    case False
    then have "unat (g + 1) = Suc (unat g)" unfolding S using le by simp
    then show ?thesis using g(3) zero by (simp add: generations_def)
  qed
  moreover have "0 < unat g" using g by (simp add: unat_gt_0)
  ultimately show ?thesis using g by (simp add: generations_def slot_ok_def)
qed

lemma slot_step_ok: "slot_ok s \<Longrightarrow> slot_ok (slot_step s e) \<and> generations s \<le> generations (slot_step s e)"
proof (cases e)
  case (Acquire now)
  assume ok: "slot_ok s"
  obtain s' r where a: "acquire s now = (s', r)" by (cases "acquire s now")
  show ?thesis
  proof (cases r)
    case None
    with a slot.claim_None [of s now s'] ok show ?thesis by (simp add: Acquire)
  next
    case (Some g)
    with a generations_acquire [of s now s' g] show ?thesis by (simp add: Acquire)
  qed
qed (auto simp: slot_ok_def generations_def observe_liveness_def release_def release_if_stale_def split: option.splits)

interpretation slot_system: monotone_system slot_step slot_ok generations
  by unfold_locales (auto dest: slot_step_ok)

lemma acquired_sorted:
  "slot_ok s \<Longrightarrow> sorted_wrt (<) (map unat (acquired s es)) \<and> (\<forall>g \<in> set (acquired s es). generations s \<le> unat g)"
proof (induction es arbitrary: s)
  case Nil
  then show ?case by simp
next
  case (Cons e es)
  have ok: "slot_ok (slot_step s e)" "generations s \<le> generations (slot_step s e)"
    using slot_step_ok [OF Cons.prems] by auto
  note IH = Cons.IH [OF ok(1)]
  show ?case
  proof (cases "\<exists>now s' g. e = Acquire now \<and> acquire s now = (s', Some g)")
    case True
    then obtain now s' g where e: "e = Acquire now" "acquire s now = (s', Some g)" by blast
    with generations_acquire [OF e(2)] IH ok show ?thesis by fastforce
  next
    case False
    then have "acquired s (e # es) = acquired (slot_step s e) es"
    proof -
      have "snd (acquire s now) = None" if "e = Acquire now" for now
        using False that by (cases "acquire s now"; cases "snd (acquire s now)") auto
      then show ?thesis by (cases e) auto
    qed
    with IH ok show ?thesis by auto
  qed
qed

text \<open>Over any sequence of acquisitions, observations and releases, the generations handed out are
  strictly increasing, so no generation is ever given to two controllers; when the counter has
  wrapped, no more are given.\<close>

lemma slot_generations_increase:
  "sorted_wrt (<) (map unat (acquired new_slot es)) \<and>
   generations new_slot \<le> generations (foldl slot_step new_slot es) \<and>
   (cs_next_generation s = 0 \<longrightarrow> snd (acquire s now) = None)"
proof -
  have "slot_ok new_slot" by (simp add: slot_ok_def new_slot_def)
  then show ?thesis using acquired_sorted slot_system.run_mono by (auto simp: acquire_def)
qed

text \<open>The owner of the slot loses it only by a release that names its generation, or by a staleness
  check that finds its last observation at least the timeout ago; until then every acquisition
  fails and every release that names another generation does nothing.\<close>

lemma slot_owner_kept:
  assumes "cs_active_generation s = Some g"
  shows "(cs_active_generation (slot_step s e) = Some g \<or> e = Release g \<or>
      (\<exists>now timeout. e = Release_if_stale now timeout \<and> cs_last_liveness s + timeout \<le> now)) \<and>
    (\<forall>now. acquire s now = (s, None)) \<and> (\<forall>g'. g' \<noteq> g \<longrightarrow> release s g' = (s, False))"
proof -
  have "cs_active_generation (slot_step s e) = Some g \<or> e = Release g \<or>
      (\<exists>now timeout. e = Release_if_stale now timeout \<and> cs_last_liveness s + timeout \<le> now)"
    using assms slot.held [OF assms]
    by (cases e) (auto simp: observe_liveness_def release_def release_if_stale_def)
  then show ?thesis using slot.held [OF assms] slot.free_other [of s] assms by auto
qed

section \<open>Examples\<close>

theorem status_request_pieces_witness:
  "decoder_report (foldl feed_state new_decoder [[0, 0], [0, 2, 7]]) = Partial \<and>
   (\<exists>d. feed (foldl feed_state new_decoder [[0, 0], [0, 2, 7]]) [8] = Some (d, True))"
proof -
  have "frame_spec (concat [[0, 0], [0, 2, 7]]) = Partial" "frame_spec (concat [[0, 0], [0, 2, 7]] @ [8]) \<noteq> Failed"
    by (simp_all add: frame_spec_def be_value_def maximum_status_request_bytes_def push_bit_eq_mult)
  with status_request_pieces [of "[[0, 0], [0, 2, 7]]" "[8]"] show ?thesis by auto
qed

text \<open>A parser that knows one request.\<close>

definition example_json :: "bytes json" where
  "example_json = \<lparr>js_parse = (\<lambda>p. if p = [7] then Inr p else Inl (Runtime_error ''parse'')),
     js_is_object = (\<lambda>_. True), js_size = (\<lambda>_. 2), js_value_int = (\<lambda>_ _ _. Inr 1),
     js_value_string = (\<lambda>_ _ _. Inr ''get_status'')\<rparr>"

definition example_connection :: connection where
  "example_connection = \<lparr>cn_received = [Some [0, 0], Some [0, 1, 7]], cn_accepted = [Some 3, Some 100]\<rparr>"

lemma example_serve:
  "serve_status_transaction example_json [65, 66] example_connection = ([0, 0, 0, 2, 65, 66], True)"
  by code_simp

theorem status_transaction_witness:
  "\<exists>p. delivered_after [] [Some [0, 0], Some [0, 1, 7]] p \<and> asks_for_status example_json p"
  using status_transaction [of example_json "[65, 66]" example_connection]
  by (simp add: example_serve) (auto simp: example_connection_def split: if_splits)

end
