(* ===== verification/Slots.thy ===== *)
theory Slots
  imports Prelude "HOL-Library.Multiset"
begin

text \<open>
  What the two control transports share (\<open>src/radio_transport.cpp\<close> and the
  \<open>ClientTransport\<close> of \<open>src/processor_controller.cpp\<close>): the slots that hold a submission
  until it is completed, the gathering of its bytes for \<open>sendmsg\<close>, the accounting of a
  partial write, and the abstract board of tokens both of them refine.
  A submission's storage is the list of its segments; \<open>segment(i)\<close> of an index below
  \<open>segment_count()\<close> succeeds.
\<close>

section \<open>Slots\<close>

text \<open>A peer's session: its identity and the generation of the association.\<close>

record session =
  se_peer :: u64
  se_generation :: u64

text \<open>The key of the packet counter a submission uses; a packet type is a parameter.\<close>

record 'y counter_key =
  ck_sender :: u64
  ck_stream :: "u32 option"
  ck_type :: 'y

record 'y submission =
  su_source :: session
  su_reserved :: bool
  su_counter :: "'y counter_key"
  su_storage :: "bytes list"
  su_completion_credit :: nat
  su_credit_owned :: bool

text \<open>The queues whose credits a transport acquires.\<close>

datatype resource = Data_queue | Ordinary_queue | Cancellation_queue

text \<open>The error codes the transports produce, and those that come from the library.\<close>

datatype vita_error =
    Invalid_state
  | Invalid_parameter
  | Identity_conflict
  | Capacity_exhausted
  | Would_deadlock
  | Short_output
  | Socket_error
  | Library_error nat

text \<open>A slot; the last two fields are those of the radio only.\<close>

record 'y slot =
  sl_submission :: "'y submission option"
  sl_credit :: "resource option"
  sl_segment :: nat
  sl_offset :: nat
  sl_generation :: u64
  sl_deadline :: nanos
  sl_data :: bool
  sl_status_reply :: bool

definition empty_slot :: "'y slot" where
  "empty_slot = \<lparr>sl_submission = None, sl_credit = None, sl_segment = 0, sl_offset = 0, sl_generation = 1, sl_deadline = 0,
                sl_data = False, sl_status_reply = False\<rparr>"

definition storage :: "'y slot \<Rightarrow> bytes list" where
  "storage sl = (case sl_submission sl of None \<Rightarrow> [] | Some s \<Rightarrow> su_storage s)"

definition byte_size :: "bytes list \<Rightarrow> nat" where
  "byte_size segments = sum_list (map length segments)"

definition occupied :: "'y slot \<Rightarrow> bool" where
  "occupied sl \<longleftrightarrow> sl_submission sl \<noteq> None"

text \<open>A slot after its submission is completed.\<close>

definition cleared :: "'y slot \<Rightarrow> 'y slot" where
  "cleared sl = sl\<lparr>sl_submission := None, sl_credit := None, sl_segment := 0, sl_offset := 0, sl_generation := sl_generation sl + 1\<rparr>"

lemma cleared_simps [simp]: "\<not> occupied (cleared sl)" "sl_generation (cleared sl) = sl_generation sl + 1" "sl_data (cleared sl) = sl_data sl"
  by (simp_all add: occupied_def cleared_def)

text \<open>What \<open>associate\<close> is given.\<close>

record association =
  as_sid :: u32
  as_local :: session
  as_remote :: session

section \<open>The runtime library and the outcomes of system calls\<close>

text \<open>What the codec tells of a packet: its envelope, its fields and its control and acknowledge mode.\<close>

record 'y envelope =
  en_type :: 'y
  en_command :: "u32 option"
  en_ack :: bool
  en_cancel :: bool

datatype status_field = RF_reference_frequency | Sample_rate | Bandwidth | Gain | Discrete_io32 | Other_field

record 'y framing =
  fr_type :: 'y
  fr_cancel :: bool
  fr_stream :: "u32 option"
  fr_count :: u8
  fr_bytes :: nat

text \<open>The runtime library: \<open>'h\<close> is the state of admission and counters, \<open>'i\<close> of the ingress, \<open>'f\<close> of a framer.\<close>

record ('y, 'h, 'i, 'f) runtime =
  ru_inspect :: "bytes list \<Rightarrow> vita_error + 'y framing"
  ru_is_command :: "'y \<Rightarrow> bool"
  ru_acquire :: "'h \<Rightarrow> resource \<Rightarrow> vita_error + 'h"
  ru_return :: "'h \<Rightarrow> resource \<Rightarrow> 'h"
  ru_count :: "'h \<Rightarrow> 'y counter_key \<Rightarrow> u8 \<Rightarrow> vita_error + 'h"
  ru_feed :: "'i \<Rightarrow> bytes \<Rightarrow> 'i \<times> nat option"
  ru_disconnect :: "'i \<Rightarrow> 'i"
  ru_shutdown :: "'i \<Rightarrow> 'i"
  ru_reconnect :: "'i \<Rightarrow> session \<Rightarrow> 'i \<times> vita_error option"
  ru_stalled :: "'i \<Rightarrow> bool"
  ru_frames :: "'f \<Rightarrow> bytes \<Rightarrow> 'f \<times> bytes list \<times> bool"
  ru_framer_disconnect :: "'f \<Rightarrow> 'f"
  ru_framer_reconnect :: "'f \<Rightarrow> 'f"
  ru_envelope :: "bytes \<Rightarrow> 'y envelope option"
  ru_packet :: "bytes \<Rightarrow> ('y envelope \<times> status_field list) option"
  ru_cam :: "'y envelope \<Rightarrow> (nat \<times> bool) option"

text \<open>
  \<open>recv\<close> and \<open>sendmsg\<close>: a closed connection, nothing now (\<open>EAGAIN\<close>, \<open>EWOULDBLOCK\<close>, \<open>EINTR\<close>), another error,
  or the bytes received with the clock read after them, the number of bytes sent.
\<close>

datatype recv_outcome =
    Recv_closed
  | Recv_retry
  | Recv_failed
  | Recv bytes nanos

datatype send_outcome =
    Send_retry
  | Send_failed
  | Sent nat

section \<open>Choosing a slot\<close>

text \<open>The loop that looks for the next slot with a submission.\<close>

fun pick :: "nat \<Rightarrow> u64 \<Rightarrow> 'y slot list \<Rightarrow> u64 \<times> nat option" where
  "pick 0 cursor slots = (cursor, None)"
| "pick (Suc attempts) cursor slots =
    (let selected = unat (cursor mod of_nat (length slots))
     in if occupied (slots ! selected) then (cursor + 1, Some selected) else pick attempts (cursor + 1) slots)"

text \<open>The first slot without a submission in a range, or None.\<close>

definition first_free :: "'y slot list \<Rightarrow> nat \<Rightarrow> nat \<Rightarrow> nat option" where
  "first_free slots first past = List.find (\<lambda>i. \<not> occupied (slots ! i)) [first..<past]"

lemma pick_selected:
  assumes "0 < length slots" and "length slots < 2 ^ 64" and "pick n cursor slots = (c, Some i)"
  shows "i < length slots \<and> occupied (slots ! i)"
  using assms(3)
proof (induction n arbitrary: cursor)
  case (Suc n)
  have "unat (cursor mod of_nat (length slots)) < length slots"
    using assms(1,2) by (simp add: unat_mod unat_of_nat take_bit_nat_eq_self)
  then show ?case using Suc by (auto simp: Let_def split: if_splits)
qed simp

lemma first_free_Some: "first_free slots first past = Some i \<Longrightarrow> first \<le> i \<and> i < past \<and> \<not> occupied (slots ! i)"
  by (auto simp: first_free_def find_Some_iff)

lemma pick_cong:
  assumes m: "map occupied slots = map occupied slots'" and len: "0 < length slots" "length slots < 2 ^ 64"
  shows "pick n c slots = pick n c slots'"
proof -
  have l: "length slots = length slots'" using m by (metis length_map)
  have o: "occupied (slots ! k) = occupied (slots' ! k)" if "k < length slots" for k
    using m l that by (metis nth_map)
  have "unat (c mod of_nat (length slots)) < length slots" for c :: u64
    using len by (simp add: unat_mod unat_of_nat take_bit_nat_eq_self)
  with o l show ?thesis by (induction n arbitrary: c) (simp_all add: Let_def)
qed

text \<open>The slots a sequence of passes picks, from the slot table each of them finds.\<close>

fun picks :: "u64 \<Rightarrow> 'y slot list list \<Rightarrow> nat option list" where
  "picks cursor [] = []"
| "picks cursor (slots # tables) = (case pick (length slots) cursor slots of (c, r) \<Rightarrow> r # picks c tables)"

lemma unat_add_1: "unat (c :: u64) + 1 < 2 ^ 64 \<Longrightarrow> unat (c + 1) = unat c + 1"
  by (simp add: unat_word_ariths)

lemma pick_skips:
  assumes "0 < length slots" and "length slots < 2 ^ 64" and "unat cursor + n < 2 ^ 64"
    and "d < n" and "occupied (slots ! ((unat cursor + d) mod length slots))"
  shows "\<exists>e \<le> d. pick n cursor slots = (cursor + of_nat (Suc e), Some ((unat cursor + e) mod length slots))"
  using assms(3-5)
proof (induction n arbitrary: cursor d)
  case (Suc n)
  let ?L = "length slots"
  have sel: "unat (cursor mod of_nat ?L) = unat cursor mod ?L"
    using assms(1,2) by (simp add: unat_mod unat_of_nat take_bit_nat_eq_self)
  show ?case
  proof (cases "occupied (slots ! (unat cursor mod ?L))")
    case True
    then have "pick (Suc n) cursor slots = (cursor + of_nat (Suc 0), Some ((unat cursor + 0) mod ?L))"
      by (simp add: Let_def sel)
    then show ?thesis by blast
  next
    case False
    with Suc.prems(3) have "d \<noteq> 0" by (intro notI) simp
    then obtain d' where d: "d = Suc d'" by (cases d) auto
    have "unat cursor + 1 < 2 ^ 64" using Suc.prems(1) by simp
    note u = unat_add_1 [OF this]
    have "unat (cursor + 1) + n < 2 ^ 64" "d' < n" "occupied (slots ! ((unat (cursor + 1) + d') mod ?L))"
      using Suc.prems d by (simp_all only: u) simp_all
    from Suc.IH [OF this] obtain e where e: "e \<le> d'"
      "pick n (cursor + 1) slots = (cursor + 1 + of_nat (Suc e), Some ((unat (cursor + 1) + e) mod ?L))" by blast
    have "pick (Suc n) cursor slots = (cursor + of_nat (Suc (Suc e)), Some ((unat cursor + Suc e) mod ?L))"
      using False e(2) by (simp add: Let_def sel u)
    then show ?thesis using e(1) d by (intro exI [of _ "Suc e"]) simp
  qed
qed simp

lemma picks_reach:
  "N < 2 ^ 63 \<Longrightarrow> d < n \<Longrightarrow> n \<le> length tables \<Longrightarrow> d < N \<Longrightarrow> (unat cursor + d) mod N = i \<Longrightarrow>
   unat cursor + d + N < 2 ^ 64 \<Longrightarrow> \<forall>slots \<in> set tables. length slots = N \<and> occupied (slots ! i) \<Longrightarrow>
   Some i \<in> set (take n (picks cursor tables))"
proof (induction n arbitrary: d cursor tables)
  case (Suc n)
  then obtain slots rest where tables: "tables = slots # rest" by (cases tables) auto
  have len: "length slots = N" "occupied (slots ! i)" using Suc.prems(7) tables by auto
  have "\<exists>e \<le> d. pick N cursor slots = (cursor + of_nat (Suc e), Some ((unat cursor + e) mod N))"
    using pick_skips [of slots cursor N d] Suc.prems(1,4,5,6) len by simp
  then obtain e where e: "e \<le> d" "pick N cursor slots = (cursor + of_nat (Suc e), Some ((unat cursor + e) mod N))"
    by blast
  show ?case
  proof (cases "e = d")
    case True
    then show ?thesis using e Suc.prems(5) len tables by simp
  next
    case False
    then have less: "e < d" using e(1) by simp
    have "unat (of_nat (Suc e) :: u64) = Suc e"
      using less Suc.prems(1,4) by (simp add: unat_of_nat take_bit_nat_eq_self del: of_nat_Suc)
    then have u: "unat (cursor + of_nat (Suc e)) = unat cursor + Suc e"
      using less Suc.prems(4,6) by (subst unat_word_ariths(1)) (simp del: of_nat_Suc)
    have "Some i \<in> set (take n (picks (cursor + of_nat (Suc e)) rest))"
      by (rule Suc.IH [of "d - Suc e"]) (use Suc.prems less tables in \<open>simp_all only: u, auto\<close>)
    then show ?thesis using e len tables by simp
  qed
qed simp

lemma slots_served:
  assumes "\<forall>slots \<in> set tables. length slots = N \<and> occupied (slots ! i)" and "i < N"
    and "N \<le> length tables" and "unat cursor + 2 * N < 2 ^ 64" and "N < 2 ^ 63"
  shows "Some i \<in> set (take N (picks cursor tables))"
proof -
  define d where "d = (i + N - unat cursor mod N) mod N"
  have d: "d < N" using assms(2) by (simp add: d_def)
  have "(unat cursor + d) mod N = i"
  proof -
    have "(unat cursor + d) mod N = (unat cursor mod N + (i + N - unat cursor mod N)) mod N"
      unfolding d_def by (simp add: mod_simps)
    also have "unat cursor mod N + (i + N - unat cursor mod N) = i + N"
    proof -
      have "unat cursor mod N < N" using assms(2) by simp
      then show ?thesis by linarith
    qed
    finally show ?thesis using assms(2) by simp
  qed
  from picks_reach [OF assms(5) d _ d this _ assms(1)] assms(3,4) d show ?thesis by simp
qed

section \<open>Writing a submission\<close>

text \<open>The vectors of a write with a budget: the rest of the current segment, then whole segments.\<close>

fun gather :: "nat \<Rightarrow> nat \<Rightarrow> bytes list \<Rightarrow> bytes list" where
  "gather budget off [] = []"
| "gather budget off (s # ss) =
    (if budget = 0 then []
     else let n = min (length s - off) budget in take n (drop off s) # gather (budget - n) 0 ss)"

text \<open>The loop that accounts for \<open>consumed\<close> bytes.\<close>

function advance :: "nat \<Rightarrow> 'y slot \<Rightarrow> 'y slot" where
  "advance consumed sl =
    (if consumed = 0 \<or> sl_segment sl \<ge> length (storage sl) then sl
     else let remaining = length (storage sl ! sl_segment sl) - sl_offset sl
       in if consumed < remaining then sl\<lparr>sl_offset := sl_offset sl + consumed\<rparr>
          else advance (consumed - remaining) (sl\<lparr>sl_segment := sl_segment sl + 1, sl_offset := 0\<rparr>))"
  by pat_completeness auto
termination
  by (relation "measure (\<lambda>(consumed, sl). length (storage sl) - sl_segment sl)") (auto simp: storage_def)

declare advance.simps [simp del]

text \<open>The bytes of a slot that were not written yet.\<close>

definition unsent :: "'y slot \<Rightarrow> bytes" where
  "unsent sl = (if sl_segment sl < length (storage sl)
     then drop (sl_offset sl) (storage sl ! sl_segment sl) @ concat (drop (Suc (sl_segment sl)) (storage sl)) else [])"

text \<open>A position inside the storage, of segments that are not empty.\<close>

definition positioned :: "'y slot \<Rightarrow> bool" where
  "positioned sl \<longleftrightarrow> list_all (\<lambda>s. s \<noteq> []) (storage sl) \<and>
     (sl_segment sl < length (storage sl) \<and> sl_offset sl < length (storage sl ! sl_segment sl) \<or>
      sl_segment sl = length (storage sl) \<and> sl_offset sl = 0)"

lemma storage_upd [simp]:
  "storage (sl\<lparr>sl_segment := a\<rparr>) = storage sl" "storage (sl\<lparr>sl_offset := b\<rparr>) = storage sl"
  "storage (sl\<lparr>sl_segment := a, sl_offset := b\<rparr>) = storage sl" "storage (sl\<lparr>sl_generation := g\<rparr>) = storage sl"
  by (simp_all add: storage_def)

lemma byte_size_concat: "byte_size ss = length (concat ss)"
  by (simp add: byte_size_def length_concat)

lemma gather_concat: "concat (gather budget off (s # ss)) = take budget (drop off s @ concat ss)"
proof (induction ss arbitrary: budget off s)
  case Nil
  show ?case by (simp add: min_def)
next
  case (Cons t ts)
  show ?case
  proof (cases "length s - off \<le> budget")
    case True
    then show ?thesis using Cons.IH [of "budget - (length s - off)" 0 t] by (simp add: Let_def min_def)
  next
    case False
    then show ?thesis by (cases ts) (simp_all add: Let_def min_def)
  qed
qed

lemma gather_unsent:
  "sl_segment sl < length (storage sl) \<Longrightarrow> concat (gather budget (sl_offset sl) (drop (sl_segment sl) (storage sl))) = take budget (unsent sl)"
  by (simp add: unsent_def gather_concat del: gather.simps flip: Cons_nth_drop_Suc)

lemma advance_unchanged [simp]:
  "sl_submission (advance n sl) = sl_submission sl \<and> sl_generation (advance n sl) = sl_generation sl \<and>
   sl_data (advance n sl) = sl_data sl \<and> sl_deadline (advance n sl) = sl_deadline sl \<and>
   sl_status_reply (advance n sl) = sl_status_reply sl"
proof (induction n sl rule: advance.induct)
  case (1 n sl)
  show ?case using 1 by (subst (1 2 3 4 5) advance.simps) (simp add: Let_def)
qed

lemma storage_advance [simp]: "storage (advance n sl) = storage sl"
  by (simp add: storage_def)

lemma occupied_advance [simp]: "occupied (advance n sl) = occupied sl"
  by (simp add: occupied_def)

lemma gather_position:
  "positioned sl \<Longrightarrow> concat (gather budget (sl_offset sl) (drop (sl_segment sl) (storage sl))) = take budget (unsent sl)"
  using gather_unsent [of sl budget] by (cases "sl_segment sl < length (storage sl)") (auto simp: unsent_def)

text \<open>Accounting for the bytes written leaves exactly the others.\<close>

lemma unsent_advance: "positioned sl \<Longrightarrow> n \<le> length (unsent sl) \<Longrightarrow> positioned (advance n sl) \<and> unsent (advance n sl) = drop n (unsent sl)"
proof (induction n sl rule: advance.induct)
  case (1 n sl)
  show ?case
  proof (cases "n = 0 \<or> sl_segment sl \<ge> length (storage sl)")
    case True
    then show ?thesis using "1.prems" by (subst (1 2) advance.simps) (auto simp: unsent_def)
  next
    case False
    let ?s = "storage sl ! sl_segment sl"
    have seg: "sl_segment sl < length (storage sl)" "sl_offset sl < length ?s"
      using False "1.prems"(1) by (auto simp: positioned_def)
    show ?thesis
    proof (cases "n < length ?s - sl_offset sl")
      case small: True
      then show ?thesis using False "1.prems" seg
        by (subst (1 2) advance.simps) (auto simp: Let_def positioned_def unsent_def add.commute)
    next
      case big: False
      let ?sl = "sl\<lparr>sl_segment := sl_segment sl + 1, sl_offset := 0\<rparr>" and ?n = "n - (length ?s - sl_offset sl)"
      have pos: "positioned ?sl" using "1.prems"(1) seg by (auto simp: positioned_def list_all_length)
      have uns: "unsent sl = drop (sl_offset sl) ?s @ unsent ?sl"
        using seg by (simp add: unsent_def flip: Cons_nth_drop_Suc)
      have "?n \<le> length (unsent ?sl)" using "1.prems"(2) uns by simp
      from "1.IH" [OF False refl big pos this] have "positioned (advance ?n ?sl) \<and> unsent (advance ?n ?sl) = drop n (unsent sl)"
        using big uns by simp
      then show ?thesis using False big by (subst (1 2) advance.simps) (simp add: Let_def)
    qed
  qed
qed

lemma positioned_done: "positioned sl \<Longrightarrow> unsent sl = [] \<longleftrightarrow> sl_segment sl = length (storage sl)"
  by (auto simp: positioned_def unsent_def)
section \<open>The board of tokens\<close>

text \<open>
  The abstract view of a transport: which slots are occupied and their generations, the
  tokens handed out for accepted submissions and the completions published, in order.
  A submission is placed into a free slot and gets the slot's index and generation; it is
  finished once, which frees the slot and moves its generation.
\<close>

type_synonym token = "nat \<times> u64"

datatype outcome = Succeeded nat | Failed_with vita_error

record board =
  bd_slots :: "(bool \<times> u64) list"
  bd_accepted :: "token list"
  bd_done :: "(token \<times> outcome) list"

inductive board_step :: "board \<Rightarrow> board \<Rightarrow> bool" where
  place: "i < length (bd_slots b) \<Longrightarrow> bd_slots b ! i = (False, g) \<Longrightarrow>
    board_step b (b\<lparr>bd_slots := (bd_slots b)[i := (True, g)], bd_accepted := bd_accepted b @ [(i, g)]\<rparr>)"
| complete: "i < length (bd_slots b) \<Longrightarrow> bd_slots b ! i = (True, g) \<Longrightarrow>
    board_step b (b\<lparr>bd_slots := (bd_slots b)[i := (False, g + 1)], bd_done := bd_done b @ [((i, g), r)]\<rparr>)"

abbreviation board_steps :: "board \<Rightarrow> board \<Rightarrow> bool" where
  "board_steps \<equiv> rtranclp board_step"

definition new_board :: "nat \<Rightarrow> board" where
  "new_board n = \<lparr>bd_slots = replicate n (False, 1), bd_accepted = [], bd_done = []\<rparr>"

text \<open>The tokens of the submissions that are not finished.\<close>

definition pending_tokens :: "board \<Rightarrow> token list" where
  "pending_tokens b = map (\<lambda>i. (i, snd (bd_slots b ! i))) (filter (\<lambda>i. fst (bd_slots b ! i)) [0..<length (bd_slots b)])"

definition on_slot :: "nat \<Rightarrow> (token \<times> outcome) \<Rightarrow> bool" where
  "on_slot i d \<longleftrightarrow> fst (fst d) = i"

text \<open>As long as no generation has wrapped: a slot's generation counts what was finished on it.\<close>

definition board_ok :: "board \<Rightarrow> bool" where
  "board_ok b \<longleftrightarrow>
    (\<forall>i < length (bd_slots b). unat (snd (bd_slots b ! i)) = 1 + length (filter (on_slot i) (bd_done b))) \<and>
    (\<forall>((i, g), r) \<in> set (bd_done b). i < length (bd_slots b) \<and> unat g < unat (snd (bd_slots b ! i))) \<and>
    distinct (map fst (bd_done b)) \<and> distinct (bd_accepted b) \<and>
    set (bd_accepted b) = set (map fst (bd_done b)) \<union> set (pending_tokens b)"

lemma set_pending_tokens:
  "set (pending_tokens b) = {(i, g). i < length (bd_slots b) \<and> bd_slots b ! i = (True, g)}"
  by (auto simp: pending_tokens_def prod_eq_iff)

lemma new_board_ok: "board_ok (new_board n)"
  by (auto simp: board_ok_def new_board_def set_pending_tokens)

lemma board_step_length: "board_step b b' \<Longrightarrow> length (bd_slots b') = length (bd_slots b)"
  by (auto elim: board_step.cases)

lemma board_step_done: "board_step b b' \<Longrightarrow> \<exists>ds. bd_done b' = bd_done b @ ds"
  by (auto elim: board_step.cases)

lemma board_steps_done: "board_steps b b' \<Longrightarrow> \<exists>ds. bd_done b' = bd_done b @ ds"
proof (induction rule: rtranclp_induct)
  case (step c d)
  then show ?case using board_step_done [OF step(2)] by auto
qed simp

lemma board_step_ok: "board_step b b' \<Longrightarrow> length (bd_done b') < 2 ^ 64 - 1 \<Longrightarrow> board_ok b \<Longrightarrow> board_ok b'"
proof (induction rule: board_step.induct)
  case (place i b g)
  have "(i, g) \<notin> set (bd_accepted b)"
    using place by (fastforce simp: board_ok_def set_pending_tokens)
  then show ?case using place
    by (auto simp: board_ok_def set_pending_tokens nth_list_update split: if_splits prod.splits) (fastforce+)?
next
  case (complete i b g r)
  have ok: "board_ok b" by fact
  have g: "unat g = 1 + length (filter (on_slot i) (bd_done b))" using complete by (auto simp: board_ok_def)
  have "length (filter (on_slot i) (bd_done b)) \<le> length (bd_done b)" "length (bd_done b) + 1 < 2 ^ 64 - 1"
    using complete.prems(1) by simp_all
  then have "unat g < 2 ^ 64 - 1" unfolding g by linarith
  then have g1: "unat (g + 1) = Suc (unat g)" by (simp add: unat_word_ariths)
  have new: "(i, g) \<notin> set (map fst (bd_done b))" using complete by (fastforce simp: board_ok_def)
  let ?b = "b\<lparr>bd_slots := (bd_slots b)[i := (False, g + 1)], bd_done := bd_done b @ [((i, g), r)]\<rparr>"
  have pend: "set (pending_tokens ?b) = set (pending_tokens b) - {(i, g)}"
    using complete(1,2) by (auto simp: set_pending_tokens nth_list_update split: if_splits)
  have "\<forall>j < length (bd_slots ?b). unat (snd (bd_slots ?b ! j)) = 1 + length (filter (on_slot j) (bd_done ?b))"
    using ok g g1 complete(1) by (auto simp: board_ok_def nth_list_update on_slot_def)
  moreover have "\<forall>((j, h), r) \<in> set (bd_done ?b). j < length (bd_slots ?b) \<and> unat h < unat (snd (bd_slots ?b ! j))"
    using ok g1 complete(1,2) unfolding board_ok_def by (fastforce simp: nth_list_update)
  moreover have "set (bd_accepted ?b) = set (map fst (bd_done ?b)) \<union> set (pending_tokens ?b)"
    unfolding pend using ok complete(1,2) by (auto simp: board_ok_def set_pending_tokens)
  ultimately show ?case using ok new by (auto simp: board_ok_def)
qed

lemma board_steps_ok: "board_steps b b' \<Longrightarrow> length (bd_done b') < 2 ^ 64 - 1 \<Longrightarrow> board_ok b \<Longrightarrow> board_ok b'"
proof (induction rule: rtranclp_induct)
  case (step c d)
  then show ?case using board_step_ok [OF step(2)] board_step_done [OF step(2)] by auto
qed

text \<open>A finished token stays finished.\<close>

lemma done_not_pending: "board_ok b \<Longrightarrow> t \<in> set (map fst (bd_done b)) \<Longrightarrow> t \<notin> set (pending_tokens b)"
  by (fastforce simp: board_ok_def set_pending_tokens)

lemma distinct_pending: "distinct (pending_tokens b)"
  by (simp add: pending_tokens_def distinct_map inj_on_def)

lemma accounted: "board_ok b \<Longrightarrow> mset (bd_accepted b) = mset (map fst (bd_done b)) + mset (pending_tokens b)"
proof -
  assume ok: "board_ok b"
  have "distinct (map fst (bd_done b) @ pending_tokens b)"
    using ok done_not_pending [OF ok] distinct_pending by (auto simp: board_ok_def)
  then have "mset (bd_accepted b) = mset (map fst (bd_done b) @ pending_tokens b)"
    using ok using set_eq_iff_mset_eq_distinct [of "bd_accepted b" "map fst (bd_done b) @ pending_tokens b"] by (auto simp: board_ok_def)
  then show ?thesis by simp
qed

text \<open>
  The interface: a component whose operations each do a number of steps of its board. What holds for
  boards holds for the component.
\<close>

locale completion_board =
  fixes step :: "'s \<Rightarrow> 'e \<Rightarrow> 's"
    and board :: "'s \<Rightarrow> board"
    and good :: "'s \<Rightarrow> bool"
  assumes good_step: "good s \<Longrightarrow> good (step s e)"
    and refines: "good s \<Longrightarrow> board_steps (board s) (board (step s e))"
begin

lemma run: "good s \<Longrightarrow> good (foldl step s es) \<and> board_steps (board s) (board (foldl step s es))"
proof (induction es arbitrary: s)
  case (Cons e es)
  from Cons.IH [OF good_step [OF Cons.prems]] refines [OF Cons.prems, of e] show ?case
    by (auto intro: rtranclp_trans)
qed simp

lemma run_board_ok:
  assumes "good s" and "board_ok (board s)" and "length (bd_done (board (foldl step s es))) < 2 ^ 64 - 1"
  shows "board_ok (board (foldl step s es))"
  using board_steps_ok [OF _ assms(3,2)] run [OF assms(1)] by blast

lemma run_accounted:
  assumes "good s" and "board_ok (board s)" and "length (bd_done (board (foldl step s es))) < 2 ^ 64 - 1"
  shows "mset (bd_accepted (board (foldl step s es))) =
      mset (map fst (bd_done (board (foldl step s es)))) + mset (pending_tokens (board (foldl step s es))) \<and>
    distinct (bd_accepted (board (foldl step s es)))"
  using accounted [OF run_board_ok [OF assms]] run_board_ok [OF assms] by (simp add: board_ok_def)

lemma run_done_stays:
  assumes "good s" and "board_ok (board s)" and "length (bd_done (board (foldl step s (es @ fs)))) < 2 ^ 64 - 1"
    and "(t, r) \<in> set (bd_done (board (foldl step s es)))"
  shows "(t, r) \<in> set (bd_done (board (foldl step s (es @ fs)))) \<and> t \<notin> set (pending_tokens (board (foldl step s (es @ fs))))"
proof -
  have "board_steps (board (foldl step s es)) (board (foldl step (foldl step s es) fs))"
    using run [of "foldl step s es" fs] run [OF assms(1), of es] by blast
  then obtain ds where "bd_done (board (foldl step s (es @ fs))) = bd_done (board (foldl step s es)) @ ds"
    using board_steps_done by fastforce
  then have "(t, r) \<in> set (bd_done (board (foldl step s (es @ fs))))" using assms(4) by simp
  moreover have "t \<notin> set (pending_tokens (board (foldl step s (es @ fs))))"
    by (rule done_not_pending [OF run_board_ok [OF assms(1-3)]]) (use calculation in force)
  ultimately show ?thesis ..
qed

end

end
