(* ===== verification/ClientTransport.thy ===== *)
theory ClientTransport
  imports Slots
begin

text \<open>
  The controller's side of the control connection (\<open>ClientTransport\<close> in
  \<open>src/processor_controller.cpp\<close>): commands wait in at most 64 slots, one call of
  \<open>progress\<close> connects, receives or writes one of them, and any failure completes all of
  them and asks for a new connection. Outcomes of system calls and clock readings are inputs.
\<close>

section \<open>Configuration and state\<close>

text \<open>The configuration of a radio's control, and what the transport is set up with.\<close>

record radio_control =
  cr_id :: string
  cr_sid :: u32
  cr_control_host :: string
  cr_control_port :: u16
  cr_status_host :: string
  cr_status_port :: u16
  cr_center_hz :: u64
  cr_sample_rate_hz :: u32
  cr_bandwidth_hz :: u32
  cr_gain_db_q7 :: "16 word"

record client_setup =
  cs_radio :: radio_control
  cs_queue_limit :: nat
  cs_io_timeout :: nanos

definition client_slots :: nat where
  "client_slots = 64"

text \<open>
  The last four fields record what was accepted and published, the packets accepted since the
  connection was made and the bytes written to it.
\<close>

record ('y, 'h, 'i) client_transport =
  ct_setup :: client_setup
  ct_connected :: bool
  ct_host :: 'h
  ct_ingress :: 'i
  ct_slots :: "'y slot list"
  ct_local :: "session option"
  ct_remote :: "session option"
  ct_retry_at :: nanos
  ct_generation :: u64
  ct_received_packets :: u64
  ct_route_failures :: u64
  ct_cursor :: u64
  ct_open :: bool
  ct_accepting :: bool
  ct_reconnect :: bool
  ct_accepted :: "token list"
  ct_done :: "(token \<times> outcome) list"
  ct_offered :: "bytes list"
  ct_stream :: bytes

definition new_client :: "client_setup \<Rightarrow> 'h \<Rightarrow> 'i \<Rightarrow> ('y, 'h, 'i) client_transport" where
  "new_client setup_value host ingress =
     \<lparr>ct_setup = setup_value, ct_connected = False, ct_host = host, ct_ingress = ingress,
      ct_slots = replicate client_slots empty_slot, ct_local = None, ct_remote = None, ct_retry_at = 0, ct_generation = 0,
      ct_received_packets = 0, ct_route_failures = 0, ct_cursor = 0, ct_open = True, ct_accepting = True,
      ct_reconnect = True, ct_accepted = [], ct_done = [], ct_offered = [], ct_stream = []\<rparr>"

text \<open>The checks of the factory.\<close>

definition valid_client_setup :: "client_setup \<Rightarrow> bool" where
  "valid_client_setup c \<longleftrightarrow> \<not> (cr_control_host (cs_radio c) = [] \<or> cr_control_port (cs_radio c) = 0 \<or> cr_sid (cs_radio c) = 0 \<or>
     cs_queue_limit c = 0 \<or> cs_queue_limit c > 64 \<or> cs_io_timeout c \<le> 0 \<or> cs_io_timeout c > millis 2000)"

section \<open>Completion and failure\<close>

text \<open>A completion is published, the submission and its credits are dropped and the generation moves.\<close>

definition client_complete :: "('y, 'h, 'i, 'f) runtime \<Rightarrow> outcome \<Rightarrow> nat \<Rightarrow> ('y, 'h, 'i) client_transport \<Rightarrow>
    ('y, 'h, 'i) client_transport" where
  "client_complete R result i t =
    (let sl = ct_slots t ! i
     in t\<lparr>ct_done := ct_done t @ [((i, sl_generation sl), result)],
          ct_host := (case sl_credit sl of None \<Rightarrow> ct_host t | Some c \<Rightarrow> ru_return R (ct_host t) c),
          ct_slots := (ct_slots t)[i := sl\<lparr>sl_submission := None, sl_credit := None, sl_generation := sl_generation sl + 1\<rparr>]\<rparr>)"

definition client_fail_slot :: "('y, 'h, 'i, 'f) runtime \<Rightarrow> ('y, 'h, 'i) client_transport \<Rightarrow> nat \<Rightarrow> ('y, 'h, 'i) client_transport" where
  "client_fail_slot R t i = (if occupied (ct_slots t ! i) then client_complete R (Failed_with Invalid_state) i t else t)"

text \<open>\<open>fail\<close>, with the clock it reads.\<close>

definition client_fail :: "('y, 'h, 'i, 'f) runtime \<Rightarrow> nanos \<Rightarrow> ('y, 'h, 'i) client_transport \<Rightarrow> ('y, 'h, 'i) client_transport" where
  "client_fail R now t =
    (foldl (client_fail_slot R) (t\<lparr>ct_connected := False, ct_ingress := ru_disconnect R (ct_ingress t)\<rparr>) [0..<length (ct_slots t)])
      \<lparr>ct_reconnect := True, ct_retry_at := now + millis 100\<rparr>"

definition request_reconnect :: "('y, 'h, 'i, 'f) runtime \<Rightarrow> nanos \<Rightarrow> ('y, 'h, 'i) client_transport \<Rightarrow> ('y, 'h, 'i) client_transport" where
  "request_reconnect R now t = (if ct_connected t then client_fail R now t else t\<lparr>ct_reconnect := True\<rparr>)"

definition client_detach :: "('y, 'h, 'i, 'f) runtime \<Rightarrow> nanos \<Rightarrow> ('y, 'h, 'i) client_transport \<Rightarrow> ('y, 'h, 'i) client_transport" where
  "client_detach R now t =
    (if \<not> ct_open t then t
     else let t = client_fail R now (t\<lparr>ct_open := False\<rparr>) in t\<lparr>ct_ingress := ru_shutdown R (ct_ingress t)\<rparr>)"

section \<open>Receiving and writing\<close>

text \<open>The bytes of one \<open>recv\<close>, at most 2048; \<open>later\<close> is read by \<open>fail\<close>.\<close>

definition client_receive :: "('y, 'h, 'i, 'f) runtime \<Rightarrow> recv_outcome \<Rightarrow> nanos \<Rightarrow> ('y, 'h, 'i) client_transport \<Rightarrow>
    ('y, 'h, 'i) client_transport \<times> (vita_error + bool)" where
  "client_receive R outcome later t =
    (case outcome of
       Recv_closed \<Rightarrow> (client_fail R later t, Inr True)
     | Recv_retry \<Rightarrow> (t, Inr False)
     | Recv_failed \<Rightarrow> (client_fail R later t, Inr True)
     | Recv input now \<Rightarrow>
        (case ru_feed R (ct_ingress t) input of
           (ingress, None) \<Rightarrow>
              (client_fail R later (t\<lparr>ct_ingress := ingress, ct_route_failures := ct_route_failures t + 1\<rparr>), Inr True)
         | (ingress, Some n) \<Rightarrow>
              (t\<lparr>ct_ingress := ingress, ct_received_packets := ct_received_packets t + of_nat n\<rparr>, Inr True)))"

text \<open>The accounting for the bytes \<open>sendmsg\<close> took.\<close>

definition client_account :: "('y, 'h, 'i, 'f) runtime \<Rightarrow> nat \<Rightarrow> nat \<Rightarrow> ('y, 'h, 'i) client_transport \<Rightarrow> ('y, 'h, 'i) client_transport" where
  "client_account R i sent t =
    (let sl = advance sent (ct_slots t ! i); t = t\<lparr>ct_slots := (ct_slots t)[i := sl]\<rparr>
     in if sl_segment sl \<noteq> length (storage sl) then t else client_complete R (Succeeded (byte_size (storage sl))) i t)"

text \<open>The vectors of a write: the rest of the current segment and the segments after it.\<close>

definition rest_from :: "nat \<Rightarrow> bytes list \<Rightarrow> bytes list" where
  "rest_from off segments = (case segments of [] \<Rightarrow> [] | s # ss \<Rightarrow> drop off s # ss)"

definition client_transmit :: "('y, 'h, 'i, 'f) runtime \<Rightarrow> nanos \<Rightarrow> send_outcome \<Rightarrow> nanos \<Rightarrow> nat \<Rightarrow> ('y, 'h, 'i) client_transport \<Rightarrow>
    ('y, 'h, 'i) client_transport \<times> (vita_error + bool)" where
  "client_transmit R now outcome later i t =
    (let sl = ct_slots t ! i in
     if now \<ge> sl_deadline sl \<or> \<not> ct_connected t then (client_fail R later t, Inr True)
     else let vectors = rest_from (sl_offset sl) (drop (sl_segment sl) (storage sl))
       in case outcome of
         Send_retry \<Rightarrow> (t, Inr False)
       | Send_failed \<Rightarrow> (client_fail R later t, Inr True)
       | Sent n \<Rightarrow>
           let written = take n (concat vectors)
           in (client_account R i (length written) (t\<lparr>ct_stream := ct_stream t @ written\<rparr>), Inr True))"

text \<open>The inputs of a pass: the clock for the retry, whether a connection is made, and the others as they are read.\<close>

record client_inputs =
  ci_now :: nanos
  ci_connects :: bool
  ci_recv :: recv_outcome
  ci_deadline :: nanos
  ci_send :: send_outcome
  ci_later :: nanos

definition client_connect :: "('y, 'h, 'i, 'f) runtime \<Rightarrow> bool \<Rightarrow> nanos \<Rightarrow> session \<Rightarrow> ('y, 'h, 'i) client_transport \<Rightarrow>
    ('y, 'h, 'i) client_transport \<times> (vita_error + bool)" where
  "client_connect R connects later remote t =
    (if connects
     then let t = t\<lparr>ct_connected := True, ct_reconnect := False, ct_generation := ct_generation t + 1, ct_offered := [], ct_stream := []\<rparr>
       in (case ru_reconnect R (ct_ingress t) remote of
             (ingress, Some e) \<Rightarrow> (client_fail R later (t\<lparr>ct_ingress := ingress\<rparr>), Inl e)
           | (ingress, None) \<Rightarrow> (t\<lparr>ct_ingress := ingress\<rparr>, Inr True))
     else (t\<lparr>ct_retry_at := later + millis 100\<rparr>, Inr False))"

definition client_write :: "('y, 'h, 'i, 'f) runtime \<Rightarrow> client_inputs \<Rightarrow> ('y, 'h, 'i) client_transport \<Rightarrow>
    ('y, 'h, 'i) client_transport \<times> (vita_error + bool)" where
  "client_write R inp t =
    (case pick (length (ct_slots t)) (ct_cursor t) (ct_slots t) of
       (cursor, None) \<Rightarrow> (t\<lparr>ct_cursor := cursor\<rparr>, Inr False)
     | (cursor, Some i) \<Rightarrow> client_transmit R (ci_deadline inp) (ci_send inp) (ci_later inp) i (t\<lparr>ct_cursor := cursor\<rparr>))"

definition client_progress :: "('y, 'h, 'i, 'f) runtime \<Rightarrow> client_inputs \<Rightarrow> ('y, 'h, 'i) client_transport \<Rightarrow>
    ('y, 'h, 'i) client_transport \<times> (vita_error + bool)" where
  "client_progress R inp t =
    (if \<not> ct_open t then (t, Inr False)
     else case (if ct_reconnect t \<and> ct_accepting t \<and> ci_now inp \<ge> ct_retry_at t then ct_remote t else None) of
        Some remote \<Rightarrow> client_connect R (ci_connects inp) (ci_later inp) remote t
      | None \<Rightarrow>
         if \<not> ct_connected t then client_write R inp t
         else (case client_receive R (ci_recv inp) (ci_later inp) t of
             (t, Inl e) \<Rightarrow> (t, Inl e)
           | (t, Inr True) \<Rightarrow> (t, Inr True)
           | (t, Inr False) \<Rightarrow> client_write R inp t))"

section \<open>Submitting and associating\<close>

definition client_send :: "('y, 'h, 'i, 'f) runtime \<Rightarrow> nanos \<Rightarrow> 'y submission \<Rightarrow> ('y, 'h, 'i) client_transport \<Rightarrow>
    ('y, 'h, 'i) client_transport \<times> (vita_error + token)" where
  "client_send R now s t =
    (if \<not> ct_open t \<or> \<not> ct_connected t \<or> ct_local t \<noteq> Some (su_source s) \<or> \<not> su_reserved s then (t, Inl Invalid_state)
     else case ru_inspect R (su_storage s) of
        Inl e \<Rightarrow> (t, Inl e)
      | Inr framing \<Rightarrow>
        if \<not> ru_is_command R (fr_type framing) \<or> fr_bytes framing > 2048 then (t, Inl Invalid_parameter)
        else (case first_free (ct_slots t) 0 (cs_queue_limit (ct_setup t)) of
           None \<Rightarrow> (t, Inl Capacity_exhausted)
         | Some i \<Rightarrow>
           (let queue = (if fr_cancel framing then Cancellation_queue else Ordinary_queue) in
            (case ru_acquire R (ct_host t) queue of
               Inl e \<Rightarrow> (t, Inl e)
             | Inr host \<Rightarrow>
               (case ru_count R host (su_counter s) (fr_count framing) of
                  Inl e \<Rightarrow> (t\<lparr>ct_host := ru_return R host queue\<rparr>, Inl e)
                | Inr host \<Rightarrow>
                  let sl = ct_slots t ! i;
                      sl = sl\<lparr>sl_submission := Some s, sl_credit := Some queue, sl_segment := 0, sl_offset := 0,
                              sl_deadline := now + cs_io_timeout (ct_setup t)\<rparr>
                  in (t\<lparr>ct_host := host, ct_slots := (ct_slots t)[i := sl], ct_accepted := ct_accepted t @ [(i, sl_generation sl)],
                        ct_offered := ct_offered t @ [concat (su_storage s)]\<rparr>, Inr (i, sl_generation sl)))))))"

definition client_pending :: "('y, 'h, 'i) client_transport \<Rightarrow> token \<Rightarrow> bool" where
  "client_pending t tok \<longleftrightarrow> fst tok < length (ct_slots t) \<and> sl_generation (ct_slots t ! fst tok) = snd tok \<and>
     occupied (ct_slots t ! fst tok)"

definition client_close_admission :: "('y, 'h, 'i) client_transport \<Rightarrow> ('y, 'h, 'i) client_transport" where
  "client_close_admission t = t\<lparr>ct_accepting := False\<rparr>"

definition client_associate :: "association list \<Rightarrow> bool \<Rightarrow> ('y, 'h, 'i) client_transport \<Rightarrow>
    ('y, 'h, 'i) client_transport \<times> (vita_error + unit)" where
  "client_associate associations commit t =
    (case associations of
       [a] \<Rightarrow>
         if as_sid a \<noteq> cr_sid (cs_radio (ct_setup t)) \<or> se_peer (as_local a) \<noteq> 1 \<or> se_peer (as_remote a) \<noteq> 2 \<or>
            se_generation (as_local a) = 0 \<or> se_generation (as_local a) \<noteq> se_generation (as_remote a)
         then (t, Inl Identity_conflict)
         else (if commit then t\<lparr>ct_local := Some (as_local a), ct_remote := Some (as_remote a)\<rparr> else t, Inr ())
     | _ \<Rightarrow> (t, Inl Identity_conflict))"

section \<open>The transport refines the board\<close>

datatype 'y client_event =
    C_progress client_inputs
  | C_submit nanos "'y submission"
  | C_associate "association list" bool
  | C_close_admission
  | C_reconnect nanos
  | C_detach nanos

fun client_step :: "('y, 'h, 'i, 'f) runtime \<Rightarrow> ('y, 'h, 'i) client_transport \<Rightarrow> 'y client_event \<Rightarrow> ('y, 'h, 'i) client_transport" where
  "client_step R t (C_progress inp) = fst (client_progress R inp t)"
| "client_step R t (C_submit now s) = fst (client_send R now s t)"
| "client_step R t (C_associate as commit) = fst (client_associate as commit t)"
| "client_step R t C_close_admission = client_close_admission t"
| "client_step R t (C_reconnect now) = request_reconnect R now t"
| "client_step R t (C_detach now) = client_detach R now t"

definition client_board :: "('y, 'h, 'i) client_transport \<Rightarrow> board" where
  "client_board t = \<lparr>bd_slots = map (\<lambda>sl. (occupied sl, sl_generation sl)) (ct_slots t), bd_accepted = ct_accepted t, bd_done = ct_done t\<rparr>"

text \<open>There is a connection or one is asked for, and without one nothing waits.\<close>

definition client_ok :: "('y, 'h, 'i) client_transport \<Rightarrow> bool" where
  "client_ok t \<longleftrightarrow> length (ct_slots t) = client_slots \<and> cs_queue_limit (ct_setup t) \<le> client_slots \<and>
     (ct_reconnect t \<longleftrightarrow> \<not> ct_connected t) \<and> (\<not> ct_connected t \<longrightarrow> list_all (\<lambda>sl. \<not> occupied sl) (ct_slots t))"

definition client_cleared :: "'y slot \<Rightarrow> 'y slot" where
  "client_cleared sl = sl\<lparr>sl_submission := None, sl_credit := None, sl_generation := sl_generation sl + 1\<rparr>"

lemma client_cleared_simps [simp]: "\<not> occupied (client_cleared sl)" "sl_generation (client_cleared sl) = sl_generation sl + 1"
  by (simp_all add: client_cleared_def occupied_def)

lemma client_complete_fields [simp]:
  "ct_slots (client_complete R r i t) = (ct_slots t)[i := client_cleared (ct_slots t ! i)]"
  "ct_done (client_complete R r i t) = ct_done t @ [((i, sl_generation (ct_slots t ! i)), r)]"
  "ct_accepted (client_complete R r i t) = ct_accepted t" "ct_connected (client_complete R r i t) = ct_connected t"
  "ct_reconnect (client_complete R r i t) = ct_reconnect t" "ct_setup (client_complete R r i t) = ct_setup t"
  "ct_generation (client_complete R r i t) = ct_generation t" "ct_stream (client_complete R r i t) = ct_stream t"
  "ct_offered (client_complete R r i t) = ct_offered t" "ct_open (client_complete R r i t) = ct_open t"
  "ct_remote (client_complete R r i t) = ct_remote t" "ct_retry_at (client_complete R r i t) = ct_retry_at t"
  "ct_accepting (client_complete R r i t) = ct_accepting t" "ct_local (client_complete R r i t) = ct_local t"
  by (simp_all add: client_complete_def client_cleared_def Let_def)

lemma client_complete_board:
  "i < length (ct_slots t) \<Longrightarrow> occupied (ct_slots t ! i) \<Longrightarrow> board_step (client_board t) (client_board (client_complete R r i t))"
  using board_step.complete [of i "client_board t" "sl_generation (ct_slots t ! i)" r]
  by (simp add: client_board_def map_update)

text \<open>Failing the slots one after another.\<close>

definition failed_slot :: "'y slot \<Rightarrow> 'y slot" where
  "failed_slot sl = (if occupied sl then client_cleared sl else sl)"

definition failed_done :: "nat \<Rightarrow> 'y slot list \<Rightarrow> (token \<times> outcome) list" where
  "failed_done n slots = map (\<lambda>i. ((i, sl_generation (slots ! i)), Failed_with Invalid_state)) (filter (\<lambda>i. occupied (slots ! i)) [0..<n])"

lemma failed_slot_free [simp]: "\<not> occupied (failed_slot sl)"
  by (simp add: failed_slot_def)

lemma client_fail_slots:
  "n \<le> length (ct_slots t) \<Longrightarrow>
   ct_slots (foldl (client_fail_slot R) t [0..<n]) = map failed_slot (take n (ct_slots t)) @ drop n (ct_slots t) \<and>
   ct_done (foldl (client_fail_slot R) t [0..<n]) = ct_done t @ failed_done n (ct_slots t) \<and>
   board_steps (client_board t) (client_board (foldl (client_fail_slot R) t [0..<n]))"
proof (induction n)
  case (Suc n)
  define u where "u = foldl (client_fail_slot R) t [0..<n]"
  have u: "ct_slots u = map failed_slot (take n (ct_slots t)) @ drop n (ct_slots t)" "ct_done u = ct_done t @ failed_done n (ct_slots t)"
    "board_steps (client_board t) (client_board u)" using Suc by (simp_all add: u_def)
  have n: "n < length (ct_slots t)" using Suc.prems by simp
  have nth: "ct_slots u ! n = ct_slots t ! n" "length (ct_slots u) = length (ct_slots t)" using n by (simp_all add: u(1) nth_append)
  have app: "map failed_slot (take (Suc n) (ct_slots t)) @ drop (Suc n) (ct_slots t) = (ct_slots u)[n := failed_slot (ct_slots t ! n)]"
    using n by (simp add: u(1) take_Suc_conv_app_nth list_update_append Cons_nth_drop_Suc [symmetric])
  show ?case
  proof (cases "occupied (ct_slots t ! n)")
    case True
    then have v: "foldl (client_fail_slot R) t [0..<Suc n] = client_complete R (Failed_with Invalid_state) n u"
      by (simp add: u_def [symmetric] client_fail_slot_def nth)
    have "board_step (client_board u) (client_board (client_complete R (Failed_with Invalid_state) n u))"
      by (rule client_complete_board) (use n nth True in simp_all)
    then have "board_steps (client_board t) (client_board (client_complete R (Failed_with Invalid_state) n u))"
      using u(3) by (rule rtranclp.rtrancl_into_rtrancl [rotated])
    then show ?thesis unfolding v app using True u(2) by (simp add: failed_slot_def failed_done_def nth)
  next
    case False
    then have v: "foldl (client_fail_slot R) t [0..<Suc n] = u" by (simp add: u_def [symmetric] client_fail_slot_def nth)
    show ?thesis unfolding v app using False u nth n
      by (simp add: failed_slot_def failed_done_def) (metis list_update_id nth(1))
  qed
qed (simp add: failed_done_def)

lemma client_fail_slot_fields [simp]:
  "ct_connected (client_fail_slot R t i) = ct_connected t" "ct_setup (client_fail_slot R t i) = ct_setup t"
  "ct_accepted (client_fail_slot R t i) = ct_accepted t" "ct_generation (client_fail_slot R t i) = ct_generation t"
  "ct_open (client_fail_slot R t i) = ct_open t" "ct_remote (client_fail_slot R t i) = ct_remote t"
  "ct_accepting (client_fail_slot R t i) = ct_accepting t" "ct_stream (client_fail_slot R t i) = ct_stream t"
  "ct_offered (client_fail_slot R t i) = ct_offered t" "ct_local (client_fail_slot R t i) = ct_local t"
  by (simp_all add: client_fail_slot_def)

lemma client_fail_slots_fields [simp]:
  "ct_connected (foldl (client_fail_slot R) t is) = ct_connected t" "ct_setup (foldl (client_fail_slot R) t is) = ct_setup t"
  "ct_accepted (foldl (client_fail_slot R) t is) = ct_accepted t" "ct_generation (foldl (client_fail_slot R) t is) = ct_generation t"
  "ct_open (foldl (client_fail_slot R) t is) = ct_open t" "ct_remote (foldl (client_fail_slot R) t is) = ct_remote t"
  "ct_accepting (foldl (client_fail_slot R) t is) = ct_accepting t" "ct_stream (foldl (client_fail_slot R) t is) = ct_stream t"
  "ct_offered (foldl (client_fail_slot R) t is) = ct_offered t" "ct_local (foldl (client_fail_slot R) t is) = ct_local t"
  by (induction "is" arbitrary: t) simp_all

lemma client_fail_fields [simp]:
  "ct_slots (client_fail R now t) = map failed_slot (ct_slots t)"
  "ct_done (client_fail R now t) = ct_done t @ failed_done (length (ct_slots t)) (ct_slots t)"
  "\<not> ct_connected (client_fail R now t)" "ct_reconnect (client_fail R now t)" "ct_retry_at (client_fail R now t) = now + millis 100"
  "ct_setup (client_fail R now t) = ct_setup t" "ct_accepted (client_fail R now t) = ct_accepted t"
  "ct_generation (client_fail R now t) = ct_generation t" "ct_open (client_fail R now t) = ct_open t"
  "ct_remote (client_fail R now t) = ct_remote t" "ct_accepting (client_fail R now t) = ct_accepting t"
  "ct_local (client_fail R now t) = ct_local t"
  using client_fail_slots [of "length (ct_slots t)" "t\<lparr>ct_connected := False, ct_ingress := ru_disconnect R (ct_ingress t)\<rparr>" R]
  by (simp_all add: client_fail_def)

definition client_refined :: "('y, 'h, 'i) client_transport \<Rightarrow> ('y, 'h, 'i) client_transport \<Rightarrow> bool" where
  "client_refined t u \<longleftrightarrow> client_ok u \<and> board_steps (client_board t) (client_board u)"

lemma client_refined_same: "client_ok u \<Longrightarrow> client_board u = client_board t \<Longrightarrow> client_refined t u"
  by (simp add: client_refined_def)

lemma client_refined_trans: "client_refined t u \<Longrightarrow> client_refined u v \<Longrightarrow> client_refined t v"
  by (auto simp: client_refined_def)

lemma client_fail_refined:
  "length (ct_slots t) = client_slots \<Longrightarrow> cs_queue_limit (ct_setup t) \<le> client_slots \<Longrightarrow> client_refined t (client_fail R now t)"
proof -
  assume len: "length (ct_slots t) = client_slots" "cs_queue_limit (ct_setup t) \<le> client_slots"
  let ?t = "t\<lparr>ct_connected := False, ct_ingress := ru_disconnect R (ct_ingress t)\<rparr>"
  have "client_board (client_fail R now t) = client_board (foldl (client_fail_slot R) ?t [0..<length (ct_slots ?t)])"
    by (simp add: client_board_def client_fail_def)
  moreover have "client_board ?t = client_board t" by (simp add: client_board_def)
  moreover have "client_ok (client_fail R now t)" using len by (simp add: client_ok_def list_all_iff)
  ultimately show ?thesis using client_fail_slots [of "length (ct_slots ?t)" ?t R] by (simp add: client_refined_def)
qed

lemma client_receive_refined: "client_ok t \<Longrightarrow> ct_connected t \<Longrightarrow> client_refined t (fst (client_receive R outcome later t))"
  using client_fail_refined [of t R later]
    client_fail_refined [of "t\<lparr>ct_ingress := i, ct_route_failures := n\<rparr>" R later for i n]
  by (auto simp: client_receive_def client_ok_def client_refined_def client_board_def split: recv_outcome.splits prod.splits option.splits)

lemma client_account_refined:
  assumes "client_ok t" and "ct_connected t" and "i < length (ct_slots t)" and "occupied (ct_slots t ! i)"
  shows "client_refined t (client_account R i n t)"
proof -
  let ?u = "t\<lparr>ct_slots := (ct_slots t)[i := advance n (ct_slots t ! i)]\<rparr>"
  have u: "client_refined t ?u"
    using assms by (intro client_refined_same) (auto simp: client_ok_def client_board_def map_update intro!: nth_equalityI simp: nth_list_update)
  have "board_step (client_board ?u) (client_board (client_complete R r i ?u))" for r
    by (rule client_complete_board) (use assms in simp_all)
  then have "client_refined ?u (client_complete R r i ?u)" for r
    using assms by (auto simp: client_refined_def client_ok_def)
  from client_refined_trans [OF u this] u show ?thesis by (simp add: client_account_def Let_def)
qed

lemma client_transmit_refined:
  assumes "client_ok t" and "i < length (ct_slots t)" and "occupied (ct_slots t ! i)"
  shows "client_refined t (fst (client_transmit R now outcome later i t))"
proof -
  have f: "client_refined t (client_fail R later t)" using client_fail_refined assms(1) by (auto simp: client_ok_def)
  have a: "client_refined t (client_account R i n (t\<lparr>ct_stream := s\<rparr>))" if "ct_connected t" for n s
    using client_account_refined [of "t\<lparr>ct_stream := s\<rparr>" i R n] assms that
    by (simp add: client_ok_def client_refined_def client_board_def)
  have "client_refined t t" using assms(1) by (intro client_refined_same) simp_all
  with f a show ?thesis by (auto simp: client_transmit_def Let_def split: send_outcome.splits)
qed

lemma client_write_refined: "client_ok t \<Longrightarrow> client_refined t (fst (client_write R inp t))"
proof -
  assume ok: "client_ok t"
  have c: "client_refined t (t\<lparr>ct_cursor := c\<rparr>)" for c
    using ok by (intro client_refined_same) (simp_all add: client_ok_def client_board_def)
  have "client_refined (t\<lparr>ct_cursor := c\<rparr>) (fst (client_transmit R n a l i (t\<lparr>ct_cursor := c\<rparr>)))"
    if "pick (length (ct_slots t)) (ct_cursor t) (ct_slots t) = (c, Some i)" for c i n a l
    by (rule client_transmit_refined)
      (use ok pick_selected [OF _ _ that] in \<open>auto simp: client_ok_def client_slots_def\<close>)
  then have "client_refined t (fst (client_transmit R n a l i (t\<lparr>ct_cursor := c\<rparr>)))"
    if "pick (length (ct_slots t)) (ct_cursor t) (ct_slots t) = (c, Some i)" for c i n a l
    using client_refined_trans [OF c] that by blast
  with c show ?thesis by (auto simp: client_write_def split: prod.splits option.splits)
qed

lemma client_connect_refined: "client_ok t \<Longrightarrow> client_refined t (fst (client_connect R b later s t))"
proof -
  assume ok: "client_ok t"
  then have "client_refined t (client_fail R later (t\<lparr>ct_connected := True, ct_reconnect := False, ct_generation := g, ct_offered := [], ct_stream := [],
      ct_ingress := i\<rparr>))" for g i
    using client_fail_refined [of "t\<lparr>ct_connected := True, ct_reconnect := False, ct_generation := g, ct_offered := [], ct_stream := [], ct_ingress := i\<rparr>" R later]
    by (simp add: client_ok_def client_refined_def client_board_def)
  then show ?thesis using ok
    by (auto simp: client_connect_def Let_def client_refined_def client_ok_def client_board_def split: prod.splits option.splits)
qed

lemma client_progress_refined: "client_ok t \<Longrightarrow> client_refined t (fst (client_progress R inp t))"
proof -
  assume ok: "client_ok t"
  have same: "client_refined t t" using ok by (intro client_refined_same) simp_all
  have rec: "client_refined t u" if "client_receive R (ci_recv inp) (ci_later inp) t = (u, r)" "ct_connected t" for u r
    using client_receive_refined [OF ok that(2), of R "ci_recv inp" "ci_later inp"] that by simp
  have wr: "client_refined t (fst (client_write R inp u))" if "client_refined t u" for u
    using client_refined_trans [OF that client_write_refined] that by (simp add: client_refined_def)
  show ?thesis using same rec wr client_connect_refined [OF ok] client_write_refined [OF ok]
    by (auto simp: client_progress_def split: option.splits sum.splits prod.splits bool.splits)
qed

lemma client_send_accepted:
  "client_send R now s t = (u, Inr tok) \<Longrightarrow>
   \<exists>i sl. first_free (ct_slots t) 0 (cs_queue_limit (ct_setup t)) = Some i \<and> ct_slots u = (ct_slots t)[i := sl] \<and>
     sl_submission sl = Some s \<and> sl_credit sl \<noteq> None \<and> sl_segment sl = 0 \<and> sl_offset sl = 0 \<and>
     sl_deadline sl = now + cs_io_timeout (ct_setup t) \<and> sl_generation sl = sl_generation (ct_slots t ! i) \<and>
     tok = (i, sl_generation (ct_slots t ! i)) \<and> ct_accepted u = ct_accepted t @ [tok] \<and> ct_done u = ct_done t \<and>
     ct_connected t \<and> ct_connected u \<and> ct_reconnect u = ct_reconnect t \<and> ct_setup u = ct_setup t \<and> ct_generation u = ct_generation t \<and>
     ct_offered u = ct_offered t @ [concat (su_storage s)] \<and> ct_stream u = ct_stream t \<and> ct_open u \<and> ct_remote u = ct_remote t"
  by (auto simp: client_send_def Let_def split: if_splits sum.splits option.splits)

lemma client_send_rejected:
  "client_send R now s t = (u, Inl e) \<Longrightarrow> \<exists>h. u = t\<lparr>ct_host := h\<rparr>"
  by (auto simp: client_send_def Let_def split: if_splits sum.splits option.splits intro: exI [of _ "ct_host t"])

lemma client_send_refined: "client_ok t \<Longrightarrow> client_refined t (fst (client_send R now s t))"
proof -
  assume ok: "client_ok t"
  obtain u r where u: "client_send R now s t = (u, r)" by fastforce
  show ?thesis
  proof (cases r)
    case (Inl e)
    with client_send_rejected [of R now s t u e] u obtain h where "u = t\<lparr>ct_host := h\<rparr>" by auto
    with ok u show ?thesis by (simp add: client_refined_def client_ok_def client_board_def)
  next
    case (Inr tok)
    from client_send_accepted [OF u [unfolded Inr]] obtain i sl where
      i: "first_free (ct_slots t) 0 (cs_queue_limit (ct_setup t)) = Some i" "ct_slots u = (ct_slots t)[i := sl]"
      "sl_generation sl = sl_generation (ct_slots t ! i)" "occupied sl" "ct_accepted u = ct_accepted t @ [(i, sl_generation (ct_slots t ! i))]"
      "ct_done u = ct_done t" "ct_connected t" "ct_connected u" "ct_reconnect u = ct_reconnect t" "ct_setup u = ct_setup t"
      by (auto simp: occupied_def)
    from first_free_Some [OF i(1)] ok have free: "i < length (ct_slots t)" "\<not> occupied (ct_slots t ! i)" by (auto simp: client_ok_def)
    have "client_board u = (client_board t)\<lparr>bd_slots := (bd_slots (client_board t))[i := (True, sl_generation (ct_slots t ! i))],
        bd_accepted := bd_accepted (client_board t) @ [(i, sl_generation (ct_slots t ! i))]\<rparr>"
      using i by (simp add: client_board_def map_update)
    then have "board_step (client_board t) (client_board u)"
      using board_step.place [of i "client_board t" "sl_generation (ct_slots t ! i)"] free by (simp add: client_board_def)
    then show ?thesis using i ok u by (auto simp: client_refined_def client_ok_def)
  qed
qed

lemma client_step_refined: "client_ok t \<Longrightarrow> client_refined t (client_step R t e)"
proof (cases e)
  case (C_progress inp)
  assume "client_ok t"
  then show ?thesis using C_progress client_progress_refined by simp
next
  case (C_submit now s)
  assume "client_ok t"
  then show ?thesis using C_submit client_send_refined by simp
next
  case (C_associate as commit)
  assume "client_ok t"
  then show ?thesis using C_associate
    by (auto simp: client_associate_def client_refined_def client_ok_def client_board_def split: list.splits)
next
  case C_close_admission
  assume "client_ok t"
  then show ?thesis using C_close_admission by (simp add: client_close_admission_def client_refined_def client_ok_def client_board_def)
next
  case (C_reconnect now)
  assume ok: "client_ok t"
  then have "client_refined t (client_fail R now t)" using client_fail_refined by (auto simp: client_ok_def)
  then show ?thesis using C_reconnect ok by (auto simp: request_reconnect_def client_refined_def client_ok_def client_board_def)
next
  case (C_detach now)
  assume ok: "client_ok t"
  then have f: "client_refined (t\<lparr>ct_open := False\<rparr>) (client_fail R now (t\<lparr>ct_open := False\<rparr>))"
    using client_fail_refined [of "t\<lparr>ct_open := False\<rparr>" R now] by (simp add: client_ok_def)
  then have "client_refined t ((client_fail R now (t\<lparr>ct_open := False\<rparr>))\<lparr>ct_ingress := i\<rparr>)" for i
    unfolding client_refined_def by (simp add: client_ok_def client_board_def del: client_fail_fields(1,2))
  then show ?thesis using C_detach ok by (auto simp: client_detach_def Let_def client_refined_same)
qed

interpretation client: completion_board "client_step R" client_board client_ok for R
  using client_step_refined unfolding client_refined_def by unfold_locales blast+

lemma new_client_ok: "valid_client_setup c \<Longrightarrow> client_ok (new_client c host ingress)"
  by (simp add: client_ok_def new_client_def valid_client_setup_def client_slots_def occupied_def empty_slot_def list_all_iff)

lemma new_client_board: "client_board (new_client c host ingress) = new_board client_slots"
  by (simp add: client_board_def new_client_def new_board_def occupied_def empty_slot_def)

lemma client_pending_iff: "client_pending t tok \<longleftrightarrow> tok \<in> set (pending_tokens (client_board t))"
  by (cases tok) (auto simp: client_pending_def set_pending_tokens client_board_def)

lemma client_board_fields: "bd_accepted (client_board t) = ct_accepted t" "bd_done (client_board t) = ct_done t"
  by (simp_all add: client_board_def)

text \<open>The controller's transport, too, completes every accepted submission at most once: after any sequence of submissions,
  passes with any outcome of their system calls, reconnections and closings, tokens are distinct, no token has two
  completions, and every token is either completed or still pending.\<close>

lemma client_completes_once:
  assumes "valid_client_setup c" and "t = foldl (client_step R) (new_client c host ingress) es" and "length (ct_done t) < 2 ^ 64 - 1"
  shows "distinct (ct_accepted t) \<and> distinct (map fst (ct_done t)) \<and>
    (\<forall>tok. tok \<in> set (ct_accepted t) \<longleftrightarrow> (tok \<in> set (map fst (ct_done t))) \<noteq> client_pending t tok)"
proof -
  have ok: "board_ok (client_board t)"
    unfolding assms(2) by (rule client.run_board_ok)
      (use assms(3) in \<open>simp_all add: assms(2) [symmetric] new_client_ok [OF assms(1)] new_client_board new_board_ok, simp add: client_board_def\<close>)
  note b = client_board_fields
  have "distinct (ct_accepted t)" "distinct (map fst (ct_done t))"
    "set (ct_accepted t) = set (map fst (ct_done t)) \<union> set (pending_tokens (client_board t))"
    using ok unfolding board_ok_def b by blast+
  then show ?thesis using done_not_pending [OF ok] unfolding client_pending_iff b by blast
qed

section \<open>Failures\<close>

lemma failed_done_pending:
  "failed_done (length (ct_slots t)) (ct_slots t) = map (\<lambda>tok. (tok, Failed_with Invalid_state)) (pending_tokens (client_board t))"
proof -
  have "filter (\<lambda>i. occupied (ct_slots t ! i)) [0..<length (ct_slots t)] =
      filter (\<lambda>i. fst (bd_slots (client_board t) ! i)) [0..<length (ct_slots t)]"
    by (rule filter_cong) (simp_all add: client_board_def)
  then show ?thesis by (simp add: failed_done_def pending_tokens_def) (simp add: client_board_def)
qed

lemma client_idle:
  assumes "client_ok u" and "\<not> ct_connected u"
  shows "\<exists>c. client_write R inp u = (u\<lparr>ct_cursor := c\<rparr>, Inr False)"
proof -
  obtain c r where p: "pick (length (ct_slots u)) (ct_cursor u) (ct_slots u) = (c, r)" by fastforce
  have "r = None"
  proof (cases r)
    case (Some i)
    have "0 < length (ct_slots u)" "length (ct_slots u) < 2 ^ 64" using assms by (simp_all add: client_ok_def client_slots_def)
    from pick_selected [OF this p [unfolded Some]] assms show ?thesis by (auto simp: client_ok_def list_all_length)
  qed
  with p show ?thesis by (auto simp: client_write_def)
qed

text \<open>An operation in the 100 milliseconds after \<open>start\<close>: passes read the clock before the end of them, and a detaching
  not before their start.\<close>

fun while_waiting :: "nanos \<Rightarrow> 'y client_event \<Rightarrow> bool" where
  "while_waiting start (C_progress inp) \<longleftrightarrow> ci_now inp < start + millis 100"
| "while_waiting start (C_detach now) \<longleftrightarrow> start \<le> now"
| "while_waiting start e \<longleftrightarrow> True"

text \<open>No connection, and none before the retry time.\<close>

definition waits_until :: "nanos \<Rightarrow> ('y, 'h, 'i) client_transport \<Rightarrow> bool" where
  "waits_until time t \<longleftrightarrow> client_ok t \<and> \<not> ct_connected t \<and> ct_reconnect t \<and> time \<le> ct_retry_at t"

lemma none_pending: "client_ok t \<Longrightarrow> \<not> ct_connected t \<Longrightarrow> \<not> client_pending t tok"
  by (auto simp: client_ok_def client_pending_def list_all_length)

lemma waiting_step:
  assumes "waits_until (start + millis 100) t" and "while_waiting start e"
  shows "waits_until (start + millis 100) (client_step R t e) \<and> ct_generation (client_step R t e) = ct_generation t \<and>
    ct_done (client_step R t e) = ct_done t"
proof -
  have t: "client_ok t" "\<not> ct_connected t" "ct_reconnect t" "start + millis 100 \<le> ct_retry_at t"
    using assms(1) by (simp_all add: waits_until_def)
  have ok: "client_ok (client_step R t e)" using client_step_refined [OF t(1), of R e] by (simp add: client_refined_def)
  have none: "failed_done (length (ct_slots t)) (ct_slots t) = []"
    using none_pending [OF t(1,2)] by (simp add: failed_done_pending client_pending_iff) (metis ex_in_conv set_empty)
  show ?thesis
  proof (cases e)
    case (C_progress inp)
    then show ?thesis using client_idle [OF t(1,2), of R inp] t assms(2) ok
      by (auto simp: client_progress_def waits_until_def)
  next
    case (C_submit now s)
    then show ?thesis using t ok by (simp add: client_send_def waits_until_def)
  next
    case (C_associate as commit)
    then show ?thesis using t ok by (auto simp: client_associate_def waits_until_def split: list.splits)
  next
    case C_close_admission
    then show ?thesis using t ok by (simp add: client_close_admission_def waits_until_def)
  next
    case (C_reconnect now)
    then show ?thesis using t ok by (simp add: request_reconnect_def waits_until_def)
  next
    case (C_detach now)
    then show ?thesis using t ok assms(2) none
      by (auto simp: client_detach_def waits_until_def Let_def)
  qed
qed

lemma waiting_run:
  "waits_until (start + millis 100) t \<Longrightarrow> list_all (while_waiting start) es \<Longrightarrow>
   waits_until (start + millis 100) (foldl (client_step R) t es) \<and> ct_generation (foldl (client_step R) t es) = ct_generation t \<and>
   ct_done (foldl (client_step R) t es) = ct_done t"
proof (induction es arbitrary: t)
  case (Cons e es)
  note s = waiting_step [OF Cons.prems(1), of e R]
  show ?case using Cons.IH [of "client_step R t e"] s Cons.prems(2) by simp
qed simp

text \<open>C38. A failure of the connection (a close, an error, a malformed packet, a deadline, a request to reconnect: every path that calls
  \<open>fail\<close>) completes every pending submission as failed, in the order of the slots, leaves nothing pending and no
  connection; and in the 100 milliseconds after it no sequence of operations makes a new connection, leaves anything pending
  or completes anything, however many passes there are among them and whatever their system calls would do.\<close>

theorem client_failure_completes_all:
  assumes "client_ok t"
  shows "let u = client_fail R now t in
    ct_done u = ct_done t @ map (\<lambda>tok. (tok, Failed_with Invalid_state)) (pending_tokens (client_board t)) \<and>
    \<not> (\<exists>tok. client_pending u tok) \<and> \<not> ct_connected u \<and> ct_reconnect u \<and> ct_generation u = ct_generation t \<and>
    (\<forall>es. list_all (while_waiting now) es \<longrightarrow>
      (let v = foldl (client_step R) u es
       in \<not> ct_connected v \<and> ct_reconnect v \<and> ct_generation v = ct_generation t \<and> ct_done v = ct_done u \<and> \<not> (\<exists>tok. client_pending v tok)))"
proof -
  let ?u = "client_fail R now t"
  have ok: "client_ok ?u" using client_fail_refined [of t R now] assms by (auto simp: client_ok_def client_refined_def)
  then have "waits_until (now + millis 100) ?u" by (simp add: waits_until_def)
  note run = waiting_run [OF this, of _ R]
  have "\<not> client_pending (foldl (client_step R) ?u es) tok" if "list_all (while_waiting now) es" for es tok
    by (rule none_pending) (use run [OF that] in \<open>simp_all add: waits_until_def\<close>)
  then show ?thesis
    using run none_pending [OF ok] by (auto simp: Let_def failed_done_pending waits_until_def)
qed

section \<open>A generation names a connection\<close>

text \<open>The same connection still: completions since then succeeded, and the bytes written extend those of then.\<close>

definition same_connection :: "('y, 'h, 'i) client_transport \<Rightarrow> ('y, 'h, 'i) client_transport \<Rightarrow> bool" where
  "same_connection t u \<longleftrightarrow> ct_connected t \<and>
     (\<exists>ds. ct_done u = ct_done t @ ds \<and> list_all (\<lambda>d. case snd d of Succeeded n \<Rightarrow> True | Failed_with e \<Rightarrow> False) ds) \<and>
     (\<exists>bs. ct_stream u = ct_stream t @ bs)"

definition continues :: "('y, 'h, 'i) client_transport \<Rightarrow> ('y, 'h, 'i) client_transport \<Rightarrow> bool" where
  "continues t u \<longleftrightarrow> ct_generation u = ct_generation t \<and> (ct_connected u \<longrightarrow> same_connection t u)"

lemma same_connection_refl: "ct_connected t \<Longrightarrow> same_connection t t"
  by (simp add: same_connection_def)

lemma same_connection_trans: "same_connection t u \<Longrightarrow> same_connection u v \<Longrightarrow> same_connection t v"
  by (fastforce simp: same_connection_def)

lemma continues_refl: "continues t t"
  by (simp add: continues_def same_connection_refl)

lemma continues_trans: "continues t u \<Longrightarrow> continues u v \<Longrightarrow> continues t v"
  by (auto simp: continues_def intro: same_connection_trans simp: same_connection_def [of u v])

lemma continues_fail: "continues t (client_fail R now u)" if "ct_generation u = ct_generation t"
  using that by (simp add: continues_def)

lemma continues_quiet:
  "ct_generation u = ct_generation t \<Longrightarrow> (ct_connected u \<Longrightarrow> ct_connected t) \<Longrightarrow> ct_done u = ct_done t \<Longrightarrow> ct_stream u = ct_stream t \<Longrightarrow> continues t u"
  by (simp add: continues_def same_connection_def)

lemma continues_receive: "continues t (fst (client_receive R outcome later t))"
  by (auto simp: client_receive_def split: recv_outcome.splits prod.splits option.splits
      intro!: continues_fail intro: continues_refl continues_quiet)

lemma continues_account: "continues t (client_account R i n (t\<lparr>ct_stream := ct_stream t @ w\<rparr>))"
  by (simp add: client_account_def Let_def continues_def same_connection_def)

lemma continues_transmit: "continues t (fst (client_transmit R now outcome later i t))"
  by (auto simp: client_transmit_def Let_def split: send_outcome.splits
      intro!: continues_fail continues_account intro: continues_refl)

lemma continues_write: "continues t (fst (client_write R inp t))"
proof -
  have c: "continues t (t\<lparr>ct_cursor := c\<rparr>)" for c by (rule continues_quiet) simp_all
  show ?thesis using c continues_trans [OF c continues_transmit]
    by (auto simp: client_write_def split: prod.splits option.splits)
qed

lemma client_step_connection:
  "continues t (client_step R t e) \<or> ct_generation (client_step R t e) = ct_generation t + 1"
proof (cases e)
  case (C_progress inp)
  have conn: "continues t (fst (client_connect R b later s t)) \<or> ct_generation (fst (client_connect R b later s t)) = ct_generation t + 1" for b later s
    by (auto simp: client_connect_def Let_def split: prod.splits option.splits intro: continues_quiet)
  have rec: "continues t u" if "client_receive R outcome later t = (u, r)" for outcome later u r
    using continues_receive [of t R outcome later] that by simp
  have wr: "continues t (fst (client_write R inp u))" if "continues t u" for u
    using continues_trans [OF that continues_write] .
  show ?thesis using conn rec wr wr [OF continues_refl] C_progress continues_refl
    by (auto simp: client_progress_def split: option.splits sum.splits prod.splits bool.splits)
next
  case (C_submit now s)
  obtain u r where u: "client_send R now s t = (u, r)" by fastforce
  have "continues t u"
  proof (cases r)
    case (Inl e)
    with client_send_rejected [of R now s t u e] u show ?thesis by (auto intro: continues_quiet)
  next
    case (Inr tok)
    with client_send_accepted [of R now s t u tok] u show ?thesis by (auto intro!: continues_quiet)
  qed
  with C_submit u show ?thesis by simp
next
  case (C_associate as commit)
  then show ?thesis by (auto simp: client_associate_def split: list.splits intro: continues_quiet continues_refl)
next
  case C_close_admission
  then show ?thesis by (auto simp: client_close_admission_def intro: continues_quiet)
next
  case (C_reconnect now)
  then show ?thesis by (auto simp: request_reconnect_def intro: continues_fail continues_quiet)
next
  case (C_detach now)
  then show ?thesis by (auto simp: client_detach_def Let_def continues_def same_connection_refl)
qed

lemma client_run_connection:
  assumes "unat (ct_generation t) + length es < 2 ^ 64" and "u = foldl (client_step R) t es"
  shows "unat (ct_generation u) \<le> unat (ct_generation t) + length es \<and> (continues t u \<or> unat (ct_generation t) < unat (ct_generation u))"
  using assms
proof (induction es arbitrary: u rule: rev_induct)
  case (snoc e es)
  define v where "v = foldl (client_step R) t es"
  have v: "unat (ct_generation v) \<le> unat (ct_generation t) + length es"
    "continues t v \<or> unat (ct_generation t) < unat (ct_generation v)"
    using snoc.IH [OF _ v_def] snoc.prems(1) by auto
  have bound: "unat (ct_generation v) + 1 < 2 ^ 64" using v(1) snoc.prems(1) by simp
  have u: "u = client_step R v e" using snoc.prems(2) by (simp add: v_def)
  from client_step_connection [of v R e] show ?case
  proof
    assume "continues v (client_step R v e)"
    then show ?thesis using v u continues_trans [of t v u] by (auto simp: continues_def)
  next
    assume "ct_generation (client_step R v e) = ct_generation v + 1"
    then have "unat (ct_generation u) = unat (ct_generation v) + 1" using u unat_add_1 [OF bound] by simp
    then show ?thesis using v by (auto simp: continues_def)
  qed
qed (simp add: continues_refl)

text \<open>C8. The generation the controller compares names one connection: if after any sequence of operations the transport is connected and
  the generation is what it was, then it was connected before, nothing failed in between (every completion
  published succeeded) and the bytes written were appended to those of the same connection.\<close>

theorem client_generation_names_connection:
  assumes "unat (ct_generation t) + length es < 2 ^ 64" and "u = foldl (client_step R) t es"
    and "ct_connected u" and "ct_generation u = ct_generation t"
  shows "ct_connected t \<and> (\<exists>ds. ct_done u = ct_done t @ ds \<and> list_all (\<lambda>d. case snd d of Succeeded n \<Rightarrow> True | Failed_with e \<Rightarrow> False) ds) \<and>
    (\<exists>bs. ct_stream u = ct_stream t @ bs)"
  using client_run_connection [OF assms(1,2)] assms(3,4) by (auto simp: continues_def same_connection_def)

section \<open>The bytes on the connection\<close>

text \<open>Only the first slot is used, its position is valid, and what was accepted on the connection is what was written and what is left.\<close>

definition exact :: "('y, 'h, 'i) client_transport \<Rightarrow> bool" where
  "exact t \<longleftrightarrow> cs_queue_limit (ct_setup t) = 1 \<and> list_all (\<lambda>sl. \<not> occupied sl) (drop 1 (ct_slots t)) \<and>
     (occupied (ct_slots t ! 0) \<longrightarrow> positioned (ct_slots t ! 0)) \<and>
     (ct_connected t \<longrightarrow> concat (ct_offered t) = ct_stream t @ unsent (ct_slots t ! 0))"

lemma unsent_free [simp]: "\<not> occupied sl \<Longrightarrow> unsent sl = []"
  by (simp add: occupied_def unsent_def storage_def)

lemma exact_fail:
  assumes "length (ct_slots t) = client_slots" and "cs_queue_limit (ct_setup t) = 1"
  shows "exact (client_fail R now t)"
  using assms by (auto simp: exact_def client_slots_def list_all_length)

lemma exact_upd [simp]:
  "exact (t\<lparr>ct_cursor := c\<rparr>) = exact t" "exact (t\<lparr>ct_host := h\<rparr>) = exact t" "exact (t\<lparr>ct_ingress := i\<rparr>) = exact t"
  "exact (t\<lparr>ct_ingress := i, ct_received_packets := n\<rparr>) = exact t" "exact (t\<lparr>ct_accepting := b\<rparr>) = exact t"
  "exact (t\<lparr>ct_local := l, ct_remote := r\<rparr>) = exact t" "exact (t\<lparr>ct_reconnect := b\<rparr>) = exact t" "exact (t\<lparr>ct_retry_at := now\<rparr>) = exact t"
  by (simp_all add: exact_def)

lemma exact_receive: "client_ok t \<Longrightarrow> exact t \<Longrightarrow> exact (fst (client_receive R outcome later t))"
  using exact_fail [of t R later] exact_fail [of "t\<lparr>ct_ingress := i, ct_route_failures := n\<rparr>" R later for i n]
  by (auto simp: client_receive_def client_ok_def exact_def [of t] split: recv_outcome.splits prod.splits option.splits)

lemma rest_unsent: "positioned sl \<Longrightarrow> concat (rest_from (sl_offset sl) (drop (sl_segment sl) (storage sl))) = unsent sl"
  by (auto simp: positioned_def rest_from_def unsent_def split: list.splits simp flip: Cons_nth_drop_Suc)

lemma exact_account:
  assumes "client_ok t" and "exact t" and "ct_connected t" and "occupied (ct_slots t ! 0)" and "w = take n (unsent (ct_slots t ! 0))"
  shows "exact (client_account R 0 (length w) (t\<lparr>ct_stream := ct_stream t @ w\<rparr>))"
proof -
  let ?sl = "ct_slots t ! 0" and ?adv = "advance (length w) (ct_slots t ! 0)"
  have pos: "positioned ?sl" using assms(2,4) by (simp add: exact_def)
  have len: "length w \<le> length (unsent ?sl)" "unsent ?sl = w @ drop (length w) (unsent ?sl)"
    using assms(5) by simp_all (metis append_take_drop_id length_take min.commute take_all_iff linorder_le_cases min_absorb1 drop_all drop_eq_Nil)
  note adv = unsent_advance [OF pos len(1)]
  have ne: "0 < length (ct_slots t)" using assms(1) by (simp add: client_ok_def client_slots_def)
  have rest: "unsent ?adv = [] \<longleftrightarrow> sl_segment ?adv = length (storage ?adv)" using positioned_done adv by blast
  have "list_all (\<lambda>sl. \<not> occupied sl) (drop (Suc 0) ((ct_slots t)[0 := x]))" for x
    using assms(2) by (simp add: exact_def)
  then show ?thesis using assms(2,3) adv len(2) rest ne
    by (auto simp: client_account_def Let_def exact_def)
qed

lemma exact_transmit:
  assumes "client_ok t" and "exact t" and "i < length (ct_slots t)" and "occupied (ct_slots t ! i)"
  shows "exact (fst (client_transmit R now outcome later i t))"
proof -
  have i: "i = 0"
  proof (cases i)
    case (Suc j)
    then show ?thesis using assms(2-4) by (auto simp: exact_def list_all_length)
  qed
  have "exact (client_fail R later t)" using exact_fail assms(1,2) by (auto simp: client_ok_def exact_def [of t])
  then show ?thesis
    using exact_account [OF assms(1,2), of "take n (unsent (ct_slots t ! 0))" n R for n] assms(2,4) i
      rest_unsent [of "ct_slots t ! 0"]
    by (auto simp: client_transmit_def Let_def exact_def [of t] split: send_outcome.splits)
qed

lemma exact_write: "client_ok t \<Longrightarrow> exact t \<Longrightarrow> exact (fst (client_write R inp t))"
proof -
  assume ok: "client_ok t" and ex: "exact t"
  have ok': "client_ok (t\<lparr>ct_cursor := c\<rparr>)" for c using ok by (simp add: client_ok_def)
  have "exact (fst (client_transmit R n a l i (t\<lparr>ct_cursor := c\<rparr>)))"
    if "pick (length (ct_slots t)) (ct_cursor t) (ct_slots t) = (c, Some i)" for c i n a l
    by (rule exact_transmit) (use ok' ex ok pick_selected [OF _ _ that] in \<open>auto simp: client_ok_def client_slots_def\<close>)
  then show ?thesis using ex by (auto simp: client_write_def split: prod.splits option.splits)
qed

lemma exact_connect: "client_ok t \<Longrightarrow> exact t \<Longrightarrow> ct_reconnect t \<Longrightarrow> exact (fst (client_connect R b later s t))"
proof -
  assume ok: "client_ok t" and ex: "exact t" and rc: "ct_reconnect t"
  have "\<not> occupied (ct_slots t ! 0)" using ok rc by (auto simp: client_ok_def client_slots_def list_all_length)
  then have "exact (t\<lparr>ct_connected := True, ct_reconnect := False, ct_generation := g, ct_offered := [], ct_stream := []\<rparr>)" for g
    using ex by (simp add: exact_def)
  moreover have "exact (client_fail R later (t\<lparr>ct_connected := True, ct_reconnect := False, ct_generation := g, ct_offered := [],
      ct_stream := [], ct_ingress := i\<rparr>))" for g i
    using exact_fail [of "t\<lparr>ct_connected := True, ct_reconnect := False, ct_generation := g, ct_offered := [], ct_stream := [], ct_ingress := i\<rparr>" R later]
      ok ex by (simp add: client_ok_def exact_def [of t])
  ultimately show ?thesis using ex by (auto simp: client_connect_def Let_def split: prod.splits option.splits)
qed

lemma exact_send:
  assumes "client_ok t" and "exact t" and "list_all (\<lambda>b. b \<noteq> []) (su_storage s)"
  shows "exact (fst (client_send R now s t))"
proof -
  obtain u r where u: "client_send R now s t = (u, r)" by fastforce
  show ?thesis
  proof (cases r)
    case (Inl e)
    with client_send_rejected [of R now s t u e] u assms(2) show ?thesis by auto
  next
    case (Inr tok)
    from client_send_accepted [OF u [unfolded Inr]] obtain i sl where
      i: "first_free (ct_slots t) 0 (cs_queue_limit (ct_setup t)) = Some i" "ct_slots u = (ct_slots t)[i := sl]"
      "sl_submission sl = Some s" "sl_segment sl = 0" "sl_offset sl = 0" "ct_setup u = ct_setup t" "ct_connected t" "ct_connected u"
      "ct_offered u = ct_offered t @ [concat (su_storage s)]" "ct_stream u = ct_stream t" by blast
    from first_free_Some [OF i(1)] assms(2) have free: "i = 0" "\<not> occupied (ct_slots t ! 0)" by (auto simp: exact_def)
    have st: "storage sl = su_storage s" using i(3) by (simp add: storage_def)
    have "unsent sl = concat (su_storage s)" using i(4,5) st by (cases "su_storage s") (simp_all add: unsent_def)
    moreover have "positioned sl" using i(4,5) st assms(3) by (cases "su_storage s") (simp_all add: positioned_def)
    moreover have "0 < length (ct_slots t)" using assms(1) by (simp add: client_ok_def client_slots_def)
    ultimately have "exact u" using assms(2) i free by (simp add: exact_def)
    with u show ?thesis by simp
  qed
qed

text \<open>The submissions of an event have no empty segment.\<close>

definition whole_segments :: "'y client_event \<Rightarrow> bool" where
  "whole_segments e = (case e of C_submit now s \<Rightarrow> list_all (\<lambda>b. b \<noteq> []) (su_storage s) | _ \<Rightarrow> True)"

lemma exact_step: "client_ok t \<Longrightarrow> exact t \<Longrightarrow> whole_segments e \<Longrightarrow> exact (client_step R t e)"
proof (cases e)
  case (C_progress inp)
  assume ok: "client_ok t" and ex: "exact t"
  have rec: "exact u \<and> client_ok u" if "client_receive R outcome later t = (u, r)" "ct_connected t" for outcome later u r
    using exact_receive [OF ok ex, of R outcome later] client_receive_refined [OF ok that(2), of R outcome later] that
    by (simp add: client_refined_def)
  have wr: "exact (fst (client_write R inp u))" if "client_receive R (ci_recv inp) (ci_later inp) t = (u, r)" "ct_connected t" for u r
    using exact_write rec [OF that] by blast
  show ?thesis using C_progress rec wr ok ex exact_write [OF ok ex] exact_connect [OF ok ex]
    by (auto simp: client_progress_def split: option.splits sum.splits prod.splits bool.splits if_splits)
next
  case (C_submit now s)
  assume "client_ok t" "exact t" "whole_segments e"
  then show ?thesis using C_submit exact_send by (simp add: whole_segments_def)
next
  case (C_associate as commit)
  assume "client_ok t" "exact t"
  then show ?thesis using C_associate by (auto simp: client_associate_def split: list.splits)
next
  case C_close_admission
  assume "exact t"
  then show ?thesis using C_close_admission by (simp add: client_close_admission_def)
next
  case (C_reconnect now)
  assume "client_ok t" "exact t"
  then show ?thesis using C_reconnect exact_fail [of t R now] by (auto simp: request_reconnect_def client_ok_def exact_def [of t])
next
  case (C_detach now)
  assume "client_ok t" "exact t"
  then show ?thesis using C_detach exact_fail [of "t\<lparr>ct_open := False\<rparr>" R now]
    by (auto simp: client_detach_def Let_def client_ok_def exact_def [of t])
qed

lemma exact_run:
  "client_ok t \<Longrightarrow> exact t \<Longrightarrow> list_all whole_segments es \<Longrightarrow> exact (foldl (client_step R) t es)"
proof (induction es arbitrary: t)
  case (Cons e es)
  then show ?case using exact_step [of t e R] client_step_refined [of t R e] by (simp add: client_refined_def)
qed simp

text \<open>C13. With a queue of one command the connection carries the commands whole and in order: at any moment the bytes
  written to it, followed by those of the pending command that are not written yet, are the commands accepted
  since it was made, one after another.\<close>

theorem client_stream_exact:
  assumes "valid_client_setup c" and "cs_queue_limit c = 1" and "list_all whole_segments es"
    and "t = foldl (client_step R) (new_client c host ingress) es" and "ct_connected t"
  shows "concat (ct_offered t) = ct_stream t @ unsent (ct_slots t ! 0)"
proof -
  have "exact (new_client c host ingress)"
    using assms(2) by (simp add: exact_def new_client_def client_slots_def occupied_def empty_slot_def list_all_length)
  from exact_run [OF new_client_ok [OF assms(1)] this assms(3), of R] assms(4,5) show ?thesis by (simp add: exact_def)
qed

section \<open>Examples\<close>

text \<open>A runtime for which every packet is a command, and a transport that has written a byte of one.\<close>

definition client_runtime :: "(unit, unit, unit, unit) runtime" where
  "client_runtime = \<lparr>ru_inspect = (\<lambda>segments. Inr \<lparr>fr_type = (), fr_cancel = False, fr_stream = None, fr_count = 0,
       fr_bytes = byte_size segments\<rparr>),
     ru_is_command = (\<lambda>y. True), ru_acquire = (\<lambda>h r. Inr h), ru_return = (\<lambda>h r. h), ru_count = (\<lambda>h k n. Inr h),
     ru_feed = (\<lambda>i bs. (i, Some 0)), ru_disconnect = (\<lambda>i. i), ru_shutdown = (\<lambda>i. i), ru_reconnect = (\<lambda>i s. (i, None)),
     ru_stalled = (\<lambda>i. False), ru_frames = (\<lambda>f bs. (f, [], True)), ru_framer_disconnect = (\<lambda>f. f),
     ru_framer_reconnect = (\<lambda>f. f), ru_envelope = (\<lambda>bs. None), ru_packet = (\<lambda>bs. None), ru_cam = (\<lambda>e. None)\<rparr>"

definition client_example_setup :: client_setup where
  "client_example_setup = \<lparr>cs_radio = \<lparr>cr_id = ''r1'', cr_sid = 7, cr_control_host = ''10.0.0.1'', cr_control_port = 5000,
      cr_status_host = ''10.0.0.1'', cr_status_port = 5001, cr_center_hz = 100000000, cr_sample_rate_hz = 1000000,
      cr_bandwidth_hz = 1000000, cr_gain_db_q7 = 0\<rparr>, cs_queue_limit = 1, cs_io_timeout = millis 2000\<rparr>"

definition client_example_submission :: "unit submission" where
  "client_example_submission = \<lparr>su_source = \<lparr>se_peer = 1, se_generation = 1\<rparr>, su_reserved = True,
     su_counter = \<lparr>ck_sender = 1, ck_stream = None, ck_type = ()\<rparr>, su_storage = [[1, 2], [3]], su_completion_credit = 1, su_credit_owned = True\<rparr>"

definition client_pass :: "nanos \<Rightarrow> client_inputs" where
  "client_pass now = \<lparr>ci_now = now, ci_connects = True, ci_recv = Recv_retry, ci_deadline = now, ci_send = Sent 1, ci_later = now\<rparr>"

definition client_connecting :: "unit client_event list" where
  "client_connecting = [C_associate [\<lparr>as_sid = 7, as_local = \<lparr>se_peer = 1, se_generation = 1\<rparr>, as_remote = \<lparr>se_peer = 2, se_generation = 1\<rparr>\<rparr>] True,
     C_progress (client_pass 0)]"

definition client_writing :: "unit client_event list" where
  "client_writing = [C_submit 1 client_example_submission, C_progress (client_pass 2)]"

definition client_start :: "(unit, unit, unit) client_transport" where
  "client_start = new_client client_example_setup () ()"

definition client_linked :: "(unit, unit, unit) client_transport" where
  "client_linked = foldl (client_step client_runtime) client_start client_connecting"

definition client_example_slot :: "unit slot" where
  "client_example_slot = \<lparr>sl_submission = Some client_example_submission, sl_credit = Some Ordinary_queue, sl_segment = 0, sl_offset = 1,
     sl_generation = 1, sl_deadline = 1 + millis 2000, sl_data = False, sl_status_reply = False\<rparr>"

lemma client_example_valid: "valid_client_setup client_example_setup"
  by (simp add: valid_client_setup_def client_example_setup_def millis_def)

lemma client_linked_eq:
  "client_linked = client_start\<lparr>ct_local := Some \<lparr>se_peer = 1, se_generation = 1\<rparr>, ct_remote := Some \<lparr>se_peer = 2, se_generation = 1\<rparr>,
     ct_connected := True, ct_reconnect := False, ct_generation := 1\<rparr>"
  by (simp add: client_linked_def client_connecting_def client_start_def new_client_def client_associate_def client_example_setup_def
      client_progress_def client_connect_def client_pass_def client_runtime_def Let_def)

lemma client_example_first: "first_free (replicate client_slots empty_slot) 0 1 = Some 0"
  by (simp add: first_free_def client_slots_def occupied_def empty_slot_def)

lemma client_written:
  "foldl (client_step client_runtime) client_linked client_writing = client_linked\<lparr>ct_slots := (replicate client_slots empty_slot)[0 := client_example_slot],
     ct_accepted := [(0, 1)], ct_offered := [[1, 2, 3]], ct_stream := [1], ct_cursor := 1\<rparr>"
proof -
  have e: "replicate client_slots empty_slot ! 0 = empty_slot" by (simp add: client_slots_def)
  have p: "pick client_slots 0 ((replicate client_slots empty_slot)[0 := sl]) = (1, Some 0)" if "occupied sl" for sl :: "unit slot"
    using pick.simps(2) [of 63 0 "(replicate client_slots empty_slot)[0 := sl]"] that by (simp add: client_slots_def Let_def del: pick.simps)
  have a: "advance (Suc 0) (client_example_slot\<lparr>sl_offset := 0\<rparr>) = client_example_slot"
    by (subst advance.simps) (simp add: storage_def client_example_slot_def client_example_submission_def Let_def)
  have s: "client_send client_runtime 1 client_example_submission client_linked =
      (client_linked\<lparr>ct_slots := (replicate client_slots empty_slot)[0 := client_example_slot\<lparr>sl_offset := 0\<rparr>],
         ct_accepted := [(0, 1)], ct_offered := [[1, 2, 3]]\<rparr>, Inr (0, 1))"
    by (simp add: client_linked_eq client_start_def new_client_def client_send_def client_runtime_def client_example_submission_def
        client_example_setup_def client_example_first [unfolded One_nat_def] e byte_size_def Let_def)
      (simp add: client_example_slot_def client_example_submission_def empty_slot_def)
  have slot: "occupied (client_example_slot\<lparr>sl_offset := 0\<rparr>)" "storage (client_example_slot\<lparr>sl_offset := 0\<rparr>) = [[1, 2], [3]]"
    "storage client_example_slot = [[1, 2], [3]]"
    by (simp_all add: client_example_slot_def occupied_def storage_def client_example_submission_def)
  have n0: "(replicate client_slots empty_slot)[0 := sl] ! 0 = sl" "length ((replicate client_slots empty_slot)[0 := sl]) = client_slots"
    for sl :: "unit slot" by (simp_all add: client_slots_def)
  have seg: "sl_segment client_example_slot = 0" "\<not> sl_deadline client_example_slot \<le> 2"
    by (simp_all add: client_example_slot_def millis_def)
  have "foldl (client_step client_runtime) client_linked client_writing = fst (client_progress client_runtime (client_pass 2)
      (client_linked\<lparr>ct_slots := (replicate client_slots empty_slot)[0 := client_example_slot\<lparr>sl_offset := 0\<rparr>],
         ct_accepted := [(0, 1)], ct_offered := [[1, 2, 3]]\<rparr>))"
    by (simp add: client_writing_def s)
  also have "\<dots> = client_linked\<lparr>ct_slots := (replicate client_slots empty_slot)[0 := client_example_slot],
     ct_accepted := [(0, 1)], ct_offered := [[1, 2, 3]], ct_stream := [1], ct_cursor := 1\<rparr>"
    by (simp add: client_progress_def client_linked_eq client_start_def new_client_def client_pass_def client_receive_def
        client_write_def p [OF slot(1)] slot n0 seg client_transmit_def rest_from_def client_account_def a Let_def)
  finally show ?thesis .
qed

lemma client_written_state:
  "ct_connected (foldl (client_step client_runtime) client_linked client_writing)"
  "ct_done (foldl (client_step client_runtime) client_linked client_writing) = []"
  "ct_accepted (foldl (client_step client_runtime) client_linked client_writing) = [(0, 1)]"
  "ct_offered (foldl (client_step client_runtime) client_linked client_writing) = [[1, 2, 3]]"
  "ct_stream (foldl (client_step client_runtime) client_linked client_writing) = [1]"
  "ct_generation (foldl (client_step client_runtime) client_linked client_writing) = 1"
  "ct_generation client_linked = 1"
  "ct_slots (foldl (client_step client_runtime) client_linked client_writing) ! 0 = client_example_slot"
  "client_pending (foldl (client_step client_runtime) client_linked client_writing) (0, 1)"
  by (simp_all only: client_written)
    (simp_all add: client_linked_eq client_start_def new_client_def client_slots_def client_pending_def, simp_all add: client_example_slot_def occupied_def)

lemma client_run_eq:
  "foldl (client_step client_runtime) client_linked client_writing =
   foldl (client_step client_runtime) (new_client client_example_setup () ()) (client_connecting @ client_writing)"
  by (simp add: client_linked_def client_start_def)

theorem client_failure_completes_all_witness:
  "let u = client_fail client_runtime 9 client_linked in
    ct_done u = [] \<and> \<not> ct_connected u \<and> \<not> ct_connected (foldl (client_step client_runtime) u [C_progress (client_pass 10), C_detach 20, C_progress (client_pass 30)])"
proof -
  have "client_ok client_linked"
    using client.run [OF new_client_ok [OF client_example_valid], of client_runtime "()" "()" client_connecting]
    unfolding client_linked_def client_start_def by (rule conjunct1)
  note th = client_failure_completes_all [OF this, of client_runtime 9]
  have "ct_done client_linked = []" "ct_slots client_linked = replicate client_slots empty_slot"
    by (simp_all add: client_linked_eq client_start_def new_client_def)
  moreover have "filter (\<lambda>i. occupied (replicate client_slots (empty_slot :: unit slot) ! i)) [0..<client_slots] = []"
    by (auto simp: filter_empty_conv empty_slot_def occupied_def)
  ultimately have "pending_tokens (client_board client_linked) = []"
    by (simp add: pending_tokens_def client_board_def empty_slot_def occupied_def filter_empty_conv)
  moreover have "list_all (while_waiting 9) [C_progress (client_pass 10), C_detach 20, C_progress (client_pass 30)]"
    by (simp add: client_pass_def millis_def)
  ultimately show ?thesis using th \<open>ct_done client_linked = []\<close> unfolding Let_def by fastforce
qed

theorem client_generation_names_connection_witness:
  "ct_connected client_linked \<and> (\<exists>bs. ct_stream (foldl (client_step client_runtime) client_linked client_writing) = ct_stream client_linked @ bs)"
  using client_generation_names_connection [of client_linked client_writing "foldl (client_step client_runtime) client_linked client_writing" client_runtime]
    client_written_state(1,6,7) by (simp add: client_writing_def)

theorem client_stream_exact_witness:
  "concat [[1, 2, 3]] = [1] @ unsent client_example_slot"
  using client_stream_exact [OF client_example_valid _ _ client_run_eq] client_written_state(1,4,5,8)
  by (simp add: client_example_setup_def client_connecting_def client_writing_def whole_segments_def client_example_submission_def)

end
