(* ===== verification/StatusClient.thy ===== *)
theory StatusClient
  imports Status ClientTransport "HOL-Library.Monad_Syntax"
begin

text \<open>
  The controller's side of the status service (\<open>wait_socket\<close>, \<open>write_all\<close> and
  \<open>read_status\<close> of \<open>src/processor_controller.cpp\<close>): a request is written, a response of at
  most 4096 bytes is read and its document is checked. Outcomes of system calls are
  inputs; the JSON library is a parameter.
\<close>

section \<open>Waiting and writing\<close>

text \<open>\<open>poll\<close>: the descriptor has events, among them the wanted one or not; a timeout; an error, \<open>EINTR\<close> or not.\<close>

datatype poll_outcome =
    Poll_events bool
  | Poll_timeout
  | Poll_error bool

text \<open>The rounds of the loop, each with the clock it reads; the deadline has passed after the last.\<close>

fun wait_socket :: "nanos \<Rightarrow> (nanos \<times> poll_outcome) list \<Rightarrow> bool" where
  "wait_socket deadline [] = False"
| "wait_socket deadline ((now, p) # rounds) =
    (if now < deadline
     then (case p of
         Poll_events wanted \<Rightarrow> wanted
       | Poll_timeout \<Rightarrow> wait_socket deadline rounds
       | Poll_error interrupted \<Rightarrow> if \<not> interrupted then False else wait_socket deadline rounds)
     else False)"

text \<open>The rounds of \<open>write_all\<close>: whether the socket became writable, and what \<open>send\<close> did; it writes from an offset.\<close>

fun write_all :: "bytes \<Rightarrow> nat \<Rightarrow> (bool \<times> send_outcome) list \<Rightarrow> nat \<times> bool" where
  "write_all bs off rounds =
    (if off \<ge> length bs then (off, True)
     else case rounds of
         [] \<Rightarrow> (off, False)
       | (ready, outcome) # rounds \<Rightarrow>
          if \<not> ready then (off, False)
          else (case outcome of
              Send_retry \<Rightarrow> write_all bs off rounds
            | Send_failed \<Rightarrow> (off, False)
            | Sent n \<Rightarrow> let n = min n (length bs - off) in if n = 0 then (off, False) else write_all bs (off + n) rounds))"

declare write_all.simps [simp del]

section \<open>The request and the response\<close>

definition status_text :: bytes where
  "status_text = map (\<lambda>c. of_nat (of_char c)) (''{'' @ [CHR 0x22] @ ''version'' @ [CHR 0x22] @ '':1,'' @ [CHR 0x22] @ ''operation'' @
     [CHR 0x22] @ '':'' @ [CHR 0x22] @ ''get_status'' @ [CHR 0x22] @ ''}'')"

definition status_request :: bytes where
  "status_request = map (be_byte (of_nat (length status_text)) 4) [0..<4] @ status_text"

text \<open>
  The text of a response among the bytes received until the peer closes or the deadline
  passes: four bytes of length, then as many bytes.
\<close>

definition response_text :: "bytes \<Rightarrow> bytes option" where
  "response_text stream =
    (if length stream < 4 then None
     else let n = unat (be_value (take 4 stream))
       in if n = 0 \<or> n > 4096 then None
          else if length (drop 4 stream) < n then None
          else Some (take n (drop 4 stream)))"

record status_snapshot =
  sn_boot_id :: string
  sn_generation :: "u64 option"
  sn_admitted_id :: u32
  sn_association :: u64
  sn_ready :: bool
  sn_active :: bool
  sn_streaming :: bool

text \<open>The JSON library: None is an exception.\<close>

record 'j document =
  do_parse :: "bytes \<Rightarrow> 'j option"
  do_at :: "'j \<Rightarrow> string \<Rightarrow> 'j option"
  do_is_int :: "'j \<Rightarrow> int \<Rightarrow> bool"
  do_is_string :: "'j \<Rightarrow> string \<Rightarrow> bool"
  do_is_unsigned :: "'j \<Rightarrow> bool"
  do_is_null :: "'j \<Rightarrow> bool"
  do_u64 :: "'j \<Rightarrow> u64 option"
  do_string :: "'j \<Rightarrow> string option"
  do_bool :: "'j \<Rightarrow> bool option"

definition unsigned_at :: "'j document \<Rightarrow> 'j \<Rightarrow> string \<Rightarrow> u64 option" where
  "unsigned_at J v key = Option.bind (do_at J v key) (\<lambda>x. if do_is_unsigned J x then do_u64 J x else None)"

definition bool_at :: "'j document \<Rightarrow> 'j \<Rightarrow> string \<Rightarrow> bool option" where
  "bool_at J v key = Option.bind (do_at J v key) (do_bool J)"

definition read_snapshot :: "'j document \<Rightarrow> radio_control \<Rightarrow> bytes \<Rightarrow> status_snapshot option" where
  "read_snapshot J config text_bytes = do {
     value \<leftarrow> do_parse J text_bytes;
     version \<leftarrow> do_at J value ''version'';
     radio \<leftarrow> do_at J value ''radio_id'';
     if \<not> do_is_int J version 1 \<or> \<not> do_is_string J radio (cr_id config) then None else do {
     resume \<leftarrow> do_at J value ''command_resume'';
     resume_version \<leftarrow> do_at J resume ''version'';
     sid \<leftarrow> do_at J resume ''sid'';
     if \<not> do_is_int J resume_version 1 \<or> \<not> do_is_int J sid (uint (cr_sid config)) then None else do {
     admitted \<leftarrow> unsigned_at J resume ''last_admitted_id'';
     association \<leftarrow> unsigned_at J resume ''association_generation'';
     if admitted > 0xffffffff \<or> association = 0 then None else do {
     boot \<leftarrow> Option.bind (do_at J value ''boot_id'') (do_string J);
     ready \<leftarrow> bool_at J value ''ready'';
     connection \<leftarrow> do_at J value ''connection'';
     active \<leftarrow> bool_at J connection ''active'';
     streaming \<leftarrow> bool_at J value ''streaming'';
     generation \<leftarrow> do_at J connection ''generation'';
     number \<leftarrow> (if do_is_null J generation then Some None else map_option Some (do_u64 J generation));
     if boot = [] then None
     else Some \<lparr>sn_boot_id = boot, sn_generation = number, sn_admitted_id = ucast admitted, sn_association = association,
                sn_ready = ready, sn_active = active, sn_streaming = streaming\<rparr>}}}}"

text \<open>The outcomes of \<open>read_status\<close>: whether a connection is made, the rounds of the write, the bytes received.\<close>

record status_io =
  io_connects :: bool
  io_writes :: "(bool \<times> send_outcome) list"
  io_received :: bytes

definition read_status :: "'j document \<Rightarrow> radio_control \<Rightarrow> status_io \<Rightarrow> status_snapshot option" where
  "read_status J config io =
    (if \<not> io_connects io then None
     else if \<not> snd (write_all status_request 0 (io_writes io)) then None
     else case response_text (io_received io) of
         None \<Rightarrow> None
       | Some text_bytes \<Rightarrow> read_snapshot J config text_bytes)"

lemma write_all_done: "write_all bs off rounds = (n, True) \<Longrightarrow> off \<le> length bs \<Longrightarrow> n = length bs"
proof (induction bs off rounds rule: write_all.induct)
  case (1 bs off rounds)
  show ?case
  proof (cases "off \<ge> length bs")
    case True
    then show ?thesis using "1.prems" by (subst (asm) write_all.simps) simp
  next
    case False
    then obtain ready outcome rest where r: "rounds = (ready, outcome) # rest"
      using "1.prems"(1) by (cases rounds) (auto simp: write_all.simps)
    show ?thesis
    proof (cases outcome)
      case Send_retry
      then show ?thesis using False r "1.prems" "1.IH"(1) [OF False r refl]
        by (subst (asm) write_all.simps) (auto split: if_splits)
    next
      case Send_failed
      then show ?thesis using False r "1.prems" by (subst (asm) write_all.simps) (auto split: if_splits)
    next
      case (Sent k)
      then show ?thesis using False r "1.prems" "1.IH"(2) [OF False r refl _ Sent refl]
        by (subst (asm) write_all.simps) (auto simp: Let_def split: if_splits)
    qed
  qed
qed

lemma status_text_length: "length status_text = 38"
  by (simp add: status_text_def)

lemma status_request_frame: "status_request = request_frame status_text"
  by (simp only: status_request_def request_frame_def be_bytes_def)

lemma response_text_encoded:
  assumes "encode_status_response p = Inr w" and "take (length w) stream = w"
  shows "response_text stream = Some p"
proof -
  have w: "w = be_bytes 4 (of_nat (length p)) @ p" "p \<noteq> []" "length p \<le> 4096"
    using assms(1) by (simp_all add: encode_status_response_Inr)
  obtain rest where s: "stream = w @ rest" using assms(2) by (metis append_take_drop_id)
  show ?thesis using w by (simp add: s response_text_def length_prefix Let_def)
qed

text \<open>C22. One status exchange, both ends together: once the controller's write succeeds, the radio's decoder, whatever pieces the
  request arrives in, has decoded exactly the request; and when the controller receives what the radio's encoder made of a
  response, it checks exactly the text the radio encoded.\<close>

theorem status_exchange:
  assumes "write_all status_request 0 (io_writes io) = (n, True)" and "io_connects io"
    and "\<forall>c \<in> set cs. c \<noteq> []" and "concat cs = take n status_request"
    and "encode_status_response p = Inr w" and "take (length w) (io_received io) = w"
  shows "decoder_report (foldl feed_state new_decoder cs) = Complete status_text \<and> read_status J config io = read_snapshot J config p"
proof -
  have "concat cs = request_frame status_text"
    using write_all_done [OF assms(1)] assms(4) by (simp add: status_request_frame)
  then have "decoder_report (foldl feed_state new_decoder cs) = Complete status_text"
    using frame_spec_request [of status_text]
    by (simp only: status_request.run_report [OF assms(3)]) (simp add: status_text_length maximum_status_request_bytes_def)
  then show ?thesis using assms(1,2) response_text_encoded [OF assms(5,6)] by (simp add: read_status_def)
qed

text \<open>What is accepted from a radio.\<close>

lemma read_snapshot_checked:
  "read_snapshot J config p = Some s \<Longrightarrow> sn_boot_id s \<noteq> [] \<and> sn_association s \<noteq> 0"
  by (auto simp: read_snapshot_def Option.bind_eq_Some_conv split: if_splits)

lemma read_status_checked: "read_status J config io = Some s \<Longrightarrow> sn_boot_id s \<noteq> [] \<and> sn_association s \<noteq> 0"
  by (auto simp: read_status_def split: if_splits option.splits dest: read_snapshot_checked)

section \<open>An example\<close>

definition example_io :: status_io where
  "example_io = \<lparr>io_connects = True, io_writes = [(True, Sent 20), (True, Send_retry), (True, Sent 30)], io_received = [0, 0, 0, 2, 123, 125]\<rparr>"

definition example_document :: "unit document" where
  "example_document = \<lparr>do_parse = (\<lambda>bs. if bs = [123, 125] then Some () else None), do_at = (\<lambda>v key. None), do_is_int = (\<lambda>v n. False),
     do_is_string = (\<lambda>v s. False), do_is_unsigned = (\<lambda>v. False), do_is_null = (\<lambda>v. True), do_u64 = (\<lambda>v. None),
     do_string = (\<lambda>v. None), do_bool = (\<lambda>v. None)\<rparr>"

theorem status_exchange_witness:
  "decoder_report (foldl feed_state new_decoder [take 5 status_request, drop 5 status_request]) = Complete status_text \<and>
   read_status example_document (cs_radio client_example_setup) example_io =
     read_snapshot example_document (cs_radio client_example_setup) [123, 125]"
proof (rule status_exchange [where n = 42 and w = "[0, 0, 0, 2, 123, 125]"])
  have len: "length status_request = 42" by (simp add: status_request_def status_text_length)
  show "write_all status_request 0 (io_writes example_io) = (42, True)"
    by (simp add: example_io_def write_all.simps len Let_def)
  show "\<forall>c \<in> set [take 5 status_request, drop 5 status_request]. c \<noteq> []" using len by auto
  show "concat [take 5 status_request, drop 5 status_request] = take 42 status_request" using len by simp
  show "encode_status_response [123, 125] = Inr [0, 0, 0, 2, 123, 125]"
    by (simp add: encode_status_response_Inr be_bytes_def be_byte_def upt_rec)
qed (simp_all add: example_io_def)

end
