(* ===== verification/Json.thy ===== *)
theory Json
  imports StatusClient
begin

text \<open>
  What the programs use of the JSON library to read a configuration, and a small model of the
  library's values: the documents the programs write, and an instance of the reading operations
  on which the loaders run.
\<close>

section \<open>Reading\<close>

text \<open>
  The operations of \<open>document\<close> with the conversions the loaders use; None is an exception of the
  library. \<open>re_u32\<close>, \<open>re_i16\<close> and \<open>do_u64\<close> are \<open>get<unsigned>\<close>, \<open>get<std::int16_t>\<close> and
  \<open>get<std::uint64_t>\<close> (and \<open>get<std::size_t>\<close>), \<open>re_double\<close> is \<open>get<double>\<close>.
\<close>

record ('j, 'f) reader = "'j document" +
  re_elements :: "'j \<Rightarrow> 'j list option"
  re_u32 :: "'j \<Rightarrow> u32 option"
  re_i16 :: "'j \<Rightarrow> 16 word option"
  re_double :: "'j \<Rightarrow> 'f option"

text \<open>An exception of a library: the programs only ever catch \<open>std::exception\<close>.\<close>

definition library_exception :: exn where
  "library_exception = Runtime_error ''library''"

definition or_throw :: "'a option \<Rightarrow> 'a result" where
  "or_throw x = (case x of None \<Rightarrow> Inl library_exception | Some y \<Rightarrow> Inr y)"

lemma or_throw_Inr [simp, result_simps]: "or_throw x = Inr y \<longleftrightarrow> x = Some y"
  by (auto simp: or_throw_def split: option.splits)

lemma or_throw_Some [simp]: "or_throw (Some y) = Inr y"
  by (simp add: or_throw_def)

text \<open>\<open>value.at(key)\<close>, a conversion of it, and a comparison with it.\<close>

definition member :: "('j, 'f) reader \<Rightarrow> 'j \<Rightarrow> string \<Rightarrow> 'j result" where
  "member J v key = or_throw (do_at J v key)"

definition member_as :: "('j \<Rightarrow> 'a option) \<Rightarrow> ('j, 'f) reader \<Rightarrow> 'j \<Rightarrow> string \<Rightarrow> 'a result" where
  "member_as get J v key = ebind (member J v key) (\<lambda>x. or_throw (get x))"

definition member_is :: "('j \<Rightarrow> bool) \<Rightarrow> ('j, 'f) reader \<Rightarrow> 'j \<Rightarrow> string \<Rightarrow> bool result" where
  "member_is test J v key = ebind (member J v key) (\<lambda>x. Inr (test x))"

definition size_of :: "('j, 'f) reader \<Rightarrow> 'j \<Rightarrow> nat option" where
  "size_of J v = map_option unat (do_u64 J v)"

text \<open>\<open>&&\<close> on operands that may throw.\<close>

fun and_also :: "bool result \<Rightarrow> bool result \<Rightarrow> bool result" where
  "and_also (Inl e) b = Inl e"
| "and_also (Inr False) b = Inr False"
| "and_also (Inr True) b = b"

lemma and_also_True [result_simps]: "and_also a b = Inr True \<longleftrightarrow> a = Inr True \<and> b = Inr True"
  by (cases "(a, b)" rule: and_also.cases) auto

text \<open>The identity of a document, and the address of an application without its prefix length.\<close>

definition identity_ok :: "('j, 'f) reader \<Rightarrow> 'j \<Rightarrow> string \<Rightarrow> bool result" where
  "identity_ok J doc role =
     and_also (member_is (\<lambda>x. do_is_int J x 1) J doc ''schema'') (member_is (\<lambda>x. do_is_string J x role) J doc ''role'')"

text \<open>\<open>address.find('/')\<close>: the characters before the first slash, None without a slash.\<close>

definition before_slash :: "string \<Rightarrow> string option" where
  "before_slash address = (if CHR ''/'' \<in> set address then Some (takeWhile (\<lambda>c. c \<noteq> CHR ''/'') address) else None)"

section \<open>Values\<close>

datatype 'f json_value =
    J_null
  | J_bool bool
  | J_signed int
  | J_unsigned nat
  | J_float 'f
  | J_string string
  | J_array "'f json_value list"
  | J_object "(string \<times> 'f json_value) list"

text \<open>
  A value printed and parsed again: the parser makes an unsigned number of every integer that is not
  negative, and the printer writes \<open>null\<close> for a floating-point number that is not finite. A finite one
  comes back unchanged, as the printer writes enough digits. (The library orders the members of an object by
  their keys; members are only looked up by key here, so that their order does not matter.)
\<close>

primrec reread :: "('f \<Rightarrow> bool) \<Rightarrow> 'f json_value \<Rightarrow> 'f json_value" where
  "reread finite_value J_null = J_null"
| "reread finite_value (J_bool b) = J_bool b"
| "reread finite_value (J_signed i) = (if 0 \<le> i then J_unsigned (nat i) else J_signed i)"
| "reread finite_value (J_unsigned u) = J_unsigned u"
| "reread finite_value (J_float f) = (if finite_value f then J_float f else J_null)"
| "reread finite_value (J_string t) = J_string t"
| "reread finite_value (J_array vs) = J_array (map (reread finite_value) vs)"
| "reread finite_value (J_object members) = J_object (map (map_prod id (reread finite_value)) members)"

text \<open>The printer and the parser of the library on one value; None is a printer that throws.\<close>

definition prints_back :: "('f json_value \<Rightarrow> bytes option) \<Rightarrow> (bytes \<Rightarrow> 'f json_value option) \<Rightarrow> ('f \<Rightarrow> bool) \<Rightarrow>
    'f json_value \<Rightarrow> bool" where
  "prints_back dump parse finite_value v \<longleftrightarrow>
     (case dump v of None \<Rightarrow> True | Some text_bytes \<Rightarrow> parse text_bytes = Some (reread finite_value v))"

lemma reread_lookup: "map_of (map (map_prod id (reread g)) members) key = map_option (reread g) (map_of members key)"
  by (induction members) auto

text \<open>The library on such values: members by key, numbers compared across the two integer kinds.\<close>

definition json_document :: "(bytes \<Rightarrow> 'f json_value option) \<Rightarrow> 'f json_value document" where
  "json_document parse =
     \<lparr>do_parse = parse,
      do_at = (\<lambda>v key. case v of J_object members \<Rightarrow> map_of members key | _ \<Rightarrow> None),
      do_is_int = (\<lambda>v n. case v of J_signed i \<Rightarrow> i = n | J_unsigned u \<Rightarrow> int u = n | _ \<Rightarrow> False),
      do_is_string = (\<lambda>v s. case v of J_string t \<Rightarrow> t = s | _ \<Rightarrow> False),
      do_is_unsigned = (\<lambda>v. case v of J_unsigned _ \<Rightarrow> True | _ \<Rightarrow> False),
      do_is_null = (\<lambda>v. case v of J_null \<Rightarrow> True | _ \<Rightarrow> False),
      do_u64 = (\<lambda>v. case v of J_unsigned u \<Rightarrow> Some (of_nat u) | J_signed i \<Rightarrow> Some (of_int i) | _ \<Rightarrow> None),
      do_string = (\<lambda>v. case v of J_string t \<Rightarrow> Some t | _ \<Rightarrow> None),
      do_bool = (\<lambda>v. case v of J_bool b \<Rightarrow> Some b | _ \<Rightarrow> None)\<rparr>"

text \<open>
  The reading operations on documents whose numbers are integers: as in the library a number
  that does not fit its type is reduced to it without an error.
\<close>

definition integer_of :: "'f json_value \<Rightarrow> int option" where
  "integer_of v = (case v of J_unsigned u \<Rightarrow> Some (int u) | J_signed i \<Rightarrow> Some i | _ \<Rightarrow> None)"

definition json_reader :: "(int \<Rightarrow> 'f) \<Rightarrow> ('f json_value, 'f) reader" where
  "json_reader real_of = document.extend (json_document (\<lambda>_. None))
     \<lparr>re_elements = (\<lambda>v. case v of J_array vs \<Rightarrow> Some vs | _ \<Rightarrow> None),
      re_u32 = (\<lambda>v. map_option of_int (integer_of v)),
      re_i16 = (\<lambda>v. map_option of_int (integer_of v)),
      re_double = (\<lambda>v. case v of J_float f \<Rightarrow> Some f | _ \<Rightarrow> map_option real_of (integer_of v))\<rparr>"

lemma json_reader_simps [simp]:
  "do_at (json_reader g) (J_object members) key = map_of members key"
  "do_is_int (json_reader g) v n \<longleftrightarrow> integer_of v = Some n"
  "do_is_string (json_reader g) v s \<longleftrightarrow> v = J_string s"
  "do_u64 (json_reader g) v = map_option of_int (integer_of v)"
  "do_string (json_reader g) (J_string t) = Some t"
  "re_elements (json_reader g) (J_array vs) = Some vs"
  "re_u32 (json_reader g) v = map_option of_int (integer_of v)"
  "re_i16 (json_reader g) v = map_option of_int (integer_of v)"
  "re_double (json_reader g) (J_float f) = Some f"
  "re_double (json_reader g) (J_unsigned u) = Some (g (int u))"
  "integer_of (J_unsigned u) = Some (int u)" "integer_of (J_signed i) = Some i" "integer_of (J_string t) = None"
  by (auto simp: json_reader_def document.defs json_document_def integer_of_def split: json_value.splits)

end
