(* ===== verification/Timebase.thy ===== *)
theory Timebase
  imports Prelude
begin

text \<open>
  Protocol timestamps (\<open>include/sdr/time.hpp\<close>) and the arithmetic on them
  that the processor does (\<open>add_samples\<close> and \<open>subtract_samples\<close> in
  \<open>apps/udp_pipeline.cpp\<close>). A timestamp is whole seconds and picoseconds in
  64-bit words; \<open>ps_of\<close> maps it to the number of picoseconds since the epoch
  of its clock, and the lemmas show both operations to be exact on that
  number where nothing wraps.
\<close>

section \<open>Timestamps\<close>

datatype protocol_time = ProtocolTime (seconds: u64) (picoseconds: u64)

definition picoseconds_per_second :: u64 where
  "picoseconds_per_second = 1000000000000"

text \<open>
  The defaulted \<open>operator<=>\<close> compares member by member, in the order of their declaration; its
  result is a \<open>std::strong_ordering\<close>.
\<close>

datatype strong_ordering = SO_less | SO_equal | SO_greater

definition compare_u64 :: "u64 \<Rightarrow> u64 \<Rightarrow> strong_ordering" where
  "compare_u64 x y = (if x < y then SO_less else if x = y then SO_equal else SO_greater)"

definition compare_times :: "protocol_time \<Rightarrow> protocol_time \<Rightarrow> strong_ordering" where
  "compare_times a b =
    (case compare_u64 (seconds a) (seconds b) of
       SO_equal \<Rightarrow> compare_u64 (picoseconds a) (picoseconds b)
     | c \<Rightarrow> c)"

lemma compare_times_simps:
  "compare_times a b = SO_less \<longleftrightarrow>
     seconds a < seconds b \<or> (seconds a = seconds b \<and> picoseconds a < picoseconds b)"
  "compare_times a b = SO_greater \<longleftrightarrow>
     seconds b < seconds a \<or> (seconds a = seconds b \<and> picoseconds b < picoseconds a)"
  "compare_times a b = SO_equal \<longleftrightarrow> a = b"
  by (auto simp: compare_times_def compare_u64_def protocol_time.expand)

text \<open>The comparisons the code writes are read off that result, as C++ rewrites them.\<close>

instantiation protocol_time :: linorder
begin

definition less_eq_protocol_time :: "protocol_time \<Rightarrow> protocol_time \<Rightarrow> bool" where
  "less_eq_protocol_time a b \<longleftrightarrow> compare_times a b \<noteq> SO_greater"

definition less_protocol_time :: "protocol_time \<Rightarrow> protocol_time \<Rightarrow> bool" where
  "less_protocol_time a b \<longleftrightarrow> compare_times a b = SO_less"

instance
  by standard
    (auto simp: less_eq_protocol_time_def less_protocol_time_def compare_times_simps protocol_time.expand)

end

definition normalized :: "protocol_time \<Rightarrow> bool" where
  "normalized t \<longleftrightarrow> picoseconds t < picoseconds_per_second"

definition ps_of :: "protocol_time \<Rightarrow> nat" where
  "ps_of t = unat (seconds t) * 10 ^ 12 + unat (picoseconds t)"

text \<open>The duration of a number of samples at a rate, in whole picoseconds.\<close>

definition duration_ps :: "nat \<Rightarrow> nat \<Rightarrow> nat" where
  "duration_ps samples rate = samples * 10 ^ 12 div rate"

section \<open>Adding and subtracting samples\<close>

definition add_samples :: "protocol_time \<Rightarrow> u64 \<Rightarrow> u32 \<Rightarrow> protocol_time" where
  "add_samples time samples rate =
    (let whole = samples div ucast rate;
         remainder = samples mod ucast rate;
         secs = seconds time + whole;
         delta = remainder * picoseconds_per_second div ucast rate;
         picos = picoseconds time + delta
     in ProtocolTime (secs + picos div picoseconds_per_second)
                     (picos mod picoseconds_per_second))"

definition underflow :: exn where
  "underflow = Invalid_argument ''sample timestamp underflow''"

definition subtract_samples :: "protocol_time \<Rightarrow> u64 \<Rightarrow> u32 \<Rightarrow> protocol_time result" where
  "subtract_samples time samples rate =
    (let whole = samples div ucast rate;
         remainder = samples mod ucast rate;
         delta = remainder * picoseconds_per_second div ucast rate
     in ebind
          (if picoseconds time < delta
           then ensure (whole < seconds time) underflow
                  (Inr (picoseconds time + picoseconds_per_second, whole + 1))
           else Inr (picoseconds time, whole))
          (\<lambda>(picos, whole).
             ensure (whole \<le> seconds time) underflow
               (Inr (ProtocolTime (seconds time - whole) (picos - delta)))))"

section \<open>Exactness on the picosecond timeline\<close>

lemma unat_pps [simp]: "unat picoseconds_per_second = 10 ^ 12"
  by (simp add: picoseconds_per_second_def)

text \<open>On normalized timestamps the member-wise comparison is the order of time.\<close>

lemma ps_of_mono:
  assumes "normalized a" and "normalized b"
  shows "a \<le> b \<longleftrightarrow> ps_of a \<le> ps_of b"
  using assms
  by (simp add: less_eq_protocol_time_def compare_times_simps ps_of_def normalized_def word_less_nat_alt
      word_le_nat_alt word_unat_eq_iff) linarith

lemma duration_ps_split:
  "0 < r \<Longrightarrow> duration_ps n r = (n div r) * 10 ^ 12 + duration_ps (n mod r) r"
proof -
  assume r: "0 < r"
  have "n * 10 ^ 12 = (n mod r) * 10 ^ 12 + (n div r) * 10 ^ 12 * r"
    using div_mult_mod_eq [of n r] by (metis add.commute distrib_right mult.assoc mult.commute)
  with r show ?thesis by (simp add: duration_ps_def add.commute)
qed

lemma duration_ps_remainder: "n < r \<Longrightarrow> duration_ps n r < 10 ^ 12"
  by (simp add: duration_ps_def less_mult_imp_div_less)

lemma delta_word:
  fixes samples :: u64
  assumes "rate \<noteq> 0" and "rate \<le> 2000000"
  shows "unat (samples mod ucast rate * picoseconds_per_second div ucast (rate :: u32)) = duration_ps (unat samples mod unat rate) (unat rate)"
proof -
  have r: "0 < unat rate" "unat rate \<le> 2000000"
    using assms by (simp_all add: unat_gt_0 word_le_nat_alt)
  have "unat samples mod unat rate < 2000000"
    using r mod_less_divisor [of "unat rate" "unat samples"] by linarith
  then show ?thesis
    by (simp add: unat_div_distrib unat_mod_distrib unat_ucast_32_64 unat_word_mult_small unat_pps duration_ps_def)
qed

text \<open>\<open>ProcessingConfig::validate\<close> admits no larger rate; the product in \<open>delta\<close> then fits.\<close>

definition rate_ok :: "u32 \<Rightarrow> bool" where
  "rate_ok rate \<longleftrightarrow> rate \<noteq> 0 \<and> rate \<le> 2000000"

lemma whole_word: "unat (samples div ucast (rate :: u32) :: u64) = unat samples div unat rate"
  by (simp add: unat_div_distrib unat_ucast_32_64)

lemma ps_of_add:
  assumes t: "normalized t" and r: "rate_ok rate"
    and fits: "ps_of t + duration_ps (unat n) (unat rate) < 2 ^ 64 * 10 ^ 12"
  shows "ps_of (add_samples t n rate) = ps_of t + duration_ps (unat n) (unat rate)"
proof -
  define w where "w = unat n div unat rate"
  define d where "d = duration_ps (unat n mod unat rate) (unat rate)"
  have r0: "0 < unat rate" using r by (simp add: rate_ok_def unat_gt_0)
  have D: "duration_ps (unat n) (unat rate) = w * 10 ^ 12 + d"
    unfolding w_def d_def by (rule duration_ps_split) (rule r0)
  have d: "d < 10 ^ 12" unfolding d_def by (rule duration_ps_remainder) (simp add: r0)
  have p: "unat (picoseconds t) < 10 ^ 12"
    using t by (simp add: normalized_def word_less_nat_alt unat_pps)
  have dw: "unat (n mod ucast rate * picoseconds_per_second div ucast rate) = d"
    unfolding d_def using r by (intro delta_word) (simp_all add: rate_ok_def)
  have s: "unat (seconds t) + w + (unat (picoseconds t) + d) div 10 ^ 12 < 2 ^ 64"
    using fits D p d by (simp add: ps_of_def)
  have "unat (picoseconds t + n mod ucast rate * picoseconds_per_second div ucast rate)
      = unat (picoseconds t) + d"
    using p d dw by (simp add: unat_word_add_small)
  moreover have "unat (seconds t + n div ucast rate) = unat (seconds t) + w"
    using s by (simp add: unat_word_add_small whole_word w_def)
  ultimately have "ps_of (add_samples t n rate)
      = (unat (seconds t) + w + (unat (picoseconds t) + d) div 10 ^ 12) * 10 ^ 12
        + (unat (picoseconds t) + d) mod 10 ^ 12"
    using s by (simp add: ps_of_def add_samples_def Let_def unat_word_add_small
        unat_div_distrib unat_mod_distrib unat_pps)
  then show ?thesis
    using D div_mult_mod_eq [of "unat (picoseconds t) + d" "10 ^ 12"]
    by (simp add: ps_of_def algebra_simps)
qed

lemma normalized_add: "normalized (add_samples t n rate)"
  by (simp add: normalized_def add_samples_def Let_def word_less_nat_alt unat_mod_distrib unat_pps)

lemma ps_of_subtract:
  assumes t: "normalized t" and r: "rate_ok rate"
  shows "duration_ps (unat n) (unat rate) \<le> ps_of t \<Longrightarrow>
     \<exists>u. subtract_samples t n rate = Inr u \<and> normalized u \<and> ps_of u = ps_of t - duration_ps (unat n) (unat rate)"
   and "ps_of t < duration_ps (unat n) (unat rate) \<Longrightarrow> subtract_samples t n rate = Inl underflow"
proof -
  define w where "w = unat n div unat rate"
  define d where "d = duration_ps (unat n mod unat rate) (unat rate)"
  define W where "W = n div ucast rate"
  define E where "E = n mod ucast rate * picoseconds_per_second div ucast rate"
  have r0: "0 < unat rate" using r by (simp add: rate_ok_def unat_gt_0)
  have D: "duration_ps (unat n) (unat rate) = w * 10 ^ 12 + d"
    unfolding w_def d_def by (rule duration_ps_split) (rule r0)
  have d: "d < 10 ^ 12" unfolding d_def by (rule duration_ps_remainder) (simp add: r0)
  have p: "unat (picoseconds t) < 10 ^ 12"
    using t by (simp add: normalized_def word_less_nat_alt unat_pps)
  have E: "unat E = d"
    unfolding d_def E_def using r by (intro delta_word) (simp_all add: rate_ok_def)
  have W: "unat W = w" by (simp add: W_def w_def whole_word)
  have sub: "subtract_samples t n rate = ebind
          (if picoseconds t < E
           then ensure (W < seconds t) underflow
                  (Inr (picoseconds t + picoseconds_per_second, W + 1))
           else Inr (picoseconds t, W))
          (\<lambda>(picos, whole).
             ensure (whole \<le> seconds t) underflow
               (Inr (ProtocolTime (seconds t - whole) (picos - E))))"
    by (simp add: subtract_samples_def W_def E_def Let_def)
  show "ps_of t < duration_ps (unat n) (unat rate) \<Longrightarrow> subtract_samples t n rate = Inl underflow"
    unfolding sub D ps_of_def using d p
    by (auto simp: ensure_def word_less_nat_alt word_le_nat_alt E W unat_word_ariths unat_pps)
  assume le: "duration_ps (unat n) (unat rate) \<le> ps_of t"
  show "\<exists>u. subtract_samples t n rate = Inr u \<and> normalized u \<and> ps_of u = ps_of t - duration_ps (unat n) (unat rate)"
  proof (cases "picoseconds t < E")
    case True
    then have b: "unat (picoseconds t) < d" by (simp add: word_less_nat_alt E)
    with le D p d have lt: "w < unat (seconds t)"
      by (simp add: ps_of_def)
    have "Suc w < 18446744073709551616"
      by (rule le_less_trans [OF Suc_leI [OF lt] unat64_less])
    then have W1: "unat (W + 1) = w + 1"
      by (simp add: unat_word_ariths W)
    have P1: "unat (picoseconds t + picoseconds_per_second) = unat (picoseconds t) + 10 ^ 12"
      using p by (simp add: unat_word_add_small unat_pps)
    have "normalized (ProtocolTime (seconds t - (W + 1)) (picoseconds t + picoseconds_per_second - E))"
      using b d p by (simp add: normalized_def word_less_nat_alt unat_sub word_le_nat_alt P1 E unat_pps)
    moreover have "ps_of (ProtocolTime (seconds t - (W + 1)) (picoseconds t + picoseconds_per_second - E))
        = ps_of t - duration_ps (unat n) (unat rate)"
      using lt b d p by (simp add: ps_of_def unat_sub word_le_nat_alt P1 W1 E D)
    moreover have "subtract_samples t n rate
        = Inr (ProtocolTime (seconds t - (W + 1)) (picoseconds t + picoseconds_per_second - E))"
      using True lt by (simp add: sub word_less_nat_alt word_le_nat_alt W W1)
    ultimately show ?thesis by blast
  next
    case False
    then have b: "d \<le> unat (picoseconds t)" by (simp add: word_less_nat_alt E)
    with le D p d have le': "w \<le> unat (seconds t)"
      by (simp add: ps_of_def)
    then obtain k where k: "unat (seconds t) = w + k" using le_Suc_ex by blast
    from b obtain m where m: "unat (picoseconds t) = d + m" using le_Suc_ex by blast
    show ?thesis
      using False p D k m
      by (simp add: sub word_le_nat_alt word_less_nat_alt W E unat_sub normalized_def ps_of_def
          unat_pps algebra_simps)
  qed
qed
lemma ps_of_inject: "normalized a \<Longrightarrow> normalized b \<Longrightarrow> ps_of a = ps_of b \<Longrightarrow> a = b"
  by (simp add: order_eq_iff [of a b] ps_of_mono)

text \<open>Subtracting the duration of samples from a normalized timestamp throws exactly when the
  result would lie before time zero, and otherwise the normalized result is exactly that many
  picoseconds earlier.\<close>

lemma subtract_samples_exact:
  assumes "normalized t" and "rate_ok rate"
  shows "(case subtract_samples t n rate of
      Inl e \<Rightarrow> e = underflow \<and> ps_of t < duration_ps (unat n) (unat rate)
    | Inr u \<Rightarrow> normalized u \<and> ps_of t = ps_of u + duration_ps (unat n) (unat rate))"
  using ps_of_subtract [OF assms, of n] by (cases "duration_ps (unat n) (unat rate) \<le> ps_of t") auto

text \<open>Adding the duration of samples to a timestamp and subtracting the same samples gives the
  timestamp back, as long as the sum does not pass the largest second of the clock.\<close>

lemma samples_roundtrip:
  assumes "normalized t" and "rate_ok rate"
    and "ps_of t + duration_ps (unat n) (unat rate) < 2 ^ 64 * 10 ^ 12"
  shows "subtract_samples (add_samples t n rate) n rate = Inr t"
proof -
  have "ps_of (add_samples t n rate) = ps_of t + duration_ps (unat n) (unat rate)"
    by (rule ps_of_add) (rule assms)+
  moreover from this obtain u where "subtract_samples (add_samples t n rate) n rate = Inr u"
    and "normalized u" and "ps_of u = ps_of (add_samples t n rate) - duration_ps (unat n) (unat rate)"
    using ps_of_subtract(1) [of "add_samples t n rate" rate n, OF normalized_add assms(2)] by auto
  ultimately show ?thesis using assms(1) ps_of_inject by simp
qed
text \<open>Adding samples yields a normalized timestamp that is later by exactly the whole
  picoseconds the samples last at the rate.\<close>

lemma add_samples_exact:
  assumes "normalized t" and "rate_ok rate"
    and "ps_of t + duration_ps (unat n) (unat rate) < 2 ^ 64 * 10 ^ 12"
  shows "normalized (add_samples t n rate) \<and>
    ps_of (add_samples t n rate) = ps_of t + duration_ps (unat n) (unat rate)"
  using assms by (simp add: normalized_add ps_of_add)

end
