(* ===== verification/SpectrumWire.thy ===== *)
theory SpectrumWire
  imports Timebase
begin

text \<open>
  The spectrum records the processor sends to the detector: the processing
  configuration, the record, its validation and its wire format
  (\<open>include/sdr/spectrum.hpp\<close>, \<open>src/spectrum.cpp\<close>). Single-precision
  powers are their IEEE 754 bit patterns, on which the code's
  \<open>isfinite\<close>, comparisons and \<open>bit_cast\<close> are exact.
\<close>

section \<open>Processing configuration\<close>

record processing_config =
  pc_sample_rate_hz :: u32
  pc_fft_size :: u32
  pc_overlap_samples :: u32

definition spectrum_error :: exn where
  "spectrum_error = Invalid_argument ''invalid SDR spectrum''"

definition require_spectrum :: "bool \<Rightarrow> 'a result \<Rightarrow> 'a result" where
  "require_spectrum c k = ensure c spectrum_error k"

text \<open>\<open>std::has_single_bit\<close>: exactly one bit is set.\<close>

definition has_single_bit :: "'a::len word \<Rightarrow> bool" where
  "has_single_bit x \<longleftrightarrow> x \<noteq> 0 \<and> x AND (x - 1) = 0"

definition valid_config :: "processing_config \<Rightarrow> bool" where
  "valid_config c \<longleftrightarrow>
     (1000 \<le> pc_sample_rate_hz c \<and> pc_sample_rate_hz c \<le> 2000000) \<and>
     (64 \<le> pc_fft_size c \<and> pc_fft_size c \<le> 2048 \<and> has_single_bit (pc_fft_size c)) \<and>
     (pc_overlap_samples c < pc_fft_size c \<and>
       (pc_overlap_samples c = 0 \<or>
        pc_overlap_samples c * 2 = pc_fft_size c \<or>
        pc_overlap_samples c * 4 = pc_fft_size c * 3))"

definition validate_config :: "processing_config \<Rightarrow> unit result" where
  "validate_config c = require_spectrum (valid_config c) (Inr ())"

definition hop :: "processing_config \<Rightarrow> u32" where
  "hop c = pc_fft_size c - pc_overlap_samples c"

section \<open>Single-precision values\<close>

type_synonym f32 = "32 word"

definition f32_magnitude :: "f32 \<Rightarrow> u32" where
  "f32_magnitude x = x AND 0x7fffffff"

definition f32_isfinite :: "f32 \<Rightarrow> bool" where
  "f32_isfinite x \<longleftrightarrow> drop_bit 23 x AND 0xff \<noteq> 0xff"

definition f32_is_zero :: "f32 \<Rightarrow> bool" where
  "f32_is_zero x \<longleftrightarrow> f32_magnitude x = 0"

text \<open>Values that are not NaN are ordered as sign and magnitude; the two zeros are equal.\<close>

definition f32_key :: "f32 \<Rightarrow> int" where
  "f32_key x = (if bit x 31 then - uint (f32_magnitude x) else uint (f32_magnitude x))"

definition f32_less :: "f32 \<Rightarrow> f32 \<Rightarrow> bool" where
  "f32_less x y \<longleftrightarrow> f32_key x < f32_key y"

definition f32_nonneg :: "f32 \<Rightarrow> bool" where
  "f32_nonneg x \<longleftrightarrow> 0 \<le> f32_key x"

section \<open>The spectrum record and its validation\<close>

record spectrum =
  sp_stream_id :: u32
  sp_sequence :: u32
  sp_sample_rate_hz :: u32
  sp_fft_size :: u32
  sp_hop :: u32
  sp_center_hz :: u64
  sp_begin :: protocol_time
  sp_end :: protocol_time
  sp_epoch :: protocol_time
  sp_ordinal :: u64
  sp_discontinuities :: u64
  sp_sequence_gaps :: u64
  sp_gaps :: "u8 list"
  sp_power :: "f32 list"

definition missing_count :: "spectrum \<Rightarrow> u64" where
  "missing_count s =
     foldl (\<lambda>count index.
         count + ucast (drop_bit (7 - index mod 8) (sp_gaps s ! (index div 8)) AND 1))
       0 [0..<unat (sp_fft_size s)]"

definition valid_spectrum :: "spectrum \<Rightarrow> bool" where
  "valid_spectrum s \<longleftrightarrow>
     valid_config \<lparr>pc_sample_rate_hz = sp_sample_rate_hz s, pc_fft_size = sp_fft_size s,
                   pc_overlap_samples = sp_fft_size s - sp_hop s\<rparr> \<and>
     (1 \<le> sp_stream_id s \<and> sp_stream_id s \<le> 4) \<and>
     (1000000 \<le> sp_center_hz s \<and> sp_center_hz s \<le> 6000000000) \<and>
     length (sp_gaps s) = unat (sp_fft_size s div 8) \<and>
     length (sp_power s) = unat (sp_fft_size s) \<and>
     (\<forall>v \<in> set (sp_power s). f32_isfinite v \<and> f32_nonneg v)"

definition validate_spectrum :: "spectrum \<Rightarrow> unit result" where
  "validate_spectrum s = require_spectrum (valid_spectrum s) (Inr ())"

section \<open>Wire format\<close>

definition magic :: u64 where "magic = 0x53445231"
definition version :: u64 where "version = 1"
definition header_bytes :: nat where "header_bytes = 128"

definition put :: "bytes \<Rightarrow> nat \<Rightarrow> u64 \<Rightarrow> nat \<Rightarrow> bytes result" where
  "put output offset value count =
     require_spectrum (offset + count \<le> length output)
       (Inr (foldl (\<lambda>out index. out[offset + index := be_byte value count index])
              output [0..<count]))"

definition get :: "bytes \<Rightarrow> nat \<Rightarrow> nat \<Rightarrow> u64 result" where
  "get input offset count =
     require_spectrum (offset + count \<le> length input)
       (Inr (foldl (\<lambda>result index. push_bit 8 result OR ucast (input ! (offset + index)))
              0 [0..<count]))"

definition spectrum_wire_size :: "u64 \<Rightarrow> nat result" where
  "spectrum_wire_size fft_size =
     require_spectrum (64 \<le> fft_size \<and> fft_size \<le> 2048 \<and> has_single_bit fft_size)
       (Inr (header_bytes + unat fft_size div 8 + 4 * unat fft_size))"

text \<open>The fixed fields in the order \<open>encode_spectrum\<close> writes them: offset, value, width.\<close>

definition header_fields :: "spectrum \<Rightarrow> nat \<Rightarrow> (nat \<times> u64 \<times> nat) list" where
  "header_fields s wire_size =
    [(0, magic, 4), (4, version, 2), (6, of_nat header_bytes, 2), (8, of_nat wire_size, 4),
     (12, ucast (sp_stream_id s), 4), (16, ucast (sp_sequence s), 4),
     (20, ucast (sp_fft_size s), 4), (24, ucast (sp_hop s), 4), (28, 0, 4),
     (32, sp_center_hz s, 8), (40, ucast (sp_sample_rate_hz s), 8),
     (48, seconds (sp_begin s), 8), (56, picoseconds (sp_begin s), 8),
     (64, seconds (sp_end s), 8), (72, picoseconds (sp_end s), 8),
     (80, ucast (sp_fft_size s) - missing_count s, 4), (84, missing_count s, 4),
     (88, sp_discontinuities s, 8), (96, seconds (sp_epoch s), 8),
     (104, picoseconds (sp_epoch s), 8), (112, sp_ordinal s, 8),
     (120, sp_sequence_gaps s, 8)]"

fun put_field :: "bytes \<Rightarrow> nat \<times> u64 \<times> nat \<Rightarrow> bytes result" where
  "put_field output (offset, value, count) = put output offset value count"

definition encode_spectrum :: "spectrum \<Rightarrow> bytes result" where
  "encode_spectrum s =
     ebind (validate_spectrum s) (\<lambda>_.
     ebind (spectrum_wire_size (ucast (sp_fft_size s))) (\<lambda>wire_size.
     ebind (efold put_field (replicate wire_size 0) (header_fields s wire_size)) (\<lambda>output.
     let output = foldl (\<lambda>out index. out[header_bytes + index := sp_gaps s ! index])
                    output [0..<length (sp_gaps s)];
         power_offset = header_bytes + length (sp_gaps s)
     in efold (\<lambda>out index. put out (power_offset + index * 4) (ucast (sp_power s ! index)) 4)
          output [0..<length (sp_power s)])))"

text \<open>One conjunct of the first check of \<open>decode_spectrum\<close>.\<close>

definition field_is :: "bytes \<Rightarrow> nat \<Rightarrow> nat \<Rightarrow> u64 \<Rightarrow> 'a result \<Rightarrow> 'a result" where
  "field_is wire offset count value k =
     ebind (get wire offset count) (\<lambda>x. require_spectrum (x = value) k)"

text \<open>
  \<open>decode_spectrum\<close> in two parts: the checks up to the one on the frame's size, and
  the rest of the fields with the checks on the whole record.
\<close>

definition decode_body :: "bytes \<Rightarrow> u32 \<Rightarrow> u32 \<Rightarrow> u32 \<Rightarrow> u32 \<Rightarrow> spectrum result" where
  "decode_body wire stream_id sequence fft_size hop_samples =
    (ebind (get wire 32 8) (\<lambda>center_hz.
     ebind (get wire 40 8) (\<lambda>sample_rate_hz.
     ebind (get wire 48 8) (\<lambda>begin_seconds.
     ebind (get wire 56 8) (\<lambda>begin_picoseconds.
     ebind (get wire 64 8) (\<lambda>end_seconds.
     ebind (get wire 72 8) (\<lambda>end_picoseconds.
     ebind (get wire 88 8) (\<lambda>discontinuities.
     ebind (get wire 96 8) (\<lambda>epoch_seconds.
     ebind (get wire 104 8) (\<lambda>epoch_picoseconds.
     ebind (get wire 112 8) (\<lambda>ordinal.
     ebind (get wire 120 8) (\<lambda>sequence_gaps.
     let gaps = map (\<lambda>index. wire ! (header_bytes + index)) [0..<unat (fft_size div 8)];
         power_offset = header_bytes + length gaps in
     ebind (emap (\<lambda>index. get wire (power_offset + index * 4) 4) [0..<unat fft_size]) (\<lambda>power.
     let result =
          \<lparr>sp_stream_id = stream_id, sp_sequence = sequence,
           sp_sample_rate_hz = ucast sample_rate_hz, sp_fft_size = fft_size,
           sp_hop = hop_samples, sp_center_hz = center_hz,
           sp_begin = ProtocolTime begin_seconds begin_picoseconds,
           sp_end = ProtocolTime end_seconds end_picoseconds,
           sp_epoch = ProtocolTime epoch_seconds epoch_picoseconds,
           sp_ordinal = ordinal, sp_discontinuities = discontinuities,
           sp_sequence_gaps = sequence_gaps, sp_gaps = gaps,
           sp_power = map ucast power\<rparr>;
         missing = missing_count result in
     ebind (validate_spectrum result) (\<lambda>_.
     field_is wire 80 4 (ucast fft_size - missing)
    (field_is wire 84 4 missing
    (Inr result))))))))))))))))"

definition decode_spectrum :: "bytes \<Rightarrow> spectrum result" where
  "decode_spectrum wire =
     require_spectrum (header_bytes \<le> length wire)
    (field_is wire 0 4 magic
    (field_is wire 4 2 version
    (field_is wire 6 2 (of_nat header_bytes)
    (field_is wire 8 4 (of_nat (length wire))
    (field_is wire 28 4 0
    (ebind (get wire 12 4) (\<lambda>stream_id.
     ebind (get wire 16 4) (\<lambda>sequence.
     ebind (get wire 20 4) (\<lambda>fft_size64.
     ebind (get wire 24 4) (\<lambda>hop_samples.
     let fft_size = ucast fft_size64 :: u32 in
     ebind (spectrum_wire_size (ucast fft_size)) (\<lambda>wire_size.
     require_spectrum (length wire = wire_size)
       (decode_body wire (ucast stream_id) (ucast sequence) fft_size (ucast hop_samples)))))))))))))"

section \<open>The codec in closed form\<close>

lemma and_pred_double: "(2 * m) AND (2 * m - Suc 0) = 2 * (m AND (m - Suc 0))"
proof (cases m)
  case 0
  then show ?thesis by simp
next
  case (Suc k)
  have "(2 * Suc k) AND (Suc (2 * k)) = 2 * (Suc k AND k)"
    by (subst and_rec) simp
  then show ?thesis using Suc by simp
qed

lemma single_bit_power:
  "0 < n \<Longrightarrow> n AND (n - Suc 0) = 0 \<Longrightarrow> \<exists>k. n = 2 ^ k"
proof (induction n rule: less_induct)
  case (less n)
  show ?case
  proof (cases "even n")
    case True
    then obtain m where m: "n = 2 * m" by blast
    have "m AND (m - Suc 0) = 0" using less.prems(2) m by (simp only: and_pred_double)
    moreover have "m < n" and "0 < m" using less.prems(1) m by simp_all
    ultimately obtain k where "m = 2 ^ k" using less.IH by blast
    with m show ?thesis by (metis power_Suc)
  next
    case False
    then obtain m where m: "n = 2 * m + 1" using oddE by blast
    have "(2 * m + 1) AND (2 * m) = 2 * m"
      by (subst and_rec) simp
    with less.prems(2) m have "n = 1" by simp
    then show ?thesis by (metis power_0)
  qed
qed

lemma valid_sizes:
  fixes x :: "'a::len word"
  assumes len: "12 \<le> LENGTH('a)"
  shows "64 \<le> x \<and> x \<le> 2048 \<and> has_single_bit x \<longleftrightarrow> x \<in> {64, 128, 256, 512, 1024, 2048}"
proof -
  have b: "4096 \<le> (2 :: nat) ^ LENGTH('a)"
    using power_increasing [OF len, of "2 :: nat"] by simp
  have small: "take_bit LENGTH('a) (numeral k) = (numeral k :: nat)" if "numeral k < (4096 :: nat)" for k
  proof -
    from that b have "numeral k < (2 :: nat) ^ LENGTH('a)" by linarith
    then show ?thesis by (rule take_bit_nat_eq_self)
  qed
  have key: "64 \<le> unat x \<and> unat x \<le> 2048 \<and> unat x AND (unat x - Suc 0) = 0
      \<longleftrightarrow> unat x \<in> {64, 128, 256, 512, 1024, 2048}" (is "?L \<longleftrightarrow> ?R")
  proof
    assume L: ?L
    with single_bit_power [of "unat x"] obtain k where k: "unat x = 2 ^ k" by auto
    have "\<not> k \<le> 5"
    proof
      assume "k \<le> 5"
      then have "(2 :: nat) ^ k \<le> 2 ^ 5" by (rule power_increasing) simp
      with L k show False by simp
    qed
    moreover have "\<not> 12 \<le> k"
    proof
      assume "12 \<le> k"
      then have "(2 :: nat) ^ 12 \<le> 2 ^ k" by (rule power_increasing) simp
      with L k show False by simp
    qed
    ultimately have "k \<in> {6, 7, 8, 9, 10, 11}" by auto
    with k show ?R by auto
  qed auto
  have "unat (x - 1) = unat x - Suc 0" if "x \<noteq> 0"
    using that by (simp add: unat_minus_one)
  with key show ?thesis
    by (cases "x = 0")
      (simp_all add: has_single_bit_def word_le_nat_alt word_unat_eq_iff small unsigned_and_eq)
qed

lemmas valid_sizes_32 = valid_sizes [where 'a = 32, simplified]

lemmas valid_sizes_64 = valid_sizes [where 'a = 64, simplified]

lemma fft_size_cases:
  "64 \<le> x \<and> x \<le> 2048 \<and> has_single_bit x \<Longrightarrow>
    unat x \<in> {64, 128, 256, 512, 1024, 2048}" for x :: u32
  unfolding valid_sizes_32 by auto

lemma put_eq [codec_simps]:
  "offset + count \<le> length output \<Longrightarrow>
     put output offset value count = Inr (write_at output offset (be_bytes count value))"
  by (simp add: put_def require_spectrum_def foldl_update_write_at be_bytes_def)

lemma get_eq [codec_simps]:
  "offset + count \<le> length input \<Longrightarrow> get input offset count = Inr (be_value (read_at input offset count))"
  by (simp add: get_def require_spectrum_def be_value_def read_at_conv_map foldl_map)

text \<open>Fields written at consecutive offsets.\<close>

fun field_bytes :: "nat \<times> u64 \<times> nat \<Rightarrow> bytes" where
  "field_bytes (offset, value, count) = be_bytes count value"

fun contiguous :: "nat \<Rightarrow> (nat \<times> u64 \<times> nat) list \<Rightarrow> bool" where
  "contiguous off [] \<longleftrightarrow> True"
| "contiguous off ((o', v, n) # fs) \<longleftrightarrow> o' = off \<and> contiguous (off + n) fs"

lemma efold_put_contiguous:
  "contiguous (length pre) fs \<Longrightarrow> length (concat (map field_bytes fs)) \<le> length rest \<Longrightarrow>
     efold put_field (pre @ rest) fs =
       Inr (pre @ concat (map field_bytes fs) @ drop (length (concat (map field_bytes fs))) rest)"
proof (induction fs arbitrary: pre rest)
  case Nil
  then show ?case by simp
next
  case (Cons f fs)
  obtain o' v n where f: "f = (o', v, n)" by (cases f) auto
  from Cons.prems f have n: "n \<le> length rest" and c: "contiguous (length (pre @ be_bytes n v)) fs"
    and o': "o' = length pre" by simp_all
  have "put (pre @ rest) o' v n = Inr ((pre @ be_bytes n v) @ drop n rest)"
    using n o' by (simp add: put_eq write_at_def)
  with Cons.IH [OF c, of "drop n rest"] Cons.prems f show ?case by (simp add: add.commute)
qed

definition wire_length :: "spectrum \<Rightarrow> nat" where
  "wire_length s = header_bytes + unat (sp_fft_size s) div 8 + 4 * unat (sp_fft_size s)"

text \<open>The frame as one expression: header, gap bitmap, powers.\<close>

definition wire_of :: "spectrum \<Rightarrow> bytes" where
  "wire_of s = concat (map field_bytes (header_fields s (wire_length s)))
     @ sp_gaps s @ concat (map (\<lambda>p. be_bytes 4 (ucast p)) (sp_power s))"

lemma length_header [simp]: "length (concat (map field_bytes (header_fields s n))) = header_bytes"
  by (simp add: header_fields_def header_bytes_def)

lemma valid_config_size:
  "valid_config c \<Longrightarrow> unat (pc_fft_size c) \<in> {64, 128, 256, 512, 1024, 2048}"
  unfolding valid_config_def valid_sizes_32 by auto

lemma ucast_size: "x \<in> {64, 128, 256, 512, 1024, 2048} \<Longrightarrow> (ucast (x :: u32) :: u64) \<in> {64, 128, 256, 512, 1024, 2048}"
  by auto

lemma wire_size_eq:
  "valid_spectrum s \<Longrightarrow> spectrum_wire_size (ucast (sp_fft_size s)) = Inr (wire_length s)"
  unfolding spectrum_wire_size_def require_spectrum_def valid_spectrum_def valid_config_def valid_sizes_32 valid_sizes_64
  by (auto simp: wire_length_def)

lemma efold_put_power:
  "length pre = off \<Longrightarrow> length rest = 4 * length ps \<Longrightarrow>
   efold (\<lambda>out index. put out (off + index * 4) (ucast (ps ! index)) 4) (pre @ rest) [0..<length ps]
    = Inr (pre @ concat (map (\<lambda>p. be_bytes 4 (ucast p)) (ps :: u32 list)))"
proof -
  assume off: "length pre = off" and rest: "length rest = 4 * length ps"
  define fs where "fs = map (\<lambda>i. (off + i * 4, ucast (ps ! i) :: u64, 4 :: nat)) [0..<length ps]"
  have "contiguous (off + 4 * a) (map (\<lambda>i. (off + i * 4, ucast (ps ! i) :: u64, 4 :: nat)) [a..<a + n])" for a n
  proof (induction n arbitrary: a)
    case (Suc n)
    from Suc.IH [of "Suc a"] show ?case by (simp add: upt_conv_Cons add.assoc add.commute [of 4] del: upt_Suc)
  qed simp
  from this [of 0 "length ps"] have "contiguous (length pre) fs" by (simp add: fs_def off)
  moreover have B: "concat (map field_bytes fs) = concat (map (\<lambda>p. be_bytes 4 (ucast p)) ps)"
  proof -
    have "map field_bytes fs = map (\<lambda>p. be_bytes 4 (ucast p)) ps"
      by (rule nth_equalityI) (simp_all add: fs_def)
    then show ?thesis by simp
  qed
  moreover have "length (concat (map (\<lambda>p. be_bytes 4 (ucast p)) ps)) = 4 * length ps"
    by (induction ps) simp_all
  ultimately have "efold put_field (pre @ rest) fs = Inr (pre @ concat (map (\<lambda>p. be_bytes 4 (ucast p)) ps))"
    using efold_put_contiguous [of pre fs rest] rest by simp
  moreover have "efold (\<lambda>out index. put out (off + index * 4) (ucast (ps ! index)) 4) b is
     = efold put_field b (map (\<lambda>i. (off + i * 4, ucast (ps ! i) :: u64, 4 :: nat)) is)" for b "is"
    by (induction "is" arbitrary: b) simp_all
  ultimately show ?thesis by (simp add: fs_def)
qed

lemma encode_eq:
  assumes v: "valid_spectrum s"
  shows "encode_spectrum s = Inr (wire_of s)"
proof -
  define n where "n = wire_length s"
  let ?H = "concat (map field_bytes (header_fields s n))"
  have "contiguous (length ([] :: bytes)) (header_fields s n)"
    by (simp add: header_fields_def)
  moreover have hn: "header_bytes \<le> n" by (simp add: n_def wire_length_def)
  ultimately have H: "efold put_field (replicate n 0) (header_fields s n) = Inr (?H @ replicate (n - header_bytes) 0)"
    using efold_put_contiguous [of "[]" "header_fields s n" "replicate n 0"] by simp
  have g: "length (sp_gaps s) = unat (sp_fft_size s) div 8" and p: "length (sp_power s) = unat (sp_fft_size s)"
    using v by (simp_all add: valid_spectrum_def unat_div_distrib)
  have nl: "n - header_bytes = length (sp_gaps s) + 4 * length (sp_power s)"
    by (simp add: n_def wire_length_def g p)
  have G: "foldl (\<lambda>out index. out[header_bytes + index := sp_gaps s ! index]) (?H @ replicate (n - header_bytes) 0)
      [0..<length (sp_gaps s)] = (?H @ sp_gaps s) @ replicate (4 * length (sp_power s)) 0"
    using nl hn by (simp add: foldl_update_write_at write_at_def map_nth)
  have P: "efold (\<lambda>out index. put out (header_bytes + length (sp_gaps s) + index * 4) (ucast (sp_power s ! index)) 4)
      ((?H @ sp_gaps s) @ replicate (4 * length (sp_power s)) 0) [0..<length (sp_power s)]
    = Inr ((?H @ sp_gaps s) @ concat (map (\<lambda>p. be_bytes 4 (ucast p)) (sp_power s)))"
    by (rule efold_put_power) simp_all
  show ?thesis
    using v H G P
    by (simp add: encode_spectrum_def validate_spectrum_def require_spectrum_def wire_size_eq
        Let_def wire_of_def n_def)
qed

lemma read_at_contiguous:
  "contiguous (length pre) fs \<Longrightarrow> (o', v, n) \<in> set fs \<Longrightarrow>
     read_at (pre @ concat (map field_bytes fs) @ rest) o' n = be_bytes n v"
proof (induction fs arbitrary: pre)
  case Nil
  then show ?case by simp
next
  case (Cons f fs)
  obtain p w m where f: "f = (p, w, m)" by (cases f) auto
  show ?case
  proof (cases "(o', v, n) = f")
    case True
    with Cons.prems f show ?thesis by (simp add: read_at_def)
  next
    case False
    with Cons.prems f have "contiguous (length (pre @ be_bytes m w)) fs" and "(o', v, n) \<in> set fs"
      by auto
    from Cons.IH [OF this] f show ?thesis by simp
  qed
qed

lemma get_header:
  assumes "(o', v, n) \<in> set (header_fields s (wire_length s))" and "unat v < 2 ^ (8 * n)" and "o' + n \<le> 128"
  shows "get (wire_of s) o' n = Inr v"
proof -
  have "read_at (wire_of s) o' n = be_bytes n v"
    using read_at_contiguous [of "[]" "header_fields s (wire_length s)" o' v n] assms(1)
    by (simp add: wire_of_def header_fields_def)
  moreover have "128 \<le> length (wire_of s)"
    by (simp add: wire_of_def) (simp add: header_bytes_def)
  ultimately show ?thesis using assms(2,3) by (simp add: get_eq be_value_exact)
qed

lemma length_concat_be4 [simp]: "length (concat (map (\<lambda>p. be_bytes 4 (f p)) ps)) = 4 * length ps"
  by (induction ps) simp_all

lemma nth_wire_gap:
  "i < length (sp_gaps s) \<Longrightarrow> wire_of s ! (header_bytes + i) = sp_gaps s ! i"
  by (simp add: wire_of_def nth_append)

lemma read_at_concat_be4:
  "i < length ps \<Longrightarrow> read_at (concat (map (\<lambda>p. be_bytes 4 (f p)) ps)) (i * 4) 4 = be_bytes 4 (f (ps ! i))"
proof (induction ps arbitrary: i)
  case Nil
  then show ?case by simp
next
  case (Cons p ps)
  then show ?case by (cases i) (simp_all add: read_at_def)
qed

lemma get_wire_power:
  assumes "i < length (sp_power s)"
  shows "get (wire_of s) (header_bytes + length (sp_gaps s) + i * 4) 4 = Inr (ucast (sp_power s ! i))"
proof -
  have "read_at (wire_of s) (header_bytes + length (sp_gaps s) + i * 4) 4 = be_bytes 4 (ucast (sp_power s ! i))"
    using read_at_concat_be4 [of i "sp_power s" ucast] assms by (simp add: wire_of_def read_at_def)
  with assms show ?thesis by (simp add: get_eq wire_of_def be_value_4)
qed

lemma foldl_count_bound:
  "(\<And>i. i \<in> set xs \<Longrightarrow> unat (g i :: u64) \<le> 1) \<Longrightarrow> unat a + length xs < 2 ^ 64 \<Longrightarrow>
     unat (foldl (\<lambda>count i. count + g i) a xs) \<le> unat a + length xs"
proof (induction xs arbitrary: a)
  case Nil
  then show ?case by simp
next
  case (Cons x xs)
  have "unat (g x) \<le> 1" using Cons.prems by simp
  then have "unat (a + g x) \<le> unat a + 1"
    using Cons.prems(2) by (simp add: unat_word_add_small)
  with Cons.IH [of "a + g x"] Cons.prems show ?case by simp
qed

lemma unat_bit_le_1: "unat (ucast (x AND 1 :: u8) :: u64) \<le> 1"
  by (simp add: and_one_eq mod_2_eq_odd)

lemma missing_count_le: "unat (missing_count s) \<le> unat (sp_fft_size s)"
proof -
  have "unat (sp_fft_size s) < 2 ^ LENGTH(32)" by (rule unsigned_less)
  then show ?thesis
    using foldl_count_bound [of "[0..<unat (sp_fft_size s)]"
        "\<lambda>index. ucast (drop_bit (7 - index mod 8) (sp_gaps s ! (index div 8)) AND 1)" 0]
    by (simp add: missing_count_def unat_bit_le_1 [simplified])
qed

lemma length_wire_of [simp]: "valid_spectrum s \<Longrightarrow> length (wire_of s) = wire_length s"
  by (simp add: wire_of_def wire_length_def valid_spectrum_def unat_div_distrib)

lemma wire_length_cases:
  assumes "valid_spectrum s"
  shows "unat (sp_fft_size s) \<in> {64, 128, 256, 512, 1024, 2048}" and "wire_length s < 9000" and "128 \<le> wire_length s"
proof -
  show c: "unat (sp_fft_size s) \<in> {64, 128, 256, 512, 1024, 2048}"
    using assms valid_config_size by (fastforce simp: valid_spectrum_def)
  then show "wire_length s < 9000" and "128 \<le> wire_length s"
    by (auto simp: wire_length_def header_bytes_def)
qed

lemma unat_ucast32_less: "unat (ucast (x :: u32) :: u64) < 4294967296"
  using unsigned_less [of x, where ?'a = nat] by simp

lemma unat_of_nat_wire [simp]: "valid_spectrum s \<Longrightarrow> unat (of_nat (wire_length s) :: u64) = wire_length s"
  using wire_length_cases(2) [of s] by (simp add: unat_of_nat)

lemma get_wire_fields:
  assumes v: "valid_spectrum s"
  shows "get (wire_of s) 0 4 = Inr magic"
    and "get (wire_of s) 4 2 = Inr version"
    and "get (wire_of s) 6 2 = Inr (of_nat header_bytes)"
    and "get (wire_of s) 8 4 = Inr (of_nat (wire_length s))"
    and "get (wire_of s) 12 4 = Inr (ucast (sp_stream_id s))"
    and "get (wire_of s) 16 4 = Inr (ucast (sp_sequence s))"
    and "get (wire_of s) 20 4 = Inr (ucast (sp_fft_size s))"
    and "get (wire_of s) 24 4 = Inr (ucast (sp_hop s))"
    and "get (wire_of s) 28 4 = Inr 0"
    and "get (wire_of s) 32 8 = Inr (sp_center_hz s)"
    and "get (wire_of s) 40 8 = Inr (ucast (sp_sample_rate_hz s))"
    and "get (wire_of s) 48 8 = Inr (seconds (sp_begin s))"
    and "get (wire_of s) 56 8 = Inr (picoseconds (sp_begin s))"
    and "get (wire_of s) 64 8 = Inr (seconds (sp_end s))"
    and "get (wire_of s) 72 8 = Inr (picoseconds (sp_end s))"
    and "get (wire_of s) 80 4 = Inr (ucast (sp_fft_size s) - missing_count s)"
    and "get (wire_of s) 84 4 = Inr (missing_count s)"
    and "get (wire_of s) 88 8 = Inr (sp_discontinuities s)"
    and "get (wire_of s) 96 8 = Inr (seconds (sp_epoch s))"
    and "get (wire_of s) 104 8 = Inr (picoseconds (sp_epoch s))"
    and "get (wire_of s) 112 8 = Inr (sp_ordinal s)"
    and "get (wire_of s) 120 8 = Inr (sp_sequence_gaps s)"
proof -
  have m: "unat (missing_count s) \<le> unat (ucast (sp_fft_size s) :: u64)"
    using missing_count_le [of s] by simp
  have m4: "unat (missing_count s) < 4294967296"
    using m unat_ucast32_less [of "sp_fft_size s"] by linarith
  have d4: "unat (ucast (sp_fft_size s) - missing_count s) < 4294967296"
    using m le_less_trans [OF diff_le_self unat32_less(1)]
    by (simp add: unat_sub word_le_nat_alt)
  have w4: "unat (of_nat (wire_length s) :: u64) < 4294967296"
    using v wire_length_cases(2) [OF v] by simp
  note H = get_header header_fields_def magic_def version_def header_bytes_def
  show "get (wire_of s) 0 4 = Inr magic"
   "get (wire_of s) 4 2 = Inr version"
   "get (wire_of s) 6 2 = Inr (of_nat header_bytes)"
   "get (wire_of s) 8 4 = Inr (of_nat (wire_length s))"
   "get (wire_of s) 12 4 = Inr (ucast (sp_stream_id s))"
   "get (wire_of s) 16 4 = Inr (ucast (sp_sequence s))"
   "get (wire_of s) 20 4 = Inr (ucast (sp_fft_size s))"
   "get (wire_of s) 24 4 = Inr (ucast (sp_hop s))"
   "get (wire_of s) 28 4 = Inr 0"
   "get (wire_of s) 32 8 = Inr (sp_center_hz s)"
   "get (wire_of s) 40 8 = Inr (ucast (sp_sample_rate_hz s))"
   "get (wire_of s) 48 8 = Inr (seconds (sp_begin s))"
   "get (wire_of s) 56 8 = Inr (picoseconds (sp_begin s))"
   "get (wire_of s) 64 8 = Inr (seconds (sp_end s))"
   "get (wire_of s) 72 8 = Inr (picoseconds (sp_end s))"
   "get (wire_of s) 80 4 = Inr (ucast (sp_fft_size s) - missing_count s)"
   "get (wire_of s) 84 4 = Inr (missing_count s)"
   "get (wire_of s) 88 8 = Inr (sp_discontinuities s)"
   "get (wire_of s) 96 8 = Inr (seconds (sp_epoch s))"
   "get (wire_of s) 104 8 = Inr (picoseconds (sp_epoch s))"
   "get (wire_of s) 112 8 = Inr (sp_ordinal s)"
   "get (wire_of s) 120 8 = Inr (sp_sequence_gaps s)"
    using m4 d4 w4 by (simp_all add: H del: unat_of_nat_wire)
qed

lemma spectrum_eta [simp]:
  "\<lparr>sp_stream_id = sp_stream_id s, sp_sequence = sp_sequence s,
    sp_sample_rate_hz = sp_sample_rate_hz s, sp_fft_size = sp_fft_size s, sp_hop = sp_hop s,
    sp_center_hz = sp_center_hz s, sp_begin = sp_begin s, sp_end = sp_end s,
    sp_epoch = sp_epoch s, sp_ordinal = sp_ordinal s, sp_discontinuities = sp_discontinuities s,
    sp_sequence_gaps = sp_sequence_gaps s, sp_gaps = sp_gaps s, sp_power = sp_power s\<rparr> = s"
  by simp

lemma decode_wire_of:
  assumes v: "valid_spectrum s"
  shows "decode_spectrum (wire_of s) = Inr s"
proof -
  have g: "length (sp_gaps s) = unat (sp_fft_size s div 8)" and p: "length (sp_power s) = unat (sp_fft_size s)"
    using v by (simp_all add: valid_spectrum_def)
  have gaps: "map (\<lambda>index. wire_of s ! (header_bytes + index)) [0..<unat (sp_fft_size s div 8)] = sp_gaps s"
    by (rule nth_equalityI) (simp_all add: g nth_wire_gap)
  have powers: "emap (\<lambda>index. get (wire_of s) (header_bytes + unat (sp_fft_size s div 8) + index * 4) 4) [0..<unat (sp_fft_size s)]
      = Inr (map (\<lambda>i. ucast (sp_power s ! i)) [0..<unat (sp_fft_size s)])"
    by (rule emap_Inr) (use get_wire_power [of _ s] in \<open>simp add: p g\<close>)
  have pw: "map ucast (map (\<lambda>i. ucast (sp_power s ! i) :: u64) [0..<unat (sp_fft_size s)]) = sp_power s"
    by (rule nth_equalityI) (simp_all add: p)
  show ?thesis
    using v wire_length_cases(3) [OF v]
    by (simp add: decode_spectrum_def decode_body_def field_is_def require_spectrum_def get_wire_fields Let_def
        wire_size_eq gaps powers pw validate_spectrum_def header_bytes_def [symmetric] del: map_map)
qed

text \<open>The record the fields of a frame describe, before any check.\<close>

definition fields_of :: "bytes \<Rightarrow> spectrum" where
  "fields_of w =
    (let u32_at = (\<lambda>off. ucast (be_value (read_at w off 4)) :: u32);
         u64_at = (\<lambda>off. be_value (read_at w off 8));
         n = unat (u32_at 20)
     in \<lparr>sp_stream_id = u32_at 12, sp_sequence = u32_at 16,
         sp_sample_rate_hz = ucast (u64_at 40), sp_fft_size = u32_at 20, sp_hop = u32_at 24,
         sp_center_hz = u64_at 32,
         sp_begin = ProtocolTime (u64_at 48) (u64_at 56),
         sp_end = ProtocolTime (u64_at 64) (u64_at 72),
         sp_epoch = ProtocolTime (u64_at 96) (u64_at 104),
         sp_ordinal = u64_at 112, sp_discontinuities = u64_at 88, sp_sequence_gaps = u64_at 120,
         sp_gaps = read_at w 128 (n div 8),
         sp_power = map (\<lambda>i. u32_at (128 + n div 8 + i * 4)) [0..<n]\<rparr>)"

definition frame_ok :: "bytes \<Rightarrow> spectrum \<Rightarrow> bool" where
  "frame_ok w s \<longleftrightarrow>
     be_value (read_at w 0 4) = magic \<and> be_value (read_at w 4 2) = version \<and>
     be_value (read_at w 6 2) = 128 \<and> be_value (read_at w 8 4) = of_nat (length w) \<and>
     be_value (read_at w 28 4) = 0 \<and>
     be_value (read_at w 80 4) = ucast (sp_fft_size s) - missing_count s \<and>
     be_value (read_at w 84 4) = missing_count s"

lemma wire_size_Inr:
  assumes a: "spectrum_wire_size (ucast (x :: u32)) = Inr n"
  shows "n = 128 + unat x div 8 + 4 * unat x" and "unat x \<in> {64, 128, 256, 512, 1024, 2048}"
proof -
  from a have "(ucast x :: u64) \<in> {64, 128, 256, 512, 1024, 2048}"
    by (simp add: spectrum_wire_size_def require_spectrum_def valid_sizes_64)
  then have "unat (ucast x :: u64) \<in> {64, 128, 256, 512, 1024, 2048}"
    by (elim insertE) (simp_all del: unat_ucast_32_64)
  then show "unat x \<in> {64, 128, 256, 512, 1024, 2048}" by simp
  from a show "n = 128 + unat x div 8 + 4 * unat x"
    by (simp add: spectrum_wire_size_def require_spectrum_def header_bytes_def)
qed

lemma get_in_header: "128 \<le> length w \<Longrightarrow> off + n \<le> 128 \<Longrightarrow> get w off n = Inr (be_value (read_at w off n))"
  by (rule get_eq) simp

lemma decode_spectrum_eq:
  assumes "128 \<le> length w"
  shows "decode_spectrum w =
    ensure (be_value (read_at w 0 4) = magic \<and> be_value (read_at w 4 2) = version \<and>
       be_value (read_at w 6 2) = 128 \<and> be_value (read_at w 8 4) = of_nat (length w) \<and>
       be_value (read_at w 28 4) = 0) spectrum_error
    (ebind (spectrum_wire_size (ucast (ucast (be_value (read_at w 20 4)) :: u32))) (\<lambda>m.
       ensure (length w = m) spectrum_error
        (decode_body w (ucast (be_value (read_at w 12 4))) (ucast (be_value (read_at w 16 4)))
          (ucast (be_value (read_at w 20 4))) (ucast (be_value (read_at w 24 4))))))"
  using assms
  by (simp add: decode_spectrum_def require_spectrum_def field_is_def get_in_header header_bytes_def
      ensure_def Let_def del: unat_ucast_32_64)

lemma decode_short: "length w < 128 \<Longrightarrow> decode_spectrum w = Inl spectrum_error"
  by (simp add: decode_spectrum_def require_spectrum_def header_bytes_def)

lemma decode_body_eq:
  assumes len: "length w = 128 + unat n div 8 + 4 * unat n"
    and s: "s = \<lparr>sp_stream_id = sid, sp_sequence = sq,
         sp_sample_rate_hz = ucast (be_value (read_at w 40 8)), sp_fft_size = n, sp_hop = h,
         sp_center_hz = be_value (read_at w 32 8),
         sp_begin = ProtocolTime (be_value (read_at w 48 8)) (be_value (read_at w 56 8)),
         sp_end = ProtocolTime (be_value (read_at w 64 8)) (be_value (read_at w 72 8)),
         sp_epoch = ProtocolTime (be_value (read_at w 96 8)) (be_value (read_at w 104 8)),
         sp_ordinal = be_value (read_at w 112 8), sp_discontinuities = be_value (read_at w 88 8),
         sp_sequence_gaps = be_value (read_at w 120 8),
         sp_gaps = read_at w 128 (unat n div 8),
         sp_power = map (\<lambda>i. ucast (be_value (read_at w (128 + unat n div 8 + i * 4) 4))) [0..<unat n]\<rparr>"
  shows "decode_body w sid sq n h =
    ensure (valid_spectrum s \<and> be_value (read_at w 80 4) = ucast n - missing_count s \<and>
      be_value (read_at w 84 4) = missing_count s) spectrum_error (Inr s)"
proof -
  have gaps: "map (\<lambda>index. w ! (128 + index)) [0..<unat (n div 8)] = read_at w 128 (unat n div 8)"
    using len by (simp add: read_at_conv_map unat_div_distrib)
  have powers: "emap (\<lambda>index. get w (128 + unat n div 8 + index * 4) 4) [0..<unat n]
    = Inr (map (\<lambda>i. be_value (read_at w (128 + unat n div 8 + i * 4) 4)) [0..<unat n])"
    by (rule emap_Inr) (simp add: get_eq len)
  have lg: "length (read_at w 128 (unat n div 8)) = unat n div 8"
    by (simp add: len)
  have len': "128 \<le> length w" using len by simp
  show ?thesis
    unfolding decode_body_def Let_def header_bytes_def gaps lg powers
    by (simp add: get_in_header [OF len'] powers field_is_def require_spectrum_def
        validate_spectrum_def ensure_def map_map o_def s [symmetric] del: unat_ucast_32_64)
qed

lemma decode_cases:
  "decode_spectrum w =
    (if 128 \<le> length w \<and> spectrum_wire_size (ucast (sp_fft_size (fields_of w))) = Inr (length w)
        \<and> frame_ok w (fields_of w) \<and> valid_spectrum (fields_of w)
     then Inr (fields_of w) else Inl spectrum_error)"
proof (cases "128 \<le> length w")
  case False
  then show ?thesis by (simp add: decode_short)
next
  case len: True
  let ?n = "ucast (be_value (read_at w 20 4)) :: u32"
  have n: "sp_fft_size (fields_of w) = ?n" by (simp add: fields_of_def Let_def)
  show ?thesis
  proof (cases "spectrum_wire_size (ucast ?n) = Inr (length w)")
    case True
    note size = wire_size_Inr [OF True]
    show ?thesis
      unfolding decode_spectrum_eq [OF len] True n ebind.simps
      by (subst decode_body_eq [OF size(1) refl])
        (use len in \<open>auto simp add: fields_of_def Let_def frame_ok_def ensure_def\<close>)
  next
    case False
    have "spectrum_wire_size (ucast ?n) = Inl spectrum_error \<or> (\<exists>m. spectrum_wire_size (ucast ?n) = Inr m)"
      by (auto simp: spectrum_wire_size_def require_spectrum_def ensure_def)
    with False show ?thesis
      unfolding decode_spectrum_eq [OF len] n by (auto simp: ensure_def)
  qed
qed

lemma concat_fields_read_at:
  "contiguous off fs \<Longrightarrow> (\<forall>(o', v, n) \<in> set fs. be_bytes n v = read_at w o' n) \<Longrightarrow>
   concat (map field_bytes fs) = read_at w off (length (concat (map field_bytes fs)))"
proof (induction fs arbitrary: off)
  case Nil
  then show ?case by (simp add: read_at_def)
next
  case (Cons f fs)
  obtain o' v n where f: "f = (o', v, n)" by (cases f) auto
  have "concat (map field_bytes fs) = read_at w (off + n) (length (concat (map field_bytes fs)))"
    using Cons.IH [of "off + n"] Cons.prems f by simp
  moreover have "be_bytes n v = read_at w off n" using Cons.prems f by simp
  moreover have "length (concat (map field_bytes (f # fs))) = n + length (concat (map field_bytes fs))"
    by (simp add: f)
  ultimately show ?case by (simp only: read_at_add) (simp add: f)
qed

lemma rate_bytes:
  assumes w: "48 \<le> length w"
  shows "be_bytes 8 (ucast (ucast (be_value (read_at w 40 8)) :: u32)) = replicate 4 0 @ read_at w 44 4"
proof -
  have split: "read_at w 40 8 = read_at w 40 4 @ read_at w 44 4"
    using read_at_add [of w 40 4 4] by simp
  have "(ucast (be_value (read_at w 40 8)) :: u32) = ucast (be_value (read_at w 44 4))"
    unfolding split using w
    by (simp add: be_value_append) (rule bit_word_eqI, auto simp: bit_simps)
  then show ?thesis
    using w by (simp only: be_bytes_8_ucast) (simp add: ucast_be_value_32 be_bytes_read_at)
qed

text \<open>The frame with the high half of its sample-rate field cleared.\<close>

definition clear_rate_high :: "bytes \<Rightarrow> bytes" where
  "clear_rate_high w = write_at w 40 (replicate 4 0)"

lemma length_clear [simp]: "44 \<le> length w \<Longrightarrow> length (clear_rate_high w) = length w"
  by (simp add: clear_rate_high_def)

lemma read_clear_other:
  "44 \<le> length w \<Longrightarrow> off + n \<le> 40 \<or> 44 \<le> off \<Longrightarrow> read_at (clear_rate_high w) off n = read_at w off n"
  unfolding clear_rate_high_def by (rule read_at_write_at_other) simp_all

lemma read_clear_rate: "48 \<le> length w \<Longrightarrow> read_at (clear_rate_high w) 40 8 = replicate 4 0 @ read_at w 44 4"
proof -
  assume w: "48 \<le> length w"
  have "read_at (clear_rate_high w) 40 8 = read_at (clear_rate_high w) 40 4 @ read_at (clear_rate_high w) 44 4"
    using read_at_add [of "clear_rate_high w" 40 4 4] by simp
  moreover have "read_at (clear_rate_high w) 40 4 = replicate 4 0"
    unfolding clear_rate_high_def using w by (intro read_at_write_at_same) simp_all
  ultimately show ?thesis using w by (simp add: read_clear_other)
qed

lemma header_of_decoded:
  assumes len: "128 \<le> length w" and ok: "frame_ok w s" and s: "s = fields_of w"
  shows "\<forall>(o', v, n) \<in> set (header_fields s (length w)). be_bytes n v = read_at (clear_rate_high w) o' n"
proof -
  have rd: "be_bytes n (be_value (read_at w o' n)) = read_at (clear_rate_high w) o' n"
    if "o' + n \<le> 40 \<or> (44 \<le> o' \<and> o' + n \<le> 128)" and "n \<le> 8" for o' n
  proof -
    from that len have "o' + n \<le> length w" "o' + n \<le> 40 \<or> 44 \<le> o'" "44 \<le> length w" by auto
    with that show ?thesis by (simp only: be_bytes_read_at read_clear_other)
  qed
  have rd4: "be_bytes 4 (ucast (ucast (be_value (read_at w o' 4)) :: u32)) = read_at (clear_rate_high w) o' 4"
    if "o' + 4 \<le> 40 \<or> (44 \<le> o' \<and> o' + 4 \<le> 128)" for o'
  proof -
    have "o' + 4 \<le> length w" using that len by auto
    moreover have "be_bytes 4 (be_value (read_at w o' 4)) = read_at (clear_rate_high w) o' 4"
      by (rule rd [OF that]) simp
    ultimately show ?thesis by (simp only: ucast_be_value_32)
  qed
  have rate: "be_bytes 8 (ucast (ucast (be_value (read_at w 40 8)) :: u32)) = read_at (clear_rate_high w) 40 8"
    using len by (simp only: rate_bytes read_clear_rate)
  note k = ok [unfolded frame_ok_def]
  have fs: "sp_stream_id s = ucast (be_value (read_at w 12 4))" "sp_sequence s = ucast (be_value (read_at w 16 4))"
    "sp_fft_size s = ucast (be_value (read_at w 20 4))" "sp_hop s = ucast (be_value (read_at w 24 4))"
    "sp_center_hz s = be_value (read_at w 32 8)" "sp_sample_rate_hz s = ucast (be_value (read_at w 40 8))"
    "seconds (sp_begin s) = be_value (read_at w 48 8)" "picoseconds (sp_begin s) = be_value (read_at w 56 8)"
    "seconds (sp_end s) = be_value (read_at w 64 8)" "picoseconds (sp_end s) = be_value (read_at w 72 8)"
    "sp_discontinuities s = be_value (read_at w 88 8)"
    "seconds (sp_epoch s) = be_value (read_at w 96 8)" "picoseconds (sp_epoch s) = be_value (read_at w 104 8)"
    "sp_ordinal s = be_value (read_at w 112 8)" "sp_sequence_gaps s = be_value (read_at w 120 8)"
    by (simp_all add: s fields_of_def Let_def)
  have c: "magic = be_value (read_at w 0 4)" "version = be_value (read_at w 4 2)"
    "of_nat header_bytes = be_value (read_at w 6 2)" "of_nat (length w) = be_value (read_at w 8 4)"
    "0 = be_value (read_at w 28 4)"
    "ucast (sp_fft_size s) - missing_count s = be_value (read_at w 80 4)"
    "missing_count s = be_value (read_at w 84 4)"
    using k by (simp_all add: header_bytes_def)
  show ?thesis
    unfolding header_fields_def list.set ball_simps prod.case
    unfolding c(6) unfolding c(7) unfolding c(1-5) fs
    by (intro conjI; (rule rd rd4 rate)?; simp)
qed

lemma clear_rate_high_encode:
  assumes d: "decode_spectrum w = Inr s"
  shows "encode_spectrum s = Inr (clear_rate_high w)"
proof -
  from d have len: "128 \<le> length w" and sz: "spectrum_wire_size (ucast (sp_fft_size s)) = Inr (length w)"
    and ok: "frame_ok w s" and v: "valid_spectrum s" and s: "s = fields_of w"
    by (auto simp: decode_cases split: if_splits)
  let ?n = "unat (sp_fft_size s)" and ?c = "clear_rate_high w"
  from wire_size_Inr [OF sz] have n: "length w = 128 + ?n div 8 + 4 * ?n" by simp
  have lc: "length ?c = length w" using len by simp
  have nn: "unat (ucast (be_value (read_at w 20 4)) :: u32) = ?n"
    by (simp add: s fields_of_def Let_def)
  have hd: "concat (map field_bytes (header_fields s (wire_length s))) = read_at ?c 0 128"
  proof -
    have wl: "wire_length s = length w" by (simp add: n wire_length_def header_bytes_def)
    have "concat (map field_bytes (header_fields s (wire_length s))) =
        read_at ?c 0 (length (concat (map field_bytes (header_fields s (wire_length s)))))"
      by (rule concat_fields_read_at)
        (use header_of_decoded [OF len ok s] in \<open>simp_all add: wl header_fields_def contiguous.simps\<close>)
    then show ?thesis by (simp add: length_header header_bytes_def)
  qed
  have gp: "sp_gaps s = read_at ?c 128 (?n div 8)"
    using len n by (simp add: read_clear_other) (simp add: s fields_of_def Let_def)
  have pw: "concat (map (\<lambda>v. be_bytes 4 (ucast v)) (sp_power s)) = read_at ?c (128 + ?n div 8) (4 * ?n)"
  proof -
    have "sp_power s = map (\<lambda>i. ucast (be_value (read_at w (128 + ?n div 8 + i * 4) 4))) [0..<?n]"
      by (simp only: nn [symmetric]) (simp add: s fields_of_def Let_def)
    then have "concat (map (\<lambda>v. be_bytes 4 (ucast v)) (sp_power s)) = concat (map (\<lambda>i.
        be_bytes 4 (ucast (ucast (be_value (read_at w (128 + ?n div 8 + i * 4) 4)) :: f32))) [0..<?n])"
      by (metis (no_types, lifting) map_map comp_apply map_eq_conv)
    also have "\<dots> = concat (map (\<lambda>i. read_at ?c (128 + ?n div 8 + i * 4) 4) [0..<?n])"
      using n by (intro arg_cong [where f = concat] map_cong refl)
        (simp add: ucast_be_value_32 be_bytes_read_at read_clear_other)
    finally have "concat (map (\<lambda>v. be_bytes 4 (ucast v)) (sp_power s)) =
        concat (map (\<lambda>i. read_at ?c (128 + ?n div 8 + i * 4) 4) [0..<?n])" .
    then show ?thesis by (simp only: concat_read_at)
  qed
  have "wire_of s = read_at ?c 0 (128 + (?n div 8 + 4 * ?n))"
    unfolding wire_of_def hd gp pw read_at_add by simp
  also have "\<dots> = ?c" using lc n by (simp add: read_at_def)
  finally show ?thesis using encode_eq [OF v] by simp
qed

lemma decode_ignores_rate_high:
  assumes "length bs = 4"
  shows "decode_spectrum (write_at w 40 bs) = decode_spectrum w"
proof (cases "128 \<le> length w")
  case True
  let ?w = "write_at w 40 bs"
  have len: "length ?w = length w" using True assms by simp
  have r: "read_at ?w off n = read_at w off n" if "off + n \<le> 40 \<or> 44 \<le> off" for off n
    using True assms that by (intro read_at_write_at_other) simp_all
  have low: "(ucast (be_value (read_at v 40 8)) :: u32) = ucast (be_value (read_at v 44 4))" if "128 \<le> length v" for v
  proof -
    have split: "read_at v 40 8 = read_at v 40 4 @ read_at v 44 4"
      using read_at_add [of v 40 4 4] by simp
    show ?thesis
      unfolding split using that
      by (simp add: be_value_append) (rule bit_word_eqI, auto simp: bit_simps)
  qed
  have f: "fields_of ?w = fields_of w"
    using True len by (simp add: fields_of_def Let_def low r)
  show ?thesis
    unfolding decode_cases f len by (simp add: frame_ok_def r len)
next
  case False
  then have "length w < 128" "length (write_at w 40 bs) < 128" using assms by (auto simp: write_at_def)
  then show ?thesis by (simp add: decode_short)
qed

section \<open>The codec as a message format\<close>

lemma encode_invalid: "\<not> valid_spectrum s \<Longrightarrow> encode_spectrum s = Inl spectrum_error"
  by (simp add: encode_spectrum_def validate_spectrum_def require_spectrum_def)

lemma decode_valid: "decode_spectrum w = Inr s \<Longrightarrow> valid_spectrum s"
  by (auto simp: decode_cases split: if_splits)

interpretation spectrum_codec: wire_format valid_spectrum encode_spectrum decode_spectrum
  by unfold_locales (auto simp: encode_eq decode_wire_of encode_invalid dest: decode_valid)

text \<open>C10. A spectrum record is encoded exactly when it is valid, into a frame of exactly
  \<open>spectrum_wire_size\<close> bytes, and decoding that frame returns the same record; an invalid
  record throws.\<close>

theorem encode_decode_spectrum:
  "(case encode_spectrum s of
      Inl e \<Rightarrow> e = spectrum_error \<and> \<not> valid_spectrum s
    | Inr w \<Rightarrow> valid_spectrum s \<and> decode_spectrum w = Inr s \<and>
        spectrum_wire_size (ucast (sp_fft_size s)) = Inr (length w))"
  by (cases "valid_spectrum s") (simp_all add: encode_eq decode_wire_of encode_invalid wire_size_eq)

text \<open>C33. Whatever frame the decoder accepts, it returns a valid record, and encoding that
  record gives the frame back except that the four high bytes of the sample-rate field are
  cleared: the format is canonical up to these four bytes.\<close>

theorem decode_encode_spectrum:
  assumes "decode_spectrum w = Inr s"
  shows "valid_spectrum s \<and> encode_spectrum s = Inr (clear_rate_high w)"
  using assms by (simp add: decode_valid clear_rate_high_encode)

text \<open>The decoder does not look at the four high bytes of the 64-bit sample-rate field:
  frames that differ there decode to the same result, so an out-of-range rate is accepted
  when its low half is in range.\<close>

lemma decode_truncates_rate:
  assumes "length bs = 4"
  shows "decode_spectrum (write_at w 40 bs) = decode_spectrum w"
  using assms by (rule decode_ignores_rate_high)

text \<open>A sequence of records encoded one by one decodes to the same sequence, and two
  records with the same encoding are equal.\<close>

lemma spectrum_stream_transport:
  assumes "emap encode_spectrum ss = Inr ws"
  shows "emap decode_spectrum ws = Inr ss \<and>
    (\<forall>ss'. emap encode_spectrum ss' = Inr ws \<longrightarrow> ss' = ss)"
  using spectrum_codec.transport [of ss ws] spectrum_codec.transport [of _ ws] assms by fastforce

section \<open>An example record\<close>

definition example_spectrum :: spectrum where
  "example_spectrum =
     \<lparr>sp_stream_id = 2, sp_sequence = 7, sp_sample_rate_hz = 1000000, sp_fft_size = 64, sp_hop = 32,
      sp_center_hz = 100000000, sp_begin = ProtocolTime 100 0, sp_end = ProtocolTime 100 64000000,
      sp_epoch = ProtocolTime 90 0, sp_ordinal = 320, sp_discontinuities = 1, sp_sequence_gaps = 0,
      sp_gaps = replicate 8 0, sp_power = replicate 40 0 @ [0x3f800000] @ replicate 23 0\<rparr>"

lemma example_valid [simp]: "valid_spectrum example_spectrum"
  unfolding valid_spectrum_def valid_config_def valid_sizes_32
  by (simp add: example_spectrum_def f32_isfinite_def f32_nonneg_def f32_key_def f32_magnitude_def
      set_replicate_conv_if)

theorem decode_encode_spectrum_witness:
  "decode_spectrum (wire_of example_spectrum) = Inr example_spectrum \<and>
   valid_spectrum example_spectrum \<and>
   encode_spectrum example_spectrum = Inr (clear_rate_high (wire_of example_spectrum))"
  using decode_encode_spectrum [of "wire_of example_spectrum" example_spectrum]
  by (simp add: decode_wire_of)

end
