(* ===== verification/Detection.thy ===== *)
theory Detection
  imports SpectrumWire Complex_Main
begin

text \<open>
  The detector's estimate of a signal's frequency (\<open>detect_frequency\<close> in
  \<open>src/spectrum.cpp\<close>). The result is a rational number: a center frequency
  below 2^33, an FFT size that is a power of two up to 2^11 and a rate up to
  2^21 make every intermediate \<open>double\<close> of the code exact.
\<close>

text \<open>\<open>std::max_element\<close>: the first position whose value no other exceeds.\<close>

definition max_element :: "f32 list \<Rightarrow> nat" where
  "max_element p = foldl (\<lambda>largest first. if f32_less (p ! largest) (p ! first) then first else largest)
     0 [1..<length p]"

definition detect_frequency :: "spectrum \<Rightarrow> rat option result" where
  "detect_frequency s =
     ebind (validate_spectrum s) (\<lambda>_.
       if missing_count s \<noteq> 0 then Inr None
       else let peak = max_element (sp_power s) in
         if peak = length (sp_power s) \<or> f32_is_zero (sp_power s ! peak) then Inr None
         else Inr (Some (of_nat (unat (sp_center_hz s)) +
                (of_nat peak - of_nat (unat (sp_fft_size s)) / 2) *
                  of_nat (unat (sp_sample_rate_hz s)) / of_nat (unat (sp_fft_size s)))))"

lemma max_element_prefix:
  "n < length p \<Longrightarrow>
   (let k = foldl (\<lambda>largest first. if f32_less (p ! largest) (p ! first) then first else largest) 0 [1..<Suc n]
    in k \<le> n \<and> (\<forall>i \<le> n. f32_key (p ! i) \<le> f32_key (p ! k)) \<and> (\<forall>i < k. f32_key (p ! i) < f32_key (p ! k)))"
proof (induction n)
  case 0
  then show ?case by simp
next
  case (Suc n)
  define k where "k = foldl (\<lambda>largest first. if f32_less (p ! largest) (p ! first) then first else largest) 0 [1..<Suc n]"
  have "k \<le> n \<and> (\<forall>i \<le> n. f32_key (p ! i) \<le> f32_key (p ! k)) \<and> (\<forall>i < k. f32_key (p ! i) < f32_key (p ! k))"
    using Suc.IH [OF Suc_lessD [OF Suc.prems]] unfolding k_def Let_def .
  then have IH: "k \<le> n" "\<And>i. i \<le> n \<Longrightarrow> f32_key (p ! i) \<le> f32_key (p ! k)" "\<And>i. i < k \<Longrightarrow> f32_key (p ! i) < f32_key (p ! k)"
    by auto
  have step: "foldl (\<lambda>largest first. if f32_less (p ! largest) (p ! first) then first else largest) 0 [1..<Suc (Suc n)]
      = (if f32_less (p ! k) (p ! Suc n) then Suc n else k)"
    by (simp add: k_def)
  show ?case
  proof (cases "f32_key (p ! k) < f32_key (p ! Suc n)")
    case True
    have "f32_key (p ! i) < f32_key (p ! Suc n)" if "i \<le> n" for i
      using IH(2) [OF that] True by linarith
    with True show ?thesis unfolding step by (auto simp: Let_def f32_less_def le_Suc_eq less_imp_le)
  next
    case False
    with IH show ?thesis unfolding step by (auto simp: Let_def f32_less_def le_Suc_eq)
  qed
qed

lemma max_element_greatest:
  assumes "p \<noteq> []"
  shows "max_element p < length p"
    and "i < length p \<Longrightarrow> f32_key (p ! i) \<le> f32_key (p ! max_element p)"
    and "i < max_element p \<Longrightarrow> f32_key (p ! i) < f32_key (p ! max_element p)"
proof -
  have "length p - 1 < length p" and e: "[1..<length p] = [1..<Suc (length p - 1)]" using assms by simp_all
  from max_element_prefix [OF this(1)] have
    *: "max_element p \<le> length p - 1 \<and> (\<forall>i \<le> length p - 1. f32_key (p ! i) \<le> f32_key (p ! max_element p)) \<and>
      (\<forall>i < max_element p. f32_key (p ! i) < f32_key (p ! max_element p))"
    unfolding max_element_def e Let_def .
  with assms show "max_element p < length p" by (cases p) auto
  show "i < length p \<Longrightarrow> f32_key (p ! i) \<le> f32_key (p ! max_element p)" using * by auto
  show "i < max_element p \<Longrightarrow> f32_key (p ! i) < f32_key (p ! max_element p)" using * by auto
qed

lemma f32_zero_key: "f32_is_zero x \<longleftrightarrow> f32_key x = 0"
  by (simp add: f32_is_zero_def f32_key_def unsigned_eq_0_iff)

text \<open>The frequency of a bin, and the half-open band the bins cover.\<close>

definition bin_frequency :: "spectrum \<Rightarrow> nat \<Rightarrow> rat" where
  "bin_frequency s k = of_nat (unat (sp_center_hz s)) +
     (of_nat k - of_nat (unat (sp_fft_size s)) / 2) *
       of_nat (unat (sp_sample_rate_hz s)) / of_nat (unat (sp_fft_size s))"

lemma bin_frequency_band:
  assumes v: "valid_spectrum s" and k: "k < unat (sp_fft_size s)"
  shows "of_nat (unat (sp_center_hz s)) - of_nat (unat (sp_sample_rate_hz s)) / 2 \<le> bin_frequency s k"
    and "bin_frequency s k < of_nat (unat (sp_center_hz s)) + of_nat (unat (sp_sample_rate_hz s)) / 2"
proof -
  define n r where "n = (of_nat (unat (sp_fft_size s)) :: rat)" and "r = (of_nat (unat (sp_sample_rate_hz s)) :: rat)"
  have "unat (sp_sample_rate_hz s) \<ge> 1000"
    using v by (simp add: valid_spectrum_def valid_config_def word_le_nat_alt)
  then have "0 < unat (sp_sample_rate_hz s)" by linarith
  then have r: "0 < r" by (simp only: r_def of_nat_0_less_iff)
  have kn: "(of_nat k :: rat) < n" "0 < n"
    using k by (simp_all only: n_def of_nat_less_iff of_nat_0_less_iff)
  have "- r / 2 \<le> (of_nat k - n / 2) * r / n"
    using kn r by (simp add: field_simps)
  then show "of_nat (unat (sp_center_hz s)) - of_nat (unat (sp_sample_rate_hz s)) / 2 \<le> bin_frequency s k"
    unfolding bin_frequency_def n_def [symmetric] r_def [symmetric] by simp
  have "(of_nat k - n / 2) * r / n < r / 2"
    using kn r by (simp add: field_simps)
  then show "bin_frequency s k < of_nat (unat (sp_center_hz s)) + of_nat (unat (sp_sample_rate_hz s)) / 2"
    unfolding bin_frequency_def n_def [symmetric] r_def [symmetric] by simp
qed

text \<open>The detector reports nothing exactly when the record has a missing sample or no power at
  all; otherwise it reports the frequency of the first of the strongest bins, which lies inside
  the band of half the sample rate on either side of the center. Invalid records throw.\<close>

lemma detect_frequency_peak:
  "(case detect_frequency s of
      Inl e \<Rightarrow> e = spectrum_error \<and> \<not> valid_spectrum s
    | Inr None \<Rightarrow> valid_spectrum s \<and> (missing_count s \<noteq> 0 \<or> (\<forall>x \<in> set (sp_power s). f32_is_zero x))
    | Inr (Some f) \<Rightarrow> valid_spectrum s \<and> missing_count s = 0 \<and>
        of_nat (unat (sp_center_hz s)) - of_nat (unat (sp_sample_rate_hz s)) / 2 \<le> f \<and>
        f < of_nat (unat (sp_center_hz s)) + of_nat (unat (sp_sample_rate_hz s)) / 2 \<and>
        (\<exists>k < unat (sp_fft_size s). f = bin_frequency s k \<and> \<not> f32_is_zero (sp_power s ! k) \<and>
          (\<forall>i < unat (sp_fft_size s). f32_key (sp_power s ! i) \<le> f32_key (sp_power s ! k)) \<and>
          (\<forall>i < k. f32_key (sp_power s ! i) < f32_key (sp_power s ! k))))"
proof (cases "valid_spectrum s")
  case False
  then show ?thesis by (simp add: detect_frequency_def validate_spectrum_def require_spectrum_def)
next
  case True
  let ?p = "sp_power s" and ?k = "max_element (sp_power s)"
  have len: "length ?p = unat (sp_fft_size s)" using True by (simp add: valid_spectrum_def)
  with wire_length_cases(1) [OF True] have ne: "?p \<noteq> []" by auto
  note greatest = max_element_greatest [OF ne]
  have nonneg: "0 \<le> f32_key x" if "x \<in> set ?p" for x
    using True that by (simp add: valid_spectrum_def f32_nonneg_def)
  have det: "detect_frequency s = (if missing_count s \<noteq> 0 \<or> f32_is_zero (?p ! ?k) then Inr None
      else Inr (Some (bin_frequency s ?k)))"
    using True greatest(1)
    by (simp add: detect_frequency_def validate_spectrum_def require_spectrum_def bin_frequency_def Let_def)
  have zero: "\<forall>x \<in> set ?p. f32_is_zero x" if "f32_is_zero (?p ! ?k)"
  proof
    fix x assume x: "x \<in> set ?p"
    then have "f32_key x \<le> f32_key (?p ! ?k)" using greatest(2) by (metis in_set_conv_nth)
    with that nonneg [OF x] show "f32_is_zero x" by (simp add: f32_zero_key)
  qed
  show ?thesis
  proof (cases "missing_count s \<noteq> 0 \<or> f32_is_zero (?p ! ?k)")
    case True
    with zero \<open>valid_spectrum s\<close> show ?thesis by (auto simp: det)
  next
    case False
    then show ?thesis
      using greatest \<open>valid_spectrum s\<close> bin_frequency_band [OF \<open>valid_spectrum s\<close>, of ?k]
      by (auto simp: det len [symmetric])
  qed
qed

lemma example_missing: "missing_count example_spectrum = 0"
  by code_simp

end
