(* ===== verification/Fft.thy ===== *)
theory Fft
  imports Detection
begin

text \<open>
  The power spectrum of a window of samples (\<open>power_spectrum\<close> in
  \<open>src/spectrum.cpp\<close>): an in-place radix-2 transform after a bit-reversal
  permutation, with the zero frequency moved to the middle. The operations of
  \<open>std::complex<double>\<close> that the code uses are the fields of a record, so the
  same definition runs on any arithmetic; on exact complex numbers it computes
  the discrete Fourier transform.
\<close>

record 'c arithmetic =
  c_zero :: 'c
  c_one :: 'c
  c_add :: "'c \<Rightarrow> 'c \<Rightarrow> 'c"
  c_sub :: "'c \<Rightarrow> 'c \<Rightarrow> 'c"
  c_mul :: "'c \<Rightarrow> 'c \<Rightarrow> 'c"
  c_root :: "nat \<Rightarrow> 'c"
  c_isfinite :: "'c \<Rightarrow> bool"
  c_power :: "'c \<Rightarrow> nat \<Rightarrow> f32"

text \<open>
  \<open>c_root length\<close> is \<open>std::polar(1.0, -2 * pi / length)\<close> and
  \<open>c_power value size\<close> is \<open>static_cast<float>(std::norm(value) / scale)\<close> with
  \<open>scale\<close> the square of the size.
\<close>

section \<open>The program\<close>

text \<open>The inner loop of the bit-reversal: increment of a number read from its top bit.\<close>

fun rev_step :: "nat \<Rightarrow> nat \<Rightarrow> nat" where
  "rev_step place reversed =
     (if place \<noteq> 0 \<and> reversed AND place \<noteq> 0 then rev_step (place div 2) (reversed XOR place)
      else reversed XOR place)"

declare rev_step.simps [simp del]

definition swap_at :: "'a list \<Rightarrow> nat \<Rightarrow> nat \<Rightarrow> 'a list" where
  "swap_at values i j = values[i := values ! j, j := values ! i]"

definition reverse_step :: "nat \<Rightarrow> 'c list \<times> nat \<Rightarrow> nat \<Rightarrow> 'c list \<times> nat" where
  "reverse_step n st index =
    (let (values, reversed) = st;
         reversed = rev_step (n div 2) reversed
     in (if index < reversed then swap_at values index reversed else values, reversed))"

definition bit_reverse :: "nat \<Rightarrow> 'c list \<Rightarrow> 'c list" where
  "bit_reverse n values = fst (foldl (reverse_step n) (values, 0) [1..<n])"

definition butterfly :: "'c arithmetic \<Rightarrow> nat \<Rightarrow> nat \<Rightarrow> 'c list \<times> 'c \<Rightarrow> nat \<Rightarrow> 'c list \<times> 'c" where
  "butterfly A len base st offset =
    (let (values, factor) = st;
         even = values ! (base + offset);
         odd = c_mul A factor (values ! (base + offset + len div 2))
     in (values[base + offset := c_add A even odd, base + offset + len div 2 := c_sub A even odd],
         c_mul A factor (c_root A len)))"

definition block :: "'c arithmetic \<Rightarrow> nat \<Rightarrow> 'c list \<Rightarrow> nat \<Rightarrow> 'c list" where
  "block A len values base = fst (foldl (butterfly A len base) (values, c_one A) [0..<len div 2])"

text \<open>\<open>for (base = 0; base < n; base += len)\<close> visits the multiples of \<open>len\<close> below \<open>n\<close>.\<close>

definition stage :: "'c arithmetic \<Rightarrow> nat \<Rightarrow> nat \<Rightarrow> 'c list \<Rightarrow> 'c list" where
  "stage A n len values = foldl (block A len) values (filter (\<lambda>base. len dvd base) [0..<n])"

function stages :: "'c arithmetic \<Rightarrow> nat \<Rightarrow> nat \<Rightarrow> 'c list \<Rightarrow> 'c list" where
  "stages A n len values =
     (if 0 < len \<and> len \<le> n then stages A n (len * 2) (stage A n len values) else values)"
  by pat_completeness auto
termination by (relation "measure (\<lambda>(A, n, len, values). Suc n - len)") auto

declare stages.simps [simp del]

definition fft :: "'c arithmetic \<Rightarrow> nat \<Rightarrow> 'c list \<Rightarrow> 'c list" where
  "fft A n values = stages A n 2 (bit_reverse n values)"

text \<open>The loop that copies the samples, leaving the missing ones zero and marking them.\<close>

definition take_sample ::
  "'c arithmetic \<Rightarrow> 'c list \<Rightarrow> u8 list \<Rightarrow> u8 list \<times> 'c list \<Rightarrow> nat \<Rightarrow> (u8 list \<times> 'c list) result" where
  "take_sample A samples missing st index =
    (let (gaps, values) = st in
     require_spectrum (c_isfinite A (samples ! index))
       (Inr (if missing ! index \<noteq> 0
             then (gaps[index div 8 := gaps ! (index div 8) OR push_bit (7 - index mod 8) 1], values)
             else (gaps, values[index := samples ! index]))))"

definition power_spectrum :: "'c arithmetic \<Rightarrow> processing_config \<Rightarrow> 'c list \<Rightarrow> u8 list \<Rightarrow> spectrum result" where
  "power_spectrum A config samples missing =
     ebind (validate_config config) (\<lambda>_.
     let n = unat (pc_fft_size config) in
     require_spectrum (length samples = n \<and> length missing = n)
    (ebind (efold (take_sample A samples missing) (replicate (n div 8) 0, replicate n (c_zero A)) [0..<n])
      (\<lambda>(gaps, values).
       let values = fft A n values in
       Inr \<lparr>sp_stream_id = 0, sp_sequence = 0, sp_sample_rate_hz = pc_sample_rate_hz config,
            sp_fft_size = pc_fft_size config, sp_hop = hop config, sp_center_hz = 0,
            sp_begin = ProtocolTime 0 0, sp_end = ProtocolTime 0 0, sp_epoch = ProtocolTime 0 0,
            sp_ordinal = 0, sp_discontinuities = 0, sp_sequence_gaps = 0, sp_gaps = gaps,
            sp_power = map (\<lambda>index. c_power A (values ! ((index + n div 2) mod n)) n) [0..<n]\<rparr>)))"

section \<open>Bit reversal\<close>

fun rev_bits :: "nat \<Rightarrow> nat \<Rightarrow> nat" where
  "rev_bits 0 i = 0"
| "rev_bits (Suc k) i = 2 ^ k * (i mod 2) + rev_bits k (i div 2)"

lemma rev_bits_less: "rev_bits k i < 2 ^ k"
proof (induction k arbitrary: i)
  case 0
  then show ?case by simp
next
  case (Suc k)
  show ?case
    using Suc [of "i div 2"] by (cases "even i") (simp_all add: odd_iff_mod_2_eq_one)
qed

lemma rev_bits_low: "i < 2 ^ Suc k \<Longrightarrow> rev_bits (Suc k) i = 2 * rev_bits k (i mod 2 ^ k) + i div 2 ^ k"
proof (induction k arbitrary: i)
  case 0
  then have "i = 0 \<or> i = 1" by auto
  then show ?case by auto
next
  case (Suc k)
  have "i div 2 < 2 ^ Suc k" using Suc.prems by simp
  note IH = Suc.IH [OF this]
  have m: "i mod 2 ^ Suc k mod 2 = i mod 2" by (simp add: mod_mod_cancel)
  have d: "i mod 2 ^ Suc k div 2 = i div 2 mod 2 ^ k" by (simp add: mod_mult2_eq)
  have q: "i div 2 div 2 ^ k = i div 2 ^ Suc k" by (simp add: div_mult2_eq)
  have "rev_bits (Suc (Suc k)) i = 2 ^ Suc k * (i mod 2) + rev_bits (Suc k) (i div 2)" by simp
  also have "\<dots> = 2 * (2 ^ k * (i mod 2 ^ Suc k mod 2) + rev_bits k (i mod 2 ^ Suc k div 2)) + i div 2 ^ Suc k"
    unfolding IH m d q by simp
  finally show ?case by simp
qed

lemma rev_bits_rev_bits: "i < 2 ^ k \<Longrightarrow> rev_bits k (rev_bits k i) = i"
proof (induction k arbitrary: i)
  case 0
  then show ?case by simp
next
  case (Suc k)
  let ?r = "2 ^ k * (i mod 2) + rev_bits k (i div 2)"
  have r: "?r mod 2 ^ k = rev_bits k (i div 2)" "?r div 2 ^ k = i mod 2"
    using rev_bits_less [of k "i div 2"] by simp_all
  have "rev_bits (Suc k) (rev_bits (Suc k) i) = 2 * rev_bits k (?r mod 2 ^ k) + ?r div 2 ^ k"
    using rev_bits_low [of ?r k] rev_bits_less [of "Suc k" i] by simp
  also have "\<dots> = 2 * (i div 2) + i mod 2"
    unfolding r using Suc.IH [of "i div 2"] Suc.prems by simp
  finally show ?case by simp
qed

lemma and_power_high: "r < (2 :: nat) ^ k \<Longrightarrow> (2 ^ k + r) AND 2 ^ k \<noteq> 0 \<and> r AND 2 ^ k = 0
    \<and> (2 ^ k + r) XOR 2 ^ k = r \<and> r XOR 2 ^ k = 2 ^ k + r"
proof -
  assume r: "r < 2 ^ k"
  then have nb: "\<not> bit r k" by (simp add: bit_iff_odd)
  have high: "bit r m \<Longrightarrow> m \<noteq> k" for m using nb by auto
  have a: "r AND 2 ^ k = 0"
    by (rule bit_eqI) (use nb in \<open>auto simp: bit_simps\<close>)
  then have add: "2 ^ k + r = 2 ^ k OR r"
    by (intro disjunctive_add_eq_or) (simp add: and.commute)
  show ?thesis
    unfolding add using a
    by (auto simp: bit_eq_iff [where ?'a = nat] bit_simps nb dest: high)
qed

lemma rev_step_rev_bits: "i + 1 < 2 ^ Suc k \<Longrightarrow> rev_step (2 ^ k) (rev_bits (Suc k) i) = rev_bits (Suc k) (i + 1)"
proof (induction k arbitrary: i)
  case 0
  then show ?case by (simp add: rev_step.simps)
next
  case (Suc k)
  let ?r = "rev_bits (Suc k) (i div 2)"
  note h = and_power_high [OF rev_bits_less [of "Suc k" "i div 2"]]
  show ?case
  proof (cases "even i")
    case True
    then have "(i + 1) mod 2 = 1" "(i + 1) div 2 = i div 2" "i mod 2 = 0" by presburger+
    then show ?thesis using h
      by (subst rev_step.simps) (simp only: rev_bits.simps(2) [of "Suc k"], simp)
  next
    case False
    then have e: "(i + 1) mod 2 = 0" "(i + 1) div 2 = i div 2 + 1" "i mod 2 = 1" by presburger+
    have "i div 2 + 1 < 2 ^ Suc k" using Suc.prems False by (simp add: e(2) [symmetric]) presburger?
    then have "rev_step (2 ^ k) ?r = rev_bits (Suc k) (i div 2 + 1)" by (rule Suc.IH)
    then show ?thesis using h e
      by (subst rev_step.simps) (simp only: rev_bits.simps(2) [of "Suc k"], simp)
  qed
qed

lemma rev_bits_0 [simp]: "rev_bits k 0 = 0"
  by (induction k) simp_all

lemma rev_bits_eq_0: "i < 2 ^ k \<Longrightarrow> rev_bits k i = 0 \<Longrightarrow> i = 0"
  by (metis rev_bits_rev_bits rev_bits_0)

definition reversed_below :: "nat \<Rightarrow> nat \<Rightarrow> 'c list \<Rightarrow> 'c list" where
  "reversed_below k t x =
     map (\<lambda>p. x ! (if min p (rev_bits k p) < t then rev_bits k p else p)) [0..<2 ^ k]"

lemma reverse_step_reversed:
  assumes x: "length x = 2 ^ k" and k: "0 < k" and t: "t + 1 < 2 ^ k"
  shows "reverse_step (2 ^ k) (reversed_below k (t + 1) x, rev_bits k t) (t + 1) =
    (reversed_below k (t + 2) x, rev_bits k (t + 1))"
proof -
  let ?r = "rev_bits k (t + 1)" and ?v = "reversed_below k (t + 1) x"
  obtain k' where k': "k = Suc k'" using k by (cases k) auto
  have rs: "rev_step (2 ^ k div 2) (rev_bits k t) = ?r"
    using rev_step_rev_bits [of t k'] t k' by simp
  have r: "?r < 2 ^ k" "rev_bits k ?r = t + 1"
    using rev_bits_less rev_bits_rev_bits t by blast+
  have swap: "(if t + 1 < ?r then swap_at ?v (t + 1) ?r else ?v) = reversed_below k (t + 2) x"
  proof (rule nth_equalityI)
    fix p assume "p < length (if t + 1 < ?r then swap_at ?v (t + 1) ?r else ?v)"
    then have p: "p < 2 ^ k" by (simp add: swap_at_def reversed_below_def split: if_splits)
    have rr: "rev_bits k (rev_bits k p) = p" using p by (rule rev_bits_rev_bits)
    consider (this) "p = t + 1" | (other) "p = ?r" "p \<noteq> t + 1" | (rest) "p \<noteq> t + 1" "p \<noteq> ?r" by blast
    then show "(if t + 1 < ?r then swap_at ?v (t + 1) ?r else ?v) ! p = reversed_below k (t + 2) x ! p"
    proof cases
      case this
      with t r show ?thesis
        by (auto simp: swap_at_def reversed_below_def nth_list_update)
    next
      case other
      with t r show ?thesis
        by (auto simp: swap_at_def reversed_below_def nth_list_update min_def)
    next
      case rest
      then have "rev_bits k p \<noteq> t + 1" using rr by auto
      with rest p t r show ?thesis
        by (auto simp: swap_at_def reversed_below_def nth_list_update min_def)
    qed
  qed (simp add: swap_at_def reversed_below_def)
  show ?thesis unfolding reverse_step_def Let_def prod.case rs swap by simp
qed

lemma bit_reverse_permutation:
  assumes x: "length x = 2 ^ k" and k: "0 < k"
  shows "bit_reverse (2 ^ k) x = map (\<lambda>p. x ! rev_bits k p) [0..<2 ^ k]"
proof -
  have "foldl (reverse_step (2 ^ k)) (x, 0) [1..<t + 1] = (reversed_below k (t + 1) x, rev_bits k t)"
    if "t < 2 ^ k" for t
    using that
  proof (induction t)
    case 0
    have "reversed_below k 1 x = x"
      by (rule nth_equalityI) (auto simp: reversed_below_def x min_def dest: rev_bits_eq_0)
    then show ?case by simp
  next
    case (Suc t)
    then show ?case using reverse_step_reversed [OF x k, of t] by simp
  qed
  from this [of "2 ^ k - 1"] have "bit_reverse (2 ^ k) x = reversed_below k (2 ^ k) x"
    by (simp add: bit_reverse_def)
  also have "\<dots> = map (\<lambda>p. x ! rev_bits k p) [0..<2 ^ k]"
    by (simp add: reversed_below_def min_less_iff_disj)
  finally show ?thesis .
qed

section \<open>The transform on exact complex numbers\<close>

text \<open>The root of unity the stage of length \<open>L\<close> uses.\<close>

definition unit_root :: "nat \<Rightarrow> complex" where
  "unit_root L = cis (- (2 * pi / real L))"

text \<open>Exact arithmetic, with the rounding of the power to single precision left open.\<close>

definition exact :: "(real \<Rightarrow> f32) \<Rightarrow> complex arithmetic" where
  "exact to_float =
     \<lparr>c_zero = 0, c_one = 1, c_add = (+), c_sub = (-), c_mul = (*), c_root = unit_root,
      c_isfinite = (\<lambda>_. True), c_power = (\<lambda>z n. to_float ((cmod z)\<^sup>2 / (real n * real n)))\<rparr>"

definition dft :: "nat \<Rightarrow> (nat \<Rightarrow> complex) \<Rightarrow> nat \<Rightarrow> complex" where
  "dft n x j = (\<Sum>m<n. x m * unit_root n ^ (j * m))"

lemma unit_root_power: "unit_root L ^ a = cis (- (2 * pi * real a / real L))"
  by (simp add: unit_root_def DeMoivre mult.commute mult.left_commute)

lemma unit_root_half: "0 < h \<Longrightarrow> unit_root (2 * h) ^ h = - 1"
  by (simp add: unit_root_power complex_eq_iff)

lemma unit_root_full: "0 < h \<Longrightarrow> unit_root h ^ h = 1"
  by (simp add: unit_root_power complex_eq_iff)

lemma unit_root_square: "unit_root (2 * h) ^ (2 * a) = unit_root h ^ a"
  by (simp add: unit_root_power mult.assoc)

lemma sum_even_odd: "(\<Sum>m<2 * (h :: nat). f m) = (\<Sum>m<h. f (2 * m)) + (\<Sum>m<h. f (2 * m + 1) :: complex)"
  by (induction h) (simp_all add: algebra_simps)

text \<open>One decimation step: a transform from the transforms of the even and the odd samples.\<close>

lemma dft_split:
  assumes "0 < h"
  shows "dft (2 * h) x j = dft h (\<lambda>m. x (2 * m)) j + unit_root (2 * h) ^ j * dft h (\<lambda>m. x (2 * m + 1)) j"
    and "dft (2 * h) x (h + j) = dft h (\<lambda>m. x (2 * m)) j - unit_root (2 * h) ^ j * dft h (\<lambda>m. x (2 * m + 1)) j"
proof -
  have e: "unit_root (2 * h) ^ (i * (2 * m)) = unit_root h ^ (i * m)" for i m
    using unit_root_square [of h "i * m"] by (simp add: mult.left_commute)
  have o: "unit_root (2 * h) ^ (i * (2 * m + 1)) = unit_root (2 * h) ^ i * unit_root h ^ (i * m)" for i m
    using e [of i m] by (simp add: power_add distrib_left mult.commute)
  have "dft (2 * h) x i = (\<Sum>m<h. x (2 * m) * unit_root h ^ (i * m)) +
      (\<Sum>m<h. x (2 * m + 1) * (unit_root (2 * h) ^ i * unit_root h ^ (i * m)))" for i
    unfolding dft_def sum_even_odd e o ..
  then have s: "dft (2 * h) x i = (\<Sum>m<h. x (2 * m) * unit_root h ^ (i * m)) +
      unit_root (2 * h) ^ i * (\<Sum>m<h. x (2 * m + 1) * unit_root h ^ (i * m))" for i
    by (simp add: sum_distrib_left mult.left_commute)
  from s [of j] show "dft (2 * h) x j = dft h (\<lambda>m. x (2 * m)) j + unit_root (2 * h) ^ j * dft h (\<lambda>m. x (2 * m + 1)) j"
    by (simp add: dft_def)
  have p: "unit_root h ^ ((h + j) * m) = unit_root h ^ (j * m)" for m
    using assms by (simp add: distrib_right power_add power_mult unit_root_full)
  from s [of "h + j"] show "dft (2 * h) x (h + j) = dft h (\<lambda>m. x (2 * m)) j - unit_root (2 * h) ^ j * dft h (\<lambda>m. x (2 * m + 1)) j"
    using assms by (simp add: dft_def p power_add unit_root_half)
qed

text \<open>One block, and then one stage, in closed form.\<close>

lemma butterfly_exact:
  "butterfly (exact rnd) len base (v, f) i =
     (v[base + i := v ! (base + i) + f * v ! (base + i + len div 2),
        base + i + len div 2 := v ! (base + i) - f * v ! (base + i + len div 2)], f * unit_root len)"
  by (simp add: butterfly_def exact_def Let_def)

definition blocked :: "nat \<Rightarrow> nat \<Rightarrow> nat \<Rightarrow> complex list \<Rightarrow> complex list" where
  "blocked h base t v = map (\<lambda>p.
     if base \<le> p \<and> p < base + t then v ! p + unit_root (2 * h) ^ (p - base) * v ! (p + h)
     else if base + h \<le> p \<and> p < base + h + t then v ! (p - h) - unit_root (2 * h) ^ (p - h - base) * v ! p
     else v ! p) [0..<length v]"

lemma block_prefix:
  assumes "t \<le> h" and "base + 2 * h \<le> length v"
  shows "foldl (butterfly (exact rnd) (2 * h) base) (v, 1) [0..<t] = (blocked h base t v, unit_root (2 * h) ^ t)"
  using assms
proof (induction t)
  case 0
  have "blocked h base 0 v = v" by (rule nth_equalityI) (auto simp: blocked_def)
  then show ?case by simp
next
  case (Suc t)
  let ?w = "blocked h base t v"
  have even: "?w ! (base + t) = v ! (base + t)" and odd: "?w ! (base + t + h) = v ! (base + t + h)"
    using Suc.prems by (auto simp: blocked_def)
  have "?w[base + t := v ! (base + t) + unit_root (2 * h) ^ t * v ! (base + t + h),
        base + t + h := v ! (base + t) - unit_root (2 * h) ^ t * v ! (base + t + h)] = blocked h base (Suc t) v"
    by (rule nth_equalityI) (use Suc.prems in \<open>auto simp: blocked_def nth_list_update\<close>)
  with Suc show ?case by (simp add: butterfly_exact even odd)
qed

lemma block_exact:
  "base + 2 * h \<le> length v \<Longrightarrow> block (exact rnd) (2 * h) v base = blocked h base h v"
  using block_prefix [of h h base v rnd] by (simp add: block_def exact_def)

lemma multiples: "0 < len \<Longrightarrow> filter (\<lambda>base. len dvd base) [0..<m * len] = map (\<lambda>q. q * len) [0..<m]"
proof (induction m)
  case 0
  then show ?case by simp
next
  case (Suc m)
  have "[0..<Suc m * len] = [0..<m * len] @ m * len # [m * len + 1..<m * len + len]"
    using Suc.prems upt_add_eq_append [of 0 "m * len" len] upt_conv_Cons [of "m * len" "m * len + len"]
    by (simp add: add.commute)
  moreover have "filter (\<lambda>base. len dvd base) [m * len + 1..<m * len + len] = []"
  proof -
    have "\<not> len dvd b" if "m * len + 1 \<le> b" "b < m * len + len" for b
    proof
      assume "len dvd b"
      then obtain q where b: "b = q * len" by (metis dvdE mult.commute)
      have "m * len < q * len" using that b by linarith
      moreover have "q * len < Suc m * len" unfolding mult_Suc using that b by linarith
      ultimately have "m < q" "q < Suc m" by (simp_all only: mult_less_cancel2)
      then show False by simp
    qed
    then show ?thesis by (auto simp: filter_empty_conv)
  qed
  ultimately show ?case using Suc by simp
qed

definition staged :: "nat \<Rightarrow> nat \<Rightarrow> complex list \<Rightarrow> complex list" where
  "staged h t v = map (\<lambda>p.
     if t \<le> p then v ! p
     else if p mod (2 * h) < h then v ! p + unit_root (2 * h) ^ (p mod (2 * h)) * v ! (p + h)
     else v ! (p - h) - unit_root (2 * h) ^ (p mod (2 * h) - h) * v ! p) [0..<length v]"

lemma mod_block: "q * l \<le> p \<Longrightarrow> p < q * l + l \<Longrightarrow> p mod l = p - q * (l :: nat)"
  by (auto simp: le_iff_add)

lemma blocked_staged:
  assumes "0 < h" and len: "Suc q * (2 * h) \<le> length v"
  shows "blocked h (q * (2 * h)) h (staged h (q * (2 * h)) v) = staged h (Suc q * (2 * h)) v"
proof (rule nth_equalityI)
  let ?b = "q * (2 * h)"
  have S: "Suc q * (2 * h) = ?b + 2 * h" by simp
  fix p assume "p < length (blocked h ?b h (staged h ?b v))"
  then have p: "p < length v" by (simp add: blocked_def staged_def)
  consider "p < ?b" | "?b \<le> p" "p < ?b + h" | "?b + h \<le> p" "p < ?b + 2 * h" | "?b + 2 * h \<le> p" by linarith
  then show "blocked h ?b h (staged h ?b v) ! p = staged h (Suc q * (2 * h)) v ! p"
  proof cases
    case 1
    with p show ?thesis unfolding S by (simp add: blocked_def staged_def)
  next
    case 2
    then have "p mod (2 * h) = p - ?b" by (intro mod_block) simp_all
    with 2 p len show ?thesis unfolding S by (simp add: blocked_def staged_def) linarith
  next
    case 3
    then have "p mod (2 * h) = p - ?b" by (intro mod_block) simp_all
    moreover from 3 obtain d where "p = ?b + h + d" by (auto simp: le_iff_add)
    moreover from this 3 have "d < h" by simp
    ultimately show ?thesis using p len unfolding S by (simp add: blocked_def staged_def)
  next
    case 4
    with p show ?thesis unfolding S by (simp add: blocked_def staged_def)
  qed
qed (simp add: blocked_def staged_def)

lemma stage_exact:
  assumes h: "0 < h" and len: "length v = m * (2 * h)"
  shows "stage (exact rnd) (m * (2 * h)) (2 * h) v = staged h (length v) v"
proof -
  have "foldl (block (exact rnd) (2 * h)) v (map (\<lambda>q. q * (2 * h)) [0..<t]) = staged h (t * (2 * h)) v"
    if "t \<le> m" for t
    using that
  proof (induction t)
    case 0
    have "staged h 0 v = v" by (rule nth_equalityI) (auto simp: staged_def)
    then show ?case by simp
  next
    case (Suc t)
    have "Suc t * (2 * h) \<le> length v" unfolding len using Suc.prems by (rule mult_le_mono1)
    moreover from this have "block (exact rnd) (2 * h) (staged h (t * (2 * h)) v) (t * (2 * h)) =
        blocked h (t * (2 * h)) h (staged h (t * (2 * h)) v)"
      by (intro block_exact) (simp add: staged_def)
    ultimately show ?case using Suc blocked_staged [OF h, of t v] by simp
  qed
  from this [of m] show ?thesis using h by (simp add: stage_def multiples len)
qed

text \<open>After the stage of length \<open>2 ^ s\<close> every block holds the transform of its samples.\<close>

definition transformed :: "nat \<Rightarrow> complex list \<Rightarrow> complex list \<Rightarrow> bool" where
  "transformed s x v \<longleftrightarrow> length v = length x \<and>
     (\<forall>base j. 2 ^ s dvd base \<longrightarrow> j < 2 ^ s \<longrightarrow> base + j < length x \<longrightarrow>
        v ! (base + j) = dft (2 ^ s) (\<lambda>m. x ! (base + rev_bits s m)) j)"

lemma transformedD:
  "transformed s x v \<Longrightarrow> 2 ^ s dvd base \<Longrightarrow> j < 2 ^ s \<Longrightarrow> base + j < length x \<Longrightarrow>
     v ! (base + j) = dft (2 ^ s) (\<lambda>m. x ! (base + rev_bits s m)) j"
  unfolding transformed_def by blast

lemma transformed_stage:
  assumes v: "transformed s x v" and len: "length x = m * (2 * 2 ^ s)"
  shows "transformed (Suc s) x (stage (exact rnd) (length x) (2 * 2 ^ s) v)"
proof -
  let ?h = "2 ^ s :: nat"
  have lv: "length v = length x" using v by (simp add: transformed_def)
  have st: "stage (exact rnd) (length x) (2 * ?h) v = staged ?h (length x) v"
    using stage_exact [of ?h v m rnd] len lv by simp
  have "staged ?h (length x) v ! (base + i) = dft (2 * ?h) (\<lambda>m. x ! (base + rev_bits (Suc s) m)) i"
    if base: "2 * ?h dvd base" and i: "i < 2 * ?h" and less: "base + i < length x" for base i
  proof -
    obtain q where q: "base = q * (2 * ?h)" using base by (metis dvdE mult.commute)
    have "q * (2 * ?h) < m * (2 * ?h)" using less unfolding q len by linarith
    then have "q < m" by (simp only: mult_less_cancel2)
    then have "Suc q * (2 * ?h) \<le> m * (2 * ?h)" by (intro mult_le_mono1) simp
    then have bound: "base + 2 * ?h \<le> length x" by (simp add: q len)
    have m: "(base + i) mod (2 * ?h) = i" using i by (simp add: q)
    have "?h dvd base" by (rule dvd_mult_right [OF base])
    then have half: "?h dvd base" "?h dvd base + ?h" by simp_all
    note T = transformedD [OF v]
    have E: "v ! (base + j) = dft ?h (\<lambda>m. x ! (base + rev_bits (Suc s) (2 * m))) j"
      and O: "v ! (base + ?h + j) = dft ?h (\<lambda>m. x ! (base + rev_bits (Suc s) (2 * m + 1))) j" if "j < ?h" for j
      using T [OF half(1) that] T [OF half(2) that] that bound by (simp_all add: add.assoc)
    show ?thesis
    proof (cases "i < ?h")
      case True
      have "staged ?h (length x) v ! (base + i) = v ! (base + i) + unit_root (2 * ?h) ^ i * v ! (base + ?h + i)"
        using True less m by (simp add: staged_def lv ac_simps)
      then show ?thesis unfolding E [OF True] O [OF True] by (simp only: dft_split(1) zero_less_power pos2)
    next
      case False
      then obtain j where "i = ?h + j" by (auto simp: not_less le_iff_add)
      with i have j: "i = ?h + j" "j < ?h" by simp_all
      have "staged ?h (length x) v ! (base + i) = v ! (base + j) - unit_root (2 * ?h) ^ j * v ! (base + ?h + j)"
        using False less m j by (simp add: staged_def lv ac_simps)
      then show ?thesis unfolding E [OF j(2)] O [OF j(2)] j(1) by (simp only: dft_split(2) zero_less_power pos2)
    qed
  qed
  then show ?thesis by (simp add: transformed_def st lv staged_def)
qed

lemma stages_transformed:
  "transformed s x v \<Longrightarrow> s \<le> k \<Longrightarrow> length x = 2 ^ k \<Longrightarrow>
     transformed k x (stages (exact rnd) (2 ^ k) (2 * 2 ^ s) v)"
proof (induction "k - s" arbitrary: s v)
  case 0
  then show ?case by (simp add: stages.simps)
next
  case (Suc d)
  then have s: "s < k" by simp
  have "(2::nat) ^ k = 2 ^ (k - Suc s) * 2 ^ Suc s"
    unfolding power_add [symmetric] using s by simp
  with Suc.prems have "length x = 2 ^ (k - Suc s) * (2 * 2 ^ s)" by simp
  from transformed_stage [OF Suc.prems(1) this]
  have "transformed (Suc s) x (stage (exact rnd) (2 ^ k) (2 * 2 ^ s) v)" using Suc.prems(3) by simp
  from Suc.hyps(1) [OF _ this _ Suc.prems(3)] Suc.hyps(2) s
  have "transformed k x (stages (exact rnd) (2 ^ k) (2 * 2 ^ Suc s) (stage (exact rnd) (2 ^ k) (2 * 2 ^ s) v))"
    by simp
  moreover have "(2::nat) * 2 ^ s \<le> 2 ^ k"
    using s power_increasing [of "Suc s" k "2::nat"] by simp
  ultimately show ?case
    by (subst stages.simps) (simp add: mult.commute)
qed

text \<open>The whole in-place transform is the discrete Fourier transform.\<close>

lemma fft_dft:
  assumes x: "length x = 2 ^ k" and k: "0 < k" and j: "j < 2 ^ k"
  shows "length (fft (exact rnd) (2 ^ k) x) = 2 ^ k"
    and "fft (exact rnd) (2 ^ k) x ! j = dft (2 ^ k) (\<lambda>m. x ! m) j"
proof -
  let ?y = "map (\<lambda>p. x ! rev_bits k p) [0..<2 ^ k]"
  have "transformed 0 ?y ?y" by (simp add: transformed_def dft_def)
  then have t: "transformed k ?y (stages (exact rnd) (2 ^ k) (2 * 2 ^ 0) ?y)"
    by (rule stages_transformed) simp_all
  have f: "fft (exact rnd) (2 ^ k) x = stages (exact rnd) (2 ^ k) (2 * 2 ^ 0) ?y"
    by (simp add: fft_def bit_reverse_permutation [OF x k])
  from t show "length (fft (exact rnd) (2 ^ k) x) = 2 ^ k"
    by (simp add: f transformed_def)
  from transformedD [OF t, of 0 j] j have "fft (exact rnd) (2 ^ k) x ! j = dft (2 ^ k) (\<lambda>m. ?y ! rev_bits k m) j"
    by (simp add: f)
  also have "\<dots> = dft (2 ^ k) (\<lambda>m. x ! m) j"
    unfolding dft_def by (rule sum.cong) (simp_all add: rev_bits_less rev_bits_rev_bits)
  finally show "fft (exact rnd) (2 ^ k) x ! j = dft (2 ^ k) (\<lambda>m. x ! m) j" .
qed

section \<open>Samples and gaps\<close>

definition gap_bit :: "u8 list \<Rightarrow> nat \<Rightarrow> bool" where
  "gap_bit gaps i \<longleftrightarrow> bit (gaps ! (i div 8)) (7 - i mod 8)"

lemma gap_bit_set:
  assumes "i div 8 < length gaps"
  shows "gap_bit (gaps[i div 8 := gaps ! (i div 8) OR push_bit (7 - i mod 8) 1]) j \<longleftrightarrow> gap_bit gaps j \<or> j = i"
proof (cases "j div 8 = i div 8")
  case True
  then have "j mod 8 = i mod 8 \<longleftrightarrow> j = i" by (metis div_mult_mod_eq)
  moreover have "i mod 8 < 8" "j mod 8 < 8" by simp_all
  ultimately have "7 - j mod 8 = 7 - i mod 8 \<longleftrightarrow> j = i" by linarith
  moreover have "7 - i mod 8 < 8" by simp
  ultimately show ?thesis using True assms
    by (auto simp: gap_bit_def bit_simps)
next
  case False
  then show ?thesis using assms by (auto simp: gap_bit_def)
qed

lemma gap_bit_replicate [simp]: "i < 8 * n \<Longrightarrow> \<not> gap_bit (replicate n 0) i"
  by (simp add: gap_bit_def less_mult_imp_div_less mult.commute)

definition kept :: "'c arithmetic \<Rightarrow> 'c list \<Rightarrow> u8 list \<Rightarrow> nat \<Rightarrow> 'c" where
  "kept A samples missing i = (if missing ! i \<noteq> 0 then c_zero A else samples ! i)"

lemma take_samples:
  assumes n: "n = 8 * k" and t: "t \<le> n" and fin: "\<forall>i < t. c_isfinite A (samples ! i)"
  shows "\<exists>gaps. efold (take_sample A samples missing) (replicate k 0, replicate n (c_zero A)) [0..<t] =
      Inr (gaps, map (\<lambda>i. if i < t then kept A samples missing i else c_zero A) [0..<n]) \<and>
      length gaps = k \<and> (\<forall>i < n. gap_bit gaps i \<longleftrightarrow> i < t \<and> missing ! i \<noteq> 0)"
  using t fin
proof (induction t)
  case 0
  then show ?case by (simp add: n map_replicate_const)
next
  case (Suc t)
  from Suc.IH Suc.prems obtain gaps where
    IH: "efold (take_sample A samples missing) (replicate k 0, replicate n (c_zero A)) [0..<t] =
      Inr (gaps, map (\<lambda>i. if i < t then kept A samples missing i else c_zero A) [0..<n])"
      "length gaps = k" "\<forall>i < n. gap_bit gaps i \<longleftrightarrow> i < t \<and> missing ! i \<noteq> 0" by auto
  let ?v = "\<lambda>t. map (\<lambda>i. if i < t then kept A samples missing i else c_zero A) [0..<n]"
  have tk: "t div 8 < length gaps" using Suc.prems IH(2) n by (simp add: less_mult_imp_div_less mult.commute)
  have v: "?v (Suc t) = (if missing ! t \<noteq> 0 then ?v t else (?v t)[t := samples ! t])"
    by (rule nth_equalityI) (auto simp: nth_list_update kept_def less_Suc_eq)
  let ?g = "if missing ! t \<noteq> 0 then gaps[t div 8 := gaps ! (t div 8) OR push_bit (7 - t mod 8) 1] else gaps"
  have "efold (take_sample A samples missing) (replicate k 0, replicate n (c_zero A)) [0..<Suc t] = Inr (?g, ?v (Suc t))"
    unfolding v using Suc.prems IH(1) by (simp add: efold_append take_sample_def require_spectrum_def)
  moreover have "length ?g = k" using IH(2) by simp
  moreover have "\<forall>i < n. gap_bit ?g i \<longleftrightarrow> i < Suc t \<and> missing ! i \<noteq> 0"
    using IH(3) gap_bit_set [OF tk] by (auto simp: less_Suc_eq)
  ultimately show ?case by blast
qed

lemma take_samples_error:
  "i < n \<Longrightarrow> \<not> c_isfinite A (samples ! i) \<Longrightarrow>
     efold (take_sample A samples missing) st [0..<n] = Inl spectrum_error"
proof (induction n arbitrary: st)
  case 0
  then show ?case by simp
next
  case (Suc n)
  have only: "efold (take_sample A samples missing) st xs = Inl e \<Longrightarrow> e = spectrum_error" for st xs e
    by (induction xs arbitrary: st) (auto simp: take_sample_def require_spectrum_def ensure_def Let_def split: prod.splits if_splits)
  show ?case
  proof (cases "i < n")
    case True
    with Suc show ?thesis by (simp add: efold_append)
  next
    case False
    then have "i = n" using Suc.prems by simp
    with Suc.prems have "take_sample A samples missing st' n = Inl spectrum_error" for st'
      by (cases st') (simp add: take_sample_def require_spectrum_def)
    then show ?thesis
      by (cases "efold (take_sample A samples missing) st [0..<n]") (auto simp: efold_append dest: only)
  qed
qed

lemma missing_count_card:
  "missing_count s = of_nat (length (filter (gap_bit (sp_gaps s)) [0..<unat (sp_fft_size s)]))"
proof -
  have one: "(ucast (drop_bit m (b :: u8) AND 1) :: u64) = of_bool (bit b m)" for b m
    by (rule bit_word_eqI) (auto simp: bit_simps and_one_eq odd_iff_mod_2_eq_one [symmetric] even_drop_bit_iff_not_bit)
  have "foldl (\<lambda>count index. count + ucast (drop_bit (7 - index mod 8) (sp_gaps s ! (index div 8)) AND 1)) 0 xs
      = (of_nat (length (filter (gap_bit (sp_gaps s)) xs)) :: u64)" for xs
    by (induction xs rule: rev_induct) (simp_all only: foldl_append one, simp_all add: gap_bit_def)
  then show ?thesis by (simp add: missing_count_def)
qed

lemma config_size:
  assumes "valid_config c"
  obtains k where "0 < k" "unat (pc_fft_size c) = 8 * 2 ^ k"
proof -
  from valid_config_size [OF assms] have "unat (pc_fft_size c) \<in> {8 * 2 ^ 3, 8 * 2 ^ 4, 8 * 2 ^ 5, 8 * 2 ^ 6, 8 * 2 ^ 7, 8 * 2 ^ 8}"
    by simp
  then show ?thesis
    using that [of 3] that [of 4] that [of 5] that [of 6] that [of 7] that [of 8] by auto
qed

lemma power_spectrum_Inr:
  assumes c: "valid_config c" and n: "n = unat (pc_fft_size c)"
    and len: "length samples = n" "length missing = n" and fin: "\<forall>x \<in> set samples. c_isfinite A x"
  shows "\<exists>gaps. power_spectrum A c samples missing = Inr
     \<lparr>sp_stream_id = 0, sp_sequence = 0, sp_sample_rate_hz = pc_sample_rate_hz c,
      sp_fft_size = pc_fft_size c, sp_hop = hop c, sp_center_hz = 0,
      sp_begin = ProtocolTime 0 0, sp_end = ProtocolTime 0 0, sp_epoch = ProtocolTime 0 0,
      sp_ordinal = 0, sp_discontinuities = 0, sp_sequence_gaps = 0, sp_gaps = gaps,
      sp_power = map (\<lambda>i. c_power A (fft A n (map (kept A samples missing) [0..<n]) ! ((i + n div 2) mod n)) n) [0..<n]\<rparr>
     \<and> length gaps = n div 8 \<and> (\<forall>i < n. gap_bit gaps i \<longleftrightarrow> missing ! i \<noteq> 0)"
proof -
  obtain k where k: "n = 8 * 2 ^ k" using config_size [OF c] n by metis
  have f: "\<forall>i < n. c_isfinite A (samples ! i)" using fin len by simp
  have v: "map (\<lambda>i. if i < n then kept A samples missing i else c_zero A) [0..<n] = map (kept A samples missing) [0..<n]"
    by simp
  from take_samples [OF k order_refl f, of missing] obtain gaps where
    "efold (take_sample A samples missing) (replicate (n div 8) 0, replicate n (c_zero A)) [0..<n] =
      Inr (gaps, map (kept A samples missing) [0..<n])"
    "length gaps = n div 8" "\<forall>i < n. gap_bit gaps i \<longleftrightarrow> missing ! i \<noteq> 0"
    unfolding v using k by auto
  then show ?thesis
    using c n len by (intro exI [of _ gaps])
      (simp add: power_spectrum_def validate_config_def require_spectrum_def Let_def)
qed

lemma power_spectrum_error:
  assumes "\<not> (valid_config c \<and> length samples = unat (pc_fft_size c) \<and> length missing = unat (pc_fft_size c) \<and>
     (\<forall>x \<in> set samples. c_isfinite A x))"
  shows "power_spectrum A c samples missing = Inl spectrum_error"
proof (cases "valid_config c \<and> length samples = unat (pc_fft_size c) \<and> length missing = unat (pc_fft_size c)")
  case True
  with assms obtain i where "i < unat (pc_fft_size c)" "\<not> c_isfinite A (samples ! i)"
    by (metis in_set_conv_nth)
  from take_samples_error [OF this] True show ?thesis
    by (simp add: power_spectrum_def validate_config_def require_spectrum_def Let_def)
next
  case False
  then show ?thesis
    by (auto simp: power_spectrum_def validate_config_def require_spectrum_def Let_def ensure_def)
qed

lemma filter_gaps:
  assumes "\<forall>i < n. gap_bit gaps i \<longleftrightarrow> missing ! i \<noteq> 0" and "length missing = n"
  shows "length (filter (gap_bit gaps) [0..<n]) = length (filter (\<lambda>m. m \<noteq> 0) missing)"
proof -
  have "filter (gap_bit gaps) [0..<n] = filter (\<lambda>i. missing ! i \<noteq> 0) [0..<n]"
    using assms by (intro filter_cong) auto
  then have "length (filter (gap_bit gaps) [0..<n]) = length (filter (\<lambda>m. m \<noteq> 0) (map ((!) missing) [0..<n]))"
    by (simp add: filter_map o_def)
  then show ?thesis using assms(2) by (metis map_nth)
qed

text \<open>On any arithmetic the transform succeeds exactly for a valid configuration, a full window of
  samples and flags, and finite samples; the record it returns carries the configuration, one
  power per bin, one gap bit per missing sample, and its missing count is the number of
  samples flagged missing.\<close>

lemma power_spectrum_record:
  "(case power_spectrum A c samples missing of
      Inl e \<Rightarrow> e = spectrum_error \<and>
        \<not> (valid_config c \<and> length samples = unat (pc_fft_size c) \<and>
           length missing = unat (pc_fft_size c) \<and> (\<forall>x \<in> set samples. c_isfinite A x))
    | Inr s \<Rightarrow> valid_config c \<and> (\<forall>x \<in> set samples. c_isfinite A x) \<and>
        sp_sample_rate_hz s = pc_sample_rate_hz c \<and> sp_fft_size s = pc_fft_size c \<and> sp_hop s = hop c \<and>
        length (sp_power s) = unat (pc_fft_size c) \<and> length (sp_gaps s) = unat (pc_fft_size c) div 8 \<and>
        (\<forall>i < unat (pc_fft_size c). gap_bit (sp_gaps s) i \<longleftrightarrow> missing ! i \<noteq> 0) \<and>
        missing_count s = of_nat (length (filter (\<lambda>m. m \<noteq> 0) missing)))"
proof (cases "valid_config c \<and> length samples = unat (pc_fft_size c) \<and> length missing = unat (pc_fft_size c) \<and>
     (\<forall>x \<in> set samples. c_isfinite A x)")
  case True
  then show ?thesis
    using power_spectrum_Inr [of c "unat (pc_fft_size c)" samples missing A]
    by (auto simp: missing_count_card intro!: arg_cong [where f = of_nat] filter_gaps)
next
  case False
  from power_spectrum_error [OF this] False show ?thesis by simp
qed

lemma power_spectrum_ok:
  assumes "power_spectrum A c samples missing = Inr s"
  shows "valid_config c \<and> length samples = unat (pc_fft_size c) \<and> length missing = unat (pc_fft_size c) \<and>
    (\<forall>x \<in> set samples. c_isfinite A x) \<and> length (sp_power s) = unat (pc_fft_size c)"
proof -
  have ok: "valid_config c \<and> length samples = unat (pc_fft_size c) \<and> length missing = unat (pc_fft_size c) \<and>
    (\<forall>x \<in> set samples. c_isfinite A x)"
    using power_spectrum_error [of c samples missing A] assms by auto
  with power_spectrum_Inr [of c "unat (pc_fft_size c)" samples missing A] assms show ?thesis by auto
qed

lemma power_spectrum_dft_bins:
  assumes s: "power_spectrum (exact rnd) c samples missing = Inr s" and n: "n = unat (pc_fft_size c)"
    and i: "i < n"
  shows "sp_power s ! i = rnd ((cmod (dft n (\<lambda>m. if missing ! m \<noteq> 0 then 0 else samples ! m) ((i + n div 2) mod n)))\<^sup>2
             / (real n * real n))"
proof -
  let ?A = "exact rnd" and ?x = "map (kept (exact rnd) samples missing) [0..<n]"
  have ok: "valid_config c \<and> length samples = n \<and> length missing = n \<and> (\<forall>x \<in> set samples. c_isfinite ?A x)"
    using power_spectrum_error [of c samples missing ?A] s n by auto
  then obtain k where k: "n = 8 * 2 ^ k" using config_size [of c] n by metis
  then have k3: "n = 2 ^ (k + 3)" by (simp add: power_add)
  let ?j = "(i + n div 2) mod n"
  have j: "?j < n" using i by simp
  have "fft ?A n ?x ! ?j = dft n (\<lambda>m. ?x ! m) ?j"
    using fft_dft(2) [of ?x "k + 3" ?j rnd] j unfolding k3 [symmetric] by simp
  also have "\<dots> = dft n (\<lambda>m. if missing ! m \<noteq> 0 then 0 else samples ! m) ?j"
    unfolding dft_def by (rule sum.cong) (simp_all add: kept_def exact_def)
  finally have f: "fft ?A n ?x ! ?j = dft n (\<lambda>m. if missing ! m \<noteq> 0 then 0 else samples ! m) ?j" .
  have "sp_power s ! i = c_power ?A (fft ?A n ?x ! ?j) n"
    using power_spectrum_Inr [of c n samples missing ?A] ok n s i by auto
  then show ?thesis unfolding f by (simp add: exact_def)
qed

section \<open>A tone\<close>

text \<open>Samples of a complex tone of amplitude \<open>a\<close> that makes \<open>q\<close> turns in the window.\<close>

definition tone_samples :: "real \<Rightarrow> nat \<Rightarrow> nat \<Rightarrow> complex list" where
  "tone_samples a n q = map (\<lambda>m. complex_of_real a * cis (2 * pi * real q * real m / real n)) [0..<n]"

lemma unit_root_ne_1:
  assumes "0 < d" and "d < n"
  shows "cis (2 * pi * real d / real n) \<noteq> 1"
proof
  assume "cis (2 * pi * real d / real n) = 1"
  then have "cos (2 * pi * real d / real n) = 1" by (metis Re_complex_of_real cis.simps(1) of_real_1)
  then obtain z :: int where "2 * pi * real d / real n = real_of_int z * 2 * pi"
    by (auto simp: cos_one_2pi_int)
  then have "real d = real_of_int z * real n" using assms by (simp add: field_simps)
  then have "int d = z * int n" by (metis of_int_eq_iff of_int_mult of_int_of_nat_eq)
  then have "int n dvd int d" by simp
  then show False using assms by (simp add: nat_dvd_not_less)
qed

lemma dft_tone:
  assumes q: "q < n" and j: "j < n"
  shows "dft n (\<lambda>m. complex_of_real a * cis (2 * pi * real q * real m / real n)) j =
     (if j = q then complex_of_real (a * real n) else 0)"
proof -
  define z where "z = cis (2 * pi * (real q - real j) / real n)"
  have summand: "complex_of_real a * cis (2 * pi * real q * real m / real n) * unit_root n ^ (j * m) = complex_of_real a * z ^ m" for m
  proof -
    have "cis (2 * pi * real q * real m / real n) * unit_root n ^ (j * m) =
        cis (2 * pi * real q * real m / real n - 2 * pi * (real j * real m) / real n)"
      by (simp add: unit_root_power cis_mult)
    also have "2 * pi * real q * real m / real n - 2 * pi * (real j * real m) / real n =
        real m * (2 * pi * (real q - real j) / real n)"
      using q by (simp add: field_simps)
    finally show ?thesis by (simp add: z_def DeMoivre)
  qed
  have sum: "dft n (\<lambda>m. complex_of_real a * cis (2 * pi * real q * real m / real n)) j = complex_of_real a * (\<Sum>m<n. z ^ m)"
    unfolding dft_def summand by (simp add: sum_distrib_left)
  show ?thesis
  proof (cases "j = q")
    case True
    then show ?thesis unfolding sum by (simp add: z_def)
  next
    case False
    have zn: "z ^ n = 1"
    proof -
      have "z ^ n = cis (2 * pi * (real q - real j))" using q by (simp add: z_def DeMoivre)
      also have "2 * pi * (real q - real j) = 2 * pi * of_int (int q - int j)" by simp
      finally show ?thesis by (simp only: cis_multiple_2pi Ints_of_int)
    qed
    have z1: "z \<noteq> 1"
    proof (cases "j < q")
      case True
      with unit_root_ne_1 [of "q - j" n] q show ?thesis by (simp add: z_def of_nat_diff)
    next
      case False
      with \<open>j \<noteq> q\<close> have "q < j" by simp
      have "- (2 * pi * (real q - real j) / real n) = 2 * pi * (real j - real q) / real n"
        unfolding minus_divide_left by (simp add: algebra_simps)
      also have "real j - real q = real (j - q)" using \<open>q < j\<close> by (simp add: of_nat_diff)
      finally have "inverse z = cis (2 * pi * real (j - q) / real n)"
        by (simp only: z_def cis_inverse)
      with unit_root_ne_1 [of "j - q" n] j \<open>q < j\<close> show ?thesis by auto
    qed
    then show ?thesis using False zn by (simp add: sum geometric_sum)
  qed
qed

text \<open>C5. On exact complex numbers the in-place transform computes the discrete Fourier transform of
  the window with its missing samples replaced by zero: bin \<open>i\<close> of the record holds the squared
  magnitude of coefficient \<open>(i + n/2) mod n\<close> over \<open>n^2\<close>, rounded to single precision.\<close>

theorem power_spectrum_dft:
  assumes "power_spectrum (exact rnd) c samples missing = Inr s"
  shows "let n = unat (pc_fft_size c) in
    sp_power s = map (\<lambda>i. rnd ((cmod (dft n (\<lambda>m. if missing ! m \<noteq> 0 then 0 else samples ! m)
        ((i + n div 2) mod n)))\<^sup>2 / (real n * real n))) [0..<n]"
proof -
  have "length (sp_power s) = unat (pc_fft_size c)"
    using power_spectrum_ok [OF assms] by simp
  then show ?thesis
    unfolding Let_def by (intro nth_equalityI) (simp_all add: power_spectrum_dft_bins [OF assms refl])
qed

definition tone_config :: processing_config where
  "tone_config = \<lparr>pc_sample_rate_hz = 1000000, pc_fft_size = 64, pc_overlap_samples = 0\<rparr>"

lemma tone_config_valid [simp]: "valid_config tone_config"
  unfolding valid_config_def valid_sizes_32 by (simp add: tone_config_def)

lemma tone_config_size [simp]: "pc_fft_size tone_config = 64"
  by (simp add: tone_config_def)

lemma exact_finite [simp]: "c_isfinite (exact rnd) x"
  by (simp add: exact_def)

text \<open>A rounding that is right on zero and one, for the examples.\<close>

definition round_example :: "real \<Rightarrow> f32" where
  "round_example x = (if x = 0 then 0 else 0x3f800000)"

theorem power_spectrum_dft_witness:
  "\<exists>s. power_spectrum (exact round_example) tone_config (replicate 64 1) (replicate 64 0) = Inr s \<and>
     sp_power s ! 32 = 0x3f800000"
proof -
  let ?x = "replicate 64 (1 :: complex)" and ?m = "replicate 64 (0 :: u8)"
  obtain s where s: "power_spectrum (exact round_example) tone_config ?x ?m = Inr s"
    using power_spectrum_Inr [of tone_config 64 ?x ?m "exact round_example"]
    by auto
  have "dft 64 (\<lambda>m. if ?m ! m \<noteq> 0 then 0 else ?x ! m) 0 = 64"
    by (simp add: dft_def)
  with power_spectrum_dft [OF s] have "sp_power s ! 32 = 0x3f800000"
    by (simp add: Let_def round_example_def)
  with s show ?thesis by blast
qed

lemma detect_frequency_unique:
  assumes v: "valid_spectrum s" and m: "missing_count s = 0" and p: "p < unat (sp_fft_size s)"
    and pos: "0 < f32_key (sp_power s ! p)"
    and others: "\<And>i. i < unat (sp_fft_size s) \<Longrightarrow> i \<noteq> p \<Longrightarrow> f32_key (sp_power s ! i) < f32_key (sp_power s ! p)"
  shows "detect_frequency s = Inr (Some (bin_frequency s p))"
proof -
  have len: "length (sp_power s) = unat (sp_fft_size s)" using v by (simp add: valid_spectrum_def)
  with p have ne: "sp_power s \<noteq> []" by auto
  have "max_element (sp_power s) = p"
    using max_element_greatest(1,2) [OF ne] others p len by (metis not_less)
  then show ?thesis
    using v m p pos len
    by (simp add: detect_frequency_def validate_spectrum_def require_spectrum_def bin_frequency_def
        f32_zero_key del: of_nat_unat)
qed

lemma shifted_bin: "q < n \<Longrightarrow> i < n \<Longrightarrow> n = 2 * h \<Longrightarrow>
    (i + n div 2) mod n = q \<longleftrightarrow> i = (if q < h then q + h else q - (h :: nat))"
  by (cases "i < h") (auto simp: mod_if)

lemma tone_bin:
  assumes s: "power_spectrum (exact rnd) c (tone_samples a n q) (replicate n 0) = Inr s"
    and n: "n = unat (pc_fft_size c)" and q: "q < n" and h: "n = 2 * h" and i: "i < n" and rnd: "rnd 0 = 0"
  shows "sp_power s ! i = (if i = (if q < h then q + h else q - h) then rnd (a\<^sup>2) else 0)"
proof -
  let ?j = "(i + n div 2) mod n" and ?x = "tone_samples a n q" and ?m = "replicate n (0 :: u8)"
  have "dft n (\<lambda>m. if ?m ! m \<noteq> 0 then 0 else ?x ! m) ?j =
      dft n (\<lambda>m. complex_of_real a * cis (2 * pi * real q * real m / real n)) ?j"
    unfolding dft_def by (rule sum.cong) (simp_all add: tone_samples_def)
  also have "\<dots> = (if ?j = q then complex_of_real (a * real n) else 0)"
    using q i by (intro dft_tone) simp_all
  also have "?j = q \<longleftrightarrow> i = (if q < h then q + h else q - h)"
    using q i h by (rule shifted_bin)
  finally have "dft n (\<lambda>m. if ?m ! m \<noteq> 0 then 0 else ?x ! m) ?j =
      (if i = (if q < h then q + h else q - h) then complex_of_real (a * real n) else 0)" .
  then show ?thesis
    unfolding power_spectrum_dft_bins [OF s n i] using q rnd
    by (simp add: norm_mult power_mult_distrib power2_eq_square)
qed

lemma config_eta [simp]:
  "\<lparr>pc_sample_rate_hz = pc_sample_rate_hz c, pc_fft_size = pc_fft_size c,
    pc_overlap_samples = pc_overlap_samples c\<rparr> = (c :: processing_config)"
  by simp

lemma f32_key_zero [simp]: "f32_key 0 = 0"
  by (simp add: f32_key_def f32_magnitude_def)

text \<open>End to end on exact arithmetic: a window of a complex tone that makes a whole number of turns
  \<open>q\<close>, tagged by the processor with a stream and a center frequency, is detected exactly at the
  tone's frequency: \<open>q\<close> bins above the center, or \<open>n - q\<close> bins below it when \<open>q\<close> is in the upper
  half of the window.\<close>

lemma tone_detected:
  assumes c: "valid_config c" and q: "q < unat (pc_fft_size c)"
    and rnd: "rnd 0 = 0" "f32_isfinite (rnd (a\<^sup>2))" "0 < f32_key (rnd (a\<^sup>2))"
    and tag: "1 \<le> sid" "sid \<le> 4" "1000000 \<le> center" "center \<le> 6000000000"
  shows "\<exists>s. power_spectrum (exact rnd) c (tone_samples a (unat (pc_fft_size c)) q)
        (replicate (unat (pc_fft_size c)) 0) = Inr s \<and>
      detect_frequency (s\<lparr>sp_stream_id := sid, sp_center_hz := center\<rparr>) =
        Inr (Some (of_nat (unat center) +
          (if q < unat (pc_fft_size c) div 2 then of_nat q else of_nat q - of_nat (unat (pc_fft_size c))) *
            of_nat (unat (pc_sample_rate_hz c)) / of_nat (unat (pc_fft_size c))))"
proof -
  define n where "n = unat (pc_fft_size c)"
  obtain k where k: "0 < k" "n = 8 * 2 ^ k" using config_size [OF c] n_def by metis
  define h where "h = n div 2"
  have h: "n = 2 * h" "0 < h" using k by (simp_all add: h_def)
  define p where "p = (if q < h then q + h else q - h)"
  have p: "p < n" using q h by (auto simp: p_def n_def)
  let ?x = "tone_samples a n q" and ?m = "replicate n (0 :: u8)"
  obtain s where s: "power_spectrum (exact rnd) c ?x ?m = Inr s"
    and f: "sp_fft_size s = pc_fft_size c" "sp_hop s = hop c" "sp_sample_rate_hz s = pc_sample_rate_hz c"
      "length (sp_gaps s) = n div 8" "length (sp_power s) = n" "\<forall>i < n. \<not> gap_bit (sp_gaps s) i"
    using power_spectrum_Inr [OF c n_def, of ?x ?m "exact rnd"] by (auto simp: tone_samples_def)
  have bin: "sp_power s ! i = (if i = p then rnd (a\<^sup>2) else 0)" if "i < n" for i
    unfolding p_def using q h that rnd(1) by (intro tone_bin [OF s n_def]) (simp_all add: n_def)
  let ?s = "s\<lparr>sp_stream_id := sid, sp_center_hz := center\<rparr>"
  have powers: "f32_isfinite v \<and> f32_nonneg v" if "v \<in> set (sp_power s)" for v
  proof -
    from that f(5) bin have "v = rnd (a\<^sup>2) \<or> v = 0" by (auto simp: in_set_conv_nth)
    then show ?thesis
      using rnd(2,3) by (auto simp: f32_nonneg_def f32_isfinite_def f32_key_zero)
  qed
  have v: "valid_spectrum ?s"
    using c tag powers f by (simp add: valid_spectrum_def hop_def unat_div_distrib n_def)
  have "missing_count ?s = 0"
    using f by (simp add: missing_count_card n_def filter_False)
  then have d: "detect_frequency ?s = Inr (Some (bin_frequency ?s p))"
    using v p bin rnd(3) f by (intro detect_frequency_unique) (simp_all add: n_def f32_key_zero)
  have "(of_nat p :: rat) - of_nat n / 2 = (if q < n div 2 then of_nat q else of_nat q - of_nat n)"
    using h by (auto simp: p_def of_nat_diff)
  then have "bin_frequency ?s p = of_nat (unat center) +
          (if q < n div 2 then of_nat q else of_nat q - of_nat n) * of_nat (unat (pc_sample_rate_hz c)) / of_nat n"
    by (simp add: bin_frequency_def f n_def del: of_nat_unat)
  with s d show ?thesis by (simp add: n_def)
qed

end
