(* ===== verification/ProcessorCore.thy ===== *)
theory ProcessorCore
  imports Fft
begin

text \<open>
  The processor's datagram handler (\<open>ProcessorCore\<close> in \<open>apps/udp_pipeline.hpp\<close> and
  \<open>apps/udp_pipeline.cpp\<close>): for each of the four radio streams it checks a datagram,
  takes the stream's settings from context packets, repairs lost data packets with
  missing samples, cuts the samples into windows and turns each full window into a
  spectrum record on the wire.

  The VITA codec is not part of the repository: what the handler reads of a
  decoded packet is the records of the first section, and the decoding functions
  and constants of the codec are the fields of \<open>vita\<close>, a parameter of the model.
\<close>

section \<open>What the handler reads of a packet\<close>

text \<open>The enumerators the handler compares with; every other one is the last constructor.\<close>

datatype packet_type = Pt_signal | Pt_context | Pt_other
datatype timestamp_tsi = Tsi_utc | Tsi_other
datatype timestamp_tsf = Tsf_picoseconds | Tsf_other

record envelope =
  en_type :: packet_type
  en_stream_id :: "u32 option"
  en_class_id :: "(u32 \<times> u16 \<times> u16) option"
  en_tsi :: timestamp_tsi
  en_tsf :: timestamp_tsf
  en_integer :: u64
  en_fractional :: u64
  en_trailer :: bool
  en_packet_count :: u8

record wire_envelope =
  we_envelope :: envelope
  we_trailer :: "u32 option"
  we_payload :: bytes

text \<open>A field's value: an amount of hertz scaled by 2^20, two gain stages scaled by 2^7, or another.\<close>

datatype field_value = Hertz int | Gain_stages int int | Other_value

record field =
  fd_id :: nat
  fd_values :: bool
  fd_current :: bool
  fd_value :: "field_value option"

record packet =
  pk_envelope :: envelope
  pk_fields :: "field list"

text \<open>
  The codec: decoding (None where it returns an error), the sample view of a payload (the
  value \<open>at\<close> returns at each position), the class's OUI, the limits of the profile and
  the identifiers of the four fields. The last two components are the conversion of an
  integer sample pair to a complex sample and the arithmetic on complex samples.
\<close>

record 'c vita =
  vt_decode_envelope :: "bytes \<Rightarrow> wire_envelope option"
  vt_decode_packet :: "bytes \<Rightarrow> packet option"
  vt_sample_view :: "bytes \<Rightarrow> (int \<times> int) option list option"
  vt_sdr_oui :: u32
  vt_minimum_center :: u64
  vt_maximum_center :: u64
  vt_reference_frequency :: nat
  vt_sample_rate :: nat
  vt_bandwidth :: nat
  vt_gain :: nat
  vt_sample :: "int \<times> int \<Rightarrow> 'c"
  vt_arithmetic :: "'c arithmetic"

section \<open>State\<close>

record core_config =
  cf_processing :: processing_config
  cf_receive_bytes :: nat
  cf_queue_limit :: nat

record processor_discards =
  pd_limits :: u64
  pd_invalid_envelope :: u64
  pd_invalid_context :: u64
  pd_invalid_data :: u64
  pd_invalid_samples :: u64
  pd_waiting_context :: u64
  pd_timestamp_range :: u64

record processor_metrics =
  pm_discards :: processor_discards
  pm_datagrams :: u64
  pm_malformed :: u64
  pm_context_updates :: u64
  pm_packet_gaps :: u64
  pm_spectra :: u64
  pm_send_failures :: u64
  pm_unavailable :: u64

record 'c stream_state =
  ss_center_hz :: u64
  ss_sample_rate_hz :: u32
  ss_epoch :: protocol_time
  ss_window_begin :: protocol_time
  ss_samples :: "'c list"
  ss_missing :: "u8 list"
  ss_packet_count :: "u8 option"
  ss_previous_pairs :: nat
  ss_ordinal :: u64
  ss_window_ordinal :: u64
  ss_discontinuities :: u64
  ss_sequence_gaps :: u64
  ss_sequence :: u32
  ss_metadata_valid :: bool

record 'c processor_core =
  pr_streams :: "'c stream_state list"
  pr_metrics :: processor_metrics

definition new_stream :: "'c stream_state" where
  "new_stream = \<lparr>ss_center_hz = 0, ss_sample_rate_hz = 0, ss_epoch = ProtocolTime 0 0,
     ss_window_begin = ProtocolTime 0 0, ss_samples = [], ss_missing = [], ss_packet_count = None,
     ss_previous_pairs = 0, ss_ordinal = 0, ss_window_ordinal = 0, ss_discontinuities = 0,
     ss_sequence_gaps = 0, ss_sequence = 0, ss_metadata_valid = False\<rparr>"

definition new_metrics :: processor_metrics where
  "new_metrics = \<lparr>pm_discards = \<lparr>pd_limits = 0, pd_invalid_envelope = 0, pd_invalid_context = 0,
       pd_invalid_data = 0, pd_invalid_samples = 0, pd_waiting_context = 0, pd_timestamp_range = 0\<rparr>,
     pm_datagrams = 0, pm_malformed = 0, pm_context_updates = 0, pm_packet_gaps = 0, pm_spectra = 0,
     pm_send_failures = 0, pm_unavailable = 0\<rparr>"

definition new_processor :: "core_config \<Rightarrow> 'c processor_core result" where
  "new_processor cfg = ebind (validate_config (cf_processing cfg)) (\<lambda>_.
     Inr \<lparr>pr_streams = replicate 4 new_stream, pr_metrics = new_metrics\<rparr>)"

definition note_send_failure :: "'c processor_core \<Rightarrow> 'c processor_core" where
  "note_send_failure p = p\<lparr>pr_metrics := (pr_metrics p)\<lparr>pm_send_failures := pm_send_failures (pr_metrics p) + 1\<rparr>\<rparr>"

section \<open>Discarding\<close>

text \<open>Every discard counts the datagram as malformed and under one reason.\<close>

datatype discard_reason = Limits | Invalid_envelope | Invalid_context | Invalid_data | Invalid_samples
  | Waiting_context | Timestamp_range

fun count_reason :: "discard_reason \<Rightarrow> processor_discards \<Rightarrow> processor_discards" where
  "count_reason Limits d = d\<lparr>pd_limits := pd_limits d + 1\<rparr>"
| "count_reason Invalid_envelope d = d\<lparr>pd_invalid_envelope := pd_invalid_envelope d + 1\<rparr>"
| "count_reason Invalid_context d = d\<lparr>pd_invalid_context := pd_invalid_context d + 1\<rparr>"
| "count_reason Invalid_data d = d\<lparr>pd_invalid_data := pd_invalid_data d + 1\<rparr>"
| "count_reason Invalid_samples d = d\<lparr>pd_invalid_samples := pd_invalid_samples d + 1\<rparr>"
| "count_reason Waiting_context d = d\<lparr>pd_waiting_context := pd_waiting_context d + 1\<rparr>"
| "count_reason Timestamp_range d = d\<lparr>pd_timestamp_range := pd_timestamp_range d + 1\<rparr>"

definition discard :: "discard_reason \<Rightarrow> processor_metrics \<Rightarrow> processor_metrics" where
  "discard reason m = m\<lparr>pm_malformed := pm_malformed m + 1, pm_discards := count_reason reason (pm_discards m)\<rparr>"

section \<open>Context packets\<close>

record context_values =
  cv_center :: "u64 option"
  cv_rate :: "u32 option"
  cv_bandwidth :: "int option"
  cv_gain :: "(int \<times> int) option"

text \<open>One round of the loop over the fields; None where the round discards the packet.\<close>

definition scan_field :: "'c vita \<Rightarrow> context_values \<Rightarrow> field \<Rightarrow> context_values option" where
  "scan_field V cv f =
    (if \<not> fd_values f \<or> \<not> fd_current f then None
     else case fd_value f of
       None \<Rightarrow> None
     | Some value \<Rightarrow>
        if fd_id f = vt_reference_frequency V then
          (case value of
             Hertz q20 \<Rightarrow> if q20 < 0 \<or> q20 mod 2 ^ 20 \<noteq> 0 then None
               else Some (cv\<lparr>cv_center := Some (of_int (q20 div 2 ^ 20))\<rparr>)
           | _ \<Rightarrow> None)
        else if fd_id f = vt_sample_rate V then
          (case value of
             Hertz q20 \<Rightarrow> if q20 \<le> 0 \<or> q20 mod 2 ^ 20 \<noteq> 0 \<or> q20 div 2 ^ 20 > 2 ^ 32 - 1 then None
               else Some (cv\<lparr>cv_rate := Some (of_int (q20 div 2 ^ 20))\<rparr>)
           | _ \<Rightarrow> None)
        else if fd_id f = vt_bandwidth V then
          (case value of Hertz q20 \<Rightarrow> Some (cv\<lparr>cv_bandwidth := Some q20\<rparr>) | _ \<Rightarrow> None)
        else if fd_id f = vt_gain V then
          (case value of Gain_stages s1 s2 \<Rightarrow> Some (cv\<lparr>cv_gain := Some (s1, s2)\<rparr>) | _ \<Rightarrow> None)
        else None)"

fun scan_fields :: "'c vita \<Rightarrow> context_values \<Rightarrow> field list \<Rightarrow> context_values option" where
  "scan_fields V cv [] = Some cv"
| "scan_fields V cv (f # fs) = (case scan_field V cv f of None \<Rightarrow> None | Some cv' \<Rightarrow> scan_fields V cv' fs)"

text \<open>The settings of a context packet the handler accepts: center and rate.\<close>

definition context_settings :: "'c vita \<Rightarrow> core_config \<Rightarrow> packet \<Rightarrow> (u64 \<times> u32) option" where
  "context_settings V cfg packet =
    (let e = pk_envelope packet in
     if en_class_id e \<noteq> None \<or> en_tsi e \<noteq> Tsi_utc \<or> en_tsf e \<noteq> Tsf_picoseconds \<or>
        en_fractional e \<ge> picoseconds_per_second \<or> length (pk_fields packet) \<noteq> 4
     then None
     else case scan_fields V \<lparr>cv_center = None, cv_rate = None, cv_bandwidth = None, cv_gain = None\<rparr>
                 (pk_fields packet) of
       None \<Rightarrow> None
     | Some cv \<Rightarrow>
       (case (cv_center cv, cv_rate cv, cv_bandwidth cv, cv_gain cv) of
          (Some center, Some rate, Some bandwidth, Some (stage1, stage2)) \<Rightarrow>
            if bandwidth \<le> 0 \<or> bandwidth > uint rate * 2 ^ 20 \<or> stage2 \<noteq> 0 \<or>
               stage1 < - 60 * 128 \<or> stage1 > 60 * 128 \<or>
               \<not> valid_config \<lparr>pc_sample_rate_hz = rate, pc_fft_size = pc_fft_size (cf_processing cfg),
                              pc_overlap_samples = 0\<rparr> \<or>
               \<not> (vt_minimum_center V \<le> center \<and> center \<le> vt_maximum_center V)
            then None else Some (center, rate)
        | _ \<Rightarrow> None))"

definition apply_context ::
  "u64 \<Rightarrow> u32 \<Rightarrow> envelope \<Rightarrow> 'c stream_state \<Rightarrow> 'c stream_state" where
  "apply_context center rate e s =
    (let s = (if ss_samples s \<noteq> [] \<and> (ss_center_hz s \<noteq> center \<or> ss_sample_rate_hz s \<noteq> rate)
              then s\<lparr>ss_samples := [], ss_missing := [], ss_discontinuities := ss_discontinuities s + 1\<rparr>
              else s)
     in s\<lparr>ss_center_hz := center, ss_sample_rate_hz := rate,
          ss_epoch := ProtocolTime (en_integer e) (en_fractional e), ss_metadata_valid := True\<rparr>)"

section \<open>Data packets\<close>

definition valid_sdr_envelope :: "'c vita \<Rightarrow> envelope \<Rightarrow> u32 \<Rightarrow> bool" where
  "valid_sdr_envelope V e stream_id \<longleftrightarrow>
     en_type e = Pt_signal \<and> en_stream_id e = Some stream_id \<and>
     en_class_id e = Some (vt_sdr_oui V, 0, 0) \<and> en_tsi e = Tsi_utc \<and> en_tsf e = Tsf_picoseconds \<and>
     en_fractional e < picoseconds_per_second \<and> en_trailer e"

definition valid_trailer :: "u32 option \<Rightarrow> bool" where
  "valid_trailer t \<longleftrightarrow> (case t of None \<Rightarrow> False | Some w \<Rightarrow> w AND NOT 0x00000c00 = 0x00c00000)"

text \<open>Packets missing between the last one of the stream and this one, modulo 16.\<close>

definition packet_gap :: "u8 option \<Rightarrow> u8 \<Rightarrow> u8" where
  "packet_gap previous count =
     (case previous of None \<Rightarrow> 0
      | Some p \<Rightarrow> (let expected = (p + 1) AND 15 in (count - expected) AND 15))"

text \<open>The stream, the metrics and the frames of the call; the lambda \<open>append\<close>.\<close>

type_synonym 'c appending = "'c stream_state \<times> processor_metrics \<times> bytes list"

definition tag_spectrum :: "core_config \<Rightarrow> u32 \<Rightarrow> 'c stream_state \<Rightarrow> spectrum \<Rightarrow> spectrum" where
  "tag_spectrum cfg listener s spectrum =
     spectrum\<lparr>sp_stream_id := listener, sp_sequence := ss_sequence s, sp_center_hz := ss_center_hz s,
       sp_begin := ss_window_begin s,
       sp_end := add_samples (ss_window_begin s) (ucast (pc_fft_size (cf_processing cfg))) (ss_sample_rate_hz s),
       sp_epoch := ss_epoch s, sp_ordinal := ss_window_ordinal s,
       sp_discontinuities := ss_discontinuities s, sp_sequence_gaps := ss_sequence_gaps s\<rparr>"

definition push_sample :: "'c stream_state \<Rightarrow> 'c \<times> bool \<times> protocol_time \<Rightarrow> 'c stream_state" where
  "push_sample s item =
    (let (sample, missing, begins) = item;
         s = (if ss_samples s = [] then s\<lparr>ss_window_begin := begins, ss_window_ordinal := ss_ordinal s\<rparr> else s)
     in s\<lparr>ss_samples := ss_samples s @ [sample],
          ss_missing := ss_missing s @ [if missing then 1 else 0], ss_ordinal := ss_ordinal s + 1\<rparr>)"

definition finish_window ::
  "'c vita \<Rightarrow> core_config \<Rightarrow> u32 \<Rightarrow> 'c appending \<Rightarrow> 'c appending result" where
  "finish_window V cfg listener st =
    (let (s, m, output) = st in
     ebind (power_spectrum (vt_arithmetic V)
        \<lparr>pc_sample_rate_hz = ss_sample_rate_hz s, pc_fft_size = pc_fft_size (cf_processing cfg),
         pc_overlap_samples = 0\<rparr> (ss_samples s) (ss_missing s)) (\<lambda>spectrum.
     let spectrum = tag_spectrum cfg listener s spectrum;
         s = s\<lparr>ss_sequence := ss_sequence s + 1\<rparr>
     in if length output < cf_queue_limit cfg then
          ebind (encode_spectrum spectrum) (\<lambda>frame.
            Inr (s\<lparr>ss_samples := [], ss_missing := []\<rparr>,
                 m\<lparr>pm_spectra := pm_spectra m + 1\<rparr>, output @ [frame]))
        else Inr (s\<lparr>ss_samples := [], ss_missing := []\<rparr>,
                  m\<lparr>pm_unavailable := pm_unavailable m + 1\<rparr>, output)))"

definition append_sample ::
  "'c vita \<Rightarrow> core_config \<Rightarrow> u32 \<Rightarrow> 'c appending \<Rightarrow> 'c \<times> bool \<times> protocol_time \<Rightarrow> 'c appending result" where
  "append_sample V cfg listener st item =
    (let (s, m, output) = st;
         s = push_sample s item
     in if length (ss_samples s) = unat (pc_fft_size (cf_processing cfg))
        then finish_window V cfg listener (s, m, output)
        else Inr (s, m, output))"

text \<open>The loop over the sample view, which gives up where a pair cannot be read.\<close>

fun append_pairs ::
  "'c vita \<Rightarrow> core_config \<Rightarrow> u32 \<Rightarrow> protocol_time \<Rightarrow> 'c appending \<Rightarrow> (int \<times> int) option list \<Rightarrow> 'c appending result" where
  "append_pairs V cfg listener packet_time st [] = Inr st"
| "append_pairs V cfg listener packet_time (s, m, output) (None # pairs) = Inr (s, discard Invalid_samples m, [])"
| "append_pairs V cfg listener packet_time st (Some pair # pairs) =
     ebind (append_sample V cfg listener st (vt_sample V pair, False, packet_time)) (\<lambda>st.
       append_pairs V cfg listener packet_time st pairs)"

text \<open>The part of \<open>consume\<close> after the checks on a data packet.\<close>

definition consume_data ::
  "'c vita \<Rightarrow> core_config \<Rightarrow> u32 \<Rightarrow> envelope \<Rightarrow> (int \<times> int) option list \<Rightarrow>
   'c stream_state \<Rightarrow> processor_metrics \<Rightarrow> 'c appending result" where
  "consume_data V cfg listener e view s m =
    (let gap = packet_gap (ss_packet_count s) (en_packet_count e);
         missing_pairs = unat gap * ss_previous_pairs s;
         m = (if gap \<noteq> 0 then m\<lparr>pm_packet_gaps := pm_packet_gaps m + ucast gap\<rparr> else m);
         s = (if gap \<noteq> 0 then s\<lparr>ss_discontinuities := ss_discontinuities s + 1,
                                ss_sequence_gaps := ss_sequence_gaps s + ucast gap\<rparr> else s);
         s = s\<lparr>ss_packet_count := Some (en_packet_count e), ss_previous_pairs := length view\<rparr>;
         packet_time = ProtocolTime (en_integer e) (en_fractional e)
     in case (if missing_pairs \<noteq> 0 then subtract_samples packet_time (of_nat missing_pairs) (ss_sample_rate_hz s)
              else Inr packet_time) of
          Inl _ \<Rightarrow> Inr (s, discard Timestamp_range m, [])
        | Inr missing_begin \<Rightarrow>
            ebind (efold (append_sample V cfg listener) (s, m, [])
                    (map (\<lambda>index. (c_zero (vt_arithmetic V), True,
                                   add_samples missing_begin (of_nat index) (ss_sample_rate_hz s)))
                       [0..<missing_pairs]))
              (\<lambda>st. append_pairs V cfg listener packet_time st view))"

text \<open>\<open>consume\<close> on the listener's own stream, the datagram within the limits.\<close>

definition consume_stream ::
  "'c vita \<Rightarrow> core_config \<Rightarrow> u32 \<Rightarrow> bytes \<Rightarrow> 'c stream_state \<Rightarrow> processor_metrics \<Rightarrow> 'c appending result" where
  "consume_stream V cfg listener datagram s m =
    (case vt_decode_envelope V datagram of
       None \<Rightarrow> Inr (s, discard Invalid_envelope m, [])
     | Some we \<Rightarrow>
       let e = we_envelope we in
       if en_stream_id e \<noteq> Some listener then Inr (s, discard Invalid_envelope m, [])
       else if en_type e = Pt_context then
         (case vt_decode_packet V datagram of
            None \<Rightarrow> Inr (s, discard Invalid_context m, [])
          | Some packet \<Rightarrow>
            (case context_settings V cfg packet of
               None \<Rightarrow> Inr (s, discard Invalid_context m, [])
             | Some (center, rate) \<Rightarrow>
                 Inr (apply_context center rate (pk_envelope packet) s,
                      m\<lparr>pm_context_updates := pm_context_updates m + 1\<rparr>, [])))
       else if \<not> valid_sdr_envelope V e listener \<or> \<not> valid_trailer (we_trailer we)
       then Inr (s, discard Invalid_data m, [])
       else (case vt_sample_view V (we_payload we) of
            None \<Rightarrow> Inr (s, discard Invalid_samples m, [])
          | Some view \<Rightarrow>
            if length view = 0 \<or> length view > unat (pc_fft_size (cf_processing cfg))
            then Inr (s, discard Invalid_samples m, [])
            else if \<not> ss_metadata_valid s then Inr (s, discard Waiting_context m, [])
            else consume_data V cfg listener e view s m))"

definition consume ::
  "'c vita \<Rightarrow> core_config \<Rightarrow> u32 \<Rightarrow> bytes \<Rightarrow> 'c processor_core \<Rightarrow> ('c processor_core \<times> bytes list) result" where
  "consume V cfg listener datagram p =
    (let m = (pr_metrics p)\<lparr>pm_datagrams := pm_datagrams (pr_metrics p) + 1\<rparr> in
     if listener < 1 \<or> listener > 4 \<or> length datagram > cf_receive_bytes cfg
     then Inr (p\<lparr>pr_metrics := discard Limits m\<rparr>, [])
     else let index = unat (listener - 1) in
       ebind (consume_stream V cfg listener datagram (pr_streams p ! index) m) (\<lambda>(s, m, output).
         Inr (p\<lparr>pr_streams := (pr_streams p)[index := s], pr_metrics := m\<rparr>, output)))"

section \<open>What the handler relies on\<close>

definition fft_size_of :: "core_config \<Rightarrow> nat" where
  "fft_size_of cfg = unat (pc_fft_size (cf_processing cfg))"

text \<open>
  The arithmetic: zero and converted sample pairs are finite, and the power of a bin
  of a window of them is a finite, non-negative single-precision value. The
  profile's center frequencies lie within those a spectrum record admits.
\<close>

definition sample_value :: "'c vita \<Rightarrow> 'c \<Rightarrow> bool" where
  "sample_value V x \<longleftrightarrow> x = c_zero (vt_arithmetic V) \<or> x \<in> range (vt_sample V)"

definition arithmetic_ok :: "'c vita \<Rightarrow> core_config \<Rightarrow> bool" where
  "arithmetic_ok V cfg \<longleftrightarrow>
     (\<forall>x. sample_value V x \<longrightarrow> c_isfinite (vt_arithmetic V) x) \<and>
     (\<forall>xs. length xs = fft_size_of cfg \<and> (\<forall>x \<in> set xs. sample_value V x) \<longrightarrow>
        (\<forall>k < fft_size_of cfg.
           f32_isfinite (c_power (vt_arithmetic V) (fft (vt_arithmetic V) (fft_size_of cfg) xs ! k) (fft_size_of cfg)) \<and>
           f32_nonneg (c_power (vt_arithmetic V) (fft (vt_arithmetic V) (fft_size_of cfg) xs ! k) (fft_size_of cfg))))"

definition profile_ok :: "'c vita \<Rightarrow> bool" where
  "profile_ok V \<longleftrightarrow> 1000000 \<le> vt_minimum_center V \<and> vt_maximum_center V \<le> 6000000000"

section \<open>The invariant of a stream\<close>

definition stream_ok :: "'c vita \<Rightarrow> core_config \<Rightarrow> 'c stream_state \<Rightarrow> bool" where
  "stream_ok V cfg s \<longleftrightarrow>
     length (ss_missing s) = length (ss_samples s) \<and>
     length (ss_samples s) < fft_size_of cfg \<and>
     ss_previous_pairs s \<le> fft_size_of cfg \<and>
     (\<forall>x \<in> set (ss_samples s). sample_value V x) \<and>
     (\<forall>x \<in> set (ss_missing s). x = 0 \<or> x = 1) \<and>
     (ss_samples s \<noteq> [] \<longrightarrow> ss_window_ordinal s = ss_ordinal s - of_nat (length (ss_samples s))) \<and>
     (ss_metadata_valid s \<longrightarrow>
        valid_config \<lparr>pc_sample_rate_hz = ss_sample_rate_hz s, pc_fft_size = pc_fft_size (cf_processing cfg),
                      pc_overlap_samples = 0\<rparr> \<and>
        vt_minimum_center V \<le> ss_center_hz s \<and> ss_center_hz s \<le> vt_maximum_center V) \<and>
     (ss_samples s \<noteq> [] \<longrightarrow> ss_metadata_valid s)"

section \<open>The windows of a stream of samples\<close>

text \<open>
  The specification of \<open>append\<close>: the samples of a stream, each with its missing flag and
  the time a window that starts with it begins, are cut into windows of the FFT size.
  \<open>window n k xs\<close> is the \<open>k\<close>-th window, \<open>remains n xs\<close> the unfinished one.
\<close>

definition window :: "nat \<Rightarrow> nat \<Rightarrow> 'a list \<Rightarrow> 'a list" where
  "window n k xs = take n (drop (k * n) xs)"

definition remains :: "nat \<Rightarrow> 'a list \<Rightarrow> 'a list" where
  "remains n xs = drop (length xs div n * n) xs"

lemma length_remains [simp]: "length (remains n xs) = length xs mod n"
  by (simp add: remains_def minus_div_mult_eq_mod)

lemma remains_snoc:
  assumes "0 < n"
  shows "Suc (length xs mod n) \<noteq> n \<Longrightarrow> remains n (xs @ [x]) = remains n xs @ [x]"
    and "Suc (length xs mod n) = n \<Longrightarrow> remains n (xs @ [x]) = []"
    and "Suc (length xs mod n) = n \<Longrightarrow> window n (length xs div n) (xs @ [x]) = remains n xs @ [x]"
proof -
  have le: "length xs div n * n \<le> length xs" by simp
  show "remains n (xs @ [x]) = remains n xs @ [x]" if "Suc (length xs mod n) \<noteq> n"
    using that le assms by (simp add: remains_def div_Suc mod_Suc)
  show "remains n (xs @ [x]) = []" if "Suc (length xs mod n) = n"
  proof -
    have "n dvd Suc (length xs)" using that by (simp add: mod_Suc dvd_eq_mod_eq_0)
    then show ?thesis by (simp add: remains_def)
  qed
  show "window n (length xs div n) (xs @ [x]) = remains n xs @ [x]" if "Suc (length xs mod n) = n"
  proof -
    have "drop (length xs div n * n) (xs @ [x]) = remains n xs @ [x]" using le by (simp add: remains_def)
    moreover have "length (remains n xs @ [x]) = n" using that by simp
    ultimately show ?thesis by (simp add: window_def)
  qed
qed

lemma window_append:
  "k < length xs div n \<Longrightarrow> window n k (xs @ ys) = window n k xs"
proof -
  assume "k < length xs div n"
  then have "Suc k * n \<le> length xs div n * n" by (intro mult_le_mono1) simp
  also have "\<dots> \<le> length xs" by simp
  finally show ?thesis by (simp add: window_def)
qed

lemma length_window: "k < length xs div n \<Longrightarrow> length (window n k xs) = n"
proof -
  assume "k < length xs div n"
  then have "Suc k * n \<le> length xs div n * n" by (intro mult_le_mono1) simp
  also have "\<dots> \<le> length xs" by simp
  finally show ?thesis by (simp add: window_def)
qed

text \<open>A sample, whether it stands for a missing one, and the time a window starting with it begins.\<close>

type_synonym 'c item = "'c \<times> bool \<times> protocol_time"

definition flag :: "'c item \<Rightarrow> u8" where
  "flag x = (if fst (snd x) then 1 else 0)"

definition begins :: "'c item \<Rightarrow> protocol_time" where
  "begins x = snd (snd x)"

definition pending :: "'c stream_state \<Rightarrow> 'c item list" where
  "pending s = map2 (\<lambda>x missing. (x, missing \<noteq> 0, ss_window_begin s)) (ss_samples s) (ss_missing s)"

definition first_ordinal :: "'c stream_state \<Rightarrow> u64" where
  "first_ordinal s = ss_ordinal s - of_nat (length (ss_samples s))"

text \<open>The wire frame of window \<open>k\<close> of a stream whose unfinished window started at \<open>first_ordinal\<close>.\<close>

definition window_frame :: "'c vita \<Rightarrow> core_config \<Rightarrow> u32 \<Rightarrow> 'c stream_state \<Rightarrow> nat \<Rightarrow> 'c item list \<Rightarrow> bytes result" where
  "window_frame V cfg listener s k w =
     ebind (power_spectrum (vt_arithmetic V)
        \<lparr>pc_sample_rate_hz = ss_sample_rate_hz s, pc_fft_size = pc_fft_size (cf_processing cfg),
         pc_overlap_samples = 0\<rparr> (map fst w) (map flag w))
       (\<lambda>sp. encode_spectrum (tag_spectrum cfg listener
          (s\<lparr>ss_sequence := ss_sequence s + of_nat k, ss_window_begin := begins (hd w),
             ss_window_ordinal := first_ordinal s + of_nat (k * fft_size_of cfg)\<rparr>) sp))"

text \<open>The stream after more items.\<close>

definition after :: "core_config \<Rightarrow> 'c stream_state \<Rightarrow> 'c item list \<Rightarrow> 'c stream_state" where
  "after cfg s xs =
    (let items = pending s @ xs; n = fft_size_of cfg; last_start = (length items - 1) div n * n in
     s\<lparr>ss_samples := map fst (remains n items), ss_missing := map flag (remains n items),
       ss_ordinal := ss_ordinal s + of_nat (length xs),
       ss_sequence := ss_sequence s + of_nat (length items div n),
       ss_window_begin := (if items = [] then ss_window_begin s else begins (items ! last_start)),
       ss_window_ordinal := (if items = [] then ss_window_ordinal s else first_ordinal s + of_nat last_start)\<rparr>)"

lemma length_pending [simp]: "length (ss_missing s) = length (ss_samples s) \<Longrightarrow> length (pending s) = length (ss_samples s)"
  by (simp add: pending_def)

lemma pending_samples: "length (ss_missing s) = length (ss_samples s) \<Longrightarrow> map fst (pending s) = ss_samples s"
  by (simp add: pending_def map_fst_zip [symmetric] case_prod_beta' o_def)

lemma pending_flags:
  "length (ss_missing s) = length (ss_samples s) \<Longrightarrow> \<forall>x \<in> set (ss_missing s). x = 0 \<or> x = 1 \<Longrightarrow>
     map flag (pending s) = ss_missing s"
  by (rule nth_equalityI) (fastforce simp: pending_def flag_def dest: nth_mem)+

lemma after_Nil:
  assumes "stream_ok V cfg s"
  shows "after cfg s [] = s"
proof -
  have l: "length (pending s) < fft_size_of cfg" and m: "length (ss_missing s) = length (ss_samples s)"
    using assms by (simp_all add: stream_ok_def)
  have r: "remains (fft_size_of cfg) (pending s) = pending s" using l by (simp add: remains_def)
  have b: "ss_samples s \<noteq> [] \<Longrightarrow> begins (pending s ! 0) = ss_window_begin s"
    using m by (simp add: pending_def begins_def)
  have e: "pending s = [] \<longleftrightarrow> ss_samples s = []"
    using length_pending [OF m] by (metis length_0_conv)
  show ?thesis
    using assms l m
    by (auto simp: after_def Let_def r b e pending_samples pending_flags stream_ok_def first_ordinal_def)
qed

definition items_ok :: "'c vita \<Rightarrow> 'c item list \<Rightarrow> bool" where
  "items_ok V xs \<longleftrightarrow> (\<forall>x \<in> set xs. sample_value V (fst x))"

text \<open>Every complete window of samples becomes a frame.\<close>

lemma encodable:
  assumes ok: "arithmetic_ok V cfg" "profile_ok V" "1 \<le> listener" "listener \<le> 4"
    and s: "stream_ok V cfg s" "ss_metadata_valid s"
    and w: "length w = fft_size_of cfg" "items_ok V w"
  shows "\<exists>sp. power_spectrum (vt_arithmetic V)
        \<lparr>pc_sample_rate_hz = ss_sample_rate_hz s, pc_fft_size = pc_fft_size (cf_processing cfg),
         pc_overlap_samples = 0\<rparr> (map fst w) (map flag w) = Inr sp \<and>
      (\<forall>q b wo. valid_spectrum (tag_spectrum cfg listener
          (s\<lparr>ss_sequence := q, ss_window_begin := b, ss_window_ordinal := wo\<rparr>) sp))"
proof -
  let ?A = "vt_arithmetic V" and ?n = "fft_size_of cfg"
  let ?c = "\<lparr>pc_sample_rate_hz = ss_sample_rate_hz s, pc_fft_size = pc_fft_size (cf_processing cfg), pc_overlap_samples = 0\<rparr>"
  let ?k = "map (kept ?A (map fst w) (map flag w)) [0..<?n]"
  have c: "valid_config ?c" and center: "1000000 \<le> ss_center_hz s" "ss_center_hz s \<le> 6000000000"
    using s ok(2) by (auto simp: stream_ok_def profile_ok_def)
  have fin: "\<forall>x \<in> set (map fst w). c_isfinite ?A x"
    using ok(1) w(2) by (auto simp: arithmetic_ok_def items_ok_def)
  from power_spectrum_Inr [OF c, of ?n "map fst w" "map flag w", OF _ _ _ fin] w(1)
  obtain sp where sp: "power_spectrum ?A ?c (map fst w) (map flag w) = Inr sp"
    and f: "sp_sample_rate_hz sp = ss_sample_rate_hz s" "sp_fft_size sp = pc_fft_size (cf_processing cfg)"
      "sp_hop sp = pc_fft_size (cf_processing cfg)" "length (sp_gaps sp) = ?n div 8"
      "sp_power sp = map (\<lambda>i. c_power ?A (fft ?A ?n ?k ! ((i + ?n div 2) mod ?n)) ?n) [0..<?n]"
    by (auto simp: fft_size_of_def hop_def)
  have "\<forall>x \<in> set ?k. sample_value V x"
    using w by (auto simp: kept_def sample_value_def items_ok_def)
  then have p: "f32_isfinite v \<and> f32_nonneg v" if "v \<in> set (sp_power sp)" for v
    using that ok(1) f(5) by (auto simp: arithmetic_ok_def)
  show ?thesis
    by (rule exI [of _ sp])
      (use sp c center f ok(3,4) p in \<open>auto simp: valid_spectrum_def tag_spectrum_def fft_size_of_def unat_div_distrib\<close>)
qed

definition opened :: "core_config \<Rightarrow> 'c stream_state \<Rightarrow> 'c item list \<Rightarrow> 'c item \<Rightarrow> 'c stream_state" where
  "opened cfg s xs x =
    (let items = pending s @ xs; n = fft_size_of cfg; start = length items div n * n in
     s\<lparr>ss_samples := map fst (remains n items @ [x]), ss_missing := map flag (remains n items @ [x]),
       ss_ordinal := ss_ordinal s + of_nat (Suc (length xs)),
       ss_sequence := ss_sequence s + of_nat (length items div n),
       ss_window_begin := begins ((items @ [x]) ! start),
       ss_window_ordinal := first_ordinal s + of_nat start\<rparr>)"

lemma remains_Nil: "remains n xs = [] \<longleftrightarrow> length xs mod n = 0"
  by (metis length_0_conv length_remains)

lemma start_of_rest: "xs \<noteq> [] \<Longrightarrow> length xs mod n \<noteq> 0 \<Longrightarrow> (length xs - 1) div n * n = length xs div n * n"
  by (cases "length xs") (auto simp: div_Suc)

lemma opened_after:
  assumes s: "stream_ok V cfg s" and n: "0 < fft_size_of cfg"
  shows "push_sample (after cfg s xs) x = opened cfg s xs x"
proof -
  let ?n = "fft_size_of cfg" and ?items = "pending s @ xs"
  let ?start = "length ?items div ?n * ?n"
  have m: "length (ss_missing s) = length (ss_samples s)" using s by (simp add: stream_ok_def)
  show ?thesis
  proof (cases "length ?items mod ?n = 0")
    case True
    then have start: "?start = length ?items" by auto
    have e: "ss_samples (after cfg s xs) = []" using True by (simp add: after_def Let_def remains_Nil)
    have "first_ordinal s + of_nat ?start = ss_ordinal s + of_nat (length xs)"
      unfolding start by (simp add: first_ordinal_def m)
    moreover have "(?items @ [x]) ! ?start = x" unfolding start by (simp only: nth_append_length)
    ultimately show ?thesis using True
      using e by (simp add: push_sample_def case_prod_beta' begins_def after_def opened_def Let_def remains_Nil flag_def ac_simps)
  next
    case False
    then have ne: "?items \<noteq> []" by auto
    note start = start_of_rest [OF ne False]
    have less: "?start < length ?items"
      using False div_mult_mod_eq [of "length ?items" ?n] by linarith
    have e: "ss_samples (after cfg s xs) \<noteq> []" using False by (simp add: after_def Let_def remains_Nil)
    have "after cfg s xs = s\<lparr>ss_samples := map fst (remains ?n ?items), ss_missing := map flag (remains ?n ?items),
       ss_ordinal := ss_ordinal s + of_nat (length xs),
       ss_sequence := ss_sequence s + of_nat (length ?items div ?n),
       ss_window_begin := begins (?items ! ?start), ss_window_ordinal := first_ordinal s + of_nat ?start\<rparr>"
      unfolding after_def Let_def start by (simp only: ne if_False)
    moreover have "(?items @ [x]) ! ?start = ?items ! ?start" using less by (simp only: nth_append if_True)
    ultimately show ?thesis
      using e by (simp add: push_sample_def case_prod_beta' begins_def opened_def Let_def flag_def ac_simps)
  qed
qed

text \<open>One sample: it extends the unfinished window, or completes it and gives a frame.\<close>

lemma append_sample_after:
  assumes ok: "arithmetic_ok V cfg" "profile_ok V" "1 \<le> listener" "listener \<le> 4"
    and s: "stream_ok V cfg s" "ss_metadata_valid s" and items: "items_ok V (pending s @ xs @ [x])"
  defines "n \<equiv> fft_size_of cfg" and "items \<equiv> pending s @ xs"
  shows "Suc (length items mod n) \<noteq> n \<Longrightarrow>
      append_sample V cfg listener (after cfg s xs, m, out) x = Inr (after cfg s (xs @ [x]), m, out)"
    and "Suc (length items mod n) = n \<Longrightarrow>
      \<exists>frame. window_frame V cfg listener s (length items div n) (window n (length items div n) (items @ [x])) = Inr frame \<and>
        append_sample V cfg listener (after cfg s xs, m, out) x =
          (if length out < cf_queue_limit cfg
           then Inr (after cfg s (xs @ [x]), m\<lparr>pm_spectra := pm_spectra m + 1\<rparr>, out @ [frame])
           else Inr (after cfg s (xs @ [x]), m\<lparr>pm_unavailable := pm_unavailable m + 1\<rparr>, out))"
proof -
  let ?b = "opened cfg s xs x" and ?k = "length items div n"
  have n: "0 < n" using s(1) by (auto simp: stream_ok_def n_def)
  have fn: "fft_size_of cfg = n" by (simp add: n_def)
  have ii: "pending s @ xs = items" "pending s @ xs @ [x] = items @ [x]" by (simp_all add: items_def)
  have step: "append_sample V cfg listener (after cfg s xs, m, out) x =
    (if length (ss_samples ?b) = n then finish_window V cfg listener (?b, m, out) else Inr (?b, m, out))"
    unfolding append_sample_def opened_after [OF s(1) n [unfolded n_def], symmetric] n_def fft_size_of_def
    by (simp add: Let_def)
  have len: "length (ss_samples ?b) = Suc (length items mod n)"
    by (simp add: opened_def Let_def fn ii)
  have last: "(length (items @ [x]) - 1) div n * n = ?k * n" by simp
  show "append_sample V cfg listener (after cfg s xs, m, out) x = Inr (after cfg s (xs @ [x]), m, out)"
    if "Suc (length items mod n) \<noteq> n"
  proof -
    have "?b = after cfg s (xs @ [x])"
      unfolding opened_def after_def Let_def fn ii last remains_snoc(1) [OF n that]
      using that by (simp add: div_Suc mod_Suc)
    with that len show ?thesis by (simp add: step)
  qed
  show "\<exists>frame. window_frame V cfg listener s ?k (window n ?k (items @ [x])) = Inr frame \<and>
        append_sample V cfg listener (after cfg s xs, m, out) x =
          (if length out < cf_queue_limit cfg
           then Inr (after cfg s (xs @ [x]), m\<lparr>pm_spectra := pm_spectra m + 1\<rparr>, out @ [frame])
           else Inr (after cfg s (xs @ [x]), m\<lparr>pm_unavailable := pm_unavailable m + 1\<rparr>, out))"
    if full: "Suc (length items mod n) = n"
  proof -
    let ?w = "window n ?k (items @ [x])"
    have w: "?w = remains n items @ [x]" by (rule remains_snoc(3) [OF n full])
    have lw: "length ?w = fft_size_of cfg" using full by (simp add: w fn)
    have iw: "items_ok V ?w" using items unfolding ii by (auto simp: items_ok_def window_def dest: in_set_takeD in_set_dropD)
    from encodable [OF ok s lw iw] obtain sp where
      sp: "power_spectrum (vt_arithmetic V)
        \<lparr>pc_sample_rate_hz = ss_sample_rate_hz s, pc_fft_size = pc_fft_size (cf_processing cfg),
         pc_overlap_samples = 0\<rparr> (map fst ?w) (map flag ?w) = Inr sp"
      and v: "\<And>q b wo. valid_spectrum (tag_spectrum cfg listener
          (s\<lparr>ss_sequence := q, ss_window_begin := b, ss_window_ordinal := wo\<rparr>) sp)" by blast
    have hd: "hd ?w = (items @ [x]) ! (?k * n)"
    proof -
      have "?k * n < length (items @ [x])" by (simp add: less_Suc_eq_le)
      then show ?thesis using n by (simp only: window_def hd_take hd_drop_conv_nth)
    qed
    have tag: "tag_spectrum cfg listener ?b sp = tag_spectrum cfg listener
        (s\<lparr>ss_sequence := ss_sequence s + of_nat ?k, ss_window_begin := begins (hd ?w),
           ss_window_ordinal := first_ordinal s + of_nat (?k * n)\<rparr>) sp"
      by (simp add: tag_spectrum_def opened_def Let_def fn ii hd)
    from v obtain frame where frame: "encode_spectrum (tag_spectrum cfg listener ?b sp) = Inr frame"
      unfolding tag using encode_eq by blast
    have "Suc (length items) div n = Suc ?k" using full by (simp add: div_Suc mod_Suc)
    then have b: "?b\<lparr>ss_sequence := ss_sequence ?b + 1, ss_samples := [], ss_missing := []\<rparr> = after cfg s (xs @ [x])"
      unfolding opened_def after_def Let_def fn ii last remains_snoc(2) [OF n full]
      by simp
    have ps: "ss_samples ?b = map fst ?w" "ss_missing ?b = map flag ?w" "ss_sample_rate_hz ?b = ss_sample_rate_hz s"
      by (simp_all add: opened_def Let_def fn ii w)
    have "window_frame V cfg listener s ?k ?w = Inr frame"
      using sp frame by (simp add: window_frame_def tag fn)
    moreover have "append_sample V cfg listener (after cfg s xs, m, out) x =
          (if length out < cf_queue_limit cfg
           then Inr (after cfg s (xs @ [x]), m\<lparr>pm_spectra := pm_spectra m + 1\<rparr>, out @ [frame])
           else Inr (after cfg s (xs @ [x]), m\<lparr>pm_unavailable := pm_unavailable m + 1\<rparr>, out))"
      using full len sp frame b by (simp add: step finish_window_def Let_def ps)
    ultimately show ?thesis by blast
  qed
qed

lemma append_samples:
  assumes ok: "arithmetic_ok V cfg" "profile_ok V" "1 \<le> listener" "listener \<le> 4"
    and s: "stream_ok V cfg s" "ss_metadata_valid s" and items: "items_ok V (pending s @ xs)"
  defines "n \<equiv> fft_size_of cfg"
  shows "\<exists>frames. emap (\<lambda>k. window_frame V cfg listener s k (window n k (pending s @ xs)))
        [0..<min (length (pending s @ xs) div n) (cf_queue_limit cfg)] = Inr frames \<and>
      efold (append_sample V cfg listener) (s, m, []) xs =
        Inr (after cfg s xs,
          m\<lparr>pm_spectra := pm_spectra m + of_nat (length frames),
            pm_unavailable := pm_unavailable m + of_nat (length (pending s @ xs) div n - length frames)\<rparr>, frames)"
  using items
proof (induction xs rule: rev_induct)
  case Nil
  have "length (pending s) < n"
    using s(1) by (simp add: stream_ok_def n_def)
  then show ?case by (simp add: after_Nil [OF s(1)])
next
  case (snoc x xs)
  let ?items = "pending s @ xs"
  let ?W = "length ?items div n" and ?limit = "cf_queue_limit cfg"
  let ?frame = "\<lambda>items k. window_frame V cfg listener s k (window n k items)"
  have n: "0 < n" using s(1) by (auto simp: stream_ok_def n_def)
  have "items_ok V ?items" using snoc.prems by (auto simp: items_ok_def)
  from snoc.IH [OF this] obtain frames where
    IH: "emap (?frame ?items) [0..<min ?W ?limit] = Inr frames"
      "efold (append_sample V cfg listener) (s, m, []) xs =
        Inr (after cfg s xs, m\<lparr>pm_spectra := pm_spectra m + of_nat (length frames),
            pm_unavailable := pm_unavailable m + of_nat (?W - length frames)\<rparr>, frames)" by blast
  have lf: "length frames = min ?W ?limit" using emap_length [OF IH(1)] by simp
  have same: "emap (?frame (?items @ [x])) [0..<min ?W ?limit] = Inr frames"
    unfolding IH(1) [symmetric] by (rule emap_cong) (simp add: window_append del: append_assoc)
  note step = append_sample_after [OF ok s snoc.prems [simplified append_assoc], folded n_def]
  show ?case
  proof (cases "Suc (length ?items mod n) = n")
    case False
    then have W: "length (?items @ [x]) div n = ?W" by (simp add: div_Suc mod_Suc)
    show ?thesis
      using same step(1) [OF False] IH(2) unfolding append_assoc [symmetric] W
      by (simp add: efold_append)
  next
    case True
    then have W: "length (?items @ [x]) div n = Suc ?W" by (simp add: div_Suc mod_Suc)
    from step(2) [OF True] obtain f where f: "?frame (?items @ [x]) ?W = Inr f" by blast
    have st: "append_sample V cfg listener (after cfg s xs, m, out) x =
          (if length out < ?limit
           then Inr (after cfg s (xs @ [x]), m\<lparr>pm_spectra := pm_spectra m + 1\<rparr>, out @ [f])
           else Inr (after cfg s (xs @ [x]), m\<lparr>pm_unavailable := pm_unavailable m + 1\<rparr>, out))" for m out
      using step(2) [OF True, of m out] f by auto
    show ?thesis
    proof (cases "?W < ?limit")
      case True
      then have "[0..<min (Suc ?W) ?limit] = [0..<min ?W ?limit] @ [?W]" by (simp add: min_def)
      with True lf f same IH(2) show ?thesis
        unfolding append_assoc [symmetric] W
        by (intro exI [of _ "frames @ [f]"]) (simp add: efold_append emap_append st)
    next
      case False
      then have "[0..<min (Suc ?W) ?limit] = [0..<min ?W ?limit]" by (simp add: min_def)
      moreover have "length frames \<le> ?W" by (simp only: lf min.cobounded1)
      then have "Suc ?W - length frames = Suc (?W - length frames)" by (rule Suc_diff_le)
      ultimately show ?thesis
        using False lf f same IH(2)
        unfolding append_assoc [symmetric] W
        by (intro exI [of _ frames]) (simp add: efold_append emap_append st)
    qed
  qed
qed

lemma after_ok:
  assumes s: "stream_ok V cfg s" "ss_metadata_valid s" and items: "items_ok V (pending s @ xs)"
  shows "stream_ok V cfg (after cfg s xs)"
proof -
  let ?n = "fft_size_of cfg" and ?items = "pending s @ xs"
  have n: "0 < ?n" and m: "length (ss_missing s) = length (ss_samples s)" using s(1) by (auto simp: stream_ok_def)
  have v: "\<forall>x \<in> set (remains ?n ?items). sample_value V (fst x)"
    using items by (auto simp: items_ok_def remains_def dest: in_set_dropD)
  have fl: "\<forall>x \<in> set (remains ?n ?items). flag x = 0 \<or> flag x = 1"
    by (simp add: flag_def)
  have ord: "first_ordinal s + of_nat ((length ?items - 1) div ?n * ?n) =
      ss_ordinal s + of_nat (length xs) - of_nat (length ?items mod ?n)" if "length ?items mod ?n \<noteq> 0"
  proof -
    have "?items \<noteq> []" using that by auto
    note st = start_of_rest [OF this that]
    have "length ?items div ?n * ?n + length ?items mod ?n = length (ss_samples s) + length xs"
      using m by (simp only: div_mult_mod_eq) simp
    then have "(of_nat (length ?items div ?n * ?n) :: u64) + of_nat (length ?items mod ?n) =
        of_nat (length (ss_samples s)) + of_nat (length xs)"
      by (metis of_nat_add)
    then show ?thesis unfolding st first_ordinal_def by (simp add: algebra_simps)
  qed
  have ne: "ss_samples (after cfg s xs) = [] \<longleftrightarrow> length ?items mod ?n = 0"
    by (simp add: after_def Let_def remains_Nil)
  show ?thesis
    using s n v fl ord unfolding stream_ok_def ne
    by (auto simp: after_def Let_def remains_Nil)
qed

section \<open>A data packet\<close>

definition missing_items :: "'c vita \<Rightarrow> u32 \<Rightarrow> protocol_time \<Rightarrow> nat \<Rightarrow> 'c item list" where
  "missing_items V rate missing_begin k =
     map (\<lambda>i. (c_zero (vt_arithmetic V), True, add_samples missing_begin (of_nat i) rate)) [0..<k]"

definition data_items :: "'c vita \<Rightarrow> protocol_time \<Rightarrow> (int \<times> int) list \<Rightarrow> 'c item list" where
  "data_items V t ps = map (\<lambda>p. (vt_sample V p, False, t)) ps"

text \<open>The stream and the metrics after the gap is counted.\<close>

definition count_gap :: "u8 \<Rightarrow> envelope \<Rightarrow> nat \<Rightarrow> 'c stream_state \<Rightarrow> 'c stream_state" where
  "count_gap gap e pairs s =
     (if gap \<noteq> 0 then s\<lparr>ss_discontinuities := ss_discontinuities s + 1,
        ss_sequence_gaps := ss_sequence_gaps s + ucast gap\<rparr> else s)
       \<lparr>ss_packet_count := Some (en_packet_count e), ss_previous_pairs := pairs\<rparr>"

definition count_gap_metrics :: "u8 \<Rightarrow> processor_metrics \<Rightarrow> processor_metrics" where
  "count_gap_metrics gap m = (if gap \<noteq> 0 then m\<lparr>pm_packet_gaps := pm_packet_gaps m + ucast gap\<rparr> else m)"

definition packet_time :: "envelope \<Rightarrow> protocol_time" where
  "packet_time e = ProtocolTime (en_integer e) (en_fractional e)"

lemma append_pairs_Some:
  "append_pairs V cfg listener t st (map Some ps) = efold (append_sample V cfg listener) st (data_items V t ps)"
  by (induction ps arbitrary: st) (simp_all add: data_items_def)

lemma append_pairs_None:
  "append_pairs V cfg listener t st (map Some ps @ None # rest) =
     ebind (efold (append_sample V cfg listener) st (data_items V t ps)) (\<lambda>(s, m, out). Inr (s, discard Invalid_samples m, []))"
proof (induction ps arbitrary: st)
  case Nil
  then show ?case by (cases st) (simp add: data_items_def)
next
  case (Cons p ps)
  then show ?case
    by (cases "append_sample V cfg listener st (vt_sample V p, False, t)") (simp_all add: data_items_def)
qed

lemma view_cases:
  obtains ps where "view = map Some ps" | ps rest where "view = map Some ps @ None # rest"
proof -
  have "(\<exists>ps. view = map Some ps) \<or> (\<exists>ps rest. view = map Some ps @ None # rest)"
  proof (induction view)
    case Nil
    then show ?case by simp
  next
    case (Cons p view)
    show ?case
    proof (cases p)
      case None
      then have "p # view = map Some [] @ None # view" by simp
      then show ?thesis by (intro disjI2 exI)
    next
      case (Some q)
      from Cons consider (all) ps where "view = map Some ps" | (part) ps rest where "view = map Some ps @ None # rest" by blast
      then show ?thesis
      proof cases
        case all
        with Some have "p # view = map Some (q # ps)" by simp
        then show ?thesis by (intro disjI1 exI)
      next
        case part
        with Some have "p # view = map Some (q # ps) @ None # rest" by simp
        then show ?thesis by (intro disjI2 exI)
      qed
    qed
  qed
  with that show thesis by blast
qed

lemma consume_data_cases:
  "consume_data V cfg listener e view s m =
    (let gap = packet_gap (ss_packet_count s) (en_packet_count e); k = unat gap * ss_previous_pairs s;
         s1 = count_gap gap e (length view) s; m1 = count_gap_metrics gap m in
     case (if k \<noteq> 0 then subtract_samples (packet_time e) (of_nat k) (ss_sample_rate_hz s) else Inr (packet_time e)) of
       Inl _ \<Rightarrow> Inr (s1, discard Timestamp_range m1, [])
     | Inr t0 \<Rightarrow> ebind (efold (append_sample V cfg listener) (s1, m1, []) (missing_items V (ss_sample_rate_hz s) t0 k))
         (\<lambda>st. append_pairs V cfg listener (packet_time e) st view))"
  unfolding consume_data_def count_gap_def count_gap_metrics_def missing_items_def packet_time_def Let_def
  by (simp cong: sum.case_cong)

lemma count_gap_simps [simp]:
  "ss_samples (count_gap gap e k s) = ss_samples s" "ss_missing (count_gap gap e k s) = ss_missing s"
  "ss_metadata_valid (count_gap gap e k s) = ss_metadata_valid s"
  "ss_sample_rate_hz (count_gap gap e k s) = ss_sample_rate_hz s"
  "ss_ordinal (count_gap gap e k s) = ss_ordinal s" "ss_window_ordinal (count_gap gap e k s) = ss_window_ordinal s"
  "ss_center_hz (count_gap gap e k s) = ss_center_hz s" "ss_previous_pairs (count_gap gap e k s) = k"
  "ss_window_begin (count_gap gap e k s) = ss_window_begin s" "ss_sequence (count_gap gap e k s) = ss_sequence s"
  by (simp_all add: count_gap_def)

lemma pending_count_gap [simp]: "pending (count_gap gap e k s) = pending s"
  by (simp add: pending_def)

lemma count_gap_ok: "stream_ok V cfg s \<Longrightarrow> k \<le> fft_size_of cfg \<Longrightarrow> stream_ok V cfg (count_gap gap e k s)"
  by (simp add: stream_ok_def)

lemma items_ok_append [simp]: "items_ok V (xs @ ys) \<longleftrightarrow> items_ok V xs \<and> items_ok V ys"
  by (auto simp: items_ok_def)

lemma items_ok_missing [simp]: "items_ok V (missing_items V rate t k)"
  by (simp add: items_ok_def missing_items_def sample_value_def)

lemma items_ok_data [simp]: "items_ok V (data_items V t ps)"
  by (simp add: items_ok_def data_items_def sample_value_def)

lemma items_ok_pending: "stream_ok V cfg s \<Longrightarrow> items_ok V (pending s)"
  by (auto simp: items_ok_def pending_def stream_ok_def dest: set_zip_leftD)

lemma efold_twice: "ebind (efold f s xs) (\<lambda>t. efold f t ys) = efold f s (xs @ ys)"
  by (simp add: efold_append)

text \<open>A data packet of readable samples: the windows of the unfinished window, the missing samples
  and the packet's samples, in this order, become frames.\<close>

lemma consume_data_windows:
  assumes ok: "arithmetic_ok V cfg" "profile_ok V" "1 \<le> listener" "listener \<le> 4"
    and s: "stream_ok V cfg s" "ss_metadata_valid s" and ps: "length ps \<le> fft_size_of cfg"
    and t0: "(if unat (packet_gap (ss_packet_count s) (en_packet_count e)) * ss_previous_pairs s \<noteq> 0
       then subtract_samples (packet_time e) (of_nat (unat (packet_gap (ss_packet_count s) (en_packet_count e)) * ss_previous_pairs s))
              (ss_sample_rate_hz s) else Inr (packet_time e)) = Inr t0"
  shows "let n = fft_size_of cfg; gap = packet_gap (ss_packet_count s) (en_packet_count e);
        s1 = count_gap gap e (length ps) s; m1 = count_gap_metrics gap m;
        xs = missing_items V (ss_sample_rate_hz s) t0 (unat gap * ss_previous_pairs s) @ data_items V (packet_time e) ps;
        windows = length (pending s @ xs) div n
      in \<exists>frames. emap (\<lambda>k. window_frame V cfg listener s1 k (window n k (pending s @ xs)))
            [0..<min windows (cf_queue_limit cfg)] = Inr frames \<and>
          consume_data V cfg listener e (map Some ps) s m = Inr (after cfg s1 xs,
            m1\<lparr>pm_spectra := pm_spectra m1 + of_nat (length frames),
               pm_unavailable := pm_unavailable m1 + of_nat (windows - length frames)\<rparr>, frames)"
proof -
  let ?gap = "packet_gap (ss_packet_count s) (en_packet_count e)"
  let ?s1 = "count_gap ?gap e (length ps) s"
  have s1: "stream_ok V cfg ?s1" "ss_metadata_valid ?s1" using s ps by (simp_all add: count_gap_ok)
  have i: "items_ok V (pending ?s1 @ missing_items V (ss_sample_rate_hz s) t0 (unat ?gap * ss_previous_pairs s) @ data_items V (packet_time e) ps)"
    using s by (simp add: items_ok_pending)
  show ?thesis
    using append_samples [OF ok s1 i, of "count_gap_metrics ?gap m"]
    unfolding consume_data_cases Let_def t0 sum.case append_pairs_Some efold_twice
    by (simp add: add.assoc)
qed

section \<open>Every datagram\<close>

definition reasons :: "processor_discards \<Rightarrow> u64" where
  "reasons d = pd_limits d + pd_invalid_envelope d + pd_invalid_context d + pd_invalid_data d +
     pd_invalid_samples d + pd_waiting_context d + pd_timestamp_range d"

definition metrics_ok :: "processor_metrics \<Rightarrow> bool" where
  "metrics_ok m \<longleftrightarrow> pm_malformed m = reasons (pm_discards m)"

text \<open>A frame the detector accepts, of the listener's stream.\<close>

definition frame_of :: "core_config \<Rightarrow> u32 \<Rightarrow> bytes \<Rightarrow> bool" where
  "frame_of cfg listener frame \<longleftrightarrow> (\<exists>sp. decode_spectrum frame = Inr sp \<and> sp_stream_id sp = listener \<and>
     sp_fft_size sp = pc_fft_size (cf_processing cfg))"

lemma reasons_count [simp]: "reasons (count_reason r d) = reasons d + 1"
  by (cases r) (simp_all add: reasons_def)

lemma metrics_ok_simps [simp, invs]:
  "metrics_ok m \<Longrightarrow> metrics_ok (discard r m)"
  "metrics_ok m \<Longrightarrow> metrics_ok (count_gap_metrics gap m)"
  "metrics_ok (m\<lparr>pm_spectra := a\<rparr>) = metrics_ok m"
  "metrics_ok (m\<lparr>pm_unavailable := b\<rparr>) = metrics_ok m"
  "metrics_ok (m\<lparr>pm_datagrams := b\<rparr>) = metrics_ok m"
  "metrics_ok (m\<lparr>pm_context_updates := b\<rparr>) = metrics_ok m"
  "metrics_ok (m\<lparr>pm_packet_gaps := b\<rparr>) = metrics_ok m"
  by (simp_all add: metrics_ok_def discard_def count_gap_metrics_def)

lemma datagrams_simps [simp]:
  "pm_datagrams (discard r m) = pm_datagrams m"
  "pm_datagrams (count_gap_metrics gap m) = pm_datagrams m"
  by (simp_all add: discard_def count_gap_metrics_def)

lemma power_spectrum_size: "power_spectrum A c xs ms = Inr sp \<Longrightarrow> sp_fft_size sp = pc_fft_size c"
  by (auto simp: power_spectrum_def Let_def require_spectrum_def ebind_eq_Inr split: prod.splits)

lemma window_frame_of: "window_frame V cfg listener s k w = Inr frame \<Longrightarrow> frame_of cfg listener frame"
  unfolding window_frame_def ebind_eq_Inr
  by (auto simp: frame_of_def tag_spectrum_def dest!: spectrum_codec.dec_enc power_spectrum_size)

text \<open>The result of handling a datagram: it returns, and keeps what the handler relies on.\<close>

definition safe :: "'c vita \<Rightarrow> core_config \<Rightarrow> u32 \<Rightarrow> processor_metrics \<Rightarrow> 'c appending result \<Rightarrow> bool" where
  "safe V cfg listener m r \<longleftrightarrow> (\<exists>s' m' out. r = Inr (s', m', out) \<and> stream_ok V cfg s' \<and>
     (metrics_ok m \<longrightarrow> metrics_ok m') \<and> pm_datagrams m' = pm_datagrams m \<and>
     pd_limits (pm_discards m') = pd_limits (pm_discards m) \<and>
     length out \<le> cf_queue_limit cfg \<and> (\<forall>frame \<in> set out. frame_of cfg listener frame))"

lemma limits_simps [simp]:
  "r \<noteq> Limits \<Longrightarrow> pd_limits (pm_discards (discard r m)) = pd_limits (pm_discards m)"
  "pd_limits (pm_discards (count_gap_metrics gap m)) = pd_limits (pm_discards m)"
  by (cases r) (simp_all add: discard_def count_gap_metrics_def)

lemma safe_discard [simp]: "r \<noteq> Limits \<Longrightarrow> stream_ok V cfg s \<Longrightarrow> safe V cfg listener m (Inr (s, discard r m, []))"
  by (simp add: safe_def)

lemma append_samples_safe:
  assumes ok: "arithmetic_ok V cfg" "profile_ok V" "1 \<le> listener" "listener \<le> 4"
    and s: "stream_ok V cfg s" "ss_metadata_valid s" and items: "items_ok V (pending s @ xs)"
  shows "safe V cfg listener m (efold (append_sample V cfg listener) (s, m, []) xs)"
proof -
  from append_samples [OF ok s items, of m] obtain frames where
    f: "emap (\<lambda>k. window_frame V cfg listener s k (window (fft_size_of cfg) k (pending s @ xs)))
        [0..<min (length (pending s @ xs) div fft_size_of cfg) (cf_queue_limit cfg)] = Inr frames"
    and r: "efold (append_sample V cfg listener) (s, m, []) xs = Inr (after cfg s xs,
          m\<lparr>pm_spectra := pm_spectra m + of_nat (length frames),
            pm_unavailable := pm_unavailable m + of_nat (length (pending s @ xs) div fft_size_of cfg - length frames)\<rparr>, frames)"
    by blast
  have "length frames \<le> cf_queue_limit cfg" using emap_length [OF f] by simp
  moreover have "\<forall>frame \<in> set frames. frame_of cfg listener frame"
    by (rule emap_all [OF f]) (rule window_frame_of)
  ultimately show ?thesis using after_ok [OF s items] by (simp add: safe_def r)
qed

lemma consume_data_safe:
  assumes ok: "arithmetic_ok V cfg" "profile_ok V" "1 \<le> listener" "listener \<le> 4"
    and s: "stream_ok V cfg s" "ss_metadata_valid s" and view: "length view \<le> fft_size_of cfg"
  shows "safe V cfg listener m (consume_data V cfg listener e view s m)"
proof -
  define gap where "gap = packet_gap (ss_packet_count s) (en_packet_count e)"
  define s1 where "s1 = count_gap gap e (length view) s"
  define m1 where "m1 = count_gap_metrics gap m"
  define start where "start = (if unat gap * ss_previous_pairs s \<noteq> 0
    then subtract_samples (packet_time e) (of_nat (unat gap * ss_previous_pairs s)) (ss_sample_rate_hz s) else Inr (packet_time e))"
  have s1: "stream_ok V cfg s1" "ss_metadata_valid s1" using s view by (simp_all add: s1_def count_gap_ok)
  have m1: "metrics_ok m \<longrightarrow> metrics_ok m1" "pm_datagrams m1 = pm_datagrams m"
    "pd_limits (pm_discards m1) = pd_limits (pm_discards m)" by (simp_all add: m1_def)
  have trans: "safe V cfg listener m1 r \<Longrightarrow> safe V cfg listener m r" for r
    using m1 by (auto simp: safe_def)
  have cases: "consume_data V cfg listener e view s m = (case start of
       Inl _ \<Rightarrow> Inr (s1, discard Timestamp_range m1, [])
     | Inr t0 \<Rightarrow> ebind (efold (append_sample V cfg listener) (s1, m1, [])
           (missing_items V (ss_sample_rate_hz s) t0 (unat gap * ss_previous_pairs s)))
         (\<lambda>st. append_pairs V cfg listener (packet_time e) st view))"
    unfolding consume_data_cases Let_def gap_def s1_def m1_def start_def by simp
  show ?thesis
  proof (cases start)
    case (Inl err)
    then show ?thesis using s1 by (intro trans) (simp add: cases)
  next
    case (Inr t0)
    let ?miss = "missing_items V (ss_sample_rate_hz s) t0 (unat gap * ss_previous_pairs s)"
    have items: "items_ok V (pending s1 @ ?miss @ data_items V (packet_time e) ps)" for ps
      using s1 by (simp add: items_ok_pending)
    note all = append_samples_safe [OF ok s1 items, of m1]
    show ?thesis
    proof (cases rule: view_cases [of view])
      case (1 ps)
      then have "consume_data V cfg listener e view s m =
          efold (append_sample V cfg listener) (s1, m1, []) (?miss @ data_items V (packet_time e) ps)"
        unfolding cases Inr by (simp add: append_pairs_Some efold_append)
      then show ?thesis using all by (intro trans) simp
    next
      case (2 ps rest)
      then have "consume_data V cfg listener e view s m =
          ebind (efold (append_sample V cfg listener) (s1, m1, []) (?miss @ data_items V (packet_time e) ps))
            (\<lambda>(s, m, out). Inr (s, discard Invalid_samples m, []))"
        unfolding cases Inr by (cases "efold (append_sample V cfg listener) (s1, m1, []) ?miss")
          (simp_all add: append_pairs_None efold_append)
      then show ?thesis using all [of ps] by (intro trans) (auto simp: safe_def)
    qed
  qed
qed

lemma context_settings_ok:
  assumes "context_settings V cfg packet = Some (center, rate)"
  shows "valid_config \<lparr>pc_sample_rate_hz = rate, pc_fft_size = pc_fft_size (cf_processing cfg), pc_overlap_samples = 0\<rparr> \<and>
    vt_minimum_center V \<le> center \<and> center \<le> vt_maximum_center V"
  using assms by (auto simp: context_settings_def Let_def split: if_splits option.splits)

lemma apply_context_ok:
  assumes s: "stream_ok V cfg s" and c: "context_settings V cfg packet = Some (center, rate)"
  shows "stream_ok V cfg (apply_context center rate e s)"
  using s context_settings_ok [OF c] by (auto simp: stream_ok_def apply_context_def Let_def)

lemma consume_stream_safe:
  assumes ok: "arithmetic_ok V cfg" "profile_ok V" "1 \<le> listener" "listener \<le> 4" and s: "stream_ok V cfg s"
  shows "safe V cfg listener m (consume_stream V cfg listener datagram s m)"
proof -
  have ctx: "safe V cfg listener m (Inr (apply_context center rate e s,
      m\<lparr>pm_context_updates := pm_context_updates m + 1\<rparr>, []))"
    if "context_settings V cfg packet = Some (center, rate)" for packet center rate e
    using apply_context_ok [OF s that] by (simp add: safe_def)
  have data: "safe V cfg listener m (consume_data V cfg listener e view s m)"
    if "ss_metadata_valid s" "\<not> length view > unat (pc_fft_size (cf_processing cfg))" for e view
    using consume_data_safe [OF ok s that(1)] that(2) by (simp add: fft_size_of_def)
  show ?thesis
    unfolding consume_stream_def Let_def
    using s ctx data by (auto split: option.splits)
qed

section \<open>The processor\<close>

definition processor_ok :: "'c vita \<Rightarrow> core_config \<Rightarrow> 'c processor_core \<Rightarrow> bool" where
  "processor_ok V cfg p \<longleftrightarrow> length (pr_streams p) = 4 \<and> (\<forall>s \<in> set (pr_streams p). stream_ok V cfg s) \<and>
     metrics_ok (pr_metrics p)"

lemma listener_index: "\<not> (listener < 1 \<or> listener > (4 :: u32)) \<Longrightarrow> unat (listener - 1) < 4"
  by unat_arith

lemma consume_returns:
  assumes ok: "arithmetic_ok V cfg" "profile_ok V" and p: "processor_ok V cfg p"
  shows "\<exists>p' out. consume V cfg listener datagram p = Inr (p', out) \<and> processor_ok V cfg p' \<and>
    length out \<le> cf_queue_limit cfg \<and> (\<forall>frame \<in> set out. frame_of cfg listener frame) \<and>
    pm_datagrams (pr_metrics p') = pm_datagrams (pr_metrics p) + 1 \<and>
    (1 \<le> listener \<and> listener \<le> 4 \<and> length datagram \<le> cf_receive_bytes cfg \<longrightarrow>
       pd_limits (pm_discards (pr_metrics p')) = pd_limits (pm_discards (pr_metrics p))) \<and>
    (\<forall>i < 4. of_nat (i + 1) \<noteq> listener \<longrightarrow> pr_streams p' ! i = pr_streams p ! i)"
proof (cases "listener < 1 \<or> listener > 4 \<or> length datagram > cf_receive_bytes cfg")
  case True
  then show ?thesis using p by (auto simp: consume_def Let_def processor_ok_def not_le not_less)
next
  case False
  let ?i = "unat (listener - 1)"
  let ?m = "(pr_metrics p)\<lparr>pm_datagrams := pm_datagrams (pr_metrics p) + 1\<rparr>"
  have i: "?i < 4" using False by (intro listener_index) blast
  have l: "1 \<le> listener" "listener \<le> 4" using False by (metis not_less)+
  have s: "stream_ok V cfg (pr_streams p ! ?i)" using p i by (auto simp: processor_ok_def)
  from consume_stream_safe [OF ok l s, of ?m datagram] obtain s' m' out where
    r: "consume_stream V cfg listener datagram (pr_streams p ! ?i) ?m = Inr (s', m', out)"
    and s': "stream_ok V cfg s'" "metrics_ok ?m \<longrightarrow> metrics_ok m'" "pm_datagrams m' = pm_datagrams (pr_metrics p) + 1"
      "pd_limits (pm_discards m') = pd_limits (pm_discards (pr_metrics p))"
      "length out \<le> cf_queue_limit cfg" "\<forall>frame \<in> set out. frame_of cfg listener frame"
    by (auto simp: safe_def)
  have other: "j \<noteq> ?i" if "of_nat (j + 1) \<noteq> listener" "j < 4" for j
  proof
    assume "j = ?i"
    then have "(of_nat j :: u32) = listener - 1" by simp
    with that(1) show False by simp
  qed
  have "consume V cfg listener datagram p = Inr (p\<lparr>pr_streams := (pr_streams p)[?i := s'], pr_metrics := m'\<rparr>, out)"
    using False by (simp add: consume_def Let_def r)
  moreover have "processor_ok V cfg (p\<lparr>pr_streams := (pr_streams p)[?i := s'], pr_metrics := m'\<rparr>)"
    using p s' set_update_subset_insert [of "pr_streams p" ?i s'] by (auto simp: processor_ok_def)
  moreover have "\<forall>i < 4. of_nat (i + 1) \<noteq> listener \<longrightarrow> (pr_streams p)[?i := s'] ! i = pr_streams p ! i"
    using other by (metis nth_list_update_neq)
  ultimately show ?thesis using s'
    by (intro exI [of _ "p\<lparr>pr_streams := (pr_streams p)[?i := s'], pr_metrics := m'\<rparr>"] exI [of _ out]) simp
qed

text \<open>A processor as a transition system over the datagrams its listeners receive.\<close>

definition processor_step :: "'c vita \<Rightarrow> core_config \<Rightarrow> 'c processor_core \<Rightarrow> u32 \<times> bytes \<Rightarrow> 'c processor_core" where
  "processor_step V cfg p event =
     (case consume V cfg (fst event) (snd event) p of Inr (p', _) \<Rightarrow> p' | Inl _ \<Rightarrow> p)"

definition processor_good :: "'c vita \<Rightarrow> core_config \<Rightarrow> 'c processor_core \<Rightarrow> bool" where
  "processor_good V cfg p \<longleftrightarrow> arithmetic_ok V cfg \<and> profile_ok V \<and> processor_ok V cfg p"

lemma step_good_processor: "processor_good V cfg p \<Longrightarrow> processor_good V cfg (processor_step V cfg p event)"
  using consume_returns [of V cfg p "fst event" "snd event"]
  by (auto simp: processor_good_def processor_step_def)

interpretation processor: transition_system "processor_step V cfg" "processor_good V cfg" for V cfg
  by unfold_locales (rule step_good_processor)

lemma new_processor_ok: "new_processor cfg = Inr p \<Longrightarrow> processor_ok V cfg p"
proof -
  assume p: "new_processor cfg = Inr p"
  then have "valid_config (cf_processing cfg)"
    by (simp add: new_processor_def validate_config_def require_spectrum_def ebind_eq_Inr)
  then have "0 < fft_size_of cfg"
    using config_size unfolding fft_size_of_def by (metis nat_0_less_mult_iff zero_less_numeral zero_less_power)
  then have s: "stream_ok V cfg new_stream"
    by (simp add: stream_ok_def new_stream_def)
  have "metrics_ok new_metrics" by (simp add: metrics_ok_def new_metrics_def reasons_def)
  with p s show ?thesis
    by (auto simp: new_processor_def processor_ok_def ebind_eq_Inr set_replicate_conv_if)
qed

text \<open>C2. Whatever datagrams arrived before, and whatever the next one is, on any listener: the handler
  returns (no exception of the transform, of the time arithmetic or of the encoder escapes), it
  outputs at most \<open>queue_limit\<close> frames, each of which the detector's decoder accepts as a record
  of this listener's stream and the configured size; the discard reasons always add up to the
  count of malformed datagrams; and the other streams are untouched.\<close>

theorem processor_total:
  assumes "arithmetic_ok V cfg" and "profile_ok V" and "new_processor cfg = Inr p\<^sub>0"
  shows "let p = foldl (processor_step V cfg) p\<^sub>0 events in
    pm_malformed (pr_metrics p) = reasons (pm_discards (pr_metrics p)) \<and>
    (\<exists>p' out. consume V cfg listener datagram p = Inr (p', out) \<and>
      length out \<le> cf_queue_limit cfg \<and>
      (\<forall>frame \<in> set out. \<exists>sp. decode_spectrum frame = Inr sp \<and> sp_stream_id sp = listener \<and>
        sp_fft_size sp = pc_fft_size (cf_processing cfg)) \<and>
      pm_datagrams (pr_metrics p') = pm_datagrams (pr_metrics p) + 1 \<and>
      (\<forall>i < 4. of_nat (i + 1) \<noteq> listener \<longrightarrow> pr_streams p' ! i = pr_streams p ! i))"
proof -
  define p where "p = foldl (processor_step V cfg) p\<^sub>0 events"
  have "processor_good V cfg p\<^sub>0" using assms new_processor_ok by (simp add: processor_good_def)
  then have "processor_good V cfg p" unfolding p_def by (rule processor.run_good)
  then have "processor_ok V cfg p" by (simp add: processor_good_def)
  then show ?thesis
    using consume_returns [OF assms(1,2), of p listener datagram]
    unfolding p_def [symmetric] by (auto simp: frame_of_def processor_ok_def metrics_ok_def Let_def)
qed

lemma after_simps [simp]:
  "ss_samples (after cfg s xs) = map fst (remains (fft_size_of cfg) (pending s @ xs))"
  "ss_missing (after cfg s xs) = map flag (remains (fft_size_of cfg) (pending s @ xs))"
  "ss_ordinal (after cfg s xs) = ss_ordinal s + of_nat (length xs)"
  "ss_sequence (after cfg s xs) = ss_sequence s + of_nat (length (pending s @ xs) div fft_size_of cfg)"
  "ss_sequence_gaps (after cfg s xs) = ss_sequence_gaps s"
  by (simp_all add: after_def Let_def)

lemma count_gap_counts [simp]:
  "ss_sequence_gaps (count_gap gap e k s) = ss_sequence_gaps s + ucast gap"
  "pm_packet_gaps (count_gap_metrics gap m) = pm_packet_gaps m + ucast gap"
  "pm_spectra (count_gap_metrics gap m) = pm_spectra m"
  "pm_unavailable (count_gap_metrics gap m) = pm_unavailable m"
  by (simp_all add: count_gap_def count_gap_metrics_def)

text \<open>C3. A data packet with readable samples, on a stream that has its settings: the unfinished window,
  one missing sample for every pair of every packet lost since the last one (modulo 16), and the
  packet's samples are cut into windows of the FFT size. The frames are the encodings of the
  first windows, up to the queue limit; the rest are counted unavailable; the samples left over
  are the new unfinished window; and the ordinal and the sequence advance by the samples and
  windows.\<close>

theorem data_packet_windows:
  assumes "arithmetic_ok V cfg" and "profile_ok V" and "1 \<le> listener" and "listener \<le> 4"
    and "stream_ok V cfg s" and "ss_metadata_valid s" and "length ps \<le> fft_size_of cfg"
    and "k = unat (packet_gap (ss_packet_count s) (en_packet_count e)) * ss_previous_pairs s"
    and "(if k \<noteq> 0 then subtract_samples (packet_time e) (of_nat k) (ss_sample_rate_hz s)
          else Inr (packet_time e)) = Inr t0"
  shows "let n = fft_size_of cfg;
        gap = packet_gap (ss_packet_count s) (en_packet_count e);
        s1 = count_gap gap e (length ps) s;
        xs = pending s @ missing_items V (ss_sample_rate_hz s) t0 k @ data_items V (packet_time e) ps;
        windows = length xs div n
      in \<exists>frames s' m'. consume_data V cfg listener e (map Some ps) s m = Inr (s', m', frames) \<and>
          emap (\<lambda>i. window_frame V cfg listener s1 i (window n i xs))
            [0..<min windows (cf_queue_limit cfg)] = Inr frames \<and>
          pm_spectra m' = pm_spectra m + of_nat (length frames) \<and>
          pm_unavailable m' = pm_unavailable m + of_nat (windows - length frames) \<and>
          pm_packet_gaps m' = pm_packet_gaps m + ucast gap \<and>
          ss_sequence_gaps s' = ss_sequence_gaps s + ucast gap \<and>
          ss_samples s' = map fst (remains n xs) \<and> ss_missing s' = map flag (remains n xs) \<and>
          ss_ordinal s' = ss_ordinal s + of_nat (k + length ps) \<and>
          ss_sequence s' = ss_sequence s + of_nat windows"
  using consume_data_windows [OF assms(1-7) assms(9) [unfolded assms(8)], of m]
  unfolding assms(8) [symmetric] Let_def
  by (elim exE conjE) (simp add: after_simps missing_items_def data_items_def)

section \<open>What a frame carries\<close>

lemma power_spectrum_fields:
  assumes "power_spectrum A c xs ms = Inr sp"
  shows "sp_sample_rate_hz sp = pc_sample_rate_hz c \<and> sp_fft_size sp = pc_fft_size c \<and>
    missing_count sp = of_nat (length (filter (\<lambda>m. m \<noteq> 0) ms))"
proof -
  note ok = power_spectrum_ok [OF assms]
  with power_spectrum_Inr [of c "unat (pc_fft_size c)" xs ms A] assms show ?thesis
    by (auto simp: missing_count_card intro!: arg_cong [where f = of_nat] filter_gaps)
qed

lemma missing_count_cong: "sp_fft_size a = sp_fft_size b \<Longrightarrow> sp_gaps a = sp_gaps b \<Longrightarrow> missing_count a = missing_count b"
  by (simp add: missing_count_def)

text \<open>C34. The frame of window \<open>k\<close> decodes to a record with the listener's stream identifier, the stream's
  settings and epoch, sequence number \<open>k\<close> after the stream's, the ordinal of the window's first
  sample, the begin time of its first sample and an end one FFT size later, and as missing
  count the number of missing samples in the window.\<close>

theorem window_frame_contents:
  assumes "window_frame V cfg listener s k w = Inr frame"
  shows "\<exists>sp. decode_spectrum frame = Inr sp \<and>
    sp_stream_id sp = listener \<and> sp_center_hz sp = ss_center_hz s \<and>
    sp_sample_rate_hz sp = ss_sample_rate_hz s \<and> sp_epoch sp = ss_epoch s \<and>
    sp_sequence sp = ss_sequence s + of_nat k \<and>
    sp_ordinal sp = ss_ordinal s - of_nat (length (ss_samples s)) + of_nat (k * fft_size_of cfg) \<and>
    sp_begin sp = begins (hd w) \<and>
    sp_end sp = add_samples (begins (hd w)) (ucast (pc_fft_size (cf_processing cfg))) (ss_sample_rate_hz s) \<and>
    sp_discontinuities sp = ss_discontinuities s \<and> sp_sequence_gaps sp = ss_sequence_gaps s \<and>
    missing_count sp = of_nat (length (filter (\<lambda>x. fst (snd x)) w))"
proof -
  let ?s = "s\<lparr>ss_sequence := ss_sequence s + of_nat k, ss_window_begin := begins (hd w),
             ss_window_ordinal := first_ordinal s + of_nat (k * fft_size_of cfg)\<rparr>"
  from assms obtain sp where sp: "power_spectrum (vt_arithmetic V)
        \<lparr>pc_sample_rate_hz = ss_sample_rate_hz s, pc_fft_size = pc_fft_size (cf_processing cfg),
         pc_overlap_samples = 0\<rparr> (map fst w) (map flag w) = Inr sp"
    and e: "encode_spectrum (tag_spectrum cfg listener ?s sp) = Inr frame"
    by (auto simp: window_frame_def ebind_eq_Inr)
  have d: "decode_spectrum frame = Inr (tag_spectrum cfg listener ?s sp)"
    by (rule spectrum_codec.dec_enc [OF e])
  have "missing_count (tag_spectrum cfg listener ?s sp) = missing_count sp"
    by (rule missing_count_cong) (simp_all add: tag_spectrum_def)
  also have "\<dots> = of_nat (length (filter (\<lambda>x. fst (snd x)) w))"
  proof -
    have "(\<lambda>x. flag x \<noteq> 0) = (\<lambda>x :: 'a item. fst (snd x))" by (simp add: flag_def fun_eq_iff)
    then show ?thesis using power_spectrum_fields [OF sp] by (simp add: filter_map o_def)
  qed
  finally show ?thesis
    using power_spectrum_fields [OF sp] d
    by (intro exI [of _ "tag_spectrum cfg listener ?s sp"]) (simp add: tag_spectrum_def first_ordinal_def)
qed

text \<open>A window that opens in the middle of a packet is given the time of the packet, not of its own
  first sample: where the packet completes the unfinished window of \<open>r\<close> samples and leaves
  samples over, the next window begins, by its begin time, \<open>fft_size - r\<close> samples too early.\<close>

lemma mid_packet_window_begin:
  assumes "arithmetic_ok V cfg" and "profile_ok V" and "1 \<le> listener" and "listener \<le> 4"
    and "stream_ok V cfg s" and "ss_metadata_valid s" and "length ps \<le> fft_size_of cfg"
    and "packet_gap (ss_packet_count s) (en_packet_count e) = 0"
    and "fft_size_of cfg < length (ss_samples s) + length ps"
  shows "\<exists>frames s' m'. consume_data V cfg listener e (map Some ps) s m = Inr (s', m', frames) \<and>
     ss_samples s' = map (vt_sample V) (drop (fft_size_of cfg - length (ss_samples s)) ps) \<and>
     ss_window_begin s' = packet_time e"
proof -
  let ?n = "fft_size_of cfg" and ?r = "length (ss_samples s)"
  let ?s1 = "count_gap 0 e (length ps) s" and ?xs = "data_items V (packet_time e) ps"
  let ?items = "pending s @ ?xs"
  have m: "length (ss_missing s) = ?r" and r: "?r < ?n" using assms(5) by (simp_all add: stream_ok_def)
  have len: "length ?items = ?r + length ps" using m by (simp add: data_items_def)
  have W: "length ?items div ?n = 1"
    unfolding len using assms(7,9) r by (intro div_nat_eqI) simp_all
  have W': "(length ?items - 1) div ?n = 1"
    unfolding len using assms(7,9) r by (intro div_nat_eqI) simp_all
  have rest: "remains ?n ?items = data_items V (packet_time e) (drop (?n - ?r) ps)"
    unfolding remains_def W using m r by (simp add: data_items_def drop_map)
  have "?items ! ?n = ?xs ! (?n - ?r)" using m r by (simp add: nth_append)
  also have "begins \<dots> = packet_time e"
  proof -
    have "?n - ?r < length ps" using assms(9) r by linarith
    then show ?thesis by (simp add: data_items_def begins_def)
  qed
  finally have b: "begins (?items ! ?n) = packet_time e" .
  have ne: "?items \<noteq> []" using assms(9) r by (auto simp: data_items_def)
  have samples: "ss_samples (after cfg ?s1 ?xs) = map (vt_sample V) (drop (?n - ?r) ps)"
    by (simp add: rest) (simp add: data_items_def)
  moreover have "ss_window_begin (after cfg ?s1 ?xs) = packet_time e"
    by (simp add: after_def Let_def ne W' [unfolded One_nat_def] b del: append_is_Nil_conv length_append)
  ultimately show ?thesis
    using consume_data_windows [OF assms(1-7), of e "packet_time e" m] assms(8)
    by (auto simp: Let_def missing_items_def)
qed

text \<open>A context packet that changes the center or the rate of a stream with an unfinished window
  drops the window and counts a discontinuity; one that repeats them keeps the window. Either
  way the stream then has the packet's settings.\<close>

lemma context_change_drops_window:
  "(let s' = apply_context center rate e s; changed = (ss_center_hz s \<noteq> center \<or> ss_sample_rate_hz s \<noteq> rate) in
     ss_samples s' = (if changed then [] else ss_samples s) \<and>
     ss_discontinuities s' = ss_discontinuities s + (if changed \<and> ss_samples s \<noteq> [] then 1 else 0) \<and>
     ss_ordinal s' = ss_ordinal s \<and> ss_sequence s' = ss_sequence s \<and> ss_packet_count s' = ss_packet_count s \<and>
     ss_center_hz s' = center \<and> ss_sample_rate_hz s' = rate \<and> ss_metadata_valid s')"
  by (simp add: apply_context_def Let_def)

text \<open>The gap of two packet counts is the number of packets lost between them: from the previous
  count, one step for this packet and the gap lead, modulo 16, to this count.\<close>

lemma packet_gap_counts_lost:
  assumes "p < 16" and "c < 16"
  shows "unat (packet_gap (Some p) c) < 16 \<and> (unat p + 1 + unat (packet_gap (Some p) c)) mod 16 = unat c"
proof -
  have mask: "(15 :: u8) = mask 4" by (simp add: mask_eq_exp_minus_1)
  have m: "unat ((x :: u8) AND 15) = unat x mod 16" for x
    unfolding mask take_bit_eq_mask [symmetric] by (simp add: unsigned_take_bit_eq take_bit_eq_mod unat_mod_distrib)
  define q where "q = (p + 1) AND 15"
  have p: "unat p < 16" using assms(1) by (simp add: word_less_nat_alt)
  then have q: "unat q = (unat p + 1) mod 16"
    by (simp add: q_def m unat_word_ariths)
  have "unat (c - q + q) = (unat (c - q) + unat q) mod 2 ^ LENGTH(8)" by (simp only: unat_word_ariths)
  then have "unat c mod 16 = (unat (c - q) + unat q) mod 16"
    by (simp add: mod_mod_cancel)
  moreover have "unat c mod 16 = unat c" using assms(2) by (simp add: word_less_nat_alt)
  moreover have "packet_gap (Some p) c = (c - q) AND 15" by (simp add: packet_gap_def q_def Let_def)
  moreover have "(unat p + 1 + unat (c - q) mod 16) mod 16 = (unat (c - q) + (unat p + 1) mod 16) mod 16"
    unfolding mod_add_right_eq by (simp only: add.commute)
  ultimately show ?thesis by (simp only: m q) simp
qed

section \<open>An example codec and its packets\<close>

text \<open>A codec in which the first byte of a datagram is the stream identifier and the second the count.\<close>

definition example_envelope :: "u8 \<Rightarrow> envelope" where
  "example_envelope count =
     \<lparr>en_type = Pt_signal, en_stream_id = Some 1, en_class_id = Some (0x12AB34, 0, 0), en_tsi = Tsi_utc,
      en_tsf = Tsf_picoseconds, en_integer = 100, en_fractional = 0, en_trailer = True, en_packet_count = count\<rparr>"

definition example_vita :: "complex vita" where
  "example_vita =
     \<lparr>vt_decode_envelope = (\<lambda>d. case d of
          sid # count # payload \<Rightarrow> Some \<lparr>we_envelope = (example_envelope count)\<lparr>en_stream_id := Some (ucast sid)\<rparr>,
            we_trailer = Some 0x00c00000, we_payload = payload\<rparr>
        | _ \<Rightarrow> None),
      vt_decode_packet = (\<lambda>_. None),
      vt_sample_view = (\<lambda>payload. Some (map (\<lambda>b. Some (sint b, 0)) payload)),
      vt_sdr_oui = 0x12AB34, vt_minimum_center = 1000000, vt_maximum_center = 6000000000,
      vt_reference_frequency = 1, vt_sample_rate = 2, vt_bandwidth = 3, vt_gain = 4,
      vt_sample = (\<lambda>(i, q). Complex (of_int i / 32768) (of_int q / 32768)),
      vt_arithmetic = exact round_example\<rparr>"

definition example_core :: core_config where
  "example_core = \<lparr>cf_processing = tone_config, cf_receive_bytes = 1500, cf_queue_limit = 4\<rparr>"

definition example_stream :: "complex stream_state" where
  "example_stream = new_stream\<lparr>ss_center_hz := 100000000, ss_sample_rate_hz := 1000000, ss_metadata_valid := True,
     ss_packet_count := Some 15, ss_previous_pairs := 10\<rparr>"

lemma example_size [simp]: "fft_size_of example_core = 64" "pc_fft_size (cf_processing example_core) = 64"
  by (simp_all add: fft_size_of_def example_core_def)

lemma example_limit [simp]: "cf_queue_limit example_core = 4"
  by (simp add: example_core_def)

lemma example_stream_simps [simp]:
  "ss_ordinal example_stream = 0" "ss_sequence example_stream = 0" "ss_sequence_gaps example_stream = 0"
  "ss_samples example_stream = []" "ss_metadata_valid example_stream"
  by (simp_all add: example_stream_def new_stream_def)

lemma new_metrics_simps [simp]:
  "pm_spectra new_metrics = 0" "pm_unavailable new_metrics = 0" "pm_packet_gaps new_metrics = 0"
  by (simp_all add: new_metrics_def)

lemma example_arithmetic: "arithmetic_ok example_vita example_core"
  by (auto simp: arithmetic_ok_def example_vita_def exact_def round_example_def f32_isfinite_def f32_nonneg_def
      f32_key_def f32_magnitude_def)

lemma example_profile: "profile_ok example_vita"
  by (simp add: profile_ok_def example_vita_def)

lemma example_config_valid: "valid_config \<lparr>pc_sample_rate_hz = 1000000, pc_fft_size = 64, pc_overlap_samples = 0\<rparr>"
  unfolding valid_config_def valid_sizes_32 by simp

lemma example_stream_ok: "stream_ok example_vita example_core example_stream"
  using example_config_valid
  by (simp add: stream_ok_def example_stream_def new_stream_def) (simp add: example_vita_def)

theorem processor_total_witness:
  "\<exists>p' out. consume example_vita example_core 1 [1, 0, 5]
     (foldl (processor_step example_vita example_core)
       \<lparr>pr_streams = replicate 4 new_stream, pr_metrics = new_metrics\<rparr> [(2, [2, 3, 4]), (7, [])]) = Inr (p', out) \<and> length out \<le> 4"
proof -
  have "new_processor example_core = Inr \<lparr>pr_streams = replicate 4 new_stream, pr_metrics = new_metrics\<rparr>"
    by (simp add: new_processor_def validate_config_def require_spectrum_def example_core_def)
  from processor_total [OF example_arithmetic example_profile this, of "[(2, [2, 3, 4]), (7, [])]" 1 "[1, 0, 5]"]
  show ?thesis by (auto simp: Let_def example_core_def)
qed

lemma pending_example [simp]: "pending example_stream = []"
  by (simp add: pending_def example_stream_def new_stream_def)

text \<open>Three packets of ten pairs were lost before this packet of forty: seventy samples, one window.\<close>

theorem data_packet_windows_witness:
  "\<exists>frames s' m'. consume_data example_vita example_core 1 (example_envelope 3) (map Some (replicate 40 (1, 2)))
       example_stream new_metrics = Inr (s', m', frames) \<and> length frames = 1 \<and>
     pm_spectra m' = 1 \<and> pm_packet_gaps m' = 3 \<and> length (ss_samples s') = 6 \<and> ss_ordinal s' = 70"
proof -
  let ?e = "example_envelope 3"
  have gap: "packet_gap (ss_packet_count example_stream) (en_packet_count ?e) = 3"
    by (simp add: packet_gap_def example_stream_def example_envelope_def Let_def)
  have k: "30 = unat (packet_gap (ss_packet_count example_stream) (en_packet_count ?e)) * ss_previous_pairs example_stream"
    by (simp add: gap) (simp add: example_stream_def)
  have t0: "(if (30 :: nat) \<noteq> 0 then subtract_samples (packet_time ?e) (of_nat 30) (ss_sample_rate_hz example_stream)
      else Inr (packet_time ?e)) = Inr (ProtocolTime 99 999970000000)"
    by (simp add: packet_time_def example_envelope_def example_stream_def subtract_samples_def
        picoseconds_per_second_def Let_def ensure_def)
  have m: "ss_metadata_valid example_stream" "length (replicate 40 (1 :: int, 2 :: int)) \<le> fft_size_of example_core"
    by (simp_all add: example_stream_def)
  have l: "(1 :: u32) \<le> 1" "(1 :: u32) \<le> 4" by simp_all
  show ?thesis
    by (insert data_packet_windows [OF example_arithmetic example_profile l example_stream_ok m k t0, of new_metrics],
        unfold Let_def gap, elim exE conjE, frule emap_length, intro exI conjI, assumption)
      (simp_all add: missing_items_def data_items_def)
qed

theorem window_frame_contents_witness:
  "\<exists>frame sp. window_frame example_vita example_core 1 example_stream 3
       (data_items example_vita (ProtocolTime 100 0) (replicate 64 (1, 2))) = Inr frame \<and>
     decode_spectrum frame = Inr sp \<and> sp_stream_id sp = 1 \<and> sp_sequence sp = 3 \<and> sp_ordinal sp = 192 \<and>
     sp_begin sp = ProtocolTime 100 0 \<and> missing_count sp = 0"
proof -
  let ?w = "data_items example_vita (ProtocolTime 100 0) (replicate 64 (1, 2))"
  have l: "(1 :: u32) \<le> 1" "(1 :: u32) \<le> 4" by simp_all
  have w: "length ?w = fft_size_of example_core" by (simp add: data_items_def)
  from encodable [OF example_arithmetic example_profile l example_stream_ok _ w] obtain sp where
    "power_spectrum (vt_arithmetic example_vita)
        \<lparr>pc_sample_rate_hz = ss_sample_rate_hz example_stream, pc_fft_size = pc_fft_size (cf_processing example_core),
         pc_overlap_samples = 0\<rparr> (map fst ?w) (map flag ?w) = Inr sp"
    and "\<And>q b wo. valid_spectrum (tag_spectrum example_core 1
          (example_stream\<lparr>ss_sequence := q, ss_window_begin := b, ss_window_ordinal := wo\<rparr>) sp)"
    by auto
  then obtain frame where f: "window_frame example_vita example_core 1 example_stream 3 ?w = Inr frame"
    using encode_eq by (auto simp: window_frame_def)
  from window_frame_contents [OF f] f show ?thesis
    by (auto simp: data_items_def begins_def)
qed

end
