(* ===== verification/DetectorCore.thy ===== *)
theory DetectorCore
  imports ProcessorCore
begin

text \<open>
  The detector's datagram handler (\<open>DetectorCore\<close> in \<open>apps/udp_pipeline.hpp\<close> and
  \<open>apps/udp_pipeline.cpp\<close>): it decodes a spectrum record, follows the sequence
  numbers of the four streams and reports the frequency of the strongest bin.
\<close>

section \<open>State and operations\<close>

text \<open>\<open>DetectorCore\<close>: the record is decoded, its sequence checked and its frequency estimated.\<close>

record detector_metrics =
  dm_datagrams :: u64
  dm_detections :: u64
  dm_malformed :: u64
  dm_sequence_gaps :: u64
  dm_gapped :: u64
  dm_zero :: u64
  dm_unavailable :: u64

record detector_core =
  dt_fft_size :: u32
  dt_receive_bytes :: nat
  dt_metrics :: detector_metrics
  dt_seen :: "bool list"
  dt_sequences :: "u32 option list"

datatype validity = Valid | Gapped | Zero | Unavailable

record detection =
  dn_stream_id :: u32
  dn_observation_time :: protocol_time
  dn_frequency_hz :: "rat option"
  dn_validity :: validity

definition malformed_datagram :: "detector_core \<Rightarrow> detector_core" where
  "malformed_datagram d = d\<lparr>dt_metrics := (dt_metrics d)\<lparr>dm_malformed := dm_malformed (dt_metrics d) + 1\<rparr>\<rparr>"

text \<open>The part of the \<open>try\<close> block after the checks; the exception of \<open>detect_frequency\<close> is caught.\<close>

definition detect :: "detector_core \<Rightarrow> spectrum \<Rightarrow> detector_core \<times> detection option" where
  "detect d sp =
    (let i = unat (sp_stream_id sp - 1);
         gap = (case dt_sequences d ! i of None \<Rightarrow> False | Some previous \<Rightarrow> sp_sequence sp \<noteq> previous + 1);
         d = (if gap then d\<lparr>dt_metrics := (dt_metrics d)\<lparr>dm_sequence_gaps := dm_sequence_gaps (dt_metrics d) + 1\<rparr>\<rparr> else d);
         d = d\<lparr>dt_sequences := (dt_sequences d)[i := Some (sp_sequence sp)], dt_seen := (dt_seen d)[i := True]\<rparr>
     in case detect_frequency sp of
          Inl _ \<Rightarrow> (malformed_datagram d, None)
        | Inr frequency \<Rightarrow>
            let m = dt_metrics d;
                (m, validity) =
                  (if \<exists>value \<in> set (sp_gaps sp). value \<noteq> 0 then (m\<lparr>dm_gapped := dm_gapped m + 1\<rparr>, Gapped)
                   else if frequency = None then (m\<lparr>dm_zero := dm_zero m + 1\<rparr>, Zero)
                   else (m\<lparr>dm_detections := dm_detections m + 1\<rparr>, Valid))
            in (d\<lparr>dt_metrics := m\<rparr>, Some \<lparr>dn_stream_id = sp_stream_id sp, dn_observation_time = sp_begin sp,
                  dn_frequency_hz = frequency, dn_validity = validity\<rparr>))"

definition detector_consume :: "detector_core \<Rightarrow> bytes \<Rightarrow> detector_core \<times> detection option" where
  "detector_consume d datagram =
    (let d = d\<lparr>dt_metrics := (dt_metrics d)\<lparr>dm_datagrams := dm_datagrams (dt_metrics d) + 1\<rparr>\<rparr> in
     if length datagram > dt_receive_bytes d then (malformed_datagram d, None)
     else case decode_spectrum datagram of
            Inl _ \<Rightarrow> (malformed_datagram d, None)
          | Inr sp \<Rightarrow>
              if sp_fft_size sp \<noteq> dt_fft_size d then (malformed_datagram d, None)
              else if sp_stream_id sp < 1 \<or> unat (sp_stream_id sp) > length (dt_sequences d) then (malformed_datagram d, None)
              else detect d sp)"

definition detector_finish :: "detector_core \<Rightarrow> detector_core" where
  "detector_finish d = d\<lparr>dt_metrics := (dt_metrics d)\<lparr>dm_unavailable :=
     dm_unavailable (dt_metrics d) + of_nat (length (filter (\<lambda>seen. \<not> seen) (dt_seen d)))\<rparr>\<rparr>"

definition note_unavailable :: "detector_core \<Rightarrow> detector_core" where
  "note_unavailable d = d\<lparr>dt_metrics := (dt_metrics d)\<lparr>dm_unavailable := dm_unavailable (dt_metrics d) + 1\<rparr>\<rparr>"

definition new_detector :: "u32 \<Rightarrow> nat \<Rightarrow> detector_core" where
  "new_detector fft_size receive_bytes =
     \<lparr>dt_fft_size = fft_size, dt_receive_bytes = receive_bytes,
      dt_metrics = \<lparr>dm_datagrams = 0, dm_detections = 0, dm_malformed = 0, dm_sequence_gaps = 0, dm_gapped = 0,
        dm_zero = 0, dm_unavailable = 0\<rparr>,
      dt_seen = replicate 4 False, dt_sequences = replicate 4 None\<rparr>"

text \<open>Every datagram is counted under exactly one outcome.\<close>

definition detector_ok :: "detector_core \<Rightarrow> bool" where
  "detector_ok d \<longleftrightarrow> length (dt_sequences d) = 4 \<and> length (dt_seen d) = 4 \<and>
     (\<forall>i < 4. dt_seen d ! i \<longleftrightarrow> dt_sequences d ! i \<noteq> None) \<and>
     dm_datagrams (dt_metrics d) = dm_detections (dt_metrics d) + dm_malformed (dt_metrics d) +
       dm_gapped (dt_metrics d) + dm_zero (dt_metrics d)"

lemma malformed_datagram_metrics [simp]:
  "dt_sequences (malformed_datagram d) = dt_sequences d" "dt_seen (malformed_datagram d) = dt_seen d"
  "dm_malformed (dt_metrics (malformed_datagram d)) = dm_malformed (dt_metrics d) + 1"
  "dm_datagrams (dt_metrics (malformed_datagram d)) = dm_datagrams (dt_metrics d)"
  "dm_detections (dt_metrics (malformed_datagram d)) = dm_detections (dt_metrics d)"
  "dm_gapped (dt_metrics (malformed_datagram d)) = dm_gapped (dt_metrics d)"
  "dm_zero (dt_metrics (malformed_datagram d)) = dm_zero (dt_metrics d)"
  "dm_sequence_gaps (dt_metrics (malformed_datagram d)) = dm_sequence_gaps (dt_metrics d)"
  by (simp_all add: malformed_datagram_def)

lemma seen_update:
  assumes "detector_ok d" and "i < 4"
  shows "(dt_seen d)[j := True] ! i \<longleftrightarrow> (\<exists>y. (dt_sequences d)[j := Some q] ! i = Some y)"
  using assms by (cases "j < 4") (auto simp: detector_ok_def nth_list_update list_update_beyond)

lemma detector_consume_ok:
  assumes d: "detector_ok d"
  shows "detector_ok (fst (detector_consume d datagram))"
proof -
  let ?d = "d\<lparr>dt_metrics := (dt_metrics d)\<lparr>dm_datagrams := dm_datagrams (dt_metrics d) + 1\<rparr>\<rparr>"
  have bad: "detector_ok (malformed_datagram ?d)"
    using d by (simp add: detector_ok_def)
  have good: "detector_ok (fst (detect ?d sp))" for sp
    using d seen_update [OF d]
    by (auto simp: detector_ok_def detect_def Let_def split: sum.splits option.splits)
  show ?thesis
    unfolding detector_consume_def Let_def using bad good by (auto split: sum.splits)
qed

interpretation detector: transition_system "\<lambda>d datagram. fst (detector_consume d datagram)" detector_ok
  by unfold_locales (rule detector_consume_ok)

lemma new_detector_ok: "detector_ok (new_detector n k)"
  by (auto simp: detector_ok_def new_detector_def)

text \<open>Every datagram the detector receives is counted under exactly one of detections, malformed, gapped
  and zero, and finishing counts as unavailable each of the four streams no record of which
  arrived.\<close>

lemma detector_accounting:
  "let d = foldl (\<lambda>d datagram. fst (detector_consume d datagram)) (new_detector n k) datagrams in
     dm_datagrams (dt_metrics d) = dm_detections (dt_metrics d) + dm_malformed (dt_metrics d) +
       dm_gapped (dt_metrics d) + dm_zero (dt_metrics d) \<and>
     dm_unavailable (dt_metrics (detector_finish d)) = dm_unavailable (dt_metrics d) +
       of_nat (card {i. i < 4 \<and> dt_sequences d ! i = None})"
proof -
  define d where "d = foldl (\<lambda>d datagram. fst (detector_consume d datagram)) (new_detector n k) datagrams"
  have ok: "detector_ok d" unfolding d_def by (rule detector.run_good) (rule new_detector_ok)
  have "length (filter (\<lambda>seen. \<not> seen) (dt_seen d)) = card {i. i < length (dt_seen d) \<and> \<not> dt_seen d ! i}"
    by (rule length_filter_conv_card)
  also have "{i. i < length (dt_seen d) \<and> \<not> dt_seen d ! i} = {i. i < 4 \<and> dt_sequences d ! i = None}"
    using ok by (auto simp: detector_ok_def)
  finally show ?thesis
    unfolding d_def [symmetric] Let_def using ok by (simp add: detector_ok_def detector_finish_def)
qed

lemma gaps_nonzero:
  assumes v: "valid_spectrum sp"
  shows "(\<exists>value \<in> set (sp_gaps sp). value \<noteq> 0) \<longleftrightarrow> missing_count sp \<noteq> 0"
proof -
  let ?n = "unat (sp_fft_size sp)"
  have n: "?n \<in> {64, 128, 256, 512, 1024, 2048}" by (rule wire_length_cases(1) [OF v])
  then obtain k where k: "?n = 8 * k" by auto
  have g: "length (sp_gaps sp) = k" using v k by (simp add: valid_spectrum_def unat_div_distrib)
  have "length (filter (gap_bit (sp_gaps sp)) [0..<?n]) \<le> ?n"
    using length_filter_le [of "gap_bit (sp_gaps sp)" "[0..<?n]"] by simp
  then have "length (filter (gap_bit (sp_gaps sp)) [0..<?n]) < 2 ^ 64" using n by auto
  then have "missing_count sp \<noteq> 0 \<longleftrightarrow> length (filter (gap_bit (sp_gaps sp)) [0..<?n]) \<noteq> 0"
    unfolding missing_count_card by (simp only: of_nat_u64_eq_0)
  also have "\<dots> \<longleftrightarrow> (\<exists>i < ?n. gap_bit (sp_gaps sp) i)"
    by (auto simp: filter_empty_conv)
  also have "\<dots> \<longleftrightarrow> (\<exists>value \<in> set (sp_gaps sp). value \<noteq> 0)"
  proof
    assume "\<exists>i < ?n. gap_bit (sp_gaps sp) i"
    then obtain i where i: "i < ?n" "gap_bit (sp_gaps sp) i" by blast
    then have "sp_gaps sp ! (i div 8) \<noteq> 0" by (auto simp: gap_bit_def)
    moreover have "i div 8 < k" using i k by (simp add: less_mult_imp_div_less mult.commute)
    ultimately show "\<exists>value \<in> set (sp_gaps sp). value \<noteq> 0" using g by (metis nth_mem)
  next
    assume "\<exists>value \<in> set (sp_gaps sp). value \<noteq> 0"
    then obtain j where j: "j < k" "sp_gaps sp ! j \<noteq> 0" by (auto simp: in_set_conv_nth g)
    then obtain m where m: "bit (sp_gaps sp ! j) m" using bit_eqI by (metis bit_0_eq bot_apply bot_bool_def)
    then have "m < LENGTH(8)" by (rule bit_imp_le_length)
    then obtain r where r: "r < 8" "m = 7 - r" by (intro that [of "7 - m"]) simp_all
    then have "gap_bit (sp_gaps sp) (8 * j + r)" using m by (simp add: gap_bit_def)
    moreover have "8 * j + r < ?n" using j k r by simp
    ultimately show "\<exists>i < ?n. gap_bit (sp_gaps sp) i" by blast
  qed
  finally show ?thesis by simp
qed

lemma no_power:
  assumes v: "valid_spectrum sp" and m: "missing_count sp = 0" and f: "detect_frequency sp = Inr f"
  shows "f = None \<longleftrightarrow> (\<forall>power \<in> set (sp_power sp). f32_is_zero power)"
proof -
  let ?p = "sp_power sp"
  have "unat (sp_fft_size sp) \<noteq> 0" using wire_length_cases(1) [OF v] by auto
  then have ne: "?p \<noteq> []" using v by (auto simp: valid_spectrum_def)
  note top = max_element_greatest [OF ne]
  have pos: "0 \<le> f32_key power" if "power \<in> set ?p" for power
    using v that by (simp add: valid_spectrum_def f32_nonneg_def)
  have "f = None \<longleftrightarrow> f32_is_zero (?p ! max_element ?p)"
    using f v m top(1) by (auto simp: detect_frequency_def validate_spectrum_def require_spectrum_def Let_def split: if_splits)
  also have "\<dots> \<longleftrightarrow> (\<forall>power \<in> set ?p. f32_is_zero power)"
  proof
    assume z: "f32_is_zero (?p ! max_element ?p)"
    show "\<forall>power \<in> set ?p. f32_is_zero power"
    proof
      fix power assume "power \<in> set ?p"
      then obtain i where "i < length ?p" "power = ?p ! i" by (auto simp: in_set_conv_nth)
      then show "f32_is_zero power" using top(2) [of i] pos [of power] z by (simp add: f32_zero_key)
    qed
  qed (use top(1) in simp)
  finally show ?thesis .
qed

text \<open>C25. A detection is reported exactly for a datagram within the receive limit that decodes to a record of the
  configured size and of a stream the detector follows, and is of that stream and that record's begin. It is gapped
  exactly when a sample is missing, zero exactly when no sample is missing and no bin has power, and valid
  in every other case; and it carries a frequency, the estimate for the record, exactly when it is valid.\<close>

theorem detection_validity:
  "(case snd (detector_consume d datagram) of
      None \<Rightarrow> \<forall>sp. decode_spectrum datagram = Inr sp \<longrightarrow> length datagram > dt_receive_bytes d \<or>
        sp_fft_size sp \<noteq> dt_fft_size d \<or> unat (sp_stream_id sp) > length (dt_sequences d)
    | Some r \<Rightarrow> \<exists>sp. decode_spectrum datagram = Inr sp \<and> length datagram \<le> dt_receive_bytes d \<and>
        sp_fft_size sp = dt_fft_size d \<and> 1 \<le> sp_stream_id sp \<and> unat (sp_stream_id sp) \<le> length (dt_sequences d) \<and>
        dn_stream_id r = sp_stream_id sp \<and> dn_observation_time r = sp_begin sp \<and>
        dn_validity r = (if missing_count sp \<noteq> 0 then Gapped
          else if \<forall>power \<in> set (sp_power sp). f32_is_zero power then Zero else Valid) \<and>
        (dn_frequency_hz r \<noteq> None \<longleftrightarrow> dn_validity r = Valid) \<and> detect_frequency sp = Inr (dn_frequency_hz r))"
proof (cases "decode_spectrum datagram")
  case (Inl e)
  then show ?thesis by (simp add: detector_consume_def Let_def)
next
  case (Inr sp)
  have v: "valid_spectrum sp" by (rule decode_valid [OF Inr])
  then have one: "1 \<le> sp_stream_id sp" by (simp add: valid_spectrum_def)
  then have id: "\<not> sp_stream_id sp < 1" by (simp only: not_less)
  obtain f where f: "detect_frequency sp = Inr f"
  proof (cases "detect_frequency sp")
    case (Inl e)
    with v show ?thesis
      by (simp add: detect_frequency_def validate_spectrum_def require_spectrum_def Let_def split: if_splits)
  qed
  have none: "f = None" if "missing_count sp \<noteq> 0"
    using f v that by (simp add: detect_frequency_def validate_spectrum_def require_spectrum_def)
  show ?thesis
    using Inr id one f none gaps_nonzero [OF v] no_power [OF v _ f]
    by (auto simp: detector_consume_def detect_def Let_def not_less)
qed

lemma example_wire_length: "length (wire_of example_spectrum) = 392"
  by (simp add: wire_length_def header_bytes_def) (simp add: example_spectrum_def)

theorem detection_validity_witness:
  "\<exists>r. snd (detector_consume (new_detector 64 1500) (wire_of example_spectrum)) = Some r \<and>
     dn_stream_id r = 2 \<and> dn_validity r \<noteq> Gapped"
proof -
  have d: "decode_spectrum (wire_of example_spectrum) = Inr example_spectrum" by (simp add: decode_wire_of)
  have f: "sp_fft_size example_spectrum = 64" "sp_stream_id example_spectrum = 2" by (simp_all add: example_spectrum_def)
  have n: "dt_receive_bytes (new_detector 64 1500) = 1500" "dt_fft_size (new_detector 64 1500) = 64"
    "length (dt_sequences (new_detector 64 1500)) = 4" by (simp_all add: new_detector_def)
  show ?thesis
    using detection_validity [where d = "new_detector 64 1500" and datagram = "wire_of example_spectrum"]
    by (auto simp: d f n example_wire_length example_missing split: option.splits simp del: length_wire_of)
qed

end
