(* ===== verification/Numbers.thy ===== *)
theory Numbers
  imports Prelude
begin

text \<open>
  Numbers as text and as little-endian bytes: the parts of the C++ library the
  telemetry interval and the recorder use to read numbers (\<open>std::stoul\<close>,
  \<open>std::from_chars\<close>), decimal printing and its round trip, and the
  little-endian counterpart of the byte strings of the prelude.
\<close>

section \<open>Reading numbers\<close>

definition is_space :: "char \<Rightarrow> bool" where
  "is_space c \<longleftrightarrow> c \<in> {CHR '' '', CHR 0x09, CHR 0x0A, CHR 0x0B, CHR 0x0C, CHR 0x0D}"

definition is_digit :: "char \<Rightarrow> bool" where
  "is_digit c \<longleftrightarrow> 48 \<le> (of_char c :: nat) \<and> (of_char c :: nat) \<le> 57"

definition digits_value :: "string \<Rightarrow> nat" where
  "digits_value s = foldl (\<lambda>n c. 10 * n + (of_char c - 48)) 0 s"

text \<open>
  \<open>std::stoul\<close>: the value and the characters consumed. It skips white space, accepts a
  sign (a negative number wraps) and throws without a digit or beyond 64 bits.
\<close>

definition stoul :: "string \<Rightarrow> (nat \<times> nat) result" where
  "stoul text =
    (let spaces = takeWhile is_space text;
         rest = drop (length spaces) text;
         negative = (rest \<noteq> [] \<and> hd rest = CHR ''-'');
         signed = (negative \<or> (rest \<noteq> [] \<and> hd rest = CHR ''+''));
         rest = (if signed then tl rest else rest);
         digits = takeWhile is_digit rest;
         n = digits_value digits
     in if digits = [] then Inl (Invalid_argument ''stoul'')
        else if n \<ge> 2 ^ 64 then Inl (Out_of_range ''stoul'')
        else Inr (if negative \<and> n \<noteq> 0 then 2 ^ 64 - n else n,
                  length spaces + (if signed then 1 else 0) + length digits))"

text \<open>
  \<open>std::from_chars\<close> into a 64-bit unsigned: digits only, no sign and no white space.
  None when there is no digit or the digits do not fit; otherwise the value and what is left.
\<close>

definition from_chars :: "string \<Rightarrow> (nat \<times> string) option" where
  "from_chars text =
    (let digits = takeWhile is_digit text; n = digits_value digits
     in if digits = [] \<or> n \<ge> 2 ^ 64 then None else Some (n, dropWhile is_digit text))"

text \<open>Decimal printing.\<close>

fun decimal :: "nat \<Rightarrow> string" where
  "decimal n = (if n < 10 then [char_of (48 + n)] else decimal (n div 10) @ [char_of (48 + n mod 10)])"

declare decimal.simps [simp del]

lemma digits_value_snoc: "digits_value (s @ [c]) = 10 * digits_value s + (of_char c - 48)"
  by (simp add: digits_value_def)

lemma decimal_digits: "list_all is_digit (decimal n) \<and> decimal n \<noteq> [] \<and> digits_value (decimal n) = n"
proof (induction n rule: decimal.induct)
  case (1 n)
  show ?case
  proof (cases "n < 10")
    case True
    then show ?thesis by (subst (1 2 3) decimal.simps) (simp add: is_digit_def digits_value_def)
  next
    case False
    then show ?thesis using 1 [OF False]
      by (subst (1 2 3) decimal.simps) (simp add: digits_value_snoc, simp add: is_digit_def)
  qed
qed

lemma takeWhile_decimal [simp]: "takeWhile is_digit (decimal n) = decimal n" "dropWhile is_digit (decimal n) = []"
  using decimal_digits [of n] by (auto simp: list_all_iff takeWhile_eq_all_conv dropWhile_eq_Nil_conv)

lemma from_chars_decimal: "n < 2 ^ 64 \<Longrightarrow> from_chars (decimal n) = Some (n, [])"
  using decimal_digits [of n] by (simp add: from_chars_def Let_def)

lemma stoul_decimal:
  assumes "n < 2 ^ 64"
  shows "stoul (decimal n) = Inr (n, length (decimal n))"
proof -
  obtain c cs where c: "decimal n = c # cs" using decimal_digits [of n] by (cases "decimal n") auto
  then have d: "is_digit c" using decimal_digits [of n] by simp
  have sp: "\<not> is_space c" "c \<noteq> CHR ''-''" "c \<noteq> CHR ''+''"
    using d by (auto simp: is_digit_def is_space_def)
  show ?thesis
    using assms decimal_digits [of n] sp d by (simp add: stoul_def Let_def c list_all_iff takeWhile_eq_all_conv [THEN iffD2])
qed

section \<open>Little-endian byte strings\<close>

definition le_bytes :: "nat \<Rightarrow> 'a :: len word \<Rightarrow> bytes" where
  "le_bytes n v = map (\<lambda>i. ucast (drop_bit (8 * i) v)) [0..<n]"

definition le_value :: "bytes \<Rightarrow> 'a :: len word" where
  "le_value bs = foldr (\<lambda>b result. push_bit 8 result OR ucast b) bs 0"

lemma length_le_bytes [simp]: "length (le_bytes n v) = n"
  by (simp add: le_bytes_def)

lemma le_bytes_0 [simp]: "le_bytes 0 v = []"
  by (simp add: le_bytes_def)

lemma le_bytes_eq_Nil [simp]: "le_bytes n v = [] \<longleftrightarrow> n = 0"
  by (simp add: le_bytes_def)

lemma le_bytes_Suc: "le_bytes (Suc n) v = ucast v # le_bytes n (drop_bit 8 v)"
  unfolding le_bytes_def by (simp add: upt_conv_Cons ac_simps del: upt_Suc flip: map_Suc_upt)

lemma le_value_le_bytes: "le_value (le_bytes n v) = take_bit (8 * n) (v :: 'a :: len word)"
proof (induction n arbitrary: v)
  case 0
  show ?case by (simp add: le_value_def)
next
  case (Suc n)
  have "le_value (le_bytes (Suc n) v) = push_bit 8 (take_bit (8 * n) (drop_bit 8 v)) OR ucast (ucast v :: byte)"
    unfolding le_bytes_Suc Suc [symmetric] by (simp add: le_value_def)
  then show ?case by (simp, intro bit_word_eqI) (auto simp add: bit_simps)
qed

lemma le_value_32 [simp]: "le_value (le_bytes 4 (v :: u32)) = v"
  by (simp add: le_value_le_bytes take_bit_word_eq_self)

end
