(* ===== verification/Telemetry.thy ===== *)
theory Telemetry
  imports Numbers
begin

text \<open>
  Local activity health and the telemetry reporter (\<open>include/sdr/telemetry.hpp\<close>,
  \<open>src/telemetry.cpp\<close>; the policy is \<open>docs/HEALTH_POLICY.md\<close>). Every reading of a
  clock is an argument of the operation that makes it. A telemetry record is kept
  before it is serialized; the length of its line is a parameter.
\<close>

section \<open>Health\<close>

record activity_health =
  ah_errors :: u64
  ah_previous :: "nanos option"
  ah_recovery_since :: "nanos option"
  ah_failed :: bool

record health_assessment =
  ha_state :: string
  ha_reason :: string
  ha_new_errors :: "u64 option"
  ha_counter_reset :: bool
  ha_sample_window_ms :: "int option"

definition new_health :: activity_health where
  "new_health = \<lparr>ah_errors = 0, ah_previous = None, ah_recovery_since = None, ah_failed = False\<rparr>"

text \<open>\<open>duration_cast<milliseconds>\<close>, which rounds towards zero.\<close>

definition whole_ms :: "nanos \<Rightarrow> int" where
  "whole_ms d = (if 0 \<le> d then d div 1000000 else - ((- d) div 1000000))"

definition fail :: "activity_health \<Rightarrow> activity_health" where
  "fail h = h\<lparr>ah_failed := True\<rparr>"

definition assess ::
  "activity_health \<Rightarrow> nanos \<Rightarrow> nanos option \<Rightarrow> u64 \<Rightarrow> int \<Rightarrow> bool \<Rightarrow> activity_health \<times> health_assessment" where
  "assess h now activity errors interval final =
    (let reset = (ah_previous h \<noteq> None \<and> errors < ah_errors h);
         result = \<lparr>ha_state = ''unknown'', ha_reason = ''recovery_unproven'', ha_new_errors = None,
                   ha_counter_reset = reset, ha_sample_window_ms = None\<rparr>;
         result = (case ah_previous h of None \<Rightarrow> result
                   | Some previous \<Rightarrow> result\<lparr>ha_sample_window_ms := Some (whole_ms (now - previous))\<rparr>);
         result = (if \<not> reset then result\<lparr>ha_new_errors := Some (errors - ah_errors h)\<rparr> else result);
         new_errors = (case ha_new_errors result of None \<Rightarrow> 0 | Some n \<Rightarrow> n);
         h = (if reset \<or> new_errors > 0 then h\<lparr>ah_recovery_since := Some now\<rparr> else h);
         h = h\<lparr>ah_errors := errors, ah_previous := Some now\<rparr>
     in if ah_failed h then (h, result\<lparr>ha_state := ''failed'', ha_reason := ''fatal_error''\<rparr>)
        else if final then (h, result\<lparr>ha_reason := ''shutdown''\<rparr>)
        else if reset then (h, result\<lparr>ha_reason := ''counter_reset''\<rparr>)
        else if new_errors > 0 then (h, result\<lparr>ha_state := ''degraded'', ha_reason := ''new_errors''\<rparr>)
        else (case activity of
            None \<Rightarrow> (h, result\<lparr>ha_state := ''idle'', ha_reason := ''no_recent_activity''\<rparr>)
          | Some a \<Rightarrow>
            if a > now then (h, result\<lparr>ha_reason := ''invalid_activity_time''\<rparr>)
            else if now - a > millis interval * 2
            then (h, result\<lparr>ha_state := ''idle'', ha_reason := ''no_recent_activity''\<rparr>)
            else if (case ah_recovery_since h of None \<Rightarrow> True
                     | Some since \<Rightarrow> a > since \<and> now - since \<ge> millis interval)
            then (h\<lparr>ah_recovery_since := None\<rparr>, result\<lparr>ha_state := ''healthy'', ha_reason := ''recent_activity''\<rparr>)
            else (h, result)))"

section \<open>The interval\<close>

text \<open>\<open>interval()\<close>: the environment variable's value, when it is set.\<close>

definition telemetry_interval :: "string option \<Rightarrow> int result" where
  "telemetry_interval env =
     (case env of None \<Rightarrow> Inr 5000
      | Some text \<Rightarrow>
          ebind (stoul text) (\<lambda>(n, end_position).
            if end_position \<noteq> length text \<or> (n \<noteq> 0 \<and> (n < 100 \<or> n > 60000))
            then Inl (Invalid_argument ''invalid telemetry interval'')
            else Inr (int n)))"

section \<open>The reporter\<close>

text \<open>A record before serialization; \<open>tr_data\<close> is the caller's fields.\<close>

record 'd telemetry_record =
  tr_event :: string
  tr_state :: string
  tr_ready :: bool
  tr_sequence :: u64
  tr_uptime_ms :: int
  tr_active :: bool
  tr_suppressed :: u64
  tr_data :: 'd
  tr_health :: "(u64 \<times> health_assessment) option"

text \<open>
  The reporter and the records it wrote. The process-wide sequence counter is part of
  it, and \<open>rp_activity\<close> is None for the default time point.
\<close>

record 'd reporter =
  rp_interval :: int
  rp_started :: nanos
  rp_next :: nanos
  rp_window :: nanos
  rp_activity :: "nanos option"
  rp_suppressed :: u64
  rp_health :: activity_health
  rp_events :: u32
  rp_sequence :: u64
  rp_output :: "'d telemetry_record list"

definition new_reporter :: "int \<Rightarrow> nanos \<Rightarrow> u64 \<Rightarrow> 'd reporter" where
  "new_reporter interval process_start sequence =
     \<lparr>rp_interval = interval, rp_started = process_start, rp_next = process_start, rp_window = process_start,
      rp_activity = None, rp_suppressed = 0, rp_health = new_health, rp_events = 0, rp_sequence = sequence,
      rp_output = []\<rparr>"

definition due :: "'d reporter \<Rightarrow> nanos \<Rightarrow> bool" where
  "due r now \<longleftrightarrow> rp_interval r \<noteq> 0 \<and> now \<ge> rp_next r"

definition note_activity :: "'d reporter \<Rightarrow> nanos \<Rightarrow> 'd reporter" where
  "note_activity r now = (if rp_interval r = 0 then r else r\<lparr>rp_activity := Some now\<rparr>)"

definition emit ::
  "('d telemetry_record \<Rightarrow> nat) \<Rightarrow> 'd reporter \<Rightarrow> nanos \<Rightarrow> string \<Rightarrow> string \<Rightarrow> bool \<Rightarrow> 'd \<Rightarrow>
   (u64 \<times> health_assessment) option \<Rightarrow> 'd reporter" where
  "emit line_size r now event state ready data health =
    (let r = r\<lparr>rp_sequence := rp_sequence r + 1\<rparr>;
         j = \<lparr>tr_event = event, tr_state = state, tr_ready = ready, tr_sequence = rp_sequence r,
              tr_uptime_ms = whole_ms (now - rp_started r), tr_active = (rp_activity r \<noteq> None),
              tr_suppressed = rp_suppressed r, tr_data = data, tr_health = health\<rparr>
     in if line_size j + 1 > 4096 then r\<lparr>rp_suppressed := rp_suppressed r + 1\<rparr>
        else r\<lparr>rp_output := rp_output r @ [j]\<rparr>)"

text \<open>\<open>now\<close> is the reading the heartbeat takes, \<open>later\<close> the one \<open>emit\<close> takes for the uptime.\<close>

definition heartbeat ::
  "('d telemetry_record \<Rightarrow> nat) \<Rightarrow> 'd reporter \<Rightarrow> nanos \<Rightarrow> nanos \<Rightarrow> 'd \<Rightarrow> u64 \<Rightarrow> bool \<Rightarrow> 'd reporter" where
  "heartbeat line_size r now later counters errors final =
    (if rp_interval r = 0 then r
     else if \<not> final \<and> now < rp_next r then r
     else let (h, assessment) = assess (rp_health r) now (rp_activity r) errors (rp_interval r) final;
              r = r\<lparr>rp_health := h\<rparr>;
              r = emit line_size r later (if final then ''shutdown'' else ''heartbeat'') (ha_state assessment)
                    (\<not> final \<and> \<not> ah_failed h) counters (Some (errors, assessment))
          in r\<lparr>rp_next := now + millis (rp_interval r)\<rparr>)"

definition report_detection ::
  "('d telemetry_record \<Rightarrow> nat) \<Rightarrow> 'd reporter \<Rightarrow> nanos \<Rightarrow> nanos \<Rightarrow> 'd \<Rightarrow> 'd reporter" where
  "report_detection line_size r now later data =
    (if rp_interval r = 0 then r
     else let r = (if now - rp_window r \<ge> millis 1000 then r\<lparr>rp_events := 0, rp_window := now\<rparr> else r);
              events = rp_events r;
              r = r\<lparr>rp_events := events + 1\<rparr>
          in if events \<ge> 10 then r\<lparr>rp_suppressed := rp_suppressed r + 1\<rparr>
             else emit line_size r later ''detection'' ''unknown'' True data None)"

definition report_failed ::
  "('d telemetry_record \<Rightarrow> nat) \<Rightarrow> 'd reporter \<Rightarrow> nanos \<Rightarrow> 'd \<Rightarrow> 'd reporter" where
  "report_failed line_size r now application_error =
    (let r = r\<lparr>rp_health := fail (rp_health r)\<rparr>
     in if rp_interval r \<noteq> 0 then emit line_size r now ''failure'' ''failed'' False application_error None else r)"

section \<open>The health policy\<close>

lemma new_errors_pos: "(0 :: u64) < a - b \<longleftrightarrow> a \<noteq> b"
  by (simp add: word_gt_0)

text \<open>What an assessment sees: a counter reset, an increase, and the time recovery is counted from.\<close>

definition sees_reset :: "activity_health \<Rightarrow> u64 \<Rightarrow> bool" where
  "sees_reset h errors \<longleftrightarrow> ah_previous h \<noteq> None \<and> errors < ah_errors h"

definition sees_errors :: "activity_health \<Rightarrow> u64 \<Rightarrow> bool" where
  "sees_errors h errors \<longleftrightarrow> \<not> sees_reset h errors \<and> errors \<noteq> ah_errors h"

lemma assess_eq:
  "assess h now activity errors interval final =
    (let since = (if sees_reset h errors \<or> sees_errors h errors then Some now else ah_recovery_since h);
         recovered = (since = None \<or> (\<exists>a. activity = Some a \<and> a > the since \<and> now - the since \<ge> millis interval));
         healthy = (\<not> ah_failed h \<and> \<not> final \<and> \<not> sees_reset h errors \<and> \<not> sees_errors h errors \<and>
           (\<exists>a. activity = Some a \<and> a \<le> now \<and> now - a \<le> millis interval * 2) \<and> recovered);
         (state, reason) =
           (if ah_failed h then (''failed'', ''fatal_error'')
            else if final then (''unknown'', ''shutdown'')
            else if sees_reset h errors then (''unknown'', ''counter_reset'')
            else if sees_errors h errors then (''degraded'', ''new_errors'')
            else if \<exists>a. activity = Some a \<and> a > now then (''unknown'', ''invalid_activity_time'')
            else if \<not> (\<exists>a. activity = Some a \<and> now - a \<le> millis interval * 2) then (''idle'', ''no_recent_activity'')
            else if recovered then (''healthy'', ''recent_activity'')
            else (''unknown'', ''recovery_unproven''))
     in (\<lparr>ah_errors = errors, ah_previous = Some now, ah_recovery_since = (if healthy then None else since),
          ah_failed = ah_failed h\<rparr>,
         \<lparr>ha_state = state, ha_reason = reason,
          ha_new_errors = (if sees_reset h errors then None else Some (errors - ah_errors h)),
          ha_counter_reset = sees_reset h errors,
          ha_sample_window_ms = map_option (\<lambda>p. whole_ms (now - p)) (ah_previous h)\<rparr>))"
proof -
  obtain e p s f where h: "h = \<lparr>ah_errors = e, ah_previous = p, ah_recovery_since = s, ah_failed = f\<rparr>" by (cases h)
  show ?thesis
    unfolding h assess_def sees_reset_def sees_errors_def Let_def
    by (cases p; cases activity; cases s) (auto simp: new_errors_pos)
qed

text \<open>The documented health policy. Failed exactly when a fatal error is latched; degraded exactly when
  the error count rose since the last observation; healthy exactly with activity no older than
  two intervals and no new errors or counter reset, and after an error or reset only with
  activity after it and a full interval elapsed; idle exactly without recent activity; and
  unknown otherwise. A counter that decreased has no error delta.\<close>

lemma health_policy:
  "(case assess h now activity errors interval final of (h', r) \<Rightarrow>
     let open = (\<not> ah_failed h \<and> \<not> final); quiet = (\<not> sees_reset h errors \<and> \<not> sees_errors h errors);
         recent = (\<exists>a. activity = Some a \<and> a \<le> now \<and> now - a \<le> 2 * millis interval) in
     (ha_state r = ''failed'' \<longleftrightarrow> ah_failed h) \<and>
     (ha_state r = ''degraded'' \<longleftrightarrow> open \<and> sees_errors h errors) \<and>
     (ha_state r = ''healthy'' \<longleftrightarrow> open \<and> quiet \<and> recent \<and>
        (case ah_recovery_since h of None \<Rightarrow> True
         | Some since \<Rightarrow> since < the activity \<and> since + millis interval \<le> now)) \<and>
     (ha_state r = ''idle'' \<longleftrightarrow> open \<and> quiet \<and>
        (activity = None \<or> (the activity \<le> now \<and> 2 * millis interval < now - the activity))) \<and>
     (ha_state r \<in> {''failed'', ''degraded'', ''healthy'', ''idle'', ''unknown''}) \<and>
     (ha_new_errors r = (if sees_reset h errors then None else Some (errors - ah_errors h))) \<and>
     ah_failed h' = ah_failed h \<and> ah_errors h' = errors)"
proof -
  show ?thesis
    unfolding assess_eq Let_def
    by (cases activity; cases "ah_recovery_since h") (auto simp: sees_errors_def)
qed

text \<open>A sequence of observations that see no new errors.\<close>

definition observe :: "u64 \<Rightarrow> int \<Rightarrow> activity_health \<Rightarrow> nanos \<times> nanos option \<Rightarrow> activity_health \<times> string" where
  "observe errors interval h ob =
     (let (h', r) = assess h (fst ob) (snd ob) errors interval False in (h', ha_state r))"

definition observed :: "u64 \<Rightarrow> int \<Rightarrow> activity_health \<Rightarrow> (nanos \<times> nanos option) list \<Rightarrow> activity_health" where
  "observed errors interval h obs = foldl (\<lambda>h ob. fst (observe errors interval h ob)) h obs"

lemma observe_waiting:
  assumes "ah_errors h = errors" and "ah_recovery_since h = Some t" and "snd (observe errors interval h ob) \<noteq> ''healthy''"
  shows "ah_errors (fst (observe errors interval h ob)) = errors \<and> ah_recovery_since (fst (observe errors interval h ob)) = Some t"
  using assms unfolding observe_def assess_eq Let_def by (auto simp: sees_reset_def sees_errors_def split: if_splits)

lemma observed_waiting:
  "ah_errors h = errors \<Longrightarrow> ah_recovery_since h = Some t \<Longrightarrow>
   \<forall>k < length obs. snd (observe errors interval (observed errors interval h (take k obs)) (obs ! k)) \<noteq> ''healthy'' \<Longrightarrow>
     ah_errors (observed errors interval h obs) = errors \<and> ah_recovery_since (observed errors interval h obs) = Some t"
proof (induction obs rule: rev_induct)
  case Nil
  then show ?case by (simp add: observed_def)
next
  case (snoc ob obs)
  have "\<forall>k < length obs. snd (observe errors interval (observed errors interval h (take k obs)) (obs ! k)) \<noteq> ''healthy''"
  proof (intro allI impI)
    fix k assume "k < length obs"
    then show "snd (observe errors interval (observed errors interval h (take k obs)) (obs ! k)) \<noteq> ''healthy''"
      using snoc.prems(3) [rule_format, of k] by (simp add: nth_append)
  qed
  note IH = snoc.IH [OF snoc.prems(1,2) this]
  have "snd (observe errors interval (observed errors interval h obs) ob) \<noteq> ''healthy''"
    using snoc.prems(3) by (auto dest: spec [of _ "length obs"])
  from observe_waiting [OF _ _ this, of t] IH show ?case by (simp add: observed_def)
qed

text \<open>Recovery is never reported without evidence: after an observation at time \<open>t\<close> that saw new errors
  or a counter reset, and however many quiet observations that do not report healthy, the
  first one that does has successful activity after \<open>t\<close> and comes at least an interval
  after \<open>t\<close>.\<close>

lemma recovery_needs_evidence:
  assumes "sees_errors h errors \<or> sees_reset h errors"
    and "h\<^sub>1 = fst (assess h t activity errors interval final)"
    and "\<forall>k < length obs. snd (observe errors interval (observed errors interval h\<^sub>1 (take k obs)) (obs ! k)) \<noteq> ''healthy''"
    and "snd (observe errors interval (observed errors interval h\<^sub>1 obs) (now, activity')) = ''healthy''"
  shows "\<exists>a. activity' = Some a \<and> t < a \<and> a \<le> now \<and> t + millis interval \<le> now"
proof -
  have "ah_errors h\<^sub>1 = errors" "ah_recovery_since h\<^sub>1 = Some t"
    using assms(1) unfolding assms(2) assess_eq Let_def by auto
  from observed_waiting [OF this assms(3)] assms(4) show ?thesis
    unfolding observe_def assess_eq Let_def by (auto split: if_splits)
qed

section \<open>The reporter's records\<close>

datatype 'd reporter_event =
    Activity nanos
  | Heartbeat nanos nanos 'd u64 bool
  | Detected nanos nanos 'd
  | Failed_event nanos 'd

fun reporter_step :: "('d telemetry_record \<Rightarrow> nat) \<Rightarrow> 'd reporter \<Rightarrow> 'd reporter_event \<Rightarrow> 'd reporter" where
  "reporter_step size_of r (Activity now) = note_activity r now"
| "reporter_step size_of r (Heartbeat now later d errors final) = heartbeat size_of r now later d errors final"
| "reporter_step size_of r (Detected now later d) = report_detection size_of r now later d"
| "reporter_step size_of r (Failed_event now d) = report_failed size_of r now d"

definition reporter_ok :: "('d telemetry_record \<Rightarrow> nat) \<Rightarrow> 'd reporter \<Rightarrow> bool" where
  "reporter_ok size_of r \<longleftrightarrow> (\<forall>j \<in> set (rp_output r). size_of j + 1 \<le> 4096 \<and>
       (tr_ready j \<longrightarrow> tr_event j \<noteq> ''shutdown'' \<and> tr_state j \<noteq> ''failed'')) \<and>
     (rp_interval r = 0 \<longrightarrow> rp_output r = [])"

lemma emit_simps [simp]:
  "rp_interval (emit size_of r now e s b d h) = rp_interval r" "rp_next (emit size_of r now e s b d h) = rp_next r"
  "rp_window (emit size_of r now e s b d h) = rp_window r" "rp_activity (emit size_of r now e s b d h) = rp_activity r"
  "rp_health (emit size_of r now e s b d h) = rp_health r" "rp_events (emit size_of r now e s b d h) = rp_events r"
  by (simp_all add: emit_def Let_def)

lemma emit_ok:
  "reporter_ok size_of r \<Longrightarrow> rp_interval r \<noteq> 0 \<Longrightarrow> (b \<Longrightarrow> e \<noteq> ''shutdown'' \<and> s \<noteq> ''failed'') \<Longrightarrow>
     reporter_ok size_of (emit size_of r now e s b d h)"
  by (auto simp: reporter_ok_def emit_def Let_def)

lemma assess_failed:
  "ha_state (snd (assess h now a e i f)) = ''failed'' \<longleftrightarrow> ah_failed h"
  "ah_failed (fst (assess h now a e i f)) = ah_failed h"
  unfolding assess_eq Let_def by auto

lemma reporter_step_ok: "reporter_ok size_of r \<Longrightarrow> reporter_ok size_of (reporter_step size_of r e)"
proof (cases e)
  case (Heartbeat now later d errors final)
  assume ok: "reporter_ok size_of r"
  obtain h a where ha: "assess (rp_health r) now (rp_activity r) errors (rp_interval r) final = (h, a)" by fastforce
  then have f: "ha_state a = ''failed'' \<longleftrightarrow> ah_failed h"
    using assess_failed [of "rp_health r" now "rp_activity r" errors "rp_interval r" final] by simp
  have "reporter_ok size_of (r\<lparr>rp_health := h\<rparr>)" using ok by (simp add: reporter_ok_def)
  from emit_ok [OF this, of "\<not> final \<and> \<not> ah_failed h"] f
  have "rp_interval r \<noteq> 0 \<Longrightarrow> reporter_ok size_of (emit size_of (r\<lparr>rp_health := h\<rparr>) later (if final then ''shutdown'' else ''heartbeat'')
      (ha_state a) (\<not> final \<and> \<not> ah_failed h) d (Some (errors, a)))" by auto
  then show ?thesis using ok
    by (auto simp: Heartbeat heartbeat_def ha Let_def) (auto simp: reporter_ok_def)
next
  case (Detected now later d)
  assume ok: "reporter_ok size_of r"
  define r1 where "r1 = (if now - rp_window r \<ge> millis 1000 then r\<lparr>rp_events := 0, rp_window := now\<rparr> else r)"
  have "reporter_ok size_of (r1\<lparr>rp_events := n\<rparr>)" "rp_interval r1 = rp_interval r" for n
    using ok by (auto simp: r1_def reporter_ok_def)
  then show ?thesis using ok
    by (auto simp: Detected report_detection_def Let_def r1_def [symmetric] intro!: emit_ok)
      (auto simp: reporter_ok_def)
next
  case (Failed_event now d)
  assume ok: "reporter_ok size_of r"
  then have "reporter_ok size_of (r\<lparr>rp_health := fail (rp_health r)\<rparr>)" by (simp add: reporter_ok_def)
  then show ?thesis
    by (auto simp: Failed_event report_failed_def Let_def intro: emit_ok)
qed (auto simp: note_activity_def reporter_ok_def)

interpretation reporter: transition_system "reporter_step size_of" "reporter_ok size_of" for size_of
  by unfold_locales (rule reporter_step_ok)

lemma reporter_failed_step: "ah_failed (rp_health r) \<Longrightarrow> ah_failed (rp_health (reporter_step size_of r e))"
proof (cases e)
  case (Heartbeat now later d errors final)
  assume "ah_failed (rp_health r)"
  then show ?thesis
    using assess_failed(2) [of "rp_health r" now "rp_activity r" errors "rp_interval r" final]
    by (auto simp: Heartbeat heartbeat_def Let_def split: prod.splits)
qed (auto simp: note_activity_def report_detection_def report_failed_def fail_def Let_def)

lemma reporter_failed_run: "ah_failed (rp_health r) \<Longrightarrow> ah_failed (rp_health (foldl (reporter_step size_of) r es))"
  by (induction es arbitrary: r) (auto intro: reporter_failed_step)

lemma emit_output:
  "rp_output (emit size_of r now e s b d h) = rp_output r \<or>
   (\<exists>j. rp_output (emit size_of r now e s b d h) = rp_output r @ [j] \<and> tr_event j = e \<and> tr_state j = s \<and> tr_ready j = b)"
  by (auto simp: emit_def Let_def)

text \<open>A record that tells of the failure: a detection carries no state of its own.\<close>

definition tells_failure :: "'d telemetry_record \<Rightarrow> bool" where
  "tells_failure j \<longleftrightarrow> tr_event j = ''detection'' \<or>
     tr_event j \<in> {''heartbeat'', ''shutdown'', ''failure''} \<and> tr_state j = ''failed'' \<and> \<not> tr_ready j"

lemma heartbeat_after_failure:
  assumes "ah_failed (rp_health r)"
  shows "\<exists>new. rp_output (heartbeat size_of r now later d errors final) = rp_output r @ new \<and> list_all tells_failure new"
proof -
  obtain h a where ha: "assess (rp_health r) now (rp_activity r) errors (rp_interval r) final = (h, a)" by fastforce
  have f: "ha_state a = ''failed''" "ah_failed h"
    using assess_failed [of "rp_health r" now "rp_activity r" errors "rp_interval r" final] assms by (simp_all add: ha)
  show ?thesis
    using emit_output [of size_of "r\<lparr>rp_health := h\<rparr>" later "if final then ''shutdown'' else ''heartbeat''" "ha_state a"
        "\<not> final \<and> \<not> ah_failed h" d "Some (errors, a)"]
    by (auto simp: heartbeat_def ha Let_def f tells_failure_def)
qed

lemma failure_output:
  "\<exists>new. rp_output (report_failed size_of r now d) = rp_output r @ new \<and> list_all tells_failure new"
  using emit_output [of size_of "r\<lparr>rp_health := fail (rp_health r)\<rparr>" now "''failure''" "''failed''" False d None]
  by (auto simp: report_failed_def Let_def tells_failure_def)

lemma step_after_failure:
  assumes "ah_failed (rp_health r)"
  shows "\<exists>new. rp_output (reporter_step size_of r e) = rp_output r @ new \<and> list_all tells_failure new"
proof (cases e)
  case (Detected now later d)
  show ?thesis
    using emit_output [of size_of "r\<lparr>rp_window := now, rp_events := 1\<rparr>" later "''detection''" "''unknown''" True d None]
      emit_output [of size_of "r\<lparr>rp_events := rp_events r + 1\<rparr>" later "''detection''" "''unknown''" True d None]
    by (auto simp: Detected report_detection_def Let_def tells_failure_def)
next
  case (Failed_event now d)
  then show ?thesis using failure_output by simp
qed (use heartbeat_after_failure [OF assms] in \<open>auto simp: note_activity_def\<close>)

lemma run_after_failure:
  "ah_failed (rp_health r) \<Longrightarrow>
   \<exists>new. rp_output (foldl (reporter_step size_of) r es) = rp_output r @ new \<and> list_all tells_failure new"
proof (induction es arbitrary: r)
  case (Cons e es)
  from step_after_failure [OF Cons.prems] obtain new where
    "rp_output (reporter_step size_of r e) = rp_output r @ new" "list_all tells_failure new" by blast
  with Cons.IH [OF reporter_failed_step [OF Cons.prems]] show ?case by (metis append.assoc foldl_Cons list_all_append)
qed simp

text \<open>C36. Whatever the reporter is asked to report: every line it writes fits in 4096 bytes with its
  newline; nothing is written when the interval is zero; no shutdown or failed record claims to
  be ready; and from the report of a fatal error on, every heartbeat, shutdown and failure record
  that is written has the state failed and is not ready, whatever happens in between.\<close>

theorem reporter_records:
  "let r\<^sub>0 = foldl (reporter_step size_of) (new_reporter interval start seq) before;
       r = foldl (reporter_step size_of) r\<^sub>0 es in
     (\<forall>j \<in> set (rp_output r). size_of j + 1 \<le> 4096 \<and>
        (tr_event j = ''shutdown'' \<or> tr_state j = ''failed'' \<longrightarrow> \<not> tr_ready j)) \<and>
     (interval = 0 \<longrightarrow> rp_output r = []) \<and>
     (case es of Failed_event t d # later \<Rightarrow>
        \<exists>new. rp_output r = rp_output r\<^sub>0 @ new \<and>
          (\<forall>j \<in> set new. tr_event j \<noteq> ''detection'' \<longrightarrow>
             tr_event j \<in> {''heartbeat'', ''shutdown'', ''failure''} \<and> tr_state j = ''failed'' \<and> \<not> tr_ready j)
      | _ \<Rightarrow> True)"
proof -
  let ?r\<^sub>0 = "foldl (reporter_step size_of) (new_reporter interval start seq) before"
  let ?r = "foldl (reporter_step size_of) ?r\<^sub>0 es"
  have "reporter_ok size_of (new_reporter interval start seq)" by (simp add: reporter_ok_def new_reporter_def)
  then have "reporter_ok size_of ?r\<^sub>0" by (rule reporter.run_good)
  then have ok: "reporter_ok size_of ?r" by (rule reporter.run_good)
  have i: "rp_interval (reporter_step size_of r e) = rp_interval r" for r e
    by (cases e) (auto simp: note_activity_def heartbeat_def report_detection_def report_failed_def Let_def split: prod.splits)
  have "rp_interval (foldl (reporter_step size_of) r es) = rp_interval r" for r es
    by (induction es arbitrary: r) (simp_all add: i)
  then have int: "rp_interval ?r = interval" by (simp add: new_reporter_def)
  have "\<exists>new. rp_output ?r = rp_output ?r\<^sub>0 @ new \<and> list_all tells_failure new" if es: "es = Failed_event t d # later" for t d later
  proof -
    have f: "ah_failed (rp_health (reporter_step size_of ?r\<^sub>0 (Failed_event t d)))" by (simp add: report_failed_def fail_def Let_def)
    obtain new\<^sub>1 where "rp_output (report_failed size_of ?r\<^sub>0 t d) = rp_output ?r\<^sub>0 @ new\<^sub>1" "list_all tells_failure new\<^sub>1"
      using failure_output [of size_of ?r\<^sub>0 t d] by (elim exE conjE)
    with run_after_failure [OF f, of size_of later] show ?thesis by (auto simp: es)
  qed
  with ok int show ?thesis
    by (fastforce simp: Let_def reporter_ok_def list_all_iff tells_failure_def split: list.split reporter_event.split)
qed

theorem reporter_records_witness:
  "\<exists>new. rp_output (foldl (reporter_step (\<lambda>_. 100)) (reporter_step (\<lambda>_. 100) (new_reporter 5000 0 0) (Activity 1))
       [Failed_event 2 (), Detected 3 3 (), Heartbeat 9 9 () 0 True]) = [] @ new \<and>
     list_all (\<lambda>j. tr_event j = ''detection'' \<or> tr_state j = ''failed'' \<and> \<not> tr_ready j) new"
proof -
  have "rp_output (reporter_step (\<lambda>_. 100) (new_reporter 5000 0 0) (Activity 1)) = ([] :: unit telemetry_record list)"
    by (simp add: note_activity_def new_reporter_def)
  then show ?thesis
    using reporter_records [where size_of = "\<lambda>_. 100" and interval = 5000 and start = 0 and seq = 0 and
        before = "[Activity 1]" and es = "[Failed_event 2 (), Detected 3 3 (), Heartbeat 9 9 () 0 True]"]
    by (auto simp: Let_def list_all_iff)
qed

section \<open>The detection rate limit\<close>

definition detection_lines :: "'d reporter \<Rightarrow> nat" where
  "detection_lines r = length (filter (\<lambda>j. tr_event j = ''detection'') (rp_output r))"

fun is_detected :: "'d reporter_event \<Rightarrow> bool" where
  "is_detected (Detected now later d) = True"
| "is_detected _ = False"

fun detected_by :: "nanos \<Rightarrow> 'd reporter_event \<Rightarrow> bool" where
  "detected_by t (Detected now later d) = (now \<le> t)"
| "detected_by t _ = True"

text \<open>After \<open>n\<close> events, \<open>d\<close> of them detections, with the window moved \<open>k\<close> times.\<close>

definition rate_inv :: "nanos \<Rightarrow> nanos \<Rightarrow> nat \<Rightarrow> nat \<Rightarrow> nat \<Rightarrow> 'd reporter \<Rightarrow> bool" where
  "rate_inv start t n d k r \<longleftrightarrow>
     rp_interval r \<noteq> 0 \<and> detection_lines r \<le> 10 * k + min 10 (unat (rp_events r)) \<and> start + int k * 1000000000 \<le> rp_window r \<and>
     rp_window r \<le> t \<and> unat (rp_events r) \<le> n \<and> unat (rp_suppressed r) \<le> n \<and>
     d \<le> detection_lines r + unat (rp_suppressed r)"

lemma unat_inc: "unat (w :: 'l :: len word) < n \<Longrightarrow> n < 2 ^ LENGTH('l) \<Longrightarrow> unat (w + 1) = Suc (unat w)"
  by (simp add: unat_word_ariths(1))

lemma detection_lines_upd [simp]:
  "detection_lines (r\<lparr>rp_health := h\<rparr>) = detection_lines r" "detection_lines (r\<lparr>rp_next := t\<rparr>) = detection_lines r"
  "detection_lines (r\<lparr>rp_window := t\<rparr>) = detection_lines r" "detection_lines (r\<lparr>rp_events := e\<rparr>) = detection_lines r"
  "detection_lines (r\<lparr>rp_activity := a\<rparr>) = detection_lines r" "detection_lines (r\<lparr>rp_suppressed := s\<rparr>) = detection_lines r"
  by (simp_all add: detection_lines_def)

lemma emit_lines:
  assumes "unat (rp_suppressed r) \<le> n" and "n < 2 ^ 32"
  shows "(rp_suppressed (emit line_size r now e s b d h) = rp_suppressed r \<and>
       detection_lines (emit line_size r now e s b d h) = detection_lines r + (if e = ''detection'' then 1 else 0)) \<or>
    (unat (rp_suppressed (emit line_size r now e s b d h)) = Suc (unat (rp_suppressed r)) \<and>
       detection_lines (emit line_size r now e s b d h) = detection_lines r)"
  using assms unat_inc [of "rp_suppressed r" "Suc n"] by (auto simp: emit_def Let_def detection_lines_def)

lemma rate_other:
  assumes "rate_inv start t n d k r" and "\<not> is_detected e" and "n < 2 ^ 32"
  shows "rate_inv start t (Suc n) d k (reporter_step line_size r e)"
proof (cases e)
  case (Heartbeat now later x errors final)
  obtain h a where ha: "assess (rp_health r) now (rp_activity r) errors (rp_interval r) final = (h, a)" by fastforce
  show ?thesis
    using assms emit_lines [of "r\<lparr>rp_health := h\<rparr>" n line_size later "if final then ''shutdown'' else ''heartbeat''" "ha_state a"
      "\<not> final \<and> \<not> ah_failed h" x "Some (errors, a)"]
    by (auto simp: Heartbeat heartbeat_def ha Let_def rate_inv_def split: if_splits)
next
  case (Failed_event now x)
  show ?thesis
    using assms emit_lines [of "r\<lparr>rp_health := fail (rp_health r)\<rparr>" n line_size now "''failure''" "''failed''" False x None]
    by (auto simp: Failed_event report_failed_def Let_def rate_inv_def)
qed (use assms in \<open>auto simp: note_activity_def rate_inv_def\<close>)

lemma rate_detected:
  assumes "rate_inv start t n d k r" and "now \<le> t" and "n < 2 ^ 32 - 1"
  shows "\<exists>k'. rate_inv start t (Suc n) (Suc d) k' (report_detection line_size r now later x)"
proof -
  define r1 where "r1 = (if now - rp_window r \<ge> millis 1000 then r\<lparr>rp_events := 0, rp_window := now\<rparr> else r)"
  have "\<exists>k'. rate_inv start t n d k' r1"
  proof (cases "now - rp_window r \<ge> millis 1000")
    case True
    then show ?thesis using assms
      by (intro exI [of _ "Suc k"]) (auto simp: r1_def rate_inv_def millis_def)
  qed (use assms in \<open>auto simp: r1_def\<close>)
  then obtain k' where inv: "rate_inv start t n d k' r1" by blast
  have inc: "unat (rp_events r1 + 1) = Suc (unat (rp_events r1))"
    using inv assms(3) unat_inc [of "rp_events r1" "Suc n"] by (simp add: rate_inv_def)
  have sup: "unat (rp_suppressed r1 + 1) = Suc (unat (rp_suppressed r1))"
    using inv assms(3) unat_inc [of "rp_suppressed r1" "Suc n"] by (simp add: rate_inv_def)
  have ten: "rp_events r1 \<ge> 10 \<longleftrightarrow> 10 \<le> unat (rp_events r1)" by (simp add: word_le_nat_alt)
  have eq: "report_detection line_size r now later x =
     (if rp_events r1 \<ge> 10 then r1\<lparr>rp_events := rp_events r1 + 1, rp_suppressed := rp_suppressed r1 + 1\<rparr>
      else emit line_size (r1\<lparr>rp_events := rp_events r1 + 1\<rparr>) later ''detection'' ''unknown'' True x None)"
    using assms(1) by (simp add: report_detection_def Let_def r1_def [symmetric] rate_inv_def)
  have "rate_inv start t (Suc n) (Suc d) k' (report_detection line_size r now later x)"
    using inv inc sup ten assms(3) emit_lines [of "r1\<lparr>rp_events := rp_events r1 + 1\<rparr>" n line_size later "''detection''" "''unknown''" True x None]
    unfolding eq by (auto simp: rate_inv_def)
  then show ?thesis by blast
qed

lemma rate_run:
  "rate_inv start t n d k r \<Longrightarrow> \<forall>e \<in> set es. detected_by t e \<Longrightarrow> n + length es < 2 ^ 32 \<Longrightarrow>
   \<exists>k'. rate_inv start t (n + length es) (d + length (filter is_detected es)) k' (foldl (reporter_step line_size) r es)"
proof (induction es arbitrary: n d k r)
  case (Cons e es)
  have "\<exists>k'. rate_inv start t (Suc n) (d + (if is_detected e then 1 else 0)) k' (reporter_step line_size r e)"
  proof (cases "is_detected e")
    case True
    then show ?thesis using rate_detected [OF Cons.prems(1)] Cons.prems(2,3) by (cases e) auto
  next
    case False
    then show ?thesis using rate_other [OF Cons.prems(1) False] Cons.prems(3) by auto
  qed
  then obtain k' where "rate_inv start t (Suc n) (d + (if is_detected e then 1 else 0)) k' (reporter_step line_size r e)" by blast
  from Cons.IH [OF this] Cons.prems(2,3) show ?case by auto
qed auto

text \<open>However many detections are reported, at most ten lines are written for each second since the
  start (rounded up), and none is lost silently: every reported detection is a line or is counted
  in the suppressed counter.\<close>

lemma detections_rate_limited:
  assumes "interval \<noteq> 0" and "start \<le> t" and "\<forall>e \<in> set es. detected_by t e" and "length es < 2 ^ 32"
  shows "let r = foldl (reporter_step line_size) (new_reporter interval start sequence) es in
     int (detection_lines r) \<le> 10 * (1 + (t - start) div 1000000000) \<and>
     length (filter is_detected es) \<le> detection_lines r + unat (rp_suppressed r)"
proof -
  have "rate_inv start t 0 0 0 (new_reporter interval start sequence)"
    using assms(1,2) by (simp add: rate_inv_def new_reporter_def detection_lines_def)
  from rate_run [OF this assms(3)] assms(4) obtain k where
    inv: "rate_inv start t (length es) (length (filter is_detected es)) k (foldl (reporter_step line_size) (new_reporter interval start sequence) es)"
    by auto
  then have "int k * 1000000000 \<le> t - start" by (auto simp: rate_inv_def)
  then have "int k \<le> (t - start) div 1000000000" by linarith
  with inv show ?thesis by (auto simp: rate_inv_def Let_def)
qed

end
