(* ===== verification/Pipeline.thy ===== *)
theory Pipeline
  imports DetectorCore Telemetry
begin

text \<open>
  The two applications around the datagram handlers (\<open>run_processor\<close> and \<open>run_detector\<close>
  in \<open>src/apps/udp_pipeline.cpp\<close>) over the outcomes of their system calls: one
  element of the input list is what one pass of the loop reads. The end of the list is the
  stop request. A datagram longer than the receive buffer is cut to it by \<open>recv\<close>.
\<close>

section \<open>Outcomes of the system calls\<close>

datatype pass_poll = Pass_ready | Pass_interrupted | Pass_failed

text \<open>The three clock readings of \<open>report\<close>: \<open>due\<close>, the heartbeat, and the record's uptime.\<close>

type_synonym report_clock = "nanos \<times> nanos \<times> nanos"

text \<open>
  One readable listener: the datagram (None when \<open>recv\<close> returns nothing), the time the handler
  took, the clock for \<open>activity\<close>, and whether the send of each frame was complete.
\<close>

record listener_input =
  li_datagram :: "bytes option"
  li_elapsed :: nanos
  li_activity :: nanos
  li_sent :: "nat \<Rightarrow> bool"

text \<open>\<open>pn_listeners\<close> has the readable listeners of the pass with their index, in the loop's order.\<close>

record processor_pass =
  pn_stop :: bool
  pn_started :: nanos
  pn_report :: report_clock
  pn_poll :: pass_poll
  pn_listeners :: "(nat \<times> listener_input) list"
  pn_after :: nanos

section \<open>The processor\<close>

record processor_totals =
  pt_rx_bytes :: u64
  pt_tx_bytes :: u64
  pt_tx_packets :: u64
  pt_processing_ns :: u64
  pt_processed :: u64

text \<open>\<open>pa_lines\<close> are the metrics lines written, \<open>pa_destination\<close> the frames that were sent whole.\<close>

record 'c processor_app =
  pa_core :: "'c processor_core"
  pa_totals :: processor_totals
  pa_telemetry :: "(processor_metrics \<times> processor_totals) reporter"
  pa_next_metrics :: nanos
  pa_lines :: "processor_metrics list"
  pa_destination :: "bytes list"

definition report_processor ::
  "((processor_metrics \<times> processor_totals) telemetry_record \<Rightarrow> nat) \<Rightarrow> report_clock \<Rightarrow> bool \<Rightarrow> 'c processor_app \<Rightarrow> 'c processor_app" where
  "report_processor line_size clock final a =
    (case clock of (due_now, now, later) \<Rightarrow>
       if \<not> final \<and> \<not> due (pa_telemetry a) due_now then a
       else let m = pr_metrics (pa_core a)
            in a\<lparr>pa_telemetry := heartbeat line_size (pa_telemetry a) now later (m, pa_totals a)
                   (pm_malformed m + pm_send_failures m) final\<rparr>)"

text \<open>The loop over the frames of a call: a frame that is not sent whole is a send failure.\<close>

definition send_frame :: "'c processor_app \<Rightarrow> bytes \<times> bool \<Rightarrow> 'c processor_app" where
  "send_frame a outcome =
    (let (wire, whole) = outcome; t = pa_totals a in
     if \<not> whole then a\<lparr>pa_core := note_send_failure (pa_core a)\<rparr>
     else a\<lparr>pa_totals := t\<lparr>pt_tx_packets := pt_tx_packets t + 1, pt_tx_bytes := pt_tx_bytes t + of_nat (length wire)\<rparr>,
            pa_destination := pa_destination a @ [wire]\<rparr>)"

definition consume_listener ::
  "'c vita \<Rightarrow> core_config \<Rightarrow> (nat \<Rightarrow> u32) \<Rightarrow> 'c processor_app \<Rightarrow> nat \<times> listener_input \<Rightarrow> 'c processor_app result" where
  "consume_listener V cfg stream_id a input =
    (let (index, li) = input in
     case li_datagram li of
       None \<Rightarrow> Inr a
     | Some datagram \<Rightarrow>
         let received = take (cf_receive_bytes cfg) datagram in
         if received = [] then Inr a
         else let t = pa_totals a;
                  before = pm_malformed (pr_metrics (pa_core a))
              in ebind (consume V cfg (stream_id index) received (pa_core a)) (\<lambda>(core, spectra).
                let a = a\<lparr>pa_core := core,
                       pa_totals := t\<lparr>pt_rx_bytes := pt_rx_bytes t + of_nat (length received),
                         pt_processing_ns := pt_processing_ns t + of_int (li_elapsed li),
                         pt_processed := pt_processed t + 1\<rparr>,
                       pa_telemetry := (if pm_malformed (pr_metrics core) = before
                         then note_activity (pa_telemetry a) (li_activity li) else pa_telemetry a)\<rparr>
                in Inr (foldl send_frame a (zip spectra (map (li_sent li) [0..<length spectra])))))"

definition write_metrics_line :: "nanos \<Rightarrow> 'c processor_app \<Rightarrow> 'c processor_app" where
  "write_metrics_line now a =
    (if now \<ge> pa_next_metrics a
     then a\<lparr>pa_lines := pa_lines a @ [pr_metrics (pa_core a)], pa_next_metrics := pa_next_metrics a + millis 1000\<rparr>
     else a)"

definition processor_pass_step ::
  "((processor_metrics \<times> processor_totals) telemetry_record \<Rightarrow> nat) \<Rightarrow> 'c vita \<Rightarrow> core_config \<Rightarrow> (nat \<Rightarrow> u32) \<Rightarrow>
   processor_pass \<Rightarrow> 'c processor_app \<Rightarrow> 'c processor_app result" where
  "processor_pass_step line_size V cfg stream_id p a =
    (let a = report_processor line_size (pn_report p) False a in
     if pn_poll p = Pass_failed then Inl (Runtime_error ''processor poll failed'')
     else ebind (efold (consume_listener V cfg stream_id) a (pn_listeners p)) (\<lambda>a.
       Inr (write_metrics_line (pn_after p) a)))"

text \<open>The loop, with the duration it may be limited to.\<close>

fun processor_loop ::
  "((processor_metrics \<times> processor_totals) telemetry_record \<Rightarrow> nat) \<Rightarrow> 'c vita \<Rightarrow> core_config \<Rightarrow> (nat \<Rightarrow> u32) \<Rightarrow>
   nanos option \<Rightarrow> nanos \<Rightarrow> 'c processor_app \<Rightarrow> processor_pass list \<Rightarrow> 'c processor_app result" where
  "processor_loop line_size V cfg stream_id duration started a [] = Inr a"
| "processor_loop line_size V cfg stream_id duration started a (p # ps) =
    (if pn_stop p \<or> (case duration of None \<Rightarrow> False | Some d \<Rightarrow> pn_started p - started \<ge> d) then Inr a
     else ebind (processor_pass_step line_size V cfg stream_id p a) (\<lambda>a.
       processor_loop line_size V cfg stream_id duration started a ps))"

definition run_processor ::
  "((processor_metrics \<times> processor_totals) telemetry_record \<Rightarrow> nat) \<Rightarrow> 'c vita \<Rightarrow> core_config \<Rightarrow> (nat \<Rightarrow> u32) \<Rightarrow>
   nanos option \<Rightarrow> nanos \<Rightarrow> (processor_metrics \<times> processor_totals) reporter result \<Rightarrow> processor_pass list \<Rightarrow> report_clock \<Rightarrow>
   'c processor_app result" where
  "run_processor line_size V cfg stream_id duration started telemetry passes final_clock =
     ebind (new_processor cfg) (\<lambda>core.
     ebind telemetry (\<lambda>telemetry.
     ebind (processor_loop line_size V cfg stream_id duration started
        \<lparr>pa_core = core,
         pa_totals = \<lparr>pt_rx_bytes = 0, pt_tx_bytes = 0, pt_tx_packets = 0, pt_processing_ns = 0, pt_processed = 0\<rparr>,
         pa_telemetry = telemetry, pa_next_metrics = started + millis 1000, pa_lines = [], pa_destination = []\<rparr> passes) (\<lambda>a.
     let a = report_processor line_size final_clock True a
     in Inr (a\<lparr>pa_lines := pa_lines a @ [pr_metrics (pa_core a)]\<rparr>))))"

section \<open>The detector\<close>

text \<open>
  What one pass reads: the stop request, the clock for the duration and the report, the poll,
  the datagram if one was readable, the time the handler took, the clock for \<open>activity\<close>, for
  \<open>last_seen\<close>, for the two detection events (the event and its record), after the receive,
  and the wall clock of the unavailable observations.
\<close>

record detector_pass =
  dp_stop :: bool
  dp_started :: nanos
  dp_report :: report_clock
  dp_poll :: pass_poll
  dp_datagram :: "bytes option"
  dp_elapsed :: nanos
  dp_activity :: nanos
  dp_seen :: nanos
  dp_event :: "nanos \<times> nanos"
  dp_after :: nanos
  dp_wall :: "protocol_time list"
  dp_stale_event :: "(nanos \<times> nanos) list"

record detector_totals =
  ds_rx_bytes :: u64
  ds_processing_ns :: u64
  ds_processed :: u64

datatype detector_line = Detection_line detection | Metrics_line detector_metrics

text \<open>The data of a telemetry record: a detection, or the metrics with the totals.\<close>

type_synonym detector_data = "detection + detector_metrics \<times> detector_totals"

record detector_app =
  da_core :: detector_core
  da_totals :: detector_totals
  da_telemetry :: "detector_data reporter"
  da_next_metrics :: nanos
  da_reported_seconds :: "u64 option list"
  da_last_seen :: "nanos option list"
  da_unavailable_reported :: "bool list"
  da_lines :: "detector_line list"

definition report_detector ::
  "(detector_data telemetry_record \<Rightarrow> nat) \<Rightarrow> report_clock \<Rightarrow> bool \<Rightarrow> detector_app \<Rightarrow> detector_app" where
  "report_detector line_size clock final a =
    (case clock of (due_now, now, later) \<Rightarrow>
       if \<not> final \<and> \<not> due (da_telemetry a) due_now then a
       else let m = dt_metrics (da_core a)
            in a\<lparr>da_telemetry := heartbeat line_size (da_telemetry a) now later (Inr (m, da_totals a)) (dm_malformed m) final\<rparr>)"

definition write_line :: "detector_line \<Rightarrow> detector_app \<Rightarrow> detector_app" where
  "write_line line a = a\<lparr>da_lines := da_lines a @ [line]\<rparr>"

definition receive_record :: "detector_pass \<Rightarrow> detector_app \<Rightarrow> detector_app \<times> detection option" where
  "receive_record p a =
    (case dp_datagram p of
       None \<Rightarrow> (a, None)
     | Some datagram \<Rightarrow>
         let received = take (dt_receive_bytes (da_core a)) datagram in
         if received = [] then (a, None)
         else let t = da_totals a;
                  before = dm_malformed (dt_metrics (da_core a));
                  (core, detection) = detector_consume (da_core a) received
              in (a\<lparr>da_core := core,
                    da_totals := t\<lparr>ds_rx_bytes := ds_rx_bytes t + of_nat (length received),
                      ds_processing_ns := ds_processing_ns t + of_int (dp_elapsed p), ds_processed := ds_processed t + 1\<rparr>,
                    da_telemetry := (if dm_malformed (dt_metrics core) = before
                      then note_activity (da_telemetry a) (dp_activity p) else da_telemetry a)\<rparr>,
                  detection))"

text \<open>A detection: the stream is alive, and one line per second of observation time.\<close>

definition handle_detection ::
  "(detector_data telemetry_record \<Rightarrow> nat) \<Rightarrow> detector_pass \<Rightarrow> detection \<Rightarrow> detector_app \<Rightarrow> detector_app" where
  "handle_detection line_size p detection a =
    (if dn_stream_id detection \<ge> 1 \<and> dn_stream_id detection \<le> 4 then
       let i = unat (dn_stream_id detection - 1);
           a = a\<lparr>da_last_seen := (da_last_seen a)[i := Some (dp_seen p)],
                 da_unavailable_reported := (da_unavailable_reported a)[i := False],
                 da_telemetry := report_detection line_size (da_telemetry a) (fst (dp_event p)) (snd (dp_event p)) (Inl detection)\<rparr>
       in if da_reported_seconds a ! i = None \<or> da_reported_seconds a ! i \<noteq> Some (seconds (dn_observation_time detection))
          then write_line (Detection_line detection)
                 (a\<lparr>da_reported_seconds := (da_reported_seconds a)[i := Some (seconds (dn_observation_time detection))]\<rparr>)
          else a
     else a)"

definition fell_silent :: "nanos \<Rightarrow> detector_app \<Rightarrow> nat \<Rightarrow> bool" where
  "fell_silent now a i \<longleftrightarrow>
     (case da_last_seen a ! i of
        None \<Rightarrow> False
      | Some t \<Rightarrow> \<not> da_unavailable_reported a ! i \<and> \<not> now - t < millis 5000)"

definition report_stale ::
  "(detector_data telemetry_record \<Rightarrow> nat) \<Rightarrow> detector_pass \<Rightarrow> detector_app \<Rightarrow> nat \<Rightarrow> detector_app" where
  "report_stale line_size p a i =
    (if \<not> fell_silent (dp_after p) a i then a
     else let unavailable = \<lparr>dn_stream_id = of_nat (i + 1), dn_observation_time = dp_wall p ! i,
                dn_frequency_hz = None, dn_validity = Unavailable\<rparr>;
              (now, later) = dp_stale_event p ! i;
              a = a\<lparr>da_telemetry := report_detection line_size (da_telemetry a) now later (Inl unavailable)\<rparr>;
              a = write_line (Detection_line unavailable) a
          in a\<lparr>da_core := note_unavailable (da_core a), da_unavailable_reported := (da_unavailable_reported a)[i := True]\<rparr>)"

definition write_detector_metrics :: "nanos \<Rightarrow> detector_app \<Rightarrow> detector_app" where
  "write_detector_metrics now a =
    (if now \<ge> da_next_metrics a
     then (write_line (Metrics_line (dt_metrics (da_core a))) a)\<lparr>da_next_metrics := da_next_metrics a + millis 1000\<rparr>
     else a)"

definition detector_pass_step ::
  "(detector_data telemetry_record \<Rightarrow> nat) \<Rightarrow> detector_pass \<Rightarrow> detector_app \<Rightarrow> detector_app result" where
  "detector_pass_step line_size p a =
    (let a = report_detector line_size (dp_report p) False a in
     if dp_poll p = Pass_failed then Inl (Runtime_error ''detector poll failed'')
     else let (a, detection) = receive_record p a;
              a = (case detection of None \<Rightarrow> a | Some r \<Rightarrow> handle_detection line_size p r a);
              a = foldl (report_stale line_size p) a [0..<4]
          in Inr (write_detector_metrics (dp_after p) a))"

fun detector_loop ::
  "(detector_data telemetry_record \<Rightarrow> nat) \<Rightarrow> nanos option \<Rightarrow> nanos \<Rightarrow> detector_app \<Rightarrow> detector_pass list \<Rightarrow> detector_app result" where
  "detector_loop line_size duration started a [] = Inr a"
| "detector_loop line_size duration started a (p # ps) =
    (if dp_stop p \<or> (case duration of None \<Rightarrow> False | Some d \<Rightarrow> dp_started p - started \<ge> d) then Inr a
     else ebind (detector_pass_step line_size p a) (\<lambda>a. detector_loop line_size duration started a ps))"

definition new_detector_app :: "u32 \<Rightarrow> nat \<Rightarrow> detector_data reporter \<Rightarrow> nanos \<Rightarrow> detector_app" where
  "new_detector_app fft_size receive_bytes telemetry started =
     \<lparr>da_core = new_detector fft_size receive_bytes,
      da_totals = \<lparr>ds_rx_bytes = 0, ds_processing_ns = 0, ds_processed = 0\<rparr>, da_telemetry = telemetry,
      da_next_metrics = started + millis 1000, da_reported_seconds = replicate 4 None, da_last_seen = replicate 4 None,
      da_unavailable_reported = replicate 4 False, da_lines = []\<rparr>"

definition run_detector ::
  "(detector_data telemetry_record \<Rightarrow> nat) \<Rightarrow> u32 \<Rightarrow> nat \<Rightarrow> nanos option \<Rightarrow> nanos \<Rightarrow> detector_data reporter result \<Rightarrow>
   detector_pass list \<Rightarrow> report_clock \<Rightarrow> detector_app result" where
  "run_detector line_size fft_size receive_bytes duration started telemetry passes final_clock =
     ebind telemetry (\<lambda>telemetry.
     ebind (detector_loop line_size duration started (new_detector_app fft_size receive_bytes telemetry started) passes) (\<lambda>a.
     let a = a\<lparr>da_core := detector_finish (da_core a)\<rparr>;
         a = report_detector line_size final_clock True a
     in Inr (write_line (Metrics_line (dt_metrics (da_core a))) a)))"

section \<open>The processor keeps its books\<close>

lemma pr_metrics_note [simp]:
  "pr_metrics (note_send_failure p) = (pr_metrics p)\<lparr>pm_send_failures := pm_send_failures (pr_metrics p) + 1\<rparr>"
  "pr_streams (note_send_failure p) = pr_streams p"
  by (simp_all add: note_send_failure_def)

lemma processor_ok_note [simp]: "processor_ok V cfg (note_send_failure p) = processor_ok V cfg p"
  by (simp add: processor_ok_def metrics_ok_def)

text \<open>The books: what the totals say is what was received, processed and sent.\<close>

definition processor_books :: "'c vita \<Rightarrow> core_config \<Rightarrow> 'c processor_app \<Rightarrow> bool" where
  "processor_books V cfg a \<longleftrightarrow> processor_ok V cfg (pa_core a) \<and>
     pd_limits (pm_discards (pr_metrics (pa_core a))) = 0 \<and>
     pt_processed (pa_totals a) = pm_datagrams (pr_metrics (pa_core a)) \<and>
     pt_tx_packets (pa_totals a) = of_nat (length (pa_destination a)) \<and>
     pt_tx_bytes (pa_totals a) = of_nat (sum_list (map length (pa_destination a))) \<and>
     (\<forall>frame \<in> set (pa_destination a). \<exists>listener. frame_of cfg listener frame)"

lemma send_frame_books:
  assumes "processor_books V cfg a" and "frame_of cfg listener (fst outcome)"
  shows "processor_books V cfg (send_frame a outcome)"
  using assms by (auto simp: processor_books_def send_frame_def Let_def split: prod.splits)

lemma send_frames_books:
  "processor_books V cfg a \<Longrightarrow> \<forall>o' \<in> set outcomes. frame_of cfg listener (fst o') \<Longrightarrow>
     processor_books V cfg (foldl send_frame a outcomes)"
  by (induction outcomes arbitrary: a) (auto intro: send_frame_books)

lemma books_telemetry [simp]:
  "processor_books V cfg (a\<lparr>pa_telemetry := t\<rparr>) = processor_books V cfg a"
  "processor_books V cfg (a\<lparr>pa_lines := l\<rparr>) = processor_books V cfg a"
  "processor_books V cfg (a\<lparr>pa_next_metrics := n\<rparr>) = processor_books V cfg a"
  by (simp_all add: processor_books_def)

lemma report_books [simp]: "processor_books V cfg (report_processor line_size clock final a) = processor_books V cfg a"
  by (cases clock) (simp add: report_processor_def Let_def)

lemma metrics_line_books [simp]: "processor_books V cfg (write_metrics_line now a) = processor_books V cfg a"
  by (simp add: write_metrics_line_def)

lemma consume_listener_books:
  assumes ok: "arithmetic_ok V cfg" "profile_ok V" and a: "processor_books V cfg a"
    and listener: "1 \<le> stream_id (fst input)" "stream_id (fst input) \<le> 4"
  shows "\<exists>a'. consume_listener V cfg stream_id a input = Inr a' \<and> processor_books V cfg a'"
proof -
  obtain index li where input: "input = (index, li)" by (cases input)
  show ?thesis
  proof (cases "li_datagram li = None \<or> take (cf_receive_bytes cfg) (the (li_datagram li)) = []")
    case True
    then show ?thesis using a by (auto simp: consume_listener_def input Let_def split: option.splits)
  next
    case False
    then obtain datagram where d: "li_datagram li = Some datagram" "take (cf_receive_bytes cfg) datagram \<noteq> []" by auto
    let ?d = "take (cf_receive_bytes cfg) datagram"
    have core: "processor_ok V cfg (pa_core a)" using a by (simp add: processor_books_def)
    from consume_returns [OF ok core, of "stream_id index" ?d] obtain core' out where
      c: "consume V cfg (stream_id index) ?d (pa_core a) = Inr (core', out)" "processor_ok V cfg core'"
        "\<forall>frame \<in> set out. frame_of cfg (stream_id index) frame"
        "pm_datagrams (pr_metrics core') = pm_datagrams (pr_metrics (pa_core a)) + 1"
        "pd_limits (pm_discards (pr_metrics core')) = pd_limits (pm_discards (pr_metrics (pa_core a)))"
      using listener input by auto
    let ?t = "pa_totals a"
    let ?a = "a\<lparr>pa_core := core',
       pa_totals := ?t\<lparr>pt_rx_bytes := pt_rx_bytes ?t + of_nat (length ?d),
         pt_processing_ns := pt_processing_ns ?t + of_int (li_elapsed li), pt_processed := pt_processed ?t + 1\<rparr>,
       pa_telemetry := (if pm_malformed (pr_metrics core') = pm_malformed (pr_metrics (pa_core a))
         then note_activity (pa_telemetry a) (li_activity li) else pa_telemetry a)\<rparr>"
    have "processor_books V cfg ?a" using a c by (simp add: processor_books_def)
    then have "processor_books V cfg (foldl send_frame ?a (zip out (map (li_sent li) [0..<length out])))"
      by (rule send_frames_books [where listener = "stream_id index"]) (use c(3) in \<open>auto dest!: set_zip_leftD\<close>)
    then show ?thesis using d c(1) by (simp add: consume_listener_def input Let_def)
  qed
qed

lemma consume_listeners_books:
  assumes ok: "arithmetic_ok V cfg" "profile_ok V"
  shows "processor_books V cfg a \<Longrightarrow> \<forall>input \<in> set inputs. 1 \<le> stream_id (fst input) \<and> stream_id (fst input) \<le> 4 \<Longrightarrow>
     \<exists>a'. efold (consume_listener V cfg stream_id) a inputs = Inr a' \<and> processor_books V cfg a'"
proof (induction inputs arbitrary: a)
  case Nil
  then show ?case by simp
next
  case (Cons input inputs)
  with consume_listener_books [OF ok, of a stream_id input] show ?case by auto
qed

definition listens :: "(nat \<Rightarrow> u32) \<Rightarrow> processor_pass \<Rightarrow> bool" where
  "listens stream_id p \<longleftrightarrow> pn_poll p \<noteq> Pass_failed \<and>
     (\<forall>input \<in> set (pn_listeners p). 1 \<le> stream_id (fst input) \<and> stream_id (fst input) \<le> 4)"

lemma processor_loop_books:
  assumes ok: "arithmetic_ok V cfg" "profile_ok V"
  shows "processor_books V cfg a \<Longrightarrow> \<forall>p \<in> set ps. listens stream_id p \<Longrightarrow>
     \<exists>a'. processor_loop line_size V cfg stream_id duration started a ps = Inr a' \<and> processor_books V cfg a'"
proof (induction ps arbitrary: a)
  case Nil
  then show ?case by simp
next
  case (Cons p ps)
  have p: "listens stream_id p" using Cons.prems by simp
  from consume_listeners_books [OF ok, of "report_processor line_size (pn_report p) False a" "pn_listeners p" stream_id]
  obtain b where "efold (consume_listener V cfg stream_id) (report_processor line_size (pn_report p) False a) (pn_listeners p) = Inr b"
    "processor_books V cfg b" using p Cons.prems(1) by (auto simp: listens_def)
  then have "\<exists>b. processor_pass_step line_size V cfg stream_id p a = Inr b \<and> processor_books V cfg b"
    using p by (auto simp: processor_pass_step_def Let_def listens_def)
  then show ?case using Cons by auto
qed

lemma new_processor_limits: "new_processor cfg = Inr core \<Longrightarrow> pr_metrics core = new_metrics"
  by (auto simp: new_processor_def ebind_eq_Inr)

lemma run_processor_books:
  fixes V :: "'c vita" and core :: "'c processor_core"
  assumes ok: "arithmetic_ok V cfg" "profile_ok V" and core: "new_processor cfg = Inr core"
    and ps: "\<forall>p \<in> set ps. listens stream_id p"
  shows "\<exists>a. run_processor line_size V cfg stream_id duration started (Inr telemetry) ps clock = Inr a \<and> processor_books V cfg a \<and>
    pa_lines a \<noteq> [] \<and> last (pa_lines a) = pr_metrics (pa_core a)"
proof -
  let ?a = "\<lparr>pa_core = core,
         pa_totals = \<lparr>pt_rx_bytes = 0, pt_tx_bytes = 0, pt_tx_packets = 0, pt_processing_ns = 0, pt_processed = 0\<rparr>,
         pa_telemetry = telemetry, pa_next_metrics = started + millis 1000, pa_lines = [], pa_destination = []\<rparr>"
  have "processor_books V cfg ?a"
    using new_processor_ok [OF core] new_processor_limits [OF core] by (simp add: processor_books_def new_metrics_def)
  from processor_loop_books [OF ok this ps, of line_size duration started] obtain a where
    a: "processor_loop line_size V cfg stream_id duration started ?a ps = Inr a" "processor_books V cfg a" by auto
  have same: "pa_core (report_processor line_size clock True a) = pa_core a"
    by (cases clock) (simp add: report_processor_def Let_def)
  show ?thesis
    using a by (simp add: run_processor_def core Let_def same)
qed

text \<open>C23. A run of the processor over any datagrams, losses of frames and clock readings ends in an orderly
  way unless \<open>poll\<close> fails: no exception escapes a handler. Its counters agree: the calls
  counted are the datagrams the core saw, the packets and bytes counted as sent are those of
  the frames that were sent whole, each of them a record the detector's decoder accepts, the
  discards add up to the malformed datagrams, and none is for its length, since the receive
  buffer cuts every datagram to the limit the handler would check.\<close>

theorem processor_run_books:
  fixes V :: "'c vita" and core :: "'c processor_core"
  assumes "arithmetic_ok V cfg" "profile_ok V" and "new_processor cfg = Inr core"
    and "\<forall>p \<in> set ps. listens stream_id p"
  shows "\<exists>a. run_processor line_size V cfg stream_id duration started (Inr telemetry) ps clock = Inr a \<and>
    (let m = pr_metrics (pa_core a); t = pa_totals a; sent = pa_destination a in
       pt_processed t = pm_datagrams m \<and> pt_tx_packets t = of_nat (length sent) \<and>
       pt_tx_bytes t = of_nat (sum_list (map length sent)) \<and>
       (\<forall>frame \<in> set sent. \<exists>sp. decode_spectrum frame = Inr sp \<and> sp_fft_size sp = pc_fft_size (cf_processing cfg)) \<and>
       pm_malformed m = reasons (pm_discards m) \<and> pd_limits (pm_discards m) = 0 \<and> last (pa_lines a) = m)"
  using run_processor_books [OF assms, of line_size duration started telemetry clock]
  by (auto simp: processor_books_def processor_ok_def metrics_ok_def frame_of_def Let_def)

definition example_listener :: listener_input where
  "example_listener = \<lparr>li_datagram = Some [1, 0, 5, 5], li_elapsed = 1000, li_activity = 0, li_sent = (\<lambda>_. True)\<rparr>"

definition example_processor_pass :: processor_pass where
  "example_processor_pass = \<lparr>pn_stop = False, pn_started = 0, pn_report = (0, 0, 0), pn_poll = Pass_ready,
     pn_listeners = [(0, example_listener), (1, example_listener)], pn_after = 2000000000\<rparr>"

theorem processor_run_books_witness:
  "\<exists>a. run_processor (\<lambda>_. 0) example_vita example_core (\<lambda>index. of_nat index + 1) None 0 (Inr (new_reporter 5000 0 0))
      [example_processor_pass, example_processor_pass] (0, 0, 0) = Inr a \<and>
    pm_malformed (pr_metrics (pa_core a)) = reasons (pm_discards (pr_metrics (pa_core a)))"
proof -
  have p: "\<forall>p \<in> set [example_processor_pass, example_processor_pass]. listens (\<lambda>index. of_nat index + 1) p"
    by (simp add: listens_def example_processor_pass_def)
  have "new_processor example_core = Inr \<lparr>pr_streams = replicate 4 (new_stream :: complex stream_state), pr_metrics = new_metrics\<rparr>"
    by (simp add: new_processor_def validate_config_def require_spectrum_def example_core_def)
  from processor_run_books [OF example_arithmetic example_profile this p, of "\<lambda>_. 0" None 0 "new_reporter 5000 0 0" "(0, 0, 0)"]
  show ?thesis unfolding Let_def by blast
qed

section \<open>The detector tells when a stream falls silent\<close>

definition unavailable_lines :: "nat \<Rightarrow> detector_line list \<Rightarrow> nat" where
  "unavailable_lines i ls = length (filter (\<lambda>l. case l of
      Detection_line d \<Rightarrow> dn_validity d = Unavailable \<and> dn_stream_id d = of_nat (i + 1)
    | Metrics_line _ \<Rightarrow> False) ls)"

definition detector_app_ok :: "detector_app \<Rightarrow> bool" where
  "detector_app_ok a \<longleftrightarrow> detector_ok (da_core a) \<and> length (da_reported_seconds a) = 4 \<and> length (da_last_seen a) = 4 \<and>
     length (da_unavailable_reported a) = 4 \<and>
     (\<forall>i < 4. da_unavailable_reported a ! i \<longrightarrow> da_last_seen a ! i \<noteq> None)"

lemma unavailable_lines_snoc [simp]:
  "unavailable_lines i (ls @ [l]) = unavailable_lines i ls + (case l of
      Detection_line d \<Rightarrow> if dn_validity d = Unavailable \<and> dn_stream_id d = of_nat (i + 1) then 1 else 0
    | Metrics_line _ \<Rightarrow> 0)"
  by (simp add: unavailable_lines_def split: detector_line.split)

lemma stream_number:
  assumes "i < 4" "j < 4"
  shows "(of_nat (i + 1) :: u32) = of_nat (j + 1) \<longleftrightarrow> i = j"
proof -
  have "i = 0 \<or> i = 1 \<or> i = 2 \<or> i = 3" "j = 0 \<or> j = 1 \<or> j = 2 \<or> j = 3" using assms by linarith+
  then show ?thesis by auto
qed

lemma report_stale_simps [simp]:
  "da_last_seen (report_stale line_size p a i) = da_last_seen a"
  "da_reported_seconds (report_stale line_size p a i) = da_reported_seconds a"
  "da_unavailable_reported (report_stale line_size p a i) =
     (if fell_silent (dp_after p) a i then (da_unavailable_reported a)[i := True] else da_unavailable_reported a)"
  by (simp_all add: report_stale_def write_line_def Let_def split: prod.split)

lemma report_stale_lines:
  assumes "i < 4" "j < 4"
  shows "unavailable_lines j (da_lines (report_stale line_size p a i)) =
    unavailable_lines j (da_lines a) + (if i = j \<and> fell_silent (dp_after p) a i then 1 else 0)"
  using stream_number [OF assms]
  by (simp add: report_stale_def write_line_def Let_def split: prod.split)

lemma report_stale_ok: "detector_app_ok a \<Longrightarrow> detector_app_ok (report_stale line_size p a i)"
  by (cases "i < 4")
    (auto simp: detector_app_ok_def report_stale_def write_line_def Let_def detector_ok_def note_unavailable_def fell_silent_def
      nth_list_update list_update_beyond split: prod.split option.splits)

lemma stale_other: "i \<noteq> j \<Longrightarrow> fell_silent now (report_stale line_size p a i) j = fell_silent now a j"
  by (auto simp: fell_silent_def split: option.split)

lemma report_stale_all:
  fixes line_size :: "detector_data telemetry_record \<Rightarrow> nat" and p :: detector_pass
  assumes "distinct is" "set is \<subseteq> {..<4}" "j < 4" "length (da_unavailable_reported a) = 4"
  defines "a' \<equiv> foldl (report_stale line_size p) a is"
  shows "da_last_seen a' = da_last_seen a \<and>
    da_unavailable_reported a' ! j = (da_unavailable_reported a ! j \<or> (j \<in> set is \<and> fell_silent (dp_after p) a j)) \<and>
    unavailable_lines j (da_lines a') = unavailable_lines j (da_lines a) + (if j \<in> set is \<and> fell_silent (dp_after p) a j then 1 else 0)"
  using assms(1,2,4) unfolding a'_def
proof (induction "is" arbitrary: a)
  case Nil
  then show ?case by simp
next
  case (Cons i "is")
  let ?b = "report_stale line_size p a i"
  have IH: "da_last_seen (foldl (report_stale line_size p) ?b is) = da_last_seen ?b \<and>
    da_unavailable_reported (foldl (report_stale line_size p) ?b is) ! j =
      (da_unavailable_reported ?b ! j \<or> (j \<in> set is \<and> fell_silent (dp_after p) ?b j)) \<and>
    unavailable_lines j (da_lines (foldl (report_stale line_size p) ?b is)) =
      unavailable_lines j (da_lines ?b) + (if j \<in> set is \<and> fell_silent (dp_after p) ?b j then 1 else 0)"
    by (rule Cons.IH) (use Cons.prems in simp_all)
  have i: "i < 4" using Cons.prems by simp
  show ?case
  proof (cases "i = j")
    case True
    then show ?thesis using IH Cons.prems i assms(3) by (auto simp: report_stale_lines)
  next
    case False
    then show ?thesis using IH Cons.prems i assms(3) by (auto simp: report_stale_lines stale_other)
  qed
qed

lemma detect_validity: "detector_consume d datagram = (d', Some r) \<Longrightarrow>
    dn_validity r \<noteq> Unavailable \<and> dn_stream_id r \<noteq> 0 \<and> unat (dn_stream_id r) \<le> length (dt_sequences d)"
  by (auto simp: detector_consume_def detect_def Let_def not_less split: sum.splits if_splits)

text \<open>The detection of the pass, when there is one.\<close>

definition heard :: "detector_pass \<Rightarrow> detector_app \<Rightarrow> nat \<Rightarrow> bool" where
  "heard p a i \<longleftrightarrow> (\<exists>r. snd (receive_record p a) = Some r \<and> dn_stream_id r = of_nat (i + 1))"

lemma receive_record_simps [simp]:
  "da_last_seen (fst (receive_record p a)) = da_last_seen a"
  "da_unavailable_reported (fst (receive_record p a)) = da_unavailable_reported a"
  "da_reported_seconds (fst (receive_record p a)) = da_reported_seconds a"
  "da_lines (fst (receive_record p a)) = da_lines a"
  by (simp_all add: receive_record_def Let_def split: option.splits prod.splits)

lemma receive_record_ok: "detector_app_ok a \<Longrightarrow> detector_app_ok (fst (receive_record p a))"
  using detector_consume_ok [of "da_core a"]
  by (auto simp: detector_app_ok_def receive_record_def Let_def split: option.splits prod.splits) (metis fst_conv)+

lemma handle_detection_simps:
  fixes line_size :: "detector_data telemetry_record \<Rightarrow> nat" and p :: detector_pass
  assumes r: "dn_stream_id r \<noteq> 0" "dn_stream_id r \<le> 4" "dn_validity r \<noteq> Unavailable"
    and a: "length (da_last_seen a) = 4" "length (da_unavailable_reported a) = 4" and j: "j < 4"
  defines "a' \<equiv> handle_detection line_size p r a"
  shows "da_last_seen a' ! j = (if dn_stream_id r = of_nat (j + 1) then Some (dp_seen p) else da_last_seen a ! j)"
    "da_unavailable_reported a' ! j = (dn_stream_id r \<noteq> of_nat (j + 1) \<and> da_unavailable_reported a ! j)"
    "unavailable_lines j (da_lines a') = unavailable_lines j (da_lines a)"
proof -
  let ?i = "unat (dn_stream_id r - 1)"
  have one: "1 \<le> dn_stream_id r" using r(1) by unat_arith
  then have "?i < 4" using r(2) by unat_arith
  have "of_nat (?i + 1) = dn_stream_id r" by simp
  then have e: "dn_stream_id r = of_nat (j + 1) \<longleftrightarrow> ?i = j" using stream_number [OF \<open>?i < 4\<close> j] by simp
  have u: "(da_unavailable_reported a)[?i := False] ! j = (?i \<noteq> j \<and> da_unavailable_reported a ! j)"
    using a j by (cases "?i = j") simp_all
  show "da_last_seen a' ! j = (if dn_stream_id r = of_nat (j + 1) then Some (dp_seen p) else da_last_seen a ! j)"
    "da_unavailable_reported a' ! j = (dn_stream_id r \<noteq> of_nat (j + 1) \<and> da_unavailable_reported a ! j)"
    "unavailable_lines j (da_lines a') = unavailable_lines j (da_lines a)"
    unfolding a'_def e using one r a j by (auto simp: u handle_detection_def Let_def write_line_def nth_list_update)
qed

lemma handle_detection_ok:
  assumes "detector_app_ok a" and r: "dn_stream_id r \<noteq> 0" "dn_stream_id r \<le> 4" "dn_validity r \<noteq> Unavailable"
  shows "detector_app_ok (handle_detection line_size p r a)"
proof -
  let ?b = "handle_detection line_size p r a"
  have l: "length (da_last_seen a) = 4" "length (da_unavailable_reported a) = 4" using assms by (simp_all add: detector_app_ok_def)
  have "da_core ?b = da_core a" "length (da_reported_seconds ?b) = length (da_reported_seconds a)"
    "length (da_last_seen ?b) = length (da_last_seen a)" "length (da_unavailable_reported ?b) = length (da_unavailable_reported a)"
    by (simp_all add: handle_detection_def Let_def write_line_def)
  then show ?thesis
    using assms(1) handle_detection_simps [OF r l] by (auto simp: detector_app_ok_def split: if_splits)
qed

lemma report_detector_simps [simp]:
  "da_core (report_detector line_size clock final a) = da_core a"
  "da_last_seen (report_detector line_size clock final a) = da_last_seen a"
  "da_unavailable_reported (report_detector line_size clock final a) = da_unavailable_reported a"
  "da_reported_seconds (report_detector line_size clock final a) = da_reported_seconds a"
  "da_lines (report_detector line_size clock final a) = da_lines a"
  "detector_app_ok (report_detector line_size clock final a) = detector_app_ok a"
  by (cases clock; simp add: report_detector_def detector_app_ok_def Let_def)+

lemma heard_report [simp]: "heard p (report_detector line_size clock final a) i = heard p a i"
  by (simp add: heard_def receive_record_def Let_def split: option.split prod.split)

lemma write_detector_metrics_simps [simp]:
  "da_last_seen (write_detector_metrics now a) = da_last_seen a"
  "da_unavailable_reported (write_detector_metrics now a) = da_unavailable_reported a"
  "unavailable_lines i (da_lines (write_detector_metrics now a)) = unavailable_lines i (da_lines a)"
  "detector_app_ok (write_detector_metrics now a) = detector_app_ok a"
  by (simp_all add: write_detector_metrics_def write_line_def detector_app_ok_def)

lemma stale_all_ok: "detector_app_ok a \<Longrightarrow> detector_app_ok (foldl (report_stale line_size p) a is)"
  by (induction "is" arbitrary: a) (auto intro: report_stale_ok)

text \<open>The application after the receive and the detection of a pass.\<close>

definition listened :: "(detector_data telemetry_record \<Rightarrow> nat) \<Rightarrow> detector_pass \<Rightarrow> detector_app \<Rightarrow> detector_app" where
  "listened line_size p a =
    (let (b, detection) = receive_record p a
     in case detection of None \<Rightarrow> b | Some r \<Rightarrow> handle_detection line_size p r b)"

lemma listened_heard:
  fixes line_size :: "detector_data telemetry_record \<Rightarrow> nat" and p :: detector_pass
  assumes a: "detector_app_ok a" and i: "i < 4"
  defines "b \<equiv> listened line_size p a"
  shows "detector_app_ok b \<and> da_last_seen b ! i = (if heard p a i then Some (dp_seen p) else da_last_seen a ! i) \<and>
    da_unavailable_reported b ! i = (\<not> heard p a i \<and> da_unavailable_reported a ! i) \<and>
    unavailable_lines i (da_lines b) = unavailable_lines i (da_lines a)"
proof -
  obtain c det where c: "receive_record p a = (c, det)" by (cases "receive_record p a")
  have c': "detector_app_ok c" "da_last_seen c = da_last_seen a" "da_unavailable_reported c = da_unavailable_reported a"
    "da_lines c = da_lines a"
    using receive_record_ok [OF a, of p] receive_record_simps [of p a] by (simp_all add: c)
  show ?thesis
  proof (cases det)
    case None
    then show ?thesis using c c' by (simp add: b_def listened_def heard_def)
  next
    case (Some r)
    then obtain d' datagram where "detector_consume (da_core a) datagram = (d', Some r)"
      using c by (auto simp: receive_record_def Let_def split: option.splits prod.splits if_splits)
    from detect_validity [OF this] have v: "dn_validity r \<noteq> Unavailable" "dn_stream_id r \<noteq> 0" "unat (dn_stream_id r) \<le> 4"
      using a by (simp_all add: detector_app_ok_def detector_ok_def)
    then have r: "dn_stream_id r \<noteq> 0" "dn_stream_id r \<le> 4" "dn_validity r \<noteq> Unavailable" by (simp_all add: word_le_nat_alt)
    have l: "length (da_last_seen c) = 4" "length (da_unavailable_reported c) = 4" using c'(1) by (simp_all add: detector_app_ok_def)
    have h: "heard p a i \<longleftrightarrow> dn_stream_id r = of_nat (i + 1)" using c Some by (simp add: heard_def)
    have b: "b = handle_detection line_size p r c" using c Some by (simp add: b_def listened_def)
    show ?thesis
      unfolding h b using handle_detection_ok [OF c'(1) r] handle_detection_simps [OF r l i] c' by simp
  qed
qed

text \<open>C24. One pass of the detector, for any stream: a record of the stream makes it seen; a stream that
  was ever seen and has not been for five seconds gets one unavailable line, and no second one
  before a record of it arrives again. A pass that ends leaves no stream silent and unreported.\<close>

theorem detector_staleness:
  assumes "detector_app_ok a" and "dp_poll p \<noteq> Pass_failed" and "i < 4"
  shows "\<exists>a'. detector_pass_step line_size p a = Inr a' \<and> detector_app_ok a' \<and>
    (let seen = (if heard p a i then Some (dp_seen p) else da_last_seen a ! i);
         reported = (\<not> heard p a i \<and> da_unavailable_reported a ! i);
         silent = (\<exists>t. seen = Some t \<and> millis 5000 \<le> dp_after p - t)
     in da_last_seen a' ! i = seen \<and> da_unavailable_reported a' ! i = (reported \<or> silent) \<and>
        unavailable_lines i (da_lines a') = unavailable_lines i (da_lines a) + (if silent \<and> \<not> reported then 1 else 0))"
proof -
  define b where "b = report_detector line_size (dp_report p) False a"
  define c where "c = listened line_size p b"
  define d where "d = foldl (report_stale line_size p) c [0..<4]"
  have step: "detector_pass_step line_size p a = Inr (write_detector_metrics (dp_after p) d)"
    using assms(2) by (simp add: detector_pass_step_def b_def c_def d_def listened_def Let_def split: prod.split)
  have b: "detector_app_ok b" using assms(1) by (simp add: b_def)
  note c = listened_heard [OF b assms(3), of line_size p, folded c_def]
  have four: "set [0..<4] \<subseteq> {..<4 :: nat}" by auto
  have "length (da_unavailable_reported c) = 4" using c by (simp add: detector_app_ok_def)
  then have d: "da_last_seen d = da_last_seen c"
    "da_unavailable_reported d ! i = (da_unavailable_reported c ! i \<or> fell_silent (dp_after p) c i)"
    "unavailable_lines i (da_lines d) = unavailable_lines i (da_lines c) + (if fell_silent (dp_after p) c i then 1 else 0)"
    using report_stale_all [OF distinct_upt four assms(3), of c line_size p] assms(3) by (simp_all add: d_def)
  have "detector_app_ok d" using c by (simp add: d_def stale_all_ok)
  then show ?thesis
    unfolding step using c d by (auto simp: fell_silent_def Let_def b_def not_less split: option.split)
qed

definition silent_app :: detector_app where
  "silent_app = (new_detector_app 64 392 (new_reporter 0 0 0) 0)\<lparr>da_last_seen := [Some 0, None, Some 4000000000, None]\<rparr>"

definition silent_pass :: detector_pass where
  "silent_pass = \<lparr>dp_stop = False, dp_started = 0, dp_report = (0, 0, 0), dp_poll = Pass_interrupted, dp_datagram = None,
     dp_elapsed = 0, dp_activity = 0, dp_seen = 0, dp_event = (0, 0), dp_after = 5000000000,
     dp_wall = replicate 4 (ProtocolTime 9 0), dp_stale_event = replicate 4 (0, 0)\<rparr>"

theorem detector_staleness_witness:
  "\<exists>a'. detector_pass_step (\<lambda>_. 0) silent_pass silent_app = Inr a' \<and>
     unavailable_lines 0 (da_lines a') = 1 \<and> da_unavailable_reported a' ! 0"
proof -
  have ok: "detector_app_ok silent_app"
    using new_detector_ok [of 64 392] by (simp add: detector_app_ok_def silent_app_def new_detector_app_def)
  show ?thesis
    using detector_staleness [OF ok, of silent_pass 0 "\<lambda>_. 0"]
    by (auto simp: silent_pass_def heard_def receive_record_def silent_app_def new_detector_app_def millis_def
        unavailable_lines_def Let_def)
qed

section \<open>A datagram that is too long\<close>

lemma detector_consume_valid:
  assumes "decode_spectrum wire = Inr sp" and "sp_fft_size sp = dt_fft_size d" and "length (dt_sequences d) = 4"
    and "length wire \<le> dt_receive_bytes d"
  shows "\<exists>d' r. detector_consume d wire = (d', Some r) \<and> dm_malformed (dt_metrics d') = dm_malformed (dt_metrics d)"
proof -
  have v: "valid_spectrum sp" by (rule decode_valid [OF assms(1)])
  then have id: "\<not> sp_stream_id sp < 1" "unat (sp_stream_id sp) \<le> 4"
    by (simp_all add: valid_spectrum_def word_le_nat_alt word_less_nat_alt)
  obtain f where "detect_frequency sp = Inr f"
    using v by (cases "detect_frequency sp")
      (auto simp: detect_frequency_def validate_spectrum_def require_spectrum_def Let_def split: if_splits)
  then show ?thesis
    using assms id by (auto simp: detector_consume_def detect_def Let_def)
qed

text \<open>The detector never sees that a datagram is too long: its receive buffer is as long as a record,
  so a record followed by anything is cut by \<open>recv\<close> to the record and reported as a detection,
  where the handler would have counted the datagram as malformed.\<close>

lemma detector_accepts_oversize:
  assumes "decode_spectrum wire = Inr sp" and "sp_fft_size sp = dt_fft_size (da_core a)"
    and "dt_receive_bytes (da_core a) = length wire" and "detector_app_ok a" and "rest \<noteq> []"
    and "dp_datagram p = Some (wire @ rest)"
  shows "(\<exists>r. snd (receive_record p a) = Some r) \<and>
    dm_malformed (dt_metrics (da_core (fst (receive_record p a)))) = dm_malformed (dt_metrics (da_core a)) \<and>
    dm_malformed (dt_metrics (fst (detector_consume (da_core a) (wire @ rest)))) = dm_malformed (dt_metrics (da_core a)) + 1"
proof -
  have l: "length (dt_sequences (da_core a)) = 4" using assms(4) by (simp add: detector_app_ok_def detector_ok_def)
  have ne: "wire \<noteq> []" using assms(1) by (auto simp: decode_spectrum_def require_spectrum_def header_bytes_def)
  from detector_consume_valid [OF assms(1,2) l] assms(3) obtain d' r where
    d': "detector_consume (da_core a) wire = (d', Some r)" "dm_malformed (dt_metrics d') = dm_malformed (dt_metrics (da_core a))" by auto
  then have "snd (receive_record p a) = Some r" "da_core (fst (receive_record p a)) = d'"
    using assms(3,6) ne by (simp_all add: receive_record_def Let_def)
  moreover have "dm_malformed (dt_metrics (fst (detector_consume (da_core a) (wire @ rest)))) = dm_malformed (dt_metrics (da_core a)) + 1"
    using assms(3,5) by (simp add: detector_consume_def)
  ultimately show ?thesis using d'(2) by simp
qed

end
