(* ===== verification/Delivery.thy ===== *)
theory Delivery
  imports Pipeline
begin

text \<open>
  The two datagram handlers in a row: whatever arrives at the processor, the frames it emits,
  fed to the detector in order, are records of consecutive sequence numbers.
\<close>

section \<open>The frames of one call\<close>

text \<open>The codec's sample views answer at every position of the view, as its \<open>at\<close> does below \<open>size\<close>.\<close>

definition views_readable :: "'c vita \<Rightarrow> bool" where
  "views_readable V \<longleftrightarrow> (\<forall>payload view. vt_sample_view V payload = Some view \<longrightarrow> None \<notin> set view)"

definition record_bytes :: "core_config \<Rightarrow> nat" where
  "record_bytes cfg = 128 + fft_size_of cfg div 8 + 4 * fft_size_of cfg"

text \<open>Frames that are records of a stream, numbered from a sequence number on.\<close>

definition numbered :: "core_config \<Rightarrow> u32 \<Rightarrow> u32 \<Rightarrow> bytes list \<Rightarrow> bool" where
  "numbered cfg listener sequence frames \<longleftrightarrow>
     (\<forall>i < length frames. \<exists>sp. decode_spectrum (frames ! i) = Inr sp \<and> sp_stream_id sp = listener \<and>
        sp_fft_size sp = pc_fft_size (cf_processing cfg) \<and> sp_sequence sp = sequence + of_nat i)"

text \<open>What a call leaves: the frames are the next of the stream, none was dropped.\<close>

definition next_frames :: "core_config \<Rightarrow> u32 \<Rightarrow> 'c stream_state \<Rightarrow> processor_metrics \<Rightarrow> 'c appending result \<Rightarrow> bool" where
  "next_frames cfg listener s m r \<longleftrightarrow> (\<exists>s' m' frames. r = Inr (s', m', frames) \<and> numbered cfg listener (ss_sequence s) frames \<and>
     ss_sequence s' = ss_sequence s + of_nat (length frames) \<and> pm_unavailable m' = pm_unavailable m)"

lemma next_frames_none: "ss_sequence s' = ss_sequence s \<Longrightarrow> pm_unavailable m' = pm_unavailable m \<Longrightarrow>
    next_frames cfg listener s m (Inr (s', m', []))"
  by (simp add: next_frames_def numbered_def)

lemma unavailable_simps [simp]:
  "pm_unavailable (discard r m) = pm_unavailable m"
  by (simp add: discard_def)

lemma sequence_simps [simp]:
  "ss_sequence (count_gap gap e k s) = ss_sequence s"
  "ss_sequence (apply_context center rate e s) = ss_sequence s"
  by (simp_all add: count_gap_def apply_context_def Let_def)

lemma window_frame_numbered:
  assumes "window_frame V cfg listener s k w = Inr frame"
  shows "\<exists>sp. decode_spectrum frame = Inr sp \<and> sp_stream_id sp = listener \<and>
     sp_fft_size sp = pc_fft_size (cf_processing cfg) \<and> sp_sequence sp = ss_sequence s + of_nat k"
proof -
  let ?s = "s\<lparr>ss_sequence := ss_sequence s + of_nat k, ss_window_begin := begins (hd w),
             ss_window_ordinal := first_ordinal s + of_nat (k * fft_size_of cfg)\<rparr>"
  from assms obtain sp where sp: "power_spectrum (vt_arithmetic V)
        \<lparr>pc_sample_rate_hz = ss_sample_rate_hz s, pc_fft_size = pc_fft_size (cf_processing cfg),
         pc_overlap_samples = 0\<rparr> (map fst w) (map flag w) = Inr sp"
    and e: "encode_spectrum (tag_spectrum cfg listener ?s sp) = Inr frame"
    by (auto simp: window_frame_def ebind_eq_Inr)
  then show ?thesis
    using spectrum_codec.dec_enc [OF e] power_spectrum_size [OF sp] by (auto simp: tag_spectrum_def)
qed

lemma emap_nth: "emap f xs = Inr ys \<Longrightarrow> i < length xs \<Longrightarrow> f (xs ! i) = Inr (ys ! i)"
proof (induction xs arbitrary: ys i)
  case Nil
  then show ?case by simp
next
  case (Cons x xs)
  then show ?case by (cases i) (auto simp: ebind_eq_Inr)
qed

lemma frames_numbered:
  assumes "emap (\<lambda>k. window_frame V cfg listener s k (w k)) [0..<n] = Inr frames"
  shows "length frames = n \<and> numbered cfg listener (ss_sequence s) frames"
proof
  show n: "length frames = n" using emap_length [OF assms] by simp
  show "numbered cfg listener (ss_sequence s) frames"
    unfolding numbered_def using emap_nth [OF assms] n by (auto intro: window_frame_numbered)
qed

lemma gap_at_most: "unat (packet_gap previous count) \<le> 15"
proof -
  have "unat (x AND 15 :: u8) \<le> 15" for x
  proof -
    have "x AND 15 \<le> (15 :: u8)" by (rule word_and_le1)
    then show ?thesis by (simp add: word_le_nat_alt)
  qed
  then show ?thesis by (simp add: packet_gap_def Let_def split: option.split)
qed

text \<open>A call completes at most sixteen windows.\<close>

lemma windows_at_most:
  assumes "p < n" "g \<le> 15" "q \<le> n" "k \<le> (n :: nat)"
  shows "(p + (g * q + k)) div n \<le> 16"
proof -
  have "g * q \<le> 15 * n" using assms by (intro mult_le_mono)
  then have "p + (g * q + k) < 17 * n" using assms by linarith
  then have "(p + (g * q + k)) div n < 17" using assms by (simp add: less_mult_imp_div_less)
  then show ?thesis by simp
qed

lemma consume_data_next:
  assumes ok: "arithmetic_ok V cfg" "profile_ok V" "1 \<le> listener" "listener \<le> 4"
    and s: "stream_ok V cfg s" "ss_metadata_valid s" and ps: "length ps \<le> fft_size_of cfg" and limit: "16 \<le> cf_queue_limit cfg"
  shows "next_frames cfg listener s m (consume_data V cfg listener e (map Some ps) s m)"
proof -
  define gap where "gap = packet_gap (ss_packet_count s) (en_packet_count e)"
  define start where "start = (if unat gap * ss_previous_pairs s \<noteq> 0
    then subtract_samples (packet_time e) (of_nat (unat gap * ss_previous_pairs s)) (ss_sample_rate_hz s) else Inr (packet_time e))"
  show ?thesis
  proof (cases start)
    case (Inl x)
    have "consume_data V cfg listener e (map Some ps) s m =
        Inr (count_gap gap e (length ps) s, discard Timestamp_range (count_gap_metrics gap m), [])"
      unfolding consume_data_cases Let_def length_map gap_def [symmetric] start_def [symmetric] Inl by simp
    then show ?thesis by (simp add: next_frames_none)
  next
    case (Inr t0)
    let ?s1 = "count_gap gap e (length ps) s"
    let ?xs = "missing_items V (ss_sample_rate_hz s) t0 (unat gap * ss_previous_pairs s) @ data_items V (packet_time e) ps"
    let ?w = "length (pending s @ ?xs) div fft_size_of cfg"
    have l: "length (pending s) < fft_size_of cfg" "ss_previous_pairs s \<le> fft_size_of cfg"
      using s(1) by (simp_all add: stream_ok_def)
    have "length ?xs = unat gap * ss_previous_pairs s + length ps" by (simp add: missing_items_def data_items_def)
    then have w: "?w \<le> 16" using windows_at_most [OF l(1) gap_at_most l(2) ps] by (simp add: gap_def)
    from consume_data_windows [OF ok s ps, of e t0 m, folded gap_def, folded start_def, OF Inr, unfolded Let_def] obtain frames where
      f: "emap (\<lambda>k. window_frame V cfg listener ?s1 k (window (fft_size_of cfg) k (pending s @ ?xs))) [0..<min ?w (cf_queue_limit cfg)] = Inr frames"
      and r: "consume_data V cfg listener e (map Some ps) s m = Inr (after cfg ?s1 ?xs,
         (count_gap_metrics gap m)\<lparr>pm_spectra := pm_spectra (count_gap_metrics gap m) + of_nat (length frames),
            pm_unavailable := pm_unavailable (count_gap_metrics gap m) + of_nat (?w - length frames)\<rparr>, frames)"
      by (elim exE conjE)
    from frames_numbered [OF f] w limit have "length frames = ?w" "numbered cfg listener (ss_sequence s) frames" by simp_all
    then show ?thesis by (simp add: r next_frames_def after_simps)
  qed
qed

lemma consume_stream_next:
  assumes ok: "arithmetic_ok V cfg" "profile_ok V" "1 \<le> listener" "listener \<le> 4" and s: "stream_ok V cfg s"
    and limit: "16 \<le> cf_queue_limit cfg" and views: "views_readable V"
  shows "next_frames cfg listener s m (consume_stream V cfg listener datagram s m)"
proof -
  have data: "next_frames cfg listener s m (consume_data V cfg listener e view s m)"
    if "vt_sample_view V payload = Some view" "ss_metadata_valid s" "\<not> length view > unat (pc_fft_size (cf_processing cfg))"
    for e view payload
  proof -
    from that(1) views have "None \<notin> set view" by (auto simp: views_readable_def)
    then obtain ps where "view = map Some ps" by (cases rule: view_cases [of view]) auto
    then show ?thesis using consume_data_next [OF ok s that(2) _ limit] that(3) by (simp add: fft_size_of_def)
  qed
  show ?thesis
    unfolding consume_stream_def Let_def
    using data by (auto split: option.splits intro!: next_frames_none)
qed

section \<open>The detector follows\<close>

text \<open>The detector expects, of every stream it knows, the frame the processor will number next.\<close>

definition expects :: "'c processor_core \<Rightarrow> detector_core \<Rightarrow> bool" where
  "expects p d \<longleftrightarrow> (\<forall>i < 4. case dt_sequences d ! i of None \<Rightarrow> True | Some q \<Rightarrow> q + 1 = ss_sequence (pr_streams p ! i))"

definition detector_calm :: "core_config \<Rightarrow> detector_core \<Rightarrow> bool" where
  "detector_calm cfg d \<longleftrightarrow> detector_ok d \<and> dt_fft_size d = pc_fft_size (cf_processing cfg) \<and>
     record_bytes cfg \<le> dt_receive_bytes d \<and> dm_malformed (dt_metrics d) = 0 \<and> dm_sequence_gaps (dt_metrics d) = 0"

definition feed_detector :: "detector_core \<Rightarrow> bytes list \<Rightarrow> detector_core" where
  "feed_detector d frames = foldl (\<lambda>d frame. fst (detector_consume d frame)) d frames"

lemma decode_length: "decode_spectrum w = Inr sp \<Longrightarrow> length w = 128 + unat (sp_fft_size sp) div 8 + 4 * unat (sp_fft_size sp)"
proof -
  assume "decode_spectrum w = Inr sp"
  then have "spectrum_wire_size (ucast (sp_fft_size sp)) = Inr (length w)" by (auto simp: decode_cases split: if_splits)
  from wire_size_Inr [OF this] show ?thesis by simp
qed

lemma detector_frame:
  assumes d: "detector_calm cfg d" and frame: "decode_spectrum frame = Inr sp" "sp_fft_size sp = pc_fft_size (cf_processing cfg)"
    and i: "i = unat (sp_stream_id sp - 1)"
    and q: "dt_sequences d ! i = None \<or> dt_sequences d ! i = Some (sp_sequence sp - 1)"
  shows "detector_calm cfg (fst (detector_consume d frame)) \<and>
    dt_sequences (fst (detector_consume d frame)) = (dt_sequences d)[i := Some (sp_sequence sp)]"
proof -
  have v: "valid_spectrum sp" by (rule decode_valid [OF frame(1)])
  then have id: "\<not> sp_stream_id sp < 1" "unat (sp_stream_id sp) \<le> 4"
    by (simp_all add: valid_spectrum_def word_le_nat_alt word_less_nat_alt)
  obtain f where f: "detect_frequency sp = Inr f"
    using v by (cases "detect_frequency sp")
      (auto simp: detect_frequency_def validate_spectrum_def require_spectrum_def Let_def split: if_splits)
  have l: "length frame \<le> dt_receive_bytes d"
    using decode_length [OF frame(1)] d frame(2) by (simp add: detector_calm_def record_bytes_def fft_size_of_def)
  have n: "length (dt_sequences d) = 4" using d by (simp add: detector_calm_def detector_ok_def)
  have ok: "detector_ok (fst (detector_consume d frame))"
    using d by (intro detector_consume_ok) (simp add: detector_calm_def)
  show ?thesis
    using d frame id f l n q ok
    by (auto simp: detector_consume_def detect_def detector_calm_def Let_def i)
qed

lemma stream_index: "1 \<le> listener \<Longrightarrow> listener \<le> (4 :: u32) \<Longrightarrow> unat (listener - 1) < 4"
  using listener_index [of listener] by (metis not_less)

lemma feed_numbered:
  assumes "detector_calm cfg d" "1 \<le> listener" "listener \<le> 4" and "numbered cfg listener sequence frames"
    and "case dt_sequences d ! unat (listener - 1) of None \<Rightarrow> True | Some q \<Rightarrow> q + 1 = sequence"
  shows "detector_calm cfg (feed_detector d frames) \<and>
    (\<forall>j. j \<noteq> unat (listener - 1) \<longrightarrow> dt_sequences (feed_detector d frames) ! j = dt_sequences d ! j) \<and>
    (case dt_sequences (feed_detector d frames) ! unat (listener - 1) of None \<Rightarrow> True
     | Some q \<Rightarrow> q + 1 = sequence + of_nat (length frames))"
  using assms(1,4,5)
proof (induction frames arbitrary: d sequence)
  case Nil
  then show ?case by (simp add: feed_detector_def split: option.splits)
next
  case (Cons frame frames)
  from Cons.prems(2) obtain sp where sp: "decode_spectrum frame = Inr sp" "sp_stream_id sp = listener"
    "sp_fft_size sp = pc_fft_size (cf_processing cfg)" "sp_sequence sp = sequence"
    using Cons.prems(2) [unfolded numbered_def, rule_format, of 0] by auto
  have rest: "numbered cfg listener (sequence + 1) frames"
    unfolding numbered_def
  proof (intro allI impI)
    fix i assume "i < length frames"
    then have i: "Suc i < length (frame # frames)" by simp
    show "\<exists>sp. decode_spectrum (frames ! i) = Inr sp \<and> sp_stream_id sp = listener \<and>
        sp_fft_size sp = pc_fft_size (cf_processing cfg) \<and> sp_sequence sp = sequence + 1 + of_nat i"
      using Cons.prems(2) [unfolded numbered_def, rule_format, OF i] by (simp add: add.assoc)
  qed
  let ?d = "fst (detector_consume d frame)" and ?i = "unat (listener - 1)"
  have "dt_sequences d ! ?i = None \<or> dt_sequences d ! ?i = Some (sp_sequence sp - 1)"
    using Cons.prems(3) sp(4) by (cases "dt_sequences d ! ?i") auto
  from detector_frame [OF Cons.prems(1) sp(1,3) refl] this
  have step: "detector_calm cfg ?d" "dt_sequences ?d = (dt_sequences d)[?i := Some sequence]"
    by (simp_all add: sp)
  have "length (dt_sequences d) = 4" using Cons.prems(1) by (simp add: detector_calm_def detector_ok_def)
  then have "dt_sequences ?d ! ?i = Some sequence" using step(2) stream_index [OF assms(2,3)] by simp
  then have e: "case dt_sequences ?d ! ?i of None \<Rightarrow> True | Some q \<Rightarrow> q + 1 = sequence + 1" by simp
  have feed: "feed_detector d (frame # frames) = feed_detector ?d frames" by (simp add: feed_detector_def)
  have count: "sequence + 1 + of_nat (length frames) = sequence + of_nat (length (frame # frames))" by simp
  show ?case
    using Cons.IH [OF step(1) rest e] unfolding feed count step(2) by simp
qed

text \<open>Both handlers as one transition system: a datagram arrives, its frames are delivered.\<close>

definition deliver :: "'c vita \<Rightarrow> core_config \<Rightarrow> 'c processor_core \<times> detector_core \<Rightarrow> u32 \<times> bytes \<Rightarrow> 'c processor_core \<times> detector_core" where
  "deliver V cfg state event =
     (case consume V cfg (fst event) (snd event) (fst state) of
        Inl _ \<Rightarrow> state
      | Inr (p, frames) \<Rightarrow> (p, feed_detector (snd state) frames))"

definition delivery_good :: "'c vita \<Rightarrow> core_config \<Rightarrow> 'c processor_core \<times> detector_core \<Rightarrow> bool" where
  "delivery_good V cfg state \<longleftrightarrow> arithmetic_ok V cfg \<and> profile_ok V \<and> views_readable V \<and> 16 \<le> cf_queue_limit cfg \<and>
     processor_ok V cfg (fst state) \<and> pm_unavailable (pr_metrics (fst state)) = 0 \<and>
     detector_calm cfg (snd state) \<and> expects (fst state) (snd state)"

lemma deliver_good:
  assumes "delivery_good V cfg state"
  shows "delivery_good V cfg (deliver V cfg state event)"
proof -
  obtain p d where state: "state = (p, d)" by (cases state)
  obtain listener datagram where event: "event = (listener, datagram)" by (cases event)
  have g: "arithmetic_ok V cfg" "profile_ok V" "views_readable V" "16 \<le> cf_queue_limit cfg" "processor_ok V cfg p"
    "pm_unavailable (pr_metrics p) = 0" "detector_calm cfg d" "expects p d"
    using assms by (simp_all add: delivery_good_def state)
  from consume_returns [OF g(1,2,5), of listener datagram] obtain p' frames where
    c: "consume V cfg listener datagram p = Inr (p', frames)" "processor_ok V cfg p'"
      "\<forall>i < 4. of_nat (i + 1) \<noteq> listener \<longrightarrow> pr_streams p' ! i = pr_streams p ! i" by auto
  have "detector_calm cfg (feed_detector d frames) \<and> expects p' (feed_detector d frames) \<and> pm_unavailable (pr_metrics p') = 0"
  proof (cases "listener < 1 \<or> listener > 4 \<or> length datagram > cf_receive_bytes cfg")
    case True
    then have "p' = p\<lparr>pr_metrics := discard Limits ((pr_metrics p)\<lparr>pm_datagrams := pm_datagrams (pr_metrics p) + 1\<rparr>)\<rparr>" "frames = []"
      using c(1) by (auto simp: consume_def Let_def)
    then show ?thesis using g by (auto simp: feed_detector_def expects_def split: option.splits)
  next
    case False
    have l: "1 \<le> listener" "listener \<le> 4" using False by (metis not_less)+
    let ?i = "unat (listener - 1)" and ?m = "(pr_metrics p)\<lparr>pm_datagrams := pm_datagrams (pr_metrics p) + 1\<rparr>"
    let ?s = "pr_streams p ! ?i"
    have i: "?i < 4" using l by (rule stream_index)
    have len: "length (pr_streams p) = 4" using g(5) by (simp add: processor_ok_def)
    have s: "stream_ok V cfg ?s" using g(5) i by (auto simp: processor_ok_def)
    from consume_stream_next [OF g(1,2) l s g(4,3), of ?m datagram] obtain s' m' frames' where
      r: "consume_stream V cfg listener datagram ?s ?m = Inr (s', m', frames')" "numbered cfg listener (ss_sequence ?s) frames'"
        "ss_sequence s' = ss_sequence ?s + of_nat (length frames')" "pm_unavailable m' = 0"
      using g(6) by (auto simp: next_frames_def)
    have p': "p' = p\<lparr>pr_streams := (pr_streams p)[?i := s'], pr_metrics := m'\<rparr>" "frames = frames'"
      using c(1) False r(1) by (simp_all add: consume_def Let_def)
    have e: "case dt_sequences d ! ?i of None \<Rightarrow> True | Some q \<Rightarrow> q + 1 = ss_sequence ?s"
      using g(8) i by (simp add: expects_def)
    note f = feed_numbered [OF g(7) l r(2) e]
    have "expects p' (feed_detector d frames)"
      unfolding expects_def
    proof (intro allI impI)
      fix j :: nat assume j: "j < 4"
      have sj: "ss_sequence (pr_streams p' ! j) = (if j = ?i then ss_sequence s' else ss_sequence (pr_streams p ! j))"
        using i len by (simp add: p')
      show "case dt_sequences (feed_detector d frames) ! j of None \<Rightarrow> True | Some q \<Rightarrow> q + 1 = ss_sequence (pr_streams p' ! j)"
        unfolding sj p'(2) using f g(8) j by (cases "j = ?i") (auto simp: r(3) expects_def split: option.splits)
    qed
    then show ?thesis using f r(4) by (simp add: p')
  qed
  then show ?thesis using g c by (simp add: delivery_good_def deliver_def state event)
qed

interpretation delivery: transition_system "deliver V cfg" "delivery_good V cfg" for V cfg
  by unfold_locales (rule deliver_good)

text \<open>Whatever the queue limit, the frames are records the detector accepts.\<close>

definition detector_unharmed :: "core_config \<Rightarrow> detector_core \<Rightarrow> bool" where
  "detector_unharmed cfg d \<longleftrightarrow> detector_ok d \<and> dt_fft_size d = pc_fft_size (cf_processing cfg) \<and>
     record_bytes cfg \<le> dt_receive_bytes d \<and> dm_malformed (dt_metrics d) = 0"

definition delivery_sound :: "'c vita \<Rightarrow> core_config \<Rightarrow> 'c processor_core \<times> detector_core \<Rightarrow> bool" where
  "delivery_sound V cfg state \<longleftrightarrow> arithmetic_ok V cfg \<and> profile_ok V \<and> processor_ok V cfg (fst state) \<and>
     detector_unharmed cfg (snd state)"

lemma unharmed_frame:
  assumes d: "detector_unharmed cfg d" and frame: "frame_of cfg listener frame"
  shows "detector_unharmed cfg (fst (detector_consume d frame))"
proof -
  obtain sp where sp: "decode_spectrum frame = Inr sp" "sp_fft_size sp = pc_fft_size (cf_processing cfg)"
    using frame by (auto simp: frame_of_def)
  have v: "valid_spectrum sp" by (rule decode_valid [OF sp(1)])
  then have id: "\<not> sp_stream_id sp < 1" "unat (sp_stream_id sp) \<le> 4"
    by (simp_all add: valid_spectrum_def word_le_nat_alt word_less_nat_alt)
  obtain f where f: "detect_frequency sp = Inr f"
    using v by (cases "detect_frequency sp")
      (auto simp: detect_frequency_def validate_spectrum_def require_spectrum_def Let_def split: if_splits)
  have l: "length frame \<le> dt_receive_bytes d"
    using decode_length [OF sp(1)] d sp(2) by (simp add: detector_unharmed_def record_bytes_def fft_size_of_def)
  have n: "length (dt_sequences d) = 4" using d by (simp add: detector_unharmed_def detector_ok_def)
  have ok: "detector_ok (fst (detector_consume d frame))"
    using d by (intro detector_consume_ok) (simp add: detector_unharmed_def)
  show ?thesis
    using d sp id f l n ok by (auto simp: detector_consume_def detect_def detector_unharmed_def Let_def split: option.split)
qed

lemma unharmed_feed:
  "detector_unharmed cfg d \<Longrightarrow> \<forall>frame \<in> set frames. frame_of cfg listener frame \<Longrightarrow> detector_unharmed cfg (feed_detector d frames)"
proof (induction frames arbitrary: d)
  case (Cons frame frames)
  then have "detector_unharmed cfg (feed_detector (fst (detector_consume d frame)) frames)"
    using unharmed_frame [OF Cons.prems(1), of listener frame] by simp
  then show ?case by (simp add: feed_detector_def)
qed (simp add: feed_detector_def)

lemma deliver_sound:
  assumes "delivery_sound V cfg state"
  shows "delivery_sound V cfg (deliver V cfg state event)"
proof -
  have g: "arithmetic_ok V cfg" "profile_ok V" "processor_ok V cfg (fst state)" "detector_unharmed cfg (snd state)"
    using assms by (simp_all add: delivery_sound_def)
  from consume_returns [OF g(1-3), of "fst event" "snd event"] obtain p' frames where
    c: "consume V cfg (fst event) (snd event) (fst state) = Inr (p', frames)" "processor_ok V cfg p'"
      "\<forall>frame \<in> set frames. frame_of cfg (fst event) frame" by auto
  with g unharmed_feed [OF g(4) c(3)] show ?thesis by (simp add: delivery_sound_def deliver_def)
qed

interpretation acceptance: transition_system "deliver V cfg" "delivery_sound V cfg" for V cfg
  by unfold_locales (rule deliver_sound)

lemma delivery_never_malformed:
  assumes "arithmetic_ok V cfg" "profile_ok V" and "new_processor cfg = Inr p\<^sub>0" and "record_bytes cfg \<le> receive_bytes"
  shows "dm_malformed (dt_metrics (snd (foldl (deliver V cfg)
    (p\<^sub>0, new_detector (pc_fft_size (cf_processing cfg)) receive_bytes) events))) = 0"
proof -
  have "delivery_sound V cfg (p\<^sub>0, new_detector (pc_fft_size (cf_processing cfg)) receive_bytes)"
    using assms new_processor_ok [OF assms(3)] new_detector_ok [of "pc_fft_size (cf_processing cfg)" receive_bytes]
    by (simp add: delivery_sound_def detector_unharmed_def) (simp add: new_detector_def)
  then have "delivery_sound V cfg (foldl (deliver V cfg) (p\<^sub>0, new_detector (pc_fft_size (cf_processing cfg)) receive_bytes) events)"
    by (rule acceptance.run_good)
  then show ?thesis by (simp add: delivery_sound_def detector_unharmed_def)
qed

text \<open>The two handlers work together: when frames are delivered in order, then whatever datagrams reach
  the processor, lost, repeated or malformed, the detector finds no record malformed and no gap in
  any stream's sequence, and with room for sixteen frames a call no spectrum is dropped.\<close>

lemma delivery_without_gaps:
  fixes V :: "'c vita" and p\<^sub>0 :: "'c processor_core"
  assumes "arithmetic_ok V cfg" "profile_ok V" "views_readable V" and "16 \<le> cf_queue_limit cfg"
    and "new_processor cfg = Inr p\<^sub>0" and "record_bytes cfg \<le> receive_bytes"
  shows "let (p, d) = foldl (deliver V cfg) (p\<^sub>0, new_detector (pc_fft_size (cf_processing cfg)) receive_bytes) events in
    dm_malformed (dt_metrics d) = 0 \<and> dm_sequence_gaps (dt_metrics d) = 0 \<and> pm_unavailable (pr_metrics p) = 0 \<and>
    (\<forall>i < 4. \<forall>q. dt_sequences d ! i = Some q \<longrightarrow> q + 1 = ss_sequence (pr_streams p ! i))"
proof -
  have "pm_unavailable (pr_metrics p\<^sub>0) = 0"
    using assms(5) by (auto simp: new_processor_def new_metrics_def ebind_eq_Inr)
  then have "delivery_good V cfg (p\<^sub>0, new_detector (pc_fft_size (cf_processing cfg)) receive_bytes)"
    using assms new_processor_ok [OF assms(5)] new_detector_ok [of "pc_fft_size (cf_processing cfg)" receive_bytes]
    by (simp add: delivery_good_def detector_calm_def expects_def new_detector_def nth_replicate)
  then have "delivery_good V cfg (foldl (deliver V cfg) (p\<^sub>0, new_detector (pc_fft_size (cf_processing cfg)) receive_bytes) events)"
    by (rule delivery.run_good)
  then show ?thesis
    by (auto simp: delivery_good_def detector_calm_def expects_def split: prod.split option.splits)
qed

lemma example_views: "views_readable example_vita"
  by (auto simp: views_readable_def example_vita_def)

end
