(* ===== verification/Controller.thy ===== *)
theory Controller
  imports StatusClient Timebase
begin

text \<open>
  The processor's controller (\<open>src/processor_controller.cpp\<close>): one thread that keeps four
  radios connected, configured and started. What it calls (the clocks, the status
  service, the runtime with its transport, the transactions) is a parameter \<open>world\<close>
  on a state of its own; a loop that polls the world has fuel, and its value is None
  when the fuel runs out.
\<close>

section \<open>Configuration, metrics and the world\<close>

record controller_config =
  cc_radios :: "radio_control list"
  cc_queue_limit :: nat
  cc_retry_limit :: u64
  cc_io_timeout :: nanos
  cc_maximum_backoff :: nanos
  cc_liveness_interval :: nanos

record controller_metrics =
  km_connection_attempts :: u64
  km_connections :: u64
  km_reconnects :: u64
  km_status_failures :: u64
  km_protocol_failures :: u64
  km_configurations :: u64
  km_starts_submitted :: u64
  km_starts_admitted :: u64
  km_stale_starts_replayed :: u64
  km_boot_changes :: u64

definition no_controller_metrics :: controller_metrics where
  "no_controller_metrics = \<lparr>km_connection_attempts = 0, km_connections = 0, km_reconnects = 0, km_status_failures = 0,
     km_protocol_failures = 0, km_configurations = 0, km_starts_submitted = 0, km_starts_admitted = 0,
     km_stale_starts_replayed = 0, km_boot_changes = 0\<rparr>"

record radio_settings =
  rs_center_hz :: u64
  rs_sample_rate_hz :: u32
  rs_bandwidth_hz :: u32
  rs_gain_db_q7 :: "16 word"

text \<open>The commands of the controller, and the evidence it waits for.\<close>

datatype command =
    Query_status
  | Configure radio_settings
  | Start protocol_time
  | Stop_streaming

datatype evidence = Validation | Execution

text \<open>What \<open>wait\<close> of the library returns: whether the evidence was received, and the observation.\<close>

record wait_result =
  wr_received :: bool
  wr_validation_accepted :: bool
  wr_confirms_execution :: bool

datatype runtime_result = Progressed | Retryable_error | Fatal_error

type_synonym handle = nat

text \<open>The world: \<open>stop\<close>, the steady clock and the system clock, sleeping, and per session what it calls.\<close>

record 'w world =
  wd_stop :: "'w \<Rightarrow> bool \<times> 'w"
  wd_clock :: "'w \<Rightarrow> nanos \<times> 'w"
  wd_system_clock :: "'w \<Rightarrow> nanos \<times> 'w"
  wd_sleep :: "nanos \<Rightarrow> 'w \<Rightarrow> 'w"
  wd_read_status :: "nat \<Rightarrow> 'w \<Rightarrow> status_snapshot option \<times> 'w"
  wd_connected :: "nat \<Rightarrow> 'w \<Rightarrow> bool"
  wd_generation :: "nat \<Rightarrow> 'w \<Rightarrow> u64"
  wd_request_reconnect :: "nat \<Rightarrow> 'w \<Rightarrow> 'w"
  wd_observe_pps :: "nat \<Rightarrow> u64 \<Rightarrow> protocol_time \<Rightarrow> 'w \<Rightarrow> bool \<times> 'w"
  wd_progress :: "nat \<Rightarrow> u64 \<Rightarrow> 'w \<Rightarrow> runtime_result \<times> 'w"
  wd_command :: "nat \<Rightarrow> command \<Rightarrow> 'w \<Rightarrow> handle option \<times> 'w"
  wd_cancel :: "nat \<Rightarrow> handle \<Rightarrow> 'w \<Rightarrow> 'w"
  wd_wait :: "nat \<Rightarrow> handle \<Rightarrow> evidence \<Rightarrow> 'w \<Rightarrow> wait_result option \<times> 'w"
  wd_state :: "nat \<Rightarrow> handle \<Rightarrow> 'w \<Rightarrow> bool \<times> 'w"
  wd_release :: "nat \<Rightarrow> handle \<Rightarrow> 'w \<Rightarrow> bool \<times> 'w"
  wd_resume_after :: "nat \<Rightarrow> u32 \<Rightarrow> 'w \<Rightarrow> bool \<times> 'w"

section \<open>The controller's state\<close>

record radio_session =
  ps_status :: "status_snapshot option"
  ps_reconciled_generation :: u64
  ps_clock_second :: u64
  ps_last_liveness :: nanos
  ps_failures :: u64
  ps_configured :: bool
  ps_started :: bool

definition new_session :: radio_session where
  "new_session = \<lparr>ps_status = None, ps_reconciled_generation = 0, ps_clock_second = 0, ps_last_liveness = 0, ps_failures = 0,
     ps_configured = False, ps_started = False\<rparr>"

text \<open>The lines written to the event stream, and the commands submitted and cancelled, in order.\<close>

datatype controller_event =
    Submitted nat command handle
  | Cancelled nat handle
  | Evidence_timeout nat
  | Resumption_failed nat
  | Status_failed nat
  | Quiesced nat
  | Restarted nat protocol_time
  | Coordinated protocol_time
  | Retry_limit_reached nat u64

record 'w controller =
  kc_config :: controller_config
  kc_sessions :: "radio_session list"
  kc_metrics :: controller_metrics
  kc_coordinated :: bool
  kc_origin :: nanos
  kc_clock_origin :: protocol_time
  kc_world :: 'w
  kc_log :: "controller_event list"

definition new_controller :: "controller_config \<Rightarrow> nanos \<Rightarrow> protocol_time \<Rightarrow> 'w \<Rightarrow> 'w controller" where
  "new_controller config origin clock_origin w = \<lparr>kc_config = config, kc_sessions = replicate 4 new_session,
     kc_metrics = no_controller_metrics, kc_coordinated = False, kc_origin = origin, kc_clock_origin = clock_origin,
     kc_world = w, kc_log = []\<rparr>"

text \<open>Reading the world, changing it, a session, a metric, the log.\<close>

definition ask :: "('w \<Rightarrow> 'a \<times> 'w) \<Rightarrow> 'w controller \<Rightarrow> 'a \<times> 'w controller" where
  "ask f c = (case f (kc_world c) of (x, w) \<Rightarrow> (x, c\<lparr>kc_world := w\<rparr>))"

definition tell :: "('w \<Rightarrow> 'w) \<Rightarrow> 'w controller \<Rightarrow> 'w controller" where
  "tell f c = c\<lparr>kc_world := f (kc_world c)\<rparr>"

definition session_at :: "nat \<Rightarrow> 'w controller \<Rightarrow> radio_session" where
  "session_at i c = kc_sessions c ! i"

definition update_session :: "nat \<Rightarrow> (radio_session \<Rightarrow> radio_session) \<Rightarrow> 'w controller \<Rightarrow> 'w controller" where
  "update_session i f c = c\<lparr>kc_sessions := (kc_sessions c)[i := f (kc_sessions c ! i)]\<rparr>"

definition count_metric :: "(controller_metrics \<Rightarrow> controller_metrics) \<Rightarrow> 'w controller \<Rightarrow> 'w controller" where
  "count_metric f c = c\<lparr>kc_metrics := f (kc_metrics c)\<rparr>"

definition report_event :: "controller_event \<Rightarrow> 'w controller \<Rightarrow> 'w controller" where
  "report_event e c = c\<lparr>kc_log := kc_log c @ [e]\<rparr>"

definition status_failure :: "'w controller \<Rightarrow> 'w controller" where
  "status_failure = count_metric (\<lambda>m. m\<lparr>km_status_failures := km_status_failures m + 1\<rparr>)"

definition protocol_failure :: "'w controller \<Rightarrow> 'w controller" where
  "protocol_failure = count_metric (\<lambda>m. m\<lparr>km_protocol_failures := km_protocol_failures m + 1\<rparr>)"

text \<open>A command that the library accepts is in the log with its handle.\<close>

definition submit :: "'w world \<Rightarrow> nat \<Rightarrow> command \<Rightarrow> 'w controller \<Rightarrow> handle option \<times> 'w controller" where
  "submit W i cmd c = (case ask (wd_command W i cmd) c of
     (None, c) \<Rightarrow> (None, c)
   | (Some h, c) \<Rightarrow> (Some h, report_event (Submitted i cmd h) c))"

section \<open>Progress and waiting\<close>

definition running :: "'w world \<Rightarrow> nanos \<Rightarrow> 'w controller \<Rightarrow> bool \<times> 'w controller" where
  "running W deadline c = (case ask (wd_stop W) c of
     (True, c) \<Rightarrow> (False, c)
   | (False, c) \<Rightarrow> (case ask (wd_clock W) c of (now, c) \<Rightarrow> (now < deadline, c)))"

text \<open>The pulse of a new second, and one call of the runtime.\<close>

definition pulse :: "'w world \<Rightarrow> nat \<Rightarrow> u64 \<Rightarrow> 'w controller \<Rightarrow> bool \<times> 'w controller" where
  "pulse W i elapsed c =
    (let second = elapsed div 1000000000 in
     if second > ps_clock_second (session_at i c)
     then (let t = kc_clock_origin c in
           case ask (wd_observe_pps W i (second * 1000000000) (ProtocolTime (seconds t + second) (picoseconds t))) c of
             (False, c) \<Rightarrow> (False, c)
           | (True, c) \<Rightarrow> (True, update_session i (\<lambda>s. s\<lparr>ps_clock_second := second\<rparr>) c))
     else (True, c))"

definition progress_round :: "'w world \<Rightarrow> nat \<Rightarrow> 'w controller \<Rightarrow> bool \<times> 'w controller" where
  "progress_round W i c =
    (case ask (wd_clock W) c of
       (now, c) \<Rightarrow>
        (let elapsed = of_int (now - kc_origin c) in
         case pulse W i elapsed c of
           (False, c) \<Rightarrow> (False, c)
         | (True, c) \<Rightarrow>
            (case ask (wd_progress W i elapsed) c of
               (Fatal_error, c) \<Rightarrow> (False, c)
             | (_, c) \<Rightarrow> (True, tell (wd_sleep W 100000) c))))"

fun progress_loop :: "nat \<Rightarrow> 'w world \<Rightarrow> nanos \<Rightarrow> nat \<Rightarrow> 'w controller \<Rightarrow> (bool \<times> 'w controller) option" where
  "progress_loop 0 W deadline i c = None"
| "progress_loop (Suc fuel) W deadline i c =
    (case running W deadline c of
       (False, c) \<Rightarrow> Some (True, c)
     | (True, c) \<Rightarrow>
        (case progress_round W i c of
           (False, c) \<Rightarrow> Some (False, c)
         | (True, c) \<Rightarrow> progress_loop fuel W deadline i c))"

definition progress :: "nat \<Rightarrow> 'w world \<Rightarrow> nanos \<Rightarrow> nat \<Rightarrow> 'w controller \<Rightarrow> (bool \<times> 'w controller) option" where
  "progress fuel W budget i c = (case ask (wd_clock W) c of (now, c) \<Rightarrow> progress_loop fuel W (now + budget) i c)"

text \<open>The loop of \<open>wait\<close> and of \<open>wait_state\<close>: a millisecond of progress, then the check.\<close>

datatype loop_end = Met | Expired | Broken

fun wait_loop :: "nat \<Rightarrow> nat \<Rightarrow> 'w world \<Rightarrow> nanos \<Rightarrow> nat \<Rightarrow> ('w \<Rightarrow> bool \<times> 'w) \<Rightarrow> 'w controller \<Rightarrow> (loop_end \<times> 'w controller) option" where
  "wait_loop 0 fuel W deadline i check c = None"
| "wait_loop (Suc rounds) fuel W deadline i check c =
    (case running W deadline c of
       (False, c) \<Rightarrow> Some (Expired, c)
     | (True, c) \<Rightarrow>
        (case progress fuel W (millis 1) i c of
           None \<Rightarrow> None
         | Some (False, c) \<Rightarrow> Some (Broken, c)
         | Some (True, c) \<Rightarrow>
            (case ask check c of
               (True, c) \<Rightarrow> Some (Met, c)
             | (False, c) \<Rightarrow> wait_loop rounds fuel W deadline i check c)))"

definition accepted :: "'w world \<Rightarrow> nat \<Rightarrow> handle \<Rightarrow> evidence \<Rightarrow> 'w \<Rightarrow> bool \<times> 'w" where
  "accepted W i h ev w =
    (case wd_wait W i h ev w of
       (None, w) \<Rightarrow> (False, w)
     | (Some r, w) \<Rightarrow> (wr_received r \<and> (case ev of Validation \<Rightarrow> wr_validation_accepted r | Execution \<Rightarrow> wr_confirms_execution r), w))"

text \<open>\<open>wait\<close> and \<open>wait_state\<close> differ in the check and in the report of a timeout.\<close>

definition wait_for_check :: "nat \<Rightarrow> 'w world \<Rightarrow> nat \<Rightarrow> handle \<Rightarrow> ('w \<Rightarrow> bool \<times> 'w) \<Rightarrow> ('w controller \<Rightarrow> 'w controller) \<Rightarrow> nanos \<Rightarrow>
    'w controller \<Rightarrow> (bool \<times> 'w controller) option" where
  "wait_for_check fuel W i h check timed_out timeout c =
    (case ask (wd_clock W) c of
       (now, c) \<Rightarrow>
        (case wait_loop fuel fuel W (now + timeout) i check c of
           None \<Rightarrow> None
         | Some (Broken, c) \<Rightarrow> Some (False, snd (ask (wd_release W i h) c))
         | Some (Met, c) \<Rightarrow> Some (ask (wd_release W i h) c)
         | Some (Expired, c) \<Rightarrow> Some (False, snd (ask (wd_release W i h) (timed_out c)))))"

definition wait_evidence :: "nat \<Rightarrow> 'w world \<Rightarrow> nat \<Rightarrow> handle \<Rightarrow> evidence \<Rightarrow> nanos \<Rightarrow> 'w controller \<Rightarrow> (bool \<times> 'w controller) option" where
  "wait_evidence fuel W i h ev = wait_for_check fuel W i h (accepted W i h ev) (report_event (Evidence_timeout i))"

definition wait_state :: "nat \<Rightarrow> 'w world \<Rightarrow> nat \<Rightarrow> handle \<Rightarrow> nanos \<Rightarrow> 'w controller \<Rightarrow> (bool \<times> 'w controller) option" where
  "wait_state fuel W i h = wait_for_check fuel W i h (wd_state W i h) (\<lambda>c. c)"

section \<open>Reconciling a session\<close>

fun connect_loop :: "nat \<Rightarrow> nat \<Rightarrow> 'w world \<Rightarrow> nanos \<Rightarrow> nat \<Rightarrow> 'w controller \<Rightarrow> (bool \<times> 'w controller) option" where
  "connect_loop 0 fuel W deadline i c = None"
| "connect_loop (Suc rounds) fuel W deadline i c =
    (case running W deadline c of
       (False, c) \<Rightarrow> Some (True, c)
     | (True, c) \<Rightarrow>
        if wd_connected W i (kc_world c) then Some (True, c)
        else (case progress fuel W (millis 1) i c of
           None \<Rightarrow> None
         | Some (False, c) \<Rightarrow> Some (False, c)
         | Some (True, c) \<Rightarrow> connect_loop rounds fuel W deadline i c))"

text \<open>The second reading agrees with the first, up to a new connection.\<close>

definition same_boot :: "status_snapshot \<Rightarrow> status_snapshot \<Rightarrow> bool" where
  "same_boot before after \<longleftrightarrow> \<not> (sn_boot_id before \<noteq> sn_boot_id after \<or> \<not> sn_active after \<or> sn_generation after = None \<or>
     sn_generation after = sn_generation before \<or> sn_association after \<noteq> sn_association before)"

text \<open>The status query on the new connection, after the commands are resumed.\<close>

definition query_state :: "nat \<Rightarrow> 'w world \<Rightarrow> nat \<Rightarrow> 'w controller \<Rightarrow> (bool \<times> 'w controller) option" where
  "query_state fuel W i c =
    (case submit W i Query_status c of
       (None, c) \<Rightarrow> Some (False, c)
     | (Some h, c) \<Rightarrow> wait_state fuel W i h (cc_io_timeout (kc_config c)) c)"

definition accept_status :: "'w world \<Rightarrow> nat \<Rightarrow> status_snapshot \<Rightarrow> bool \<Rightarrow> 'w controller \<Rightarrow> 'w controller" where
  "accept_status W i after boot_changed c =
    (let c = (if boot_changed
              then count_metric (\<lambda>m. m\<lparr>km_boot_changes := km_boot_changes m + 1\<rparr>)
                     (update_session i (\<lambda>s. s\<lparr>ps_configured := False, ps_started := False\<rparr>) c)
              else c);
         g = wd_generation W i (kc_world c);
         c = update_session i (\<lambda>s. s\<lparr>ps_status := Some after, ps_reconciled_generation := g\<rparr>) c
     in case ask (wd_clock W) c of
          (now, c) \<Rightarrow>
            let c = update_session i (\<lambda>s. s\<lparr>ps_last_liveness := now, ps_failures := 0\<rparr>) c
            in if g > 1 then count_metric (\<lambda>m. m\<lparr>km_reconnects := km_reconnects m + 1\<rparr>) c
               else count_metric (\<lambda>m. m\<lparr>km_connections := km_connections m + 1\<rparr>) c)"

definition reconcile_after :: "nat \<Rightarrow> 'w world \<Rightarrow> nat \<Rightarrow> status_snapshot \<Rightarrow> 'w controller \<Rightarrow> (bool \<times> 'w controller) option" where
  "reconcile_after fuel W i before c =
    (case ask (wd_read_status W i) c of
       (None, c) \<Rightarrow> Some (False, status_failure c)
     | (Some after, c) \<Rightarrow>
        if \<not> same_boot before after then Some (False, status_failure c)
        else let boot_changed = (case ps_status (session_at i c) of None \<Rightarrow> False | Some s \<Rightarrow> sn_boot_id s \<noteq> sn_boot_id after)
          in (case ask (wd_resume_after W i (sn_admitted_id after)) c of
             (False, c) \<Rightarrow> Some (False, report_event (Resumption_failed i) (protocol_failure c))
           | (True, c) \<Rightarrow>
              (case query_state fuel W i c of
                 None \<Rightarrow> None
               | Some (False, c) \<Rightarrow> Some (False, report_event (Status_failed i) (protocol_failure c))
               | Some (True, c) \<Rightarrow> Some (True, accept_status W i after boot_changed c))))"

definition reconcile :: "nat \<Rightarrow> 'w world \<Rightarrow> nat \<Rightarrow> 'w controller \<Rightarrow> (bool \<times> 'w controller) option" where
  "reconcile fuel W i c =
    (case ask (wd_read_status W i) c of
       (None, c) \<Rightarrow> Some (False, status_failure c)
     | (Some before, c) \<Rightarrow>
        if \<not> sn_ready before then Some (False, status_failure c)
        else let c = count_metric (\<lambda>m. m\<lparr>km_connection_attempts := km_connection_attempts m + 1\<rparr>) c;
                 c = tell (wd_request_reconnect W i) c
          in (case ask (wd_clock W) c of
                (now, c) \<Rightarrow>
                  (case connect_loop fuel fuel W (now + cc_io_timeout (kc_config c)) i c of
                     None \<Rightarrow> None
                   | Some (False, c) \<Rightarrow> Some (False, c)
                   | Some (True, c) \<Rightarrow>
                      if \<not> wd_connected W i (kc_world c) then Some (False, c)
                      else reconcile_after fuel W i before c)))"

section \<open>Keeping a session alive and configured\<close>

definition liveness :: "nat \<Rightarrow> 'w world \<Rightarrow> nat \<Rightarrow> 'w controller \<Rightarrow> (bool \<times> 'w controller) option" where
  "liveness fuel W i c =
    (case ask (wd_clock W) c of
       (now, c) \<Rightarrow>
        if now - ps_last_liveness (session_at i c) < cc_liveness_interval (kc_config c) then Some (True, c)
        else (case query_state fuel W i c of
           None \<Rightarrow> None
         | Some (False, c) \<Rightarrow> Some (False, tell (wd_request_reconnect W i) (protocol_failure c))
         | Some (True, c) \<Rightarrow>
            (case ask (wd_clock W) c of
               (now, c) \<Rightarrow> Some (True, update_session i (\<lambda>s. s\<lparr>ps_last_liveness := now\<rparr>) c))))"

text \<open>A command and the wait for its execution; a failure of either is a protocol failure.\<close>

definition execute :: "nat \<Rightarrow> 'w world \<Rightarrow> nat \<Rightarrow> command \<Rightarrow> 'w controller \<Rightarrow> (bool \<times> 'w controller) option" where
  "execute fuel W i cmd c =
    (case submit W i cmd c of
       (None, c) \<Rightarrow> Some (False, protocol_failure c)
     | (Some h, c) \<Rightarrow>
        (case wait_evidence fuel W i h Execution (cc_io_timeout (kc_config c)) c of
           None \<Rightarrow> None
         | Some (False, c) \<Rightarrow> Some (False, protocol_failure c)
         | Some (True, c) \<Rightarrow> Some (True, c)))"

definition radio_of :: "nat \<Rightarrow> 'w controller \<Rightarrow> radio_control" where
  "radio_of i c = cc_radios (kc_config c) ! i"

definition settings_of :: "radio_control \<Rightarrow> radio_settings" where
  "settings_of r = \<lparr>rs_center_hz = cr_center_hz r, rs_sample_rate_hz = cr_sample_rate_hz r, rs_bandwidth_hz = cr_bandwidth_hz r,
     rs_gain_db_q7 = cr_gain_db_q7 r\<rparr>"

text \<open>A radio that streams is stopped first.\<close>

definition quiesce :: "nat \<Rightarrow> 'w world \<Rightarrow> nat \<Rightarrow> 'w controller \<Rightarrow> (bool \<times> 'w controller) option" where
  "quiesce fuel W i c =
    (case ps_status (session_at i c) of
       None \<Rightarrow> Some (True, c)
     | Some st \<Rightarrow>
        if \<not> sn_streaming st then Some (True, c)
        else (case execute fuel W i Stop_streaming c of
           None \<Rightarrow> None
         | Some (False, c) \<Rightarrow> Some (False, c)
         | Some (True, c) \<Rightarrow>
            Some (True, report_event (Quiesced i)
              (update_session i (\<lambda>s. s\<lparr>ps_status := map_option (\<lambda>st. st\<lparr>sn_streaming := False\<rparr>) (ps_status s)\<rparr>) c))))"

definition configure :: "nat \<Rightarrow> 'w world \<Rightarrow> nat \<Rightarrow> 'w controller \<Rightarrow> (bool \<times> 'w controller) option" where
  "configure fuel W i c =
    (case quiesce fuel W i c of
       None \<Rightarrow> None
     | Some (False, c) \<Rightarrow> Some (False, c)
     | Some (True, c) \<Rightarrow>
        (case execute fuel W i (Configure (settings_of (radio_of i c))) c of
           None \<Rightarrow> None
         | Some (False, c) \<Rightarrow> Some (False, c)
         | Some (True, c) \<Rightarrow>
            Some (True, count_metric (\<lambda>m. m\<lparr>km_configurations := km_configurations m + 1\<rparr>)
              (update_session i (\<lambda>s. s\<lparr>ps_configured := True\<rparr>) c))))"

section \<open>Starting\<close>

text \<open>The system clock in nanoseconds since the epoch as a protocol time, and the start five seconds later.\<close>

definition utc_time :: "nanos \<Rightarrow> protocol_time" where
  "utc_time now = ProtocolTime (of_int (now div 1000000000)) (of_int (now mod 1000000000) * 1000)"

definition start_epoch :: "nanos \<Rightarrow> protocol_time" where
  "start_epoch now = (let t = utc_time now in ProtocolTime (seconds t + 5) (picoseconds t))"

text \<open>A start must be admitted until a second before it is due.\<close>

definition admission_deadline :: "protocol_time \<Rightarrow> nanos" where
  "admission_deadline epoch = uint (seconds epoch - 1) * 1000000000 + uint (picoseconds epoch div 1000)"

definition whole_millis :: "nanos \<Rightarrow> nanos" where
  "whole_millis d = d div 1000000 * 1000000"

text \<open>Waiting until the deadline for the admission of a start.\<close>

definition wait_admission :: "nat \<Rightarrow> 'w world \<Rightarrow> nat \<Rightarrow> handle \<Rightarrow> protocol_time \<Rightarrow> 'w controller \<Rightarrow> (bool \<times> 'w controller) option" where
  "wait_admission fuel W i h epoch c =
    (case ask (wd_system_clock W) c of
       (now, c) \<Rightarrow>
        let remaining = admission_deadline epoch - now
        in if remaining \<le> 0 then Some (False, c) else wait_evidence fuel W i h Validation (whole_millis remaining) c)"

definition count_submitted :: "'w controller \<Rightarrow> 'w controller" where
  "count_submitted = count_metric (\<lambda>m. m\<lparr>km_starts_submitted := km_starts_submitted m + 1\<rparr>)"

definition count_admitted :: "'w controller \<Rightarrow> 'w controller" where
  "count_admitted = count_metric (\<lambda>m. m\<lparr>km_starts_admitted := km_starts_admitted m + 1\<rparr>)"

definition restart_after_boot_change :: "nat \<Rightarrow> 'w world \<Rightarrow> nat \<Rightarrow> 'w controller \<Rightarrow> (bool \<times> 'w controller) option" where
  "restart_after_boot_change fuel W i c =
    (case ask (wd_system_clock W) c of
       (now, c) \<Rightarrow>
        let epoch = start_epoch now
        in (case submit W i (Start epoch) c of
           (None, c) \<Rightarrow> Some (False, protocol_failure c)
         | (Some h, c) \<Rightarrow>
            (case wait_admission fuel W i h epoch (count_submitted c) of
               None \<Rightarrow> None
             | Some (False, c) \<Rightarrow> Some (False, protocol_failure c)
             | Some (True, c) \<Rightarrow>
                Some (True, report_event (Restarted i epoch) (update_session i (\<lambda>s. s\<lparr>ps_started := True\<rparr>) (count_admitted c))))))"

text \<open>The two loops of \<open>coordinate_start\<close>: the starts are submitted, then each admission is awaited.\<close>

fun submit_starts :: "'w world \<Rightarrow> protocol_time \<Rightarrow> nat list \<Rightarrow> 'w controller \<Rightarrow> handle list option \<times> 'w controller" where
  "submit_starts W epoch [] c = (Some [], c)"
| "submit_starts W epoch (i # is) c =
    (case submit W i (Start epoch) c of
       (None, c) \<Rightarrow> (None, protocol_failure c)
     | (Some h, c) \<Rightarrow>
        (case submit_starts W epoch is (count_submitted c) of
           (None, c) \<Rightarrow> (None, c)
         | (Some hs, c) \<Rightarrow> (Some (h # hs), c)))"

definition cancel_start :: "'w world \<Rightarrow> 'w controller \<Rightarrow> nat \<times> handle \<Rightarrow> 'w controller" where
  "cancel_start W c ih = report_event (Cancelled (fst ih) (snd ih)) (tell (wd_cancel W (fst ih) (snd ih)) c)"

fun await_starts :: "nat \<Rightarrow> 'w world \<Rightarrow> protocol_time \<Rightarrow> (nat \<times> handle) list \<Rightarrow> (nat \<times> handle) list \<Rightarrow> 'w controller \<Rightarrow>
    (bool \<times> 'w controller) option" where
  "await_starts fuel W epoch earlier [] c = Some (True, c)"
| "await_starts fuel W epoch earlier ((i, h) # later) c =
    (case wait_admission fuel W i h epoch c of
       None \<Rightarrow> None
     | Some (False, c) \<Rightarrow> Some (False, foldl (cancel_start W) (protocol_failure c) earlier)
     | Some (True, c) \<Rightarrow> await_starts fuel W epoch (earlier @ [(i, h)]) later (count_admitted c))"

definition mark_started :: "protocol_time \<Rightarrow> 'w controller \<Rightarrow> 'w controller" where
  "mark_started epoch c = report_event (Coordinated epoch)
     (c\<lparr>kc_sessions := map (\<lambda>s. s\<lparr>ps_started := True\<rparr>) (kc_sessions c), kc_coordinated := True\<rparr>)"

definition coordinate_start :: "nat \<Rightarrow> 'w world \<Rightarrow> 'w controller \<Rightarrow> (bool \<times> 'w controller) option" where
  "coordinate_start fuel W c =
    (case ask (wd_system_clock W) c of
       (now, c) \<Rightarrow>
        let epoch = start_epoch now; indices = [0..<length (kc_sessions c)]
        in (case submit_starts W epoch indices c of
           (None, c) \<Rightarrow> Some (False, c)
         | (Some hs, c) \<Rightarrow>
            (case await_starts fuel W epoch [] (zip indices hs) c of
               None \<Rightarrow> None
             | Some (False, c) \<Rightarrow> Some (False, c)
             | Some (True, c) \<Rightarrow> Some (True, mark_started epoch c))))"

section \<open>The thread\<close>

definition note_failure :: "nat \<Rightarrow> 'w controller \<Rightarrow> 'w controller" where
  "note_failure i c =
    (let c = update_session i (\<lambda>s. s\<lparr>ps_failures := ps_failures s + 1\<rparr>) c
     in if ps_failures (session_at i c) = cc_retry_limit (kc_config c)
        then report_event (Retry_limit_reached i (cc_retry_limit (kc_config c))) c else c)"

text \<open>The body of the loop over the sessions, once the session is reconciled.\<close>

definition keep_session :: "nat \<Rightarrow> 'w world \<Rightarrow> nat \<Rightarrow> 'w controller \<Rightarrow> (bool \<times> 'w controller) option" where
  "keep_session fuel W i c =
    (case (if \<not> ps_configured (session_at i c) then configure fuel W i c else Some (True, c)) of
       None \<Rightarrow> None
     | Some (configured, c) \<Rightarrow>
      (case (if kc_coordinated c \<and> ps_configured (session_at i c) \<and> \<not> ps_started (session_at i c)
             then restart_after_boot_change fuel W i c else Some (True, c)) of
         None \<Rightarrow> None
       | Some (restarted, c) \<Rightarrow>
        (case (if ps_configured (session_at i c) then liveness fuel W i c else Some (True, c)) of
           None \<Rightarrow> None
         | Some (alive, c) \<Rightarrow> Some (configured \<and> restarted \<and> alive, c))))"

definition visit_session :: "nat \<Rightarrow> 'w world \<Rightarrow> nat \<Rightarrow> 'w controller \<Rightarrow> (bool \<times> 'w controller) option" where
  "visit_session fuel W i c =
    (if \<not> wd_connected W i (kc_world c) \<or> wd_generation W i (kc_world c) \<noteq> ps_reconciled_generation (session_at i c)
     then (case reconcile fuel W i c of
         None \<Rightarrow> None
       | Some (False, c) \<Rightarrow> Some (False, note_failure i c)
       | Some (True, c) \<Rightarrow> keep_session fuel W i c)
     else keep_session fuel W i c)"

fun visit_sessions :: "nat \<Rightarrow> 'w world \<Rightarrow> nat list \<Rightarrow> bool \<Rightarrow> 'w controller \<Rightarrow> (bool \<times> 'w controller) option" where
  "visit_sessions fuel W [] ready c = Some (ready, c)"
| "visit_sessions fuel W (i # is) ready c =
    (case ask (wd_stop W) c of
       (True, c) \<Rightarrow> Some (ready, c)
     | (False, c) \<Rightarrow>
        (case visit_session fuel W i c of
           None \<Rightarrow> None
         | Some (ok, c) \<Rightarrow> visit_sessions fuel W is (ready \<and> ok) c))"

fun progress_sessions :: "nat \<Rightarrow> 'w world \<Rightarrow> nat list \<Rightarrow> bool \<Rightarrow> 'w controller \<Rightarrow> (bool \<times> 'w controller) option" where
  "progress_sessions fuel W [] ready c = Some (ready, c)"
| "progress_sessions fuel W (i # is) ready c =
    (case progress fuel W (millis 1) i c of
       None \<Rightarrow> None
     | Some (True, c) \<Rightarrow> progress_sessions fuel W is ready c
     | Some (False, c) \<Rightarrow> progress_sessions fuel W is False (protocol_failure c))"

text \<open>One pass of the loop of \<open>run\<close>, with the backoff it leaves.\<close>

definition coordinate_if_ready :: "nat \<Rightarrow> 'w world \<Rightarrow> bool \<Rightarrow> 'w controller \<Rightarrow> (bool \<times> 'w controller) option" where
  "coordinate_if_ready fuel W ready c = (if ready \<and> \<not> kc_coordinated c then coordinate_start fuel W c else Some (ready, c))"

definition back_off :: "'w world \<Rightarrow> nanos \<Rightarrow> bool \<Rightarrow> 'w controller \<Rightarrow> nanos \<times> 'w controller" where
  "back_off W backoff ready c =
    (if ready then (millis 100, c) else (min (backoff * 2) (cc_maximum_backoff (kc_config c)), tell (wd_sleep W backoff) c))"

definition run_pass :: "nat \<Rightarrow> 'w world \<Rightarrow> nanos \<Rightarrow> 'w controller \<Rightarrow> (nanos \<times> 'w controller) option" where
  "run_pass fuel W backoff c =
    (case visit_sessions fuel W [0..<length (kc_sessions c)] True c of
       None \<Rightarrow> None
     | Some (ready, c) \<Rightarrow>
        (case coordinate_if_ready fuel W ready c of
           None \<Rightarrow> None
         | Some (ready, c) \<Rightarrow>
            (case progress_sessions fuel W [0..<length (kc_sessions c)] ready c of
               None \<Rightarrow> None
             | Some (ready, c) \<Rightarrow> Some (back_off W backoff ready c))))"

fun run_loop :: "nat \<Rightarrow> nat \<Rightarrow> 'w world \<Rightarrow> nanos \<Rightarrow> 'w controller \<Rightarrow> 'w controller option" where
  "run_loop 0 fuel W backoff c = None"
| "run_loop (Suc passes) fuel W backoff c =
    (case ask (wd_stop W) c of
       (True, c) \<Rightarrow> Some c
     | (False, c) \<Rightarrow>
        (case run_pass fuel W backoff c of
           None \<Rightarrow> None
         | Some (backoff, c) \<Rightarrow> run_loop passes fuel W backoff c))"

definition run :: "nat \<Rightarrow> nat \<Rightarrow> 'w world \<Rightarrow> 'w controller \<Rightarrow> 'w controller option" where
  "run passes fuel W c = run_loop passes fuel W (millis 100) c"

section \<open>What progress and waiting leave alone\<close>

text \<open>The commands submitted and cancelled.\<close>

definition is_deed :: "controller_event \<Rightarrow> bool" where
  "is_deed e = (case e of Submitted i cmd h \<Rightarrow> True | Cancelled i h \<Rightarrow> True | _ \<Rightarrow> False)"

definition deeds :: "'w controller \<Rightarrow> controller_event list" where
  "deeds c = filter is_deed (kc_log c)"

definition timeless :: "radio_session \<Rightarrow> radio_session" where
  "timeless s = s\<lparr>ps_clock_second := 0\<rparr>"

definition calm :: "'w controller \<Rightarrow> 'w controller \<Rightarrow> bool" where
  "calm c c' \<longleftrightarrow> kc_config c' = kc_config c \<and> kc_coordinated c' = kc_coordinated c \<and> kc_metrics c' = kc_metrics c \<and>
     map timeless (kc_sessions c') = map timeless (kc_sessions c) \<and> deeds c' = deeds c \<and>
     kc_origin c' = kc_origin c \<and> kc_clock_origin c' = kc_clock_origin c"

lemma calm_refl [simp, intro]: "calm c c"
  by (simp add: calm_def)

lemma calm_trans [trans]: "calm a b \<Longrightarrow> calm b c \<Longrightarrow> calm a c"
  by (simp add: calm_def)

lemma calm_ask: "ask f c = (x, c') \<Longrightarrow> calm c c'"
  by (auto simp: ask_def calm_def deeds_def split: prod.splits)

lemma calm_snd_ask: "calm c (snd (ask f c))"
  by (auto simp: ask_def calm_def deeds_def split: prod.splits)

lemma calm_tell [simp]: "calm c (tell f c)"
  by (simp add: tell_def calm_def deeds_def)

lemma calm_report [simp]: "\<not> is_deed e \<Longrightarrow> calm c (report_event e c)"
  by (simp add: report_event_def calm_def deeds_def)

lemma calm_running: "running W deadline c = (b, c') \<Longrightarrow> calm c c'"
  by (auto simp: running_def split: prod.splits bool.splits dest!: calm_ask intro: calm_trans)

lemma calm_clock: "calm c (update_session i (\<lambda>s. s\<lparr>ps_clock_second := x\<rparr>) c)"
  by (cases "i < length (kc_sessions c)")
    (auto simp: calm_def update_session_def deeds_def timeless_def map_update intro!: nth_equalityI simp: nth_list_update)

lemma calm_pulse: "pulse W i elapsed c = (b, c') \<Longrightarrow> calm c c'"
  by (auto simp: pulse_def Let_def split: prod.splits bool.splits if_splits dest!: calm_ask intro: calm_trans calm_clock)

lemma calm_round: "progress_round W i c = (b, c') \<Longrightarrow> calm c c'"
proof -
  assume r: "progress_round W i c = (b, c')"
  obtain now c1 where c1: "ask (wd_clock W) c = (now, c1)" by fastforce
  define e where "e = (of_int (now - kc_origin c1) :: u64)"
  obtain ok c2 where c2: "pulse W i e c1 = (ok, c2)" by fastforce
  obtain res c3 where c3: "ask (wd_progress W i e) c2 = (res, c3)" by fastforce
  have "calm c c2" "calm c c3" using calm_ask [OF c1] calm_pulse [OF c2] calm_ask [OF c3] calm_trans by blast+
  then show ?thesis using r calm_trans [of c c3 "tell f c3" for f]
    by (auto simp: progress_round_def c1 e_def [symmetric] c2 c3 Let_def simp del: of_int_diff split: bool.splits runtime_result.splits)
qed

lemma calm_loop: "progress_loop fuel W deadline i c = Some (b, c') \<Longrightarrow> calm c c'"
proof (induction fuel arbitrary: c)
  case (Suc fuel)
  then show ?case
    by (auto split: prod.splits bool.splits dest!: calm_running calm_round intro: calm_trans)
qed simp

lemma calm_progress: "progress fuel W budget i c = Some (b, c') \<Longrightarrow> calm c c'"
  by (auto simp: progress_def split: prod.splits dest!: calm_ask calm_loop intro: calm_trans)

lemma calm_wait_loop: "wait_loop rounds fuel W deadline i check c = Some (r, c') \<Longrightarrow> calm c c'"
proof (induction rounds arbitrary: c)
  case (Suc rounds)
  then show ?case
    by (auto split: prod.splits bool.splits option.splits dest!: calm_running calm_progress calm_ask intro: calm_trans)
qed simp

lemma calm_connect_loop: "connect_loop rounds fuel W deadline i c = Some (b, c') \<Longrightarrow> calm c c'"
proof (induction rounds arbitrary: c)
  case (Suc rounds)
  then show ?case
    by (auto split: prod.splits bool.splits option.splits if_splits dest!: calm_running calm_progress intro: calm_trans)
qed simp

lemma calm_wait_for_check:
  assumes "wait_for_check fuel W i h check timed_out timeout c = Some (b, c')" and "\<And>c. calm c (timed_out c)"
  shows "calm c c'"
proof -
  obtain now c1 where c1: "ask (wd_clock W) c = (now, c1)" by fastforce
  obtain r c2 where c2: "wait_loop fuel fuel W (now + timeout) i check c1 = Some (r, c2)"
    using assms(1) by (auto simp: wait_for_check_def c1 split: option.splits)
  have "calm c c2" using calm_ask [OF c1] calm_wait_loop [OF c2] calm_trans by blast
  moreover from this have "calm c (snd (ask f c2))" "calm c (snd (ask f (timed_out c2)))" for f :: "'a \<Rightarrow> bool \<times> 'a"
    using assms(2) calm_snd_ask calm_trans by blast+
  ultimately show ?thesis using assms(1) calm_ask [of "wd_release W i h" c2]
    by (auto simp: wait_for_check_def c1 c2 split: loop_end.splits intro: calm_trans)
qed

lemma calm_wait_evidence: "wait_evidence fuel W i h ev timeout c = Some (b, c') \<Longrightarrow> calm c c'"
  unfolding wait_evidence_def by (erule calm_wait_for_check) (simp add: is_deed_def)

lemma calm_wait_state: "wait_state fuel W i h timeout c = Some (b, c') \<Longrightarrow> calm c c'"
  unfolding wait_state_def by (erule calm_wait_for_check) simp

lemma calm_wait_admission: "wait_admission fuel W i h epoch c = Some (b, c') \<Longrightarrow> calm c c'"
  by (auto simp: wait_admission_def Let_def split: prod.splits if_splits dest!: calm_ask calm_wait_evidence intro: calm_trans)

end
