(* ===== verification/VirtualRadio.thy ===== *)
theory VirtualRadio
  imports Fft
begin

text \<open>
  The signal source of a radio (\<open>src/virtual_radio.cpp\<close>): a complex tone of a fixed
  frequency, seen through a receiver whose center frequency, sample rate,
  bandwidth and gain can be set. The operations on \<open>double\<close> that the code uses are
  the fields of a record, so that the same definitions run on any arithmetic;
  the second half of the theory studies them on exact reals.
\<close>

section \<open>Double precision\<close>

type_synonym i16 = "16 word"

text \<open>
  \<open>db_int\<close> converts an integer, \<open>db_round\<close> is \<open>std::llround\<close>, and \<open>db_turns difference count rate\<close>
  is the long double detour of \<open>skip_samples\<close>: \<open>difference * count / rate\<close> reduced to
  its remainder modulo one and converted to \<open>double\<close>.
\<close>

record 'f doubles =
  db_int :: "int \<Rightarrow> 'f"
  db_pi :: 'f
  db_add :: "'f \<Rightarrow> 'f \<Rightarrow> 'f"
  db_sub :: "'f \<Rightarrow> 'f \<Rightarrow> 'f"
  db_mul :: "'f \<Rightarrow> 'f \<Rightarrow> 'f"
  db_div :: "'f \<Rightarrow> 'f \<Rightarrow> 'f"
  db_less :: "'f \<Rightarrow> 'f \<Rightarrow> bool"
  db_le :: "'f \<Rightarrow> 'f \<Rightarrow> bool"
  db_finite :: "'f \<Rightarrow> bool"
  db_abs :: "'f \<Rightarrow> 'f"
  db_pow :: "'f \<Rightarrow> 'f \<Rightarrow> 'f"
  db_cos :: "'f \<Rightarrow> 'f"
  db_sin :: "'f \<Rightarrow> 'f"
  db_remainder :: "'f \<Rightarrow> 'f \<Rightarrow> 'f"
  db_round :: "'f \<Rightarrow> int"
  db_turns :: "int \<Rightarrow> u64 \<Rightarrow> u32 \<Rightarrow> 'f"

section \<open>The radio\<close>

record 'f radio_settings =
  rs_center_hz :: u64
  rs_sample_rate_hz :: u32
  rs_bandwidth_hz :: u32
  rs_gain_db :: 'f

definition default_settings :: "'f doubles \<Rightarrow> 'f radio_settings" where
  "default_settings D = \<lparr>rs_center_hz = 100000000, rs_sample_rate_hz = 1000000,
     rs_bandwidth_hz = 800000, rs_gain_db = db_int D 0\<rparr>"

record 'f virtual_radio =
  vr_signal_hz :: u64
  vr_amplitude :: 'f
  vr_phase :: 'f
  vr_initial_phase :: 'f
  vr_settings :: "'f radio_settings"
  vr_sample_ordinal :: u64
  vr_clipped_samples :: u64
  vr_streaming :: bool

text \<open>\<open>2 * std::numbers::pi\<close>.\<close>

definition full_turn :: "'f doubles \<Rightarrow> 'f" where
  "full_turn D = db_mul D (db_int D 2) (db_pi D)"

definition valid_signal :: "'f doubles \<Rightarrow> u64 \<Rightarrow> 'f \<Rightarrow> 'f \<Rightarrow> bool" where
  "valid_signal D signal_hz amplitude phase_radians \<longleftrightarrow>
     \<not> (signal_hz < 1000000 \<or> signal_hz > 6000000000 \<or>
        \<not> db_finite D amplitude \<or> db_less D amplitude (db_int D 0) \<or> db_less D (db_int D 1) amplitude \<or>
        \<not> db_finite D phase_radians \<or> db_less D phase_radians (db_int D 0) \<or>
        db_less D (full_turn D) phase_radians)"

definition new_radio :: "'f doubles \<Rightarrow> u64 \<Rightarrow> 'f \<Rightarrow> 'f \<Rightarrow> 'f virtual_radio result" where
  "new_radio D signal_hz amplitude phase_radians =
     ensure (valid_signal D signal_hz amplitude phase_radians)
       (Invalid_argument ''invalid virtual radio signal'')
       (Inr \<lparr>vr_signal_hz = signal_hz, vr_amplitude = amplitude, vr_phase = phase_radians,
             vr_initial_phase = phase_radians, vr_settings = default_settings D,
             vr_sample_ordinal = 0, vr_clipped_samples = 0, vr_streaming = False\<rparr>)"

definition valid_settings :: "'f doubles \<Rightarrow> 'f radio_settings \<Rightarrow> bool" where
  "valid_settings D s \<longleftrightarrow>
     \<not> (rs_center_hz s < 1000000 \<or> rs_center_hz s > 6000000000 \<or>
        rs_sample_rate_hz s < 1000 \<or> rs_sample_rate_hz s > 2000000 \<or>
        rs_bandwidth_hz s < 1 \<or> rs_bandwidth_hz s > rs_sample_rate_hz s \<or>
        \<not> db_finite D (rs_gain_db s) \<or> db_less D (rs_gain_db s) (db_int D (- 60)) \<or>
        db_less D (db_int D 60) (rs_gain_db s))"

definition unsupported_setting :: exn where
  "unsupported_setting = Invalid_argument ''unsupported radio setting''"

definition configure_radio :: "'f doubles \<Rightarrow> 'f radio_settings \<Rightarrow> 'f virtual_radio \<Rightarrow> 'f virtual_radio result" where
  "configure_radio D s r = ensure (valid_settings D s) unsupported_setting (Inr (r\<lparr>vr_settings := s\<rparr>))"

definition begin_epoch :: "'f virtual_radio \<Rightarrow> 'f virtual_radio" where
  "begin_epoch r = r\<lparr>vr_sample_ordinal := 0, vr_phase := vr_initial_phase r\<rparr>"

definition start_radio :: "'f virtual_radio \<Rightarrow> 'f virtual_radio" where
  "start_radio r = r\<lparr>vr_streaming := True\<rparr>"

definition stop_radio :: "'f virtual_radio \<Rightarrow> 'f virtual_radio" where
  "stop_radio r = r\<lparr>vr_streaming := False\<rparr>"

definition skip_samples :: "'f doubles \<Rightarrow> u64 \<Rightarrow> 'f virtual_radio \<Rightarrow> 'f virtual_radio" where
  "skip_samples D count r =
    (let turns = db_turns D (uint (vr_signal_hz r) - uint (rs_center_hz (vr_settings r))) count
                   (rs_sample_rate_hz (vr_settings r))
     in r\<lparr>vr_phase := db_remainder D
             (db_add D (vr_phase r) (db_mul D (db_mul D turns (db_int D 2)) (db_pi D))) (full_turn D),
          vr_sample_ordinal := vr_sample_ordinal r + count\<rparr>)"

section \<open>Reading samples\<close>

text \<open>The constants \<open>read\<close> computes before its loop.\<close>

definition tone_offset :: "'f doubles \<Rightarrow> 'f virtual_radio \<Rightarrow> 'f" where
  "tone_offset D r = db_sub D (db_int D (uint (vr_signal_hz r))) (db_int D (uint (rs_center_hz (vr_settings r))))"

definition in_band :: "'f doubles \<Rightarrow> 'f virtual_radio \<Rightarrow> bool" where
  "in_band D r \<longleftrightarrow>
     db_le D (db_abs D (tone_offset D r)) (db_div D (db_int D (uint (rs_bandwidth_hz (vr_settings r)))) (db_int D 2)) \<and>
     db_less D (db_abs D (tone_offset D r)) (db_div D (db_int D (uint (rs_sample_rate_hz (vr_settings r)))) (db_int D 2))"

definition tone_scale :: "'f doubles \<Rightarrow> 'f virtual_radio \<Rightarrow> 'f" where
  "tone_scale D r =
     (if in_band D r
      then db_mul D (db_mul D (db_int D 32767) (vr_amplitude r))
             (db_pow D (db_int D 10) (db_div D (rs_gain_db (vr_settings r)) (db_int D 20)))
      else db_int D 0)"

definition tone_increment :: "'f doubles \<Rightarrow> 'f virtual_radio \<Rightarrow> 'f" where
  "tone_increment D r =
    (let rate = db_int D (uint (rs_sample_rate_hz (vr_settings r)))
     in db_div D (db_mul D (full_turn D) (db_remainder D (tone_offset D r) rate)) rate)"

definition clamp16 :: "'f doubles \<Rightarrow> 'f \<Rightarrow> 'f" where
  "clamp16 D value =
     (if db_less D value (db_int D (- 32768)) then db_int D (- 32768)
      else if db_less D (db_int D 32767) value then db_int D 32767 else value)"

definition clips :: "'f doubles \<Rightarrow> 'f \<Rightarrow> bool" where
  "clips D value \<longleftrightarrow> db_less D value (db_int D (- 32768)) \<or> db_less D (db_int D 32767) value"

text \<open>The lambda \<open>convert\<close>: the integer sample, and the count of clipped samples.\<close>

definition convert :: "'f doubles \<Rightarrow> 'f \<Rightarrow> 'f virtual_radio \<Rightarrow> i16 \<times> 'f virtual_radio" where
  "convert D value r =
     (word_of_int (db_round D (clamp16 D value)),
      if clips D value then r\<lparr>vr_clipped_samples := vr_clipped_samples r + 1\<rparr> else r)"

definition read_pair :: "'f doubles \<Rightarrow> 'f \<Rightarrow> 'f \<Rightarrow> i16 list \<times> 'f virtual_radio \<Rightarrow> nat \<Rightarrow> i16 list \<times> 'f virtual_radio" where
  "read_pair D scale increment st index =
    (let (interleaved, r) = st;
         (i, r) = convert D (db_mul D scale (db_cos D (vr_phase r))) r;
         interleaved = interleaved[index * 2 := i];
         (q, r) = convert D (db_mul D scale (db_sin D (vr_phase r))) r;
         interleaved = interleaved[index * 2 + 1 := q]
     in (interleaved, r\<lparr>vr_phase := db_remainder D (db_add D (vr_phase r) increment) (full_turn D)\<rparr>))"

text \<open>\<open>read\<close>: the buffer after the call, the number of pairs it returns and the radio.\<close>

definition read_radio ::
  "'f doubles \<Rightarrow> i16 list \<Rightarrow> nat \<Rightarrow> 'f virtual_radio \<Rightarrow> i16 list \<times> nat \<times> 'f virtual_radio" where
  "read_radio D interleaved pairs r =
     (if \<not> vr_streaming r \<or> pairs = 0 \<or> pairs > 1024 \<or> length interleaved < pairs * 2 then (interleaved, 0, r)
      else let (interleaved, r') = foldl (read_pair D (tone_scale D r) (tone_increment D r)) (interleaved, r) [0..<pairs]
           in (interleaved, pairs, r'\<lparr>vr_sample_ordinal := vr_sample_ordinal r' + of_nat pairs\<rparr>))"

section \<open>Samples one after another\<close>

text \<open>
  The reference: the radio makes one pair at a time and the phase is all it needs to know of
  the past. \<open>pair_at\<close> is the pair at a phase, \<open>phases\<close> the phase after a number of pairs.
\<close>

definition quantized :: "'f doubles \<Rightarrow> 'f \<Rightarrow> i16" where
  "quantized D value = word_of_int (db_round D (clamp16 D value))"

definition pair_at :: "'f doubles \<Rightarrow> 'f virtual_radio \<Rightarrow> 'f \<Rightarrow> i16 \<times> i16" where
  "pair_at D r phase =
     (quantized D (db_mul D (tone_scale D r) (db_cos D phase)), quantized D (db_mul D (tone_scale D r) (db_sin D phase)))"

definition clips_at :: "'f doubles \<Rightarrow> 'f virtual_radio \<Rightarrow> 'f \<Rightarrow> nat" where
  "clips_at D r phase =
     (if clips D (db_mul D (tone_scale D r) (db_cos D phase)) then 1 else 0) +
     (if clips D (db_mul D (tone_scale D r) (db_sin D phase)) then 1 else 0)"

fun phases :: "'f doubles \<Rightarrow> 'f virtual_radio \<Rightarrow> nat \<Rightarrow> 'f" where
  "phases D r 0 = vr_phase r"
| "phases D r (Suc k) = db_remainder D (db_add D (phases D r k) (tone_increment D r)) (full_turn D)"

text \<open>The radio after a number of pairs.\<close>

definition advanced :: "'f doubles \<Rightarrow> 'f virtual_radio \<Rightarrow> nat \<Rightarrow> 'f virtual_radio" where
  "advanced D r k = r\<lparr>vr_phase := phases D r k, vr_sample_ordinal := vr_sample_ordinal r + of_nat k,
     vr_clipped_samples := vr_clipped_samples r + of_nat (\<Sum>m<k. clips_at D r (phases D r m))\<rparr>"

definition interleave :: "(i16 \<times> i16) list \<Rightarrow> i16 list" where
  "interleave ps = concat (map (\<lambda>(i, q). [i, q]) ps)"

definition pairs_from :: "'f doubles \<Rightarrow> 'f virtual_radio \<Rightarrow> nat \<Rightarrow> (i16 \<times> i16) list" where
  "pairs_from D r k = map (\<lambda>m. pair_at D r (phases D r m)) [0..<k]"

lemma length_interleave [simp]: "length (interleave ps) = 2 * length ps"
  by (induction ps) (auto simp: interleave_def)

lemma interleave_append [simp]: "interleave (xs @ ys) = interleave xs @ interleave ys"
  by (simp add: interleave_def)

lemma interleave_pair: "interleave [p] = [fst p, snd p]"
  by (simp add: interleave_def split: prod.splits)

lemma length_pairs_from [simp]: "length (pairs_from D r k) = k"
  by (simp add: pairs_from_def)

lemma convert_eq:
  "convert D v r = (quantized D v, r\<lparr>vr_clipped_samples := vr_clipped_samples r + (if clips D v then 1 else 0)\<rparr>)"
  by (simp add: convert_def quantized_def)

lemma read_pair_eq:
  assumes "length filled = k * 2"
  shows "read_pair D (tone_scale D r) increment (filled @ x # y # rest, s) k =
    (filled @ fst (pair_at D r (vr_phase s)) # snd (pair_at D r (vr_phase s)) # rest,
     s\<lparr>vr_phase := db_remainder D (db_add D (vr_phase s) increment) (full_turn D),
       vr_clipped_samples := vr_clipped_samples s + of_nat (clips_at D r (vr_phase s))\<rparr>)"
  using assms by (simp add: read_pair_def convert_eq pair_at_def clips_at_def list_update_append)

lemma two_more:
  assumes "Suc k * 2 \<le> length xs"
  obtains x y where "drop (k * 2) xs = x # y # drop (Suc k * 2) xs"
proof -
  from assms have "k * 2 < length xs" "Suc (k * 2) < length xs" by simp_all
  then have "drop (k * 2) xs = xs ! (k * 2) # xs ! Suc (k * 2) # drop (Suc k * 2) xs"
    by (simp add: Cons_nth_drop_Suc)
  then show ?thesis by (rule that)
qed

lemma read_pairs_advanced:
  assumes "k * 2 \<le> length buffer"
  shows "foldl (read_pair D (tone_scale D r) (tone_increment D r)) (buffer, r) [0..<k] =
    (interleave (pairs_from D r k) @ drop (k * 2) buffer,
     (advanced D r k)\<lparr>vr_sample_ordinal := vr_sample_ordinal r\<rparr>)"
  using assms
proof (induction k)
  case 0
  then show ?case by (simp add: pairs_from_def interleave_def advanced_def)
next
  case (Suc k)
  then have IH: "foldl (read_pair D (tone_scale D r) (tone_increment D r)) (buffer, r) [0..<k] =
    (interleave (pairs_from D r k) @ drop (k * 2) buffer, (advanced D r k)\<lparr>vr_sample_ordinal := vr_sample_ordinal r\<rparr>)"
    by simp
  obtain x y where d: "drop (k * 2) buffer = x # y # drop (Suc k * 2) buffer"
    using two_more [OF Suc.prems] .
  have l: "length (interleave (pairs_from D r k)) = k * 2" by simp
  have p: "pairs_from D r (Suc k) = pairs_from D r k @ [pair_at D r (phases D r k)]"
    by (simp add: pairs_from_def)
  show ?case
    unfolding upt_Suc_append [OF le0] foldl_append IH foldl.simps d read_pair_eq [OF l]
    by (simp add: p interleave_pair advanced_def)
qed

lemma read_radio_advanced:
  assumes "vr_streaming r" "0 < k" "k \<le> 1024" "k * 2 \<le> length buffer"
  shows "read_radio D buffer k r = (interleave (pairs_from D r k) @ drop (k * 2) buffer, k, advanced D r k)"
  using assms by (simp add: read_radio_def read_pairs_advanced advanced_def)

lemma phases_cong:
  assumes "vr_phase s = phases D r j" "tone_increment D s = tone_increment D r"
  shows "phases D s k = phases D r (j + k)"
  using assms by (induction k) simp_all

lemma advanced_constants [simp]:
  "vr_signal_hz (advanced D r k) = vr_signal_hz r" "vr_amplitude (advanced D r k) = vr_amplitude r"
  "vr_initial_phase (advanced D r k) = vr_initial_phase r" "vr_settings (advanced D r k) = vr_settings r"
  "vr_streaming (advanced D r k) = vr_streaming r" "vr_phase (advanced D r k) = phases D r k"
  "vr_sample_ordinal (advanced D r k) = vr_sample_ordinal r + of_nat k"
  by (simp_all add: advanced_def)

lemma tone_cong:
  assumes "vr_signal_hz s = vr_signal_hz r" "vr_amplitude s = vr_amplitude r" "vr_settings s = vr_settings r"
  shows "tone_scale D s = tone_scale D r" "tone_increment D s = tone_increment D r"
    "pair_at D s = pair_at D r" "clips_at D s = clips_at D r"
  using assms by (simp_all add: tone_scale_def tone_increment_def in_band_def tone_offset_def pair_at_def clips_at_def fun_eq_iff)

lemma tone_advanced [simp]:
  "tone_scale D (advanced D r k) = tone_scale D r" "tone_increment D (advanced D r k) = tone_increment D r"
  "pair_at D (advanced D r k) = pair_at D r" "clips_at D (advanced D r k) = clips_at D r"
  by (rule tone_cong; simp)+

lemma phases_advanced [simp]: "phases D (advanced D r j) k = phases D r (j + k)"
  by (rule phases_cong) simp_all

lemma map_upt_add: "map f [0..<j + k] = map f [0..<j] @ map (\<lambda>m. f (j + m)) [0..<k]"
  by (rule nth_equalityI) (auto simp: nth_append)

lemma pairs_from_add: "pairs_from D r (j + k) = pairs_from D r j @ pairs_from D (advanced D r j) k"
  by (simp add: pairs_from_def map_upt_add)

lemma sum_upt_add: "(\<Sum>m<j + (k :: nat). f m) = (\<Sum>m<j. f m) + (\<Sum>m<k. f (j + m) :: nat)"
  by (induction k) simp_all

lemma advanced_add: "advanced D (advanced D r j) k = advanced D r (j + k)"
  by (simp add: advanced_def [of D "advanced D r j"]) (simp add: advanced_def sum_upt_add)

lemma advanced_0 [simp]: "advanced D r 0 = r"
  by (simp add: advanced_def)

section \<open>Exact arithmetic\<close>

text \<open>\<open>std::remainder\<close> takes the quotient to the nearest integer, halves to the even one;
  \<open>std::llround\<close> rounds halves away from zero.\<close>

definition nearest_even :: "real \<Rightarrow> int" where
  "nearest_even x =
    (let f = \<lfloor>x\<rfloor> in if x - real_of_int f < 1 / 2 then f
     else if 1 / 2 < x - real_of_int f then f + 1 else if even f then f else f + 1)"

definition round_away :: "real \<Rightarrow> int" where
  "round_away x = (if 0 \<le> x then \<lfloor>x + 1 / 2\<rfloor> else \<lceil>x - 1 / 2\<rceil>)"

definition reals :: "real doubles" where
  "reals = \<lparr>db_int = real_of_int, db_pi = pi, db_add = (+), db_sub = (-), db_mul = (*), db_div = (/),
     db_less = (<), db_le = (\<le>), db_finite = (\<lambda>_. True), db_abs = abs, db_pow = (powr), db_cos = cos,
     db_sin = sin, db_remainder = (\<lambda>x y. x - y * real_of_int (nearest_even (x / y))), db_round = round_away,
     db_turns = (\<lambda>difference count rate.
        let t = real_of_int difference * real_of_int (uint count) / real_of_int (uint rate)
        in t - real_of_int (nearest_even t))\<rparr>"

lemma reals_simps [simp]:
  "db_int reals = real_of_int" "db_pi reals = pi" "db_add reals = (+)" "db_sub reals = (-)"
  "db_mul reals = (*)" "db_div reals = (/)" "db_less reals = (<)" "db_le reals = (\<le>)"
  "db_finite reals = (\<lambda>_. True)" "db_abs reals = abs" "db_pow reals = (powr)" "db_cos reals = cos"
  "db_sin reals = sin" "db_remainder reals x y = x - y * real_of_int (nearest_even (x / y))"
  "db_round reals = round_away"
  "db_turns reals d c rate = real_of_int d * real_of_int (uint c) / real_of_int (uint rate) -
     real_of_int (nearest_even (real_of_int d * real_of_int (uint c) / real_of_int (uint rate)))"
  "full_turn reals = 2 * pi"
  by (simp_all add: reals_def Let_def full_turn_def)

lemma round_away_near: "\<bar>real_of_int (round_away x) - x\<bar> \<le> 1 / 2"
proof -
  have "x - 1 / 2 < real_of_int \<lfloor>x + 1 / 2\<rfloor>" "real_of_int \<lfloor>x + 1 / 2\<rfloor> \<le> x + 1 / 2"
    "x - 1 / 2 \<le> real_of_int \<lceil>x - 1 / 2\<rceil>" "real_of_int \<lceil>x - 1 / 2\<rceil> < x + 1 / 2"
    by linarith+
  then show ?thesis unfolding round_away_def by (cases "0 \<le> x") (simp only: if_True if_False abs_le_iff not_False_eq_True; linarith)+
qed

lemma round_away_bounds: "real_of_int a \<le> x \<Longrightarrow> x \<le> real_of_int b \<Longrightarrow> a \<le> round_away x \<and> round_away x \<le> b"
  by (cases "0 \<le> x") (simp_all add: round_away_def le_floor_iff floor_le_iff le_ceiling_iff ceiling_le_iff; linarith)+

text \<open>Turns of the tone per sample, and its angle some samples from now.\<close>

definition turns :: "real virtual_radio \<Rightarrow> real" where
  "turns r = (real_of_int (uint (vr_signal_hz r)) - real_of_int (uint (rs_center_hz (vr_settings r)))) /
     real_of_int (uint (rs_sample_rate_hz (vr_settings r)))"

definition angle :: "real virtual_radio \<Rightarrow> nat \<Rightarrow> real" where
  "angle r m = vr_phase r + 2 * pi * (real m * turns r)"

definition same_angle :: "real \<Rightarrow> real \<Rightarrow> bool" where
  "same_angle a b \<longleftrightarrow> (\<exists>z. a = b + 2 * pi * real_of_int z)"

lemma same_angle_refl [simp]: "same_angle a a"
  unfolding same_angle_def by (rule exI [of _ 0]) simp

lemma same_angle_trans: "same_angle a b \<Longrightarrow> same_angle b c \<Longrightarrow> same_angle a c"
  unfolding same_angle_def by (metis (no_types, opaque_lifting) add.assoc add.commute distrib_left of_int_add)

lemma same_angle_sym: "same_angle a b \<Longrightarrow> same_angle b a"
  unfolding same_angle_def
  by (elim exE, rule_tac x = "- z" in exI) simp

lemma same_angle_add: "same_angle a b \<Longrightarrow> same_angle c d \<Longrightarrow> same_angle (a + c) (b + d)"
  unfolding same_angle_def
  by (elim exE, rule_tac x = "z + za" in exI) (simp add: algebra_simps)

lemma same_angle_remainder: "same_angle (x - 2 * pi * real_of_int z) x"
  unfolding same_angle_def by (rule exI [of _ "- z"]) simp

lemma same_angle_cos_sin:
  assumes "same_angle a b"
  shows "cos a = cos b" "sin a = sin b"
proof -
  obtain z where "a = b + 2 * pi * real_of_int z" using assms by (auto simp: same_angle_def)
  then have "cis a = cis b * cis (2 * pi * real_of_int z)" by (simp only: cis_mult)
  also have "cis (2 * pi * real_of_int z) = 1" by (rule cis_multiple_2pi) simp
  finally have "cis a = cis b" by simp
  then show "cos a = cos b" "sin a = sin b" by (metis cis.simps(1), metis cis.simps(2))
qed

lemma pair_at_same_angle: "same_angle a b \<Longrightarrow> pair_at reals r a = pair_at reals r b"
  using same_angle_cos_sin [of a b] by (simp add: pair_at_def)

lemma clips_at_same_angle: "same_angle a b \<Longrightarrow> clips_at reals r a = clips_at reals r b"
  using same_angle_cos_sin [of a b] by (simp add: clips_at_def)

lemma increment_turns: "same_angle (tone_increment reals r) (2 * pi * turns r)"
proof -
  define rate where "rate = real_of_int (uint (rs_sample_rate_hz (vr_settings r)))"
  define d where "d = real_of_int (uint (vr_signal_hz r)) - real_of_int (uint (rs_center_hz (vr_settings r)))"
  define z where "z = nearest_even (d / rate)"
  have "tone_increment reals r = 2 * pi * (d - rate * real_of_int z) / rate"
    by (simp add: tone_increment_def tone_offset_def Let_def rate_def d_def z_def)
  also have "\<dots> = 2 * pi * turns r - 2 * pi * real_of_int (if rate = 0 then 0 else z)"
    unfolding turns_def d_def [symmetric] rate_def [symmetric] by (simp add: field_simps)
  finally show ?thesis by (simp only: same_angle_remainder)
qed

lemma phases_angle: "same_angle (phases reals r k) (angle r k)"
proof (induction k)
  case 0
  then show ?case by (simp add: angle_def)
next
  case (Suc k)
  have "same_angle (phases reals r (Suc k)) (phases reals r k + tone_increment reals r)"
    by (simp add: same_angle_remainder)
  also note same_angle_add [OF Suc increment_turns]
  finally (same_angle_trans) show ?case by (simp add: angle_def algebra_simps)
qed

lemma pairs_from_angle: "pairs_from reals r k = map (\<lambda>m. pair_at reals r (angle r m)) [0..<k]"
  unfolding pairs_from_def by (rule map_cong [OF refl]) (rule pair_at_same_angle [OF phases_angle])

lemma sint_i16: "- 32768 \<le> z \<Longrightarrow> z \<le> 32767 \<Longrightarrow> sint (word_of_int z :: i16) = z"
  by (simp add: signed_of_int signed_take_bit_int_eq_self)

lemma quantized_near:
  "\<bar>real_of_int (sint (quantized reals v)) - clamp16 reals v\<bar> \<le> 1 / 2"
  "- 32768 \<le> clamp16 reals v" "clamp16 reals v \<le> 32767" "\<not> clips reals v \<Longrightarrow> clamp16 reals v = v"
proof -
  show b: "- 32768 \<le> clamp16 reals v" "clamp16 reals v \<le> 32767" by (simp_all add: clamp16_def)
  then have "- 32768 \<le> round_away (clamp16 reals v) \<and> round_away (clamp16 reals v) \<le> 32767"
    by (intro round_away_bounds) simp_all
  then have "sint (quantized reals v) = round_away (clamp16 reals v)"
    by (simp add: quantized_def sint_i16)
  then show "\<bar>real_of_int (sint (quantized reals v)) - clamp16 reals v\<bar> \<le> 1 / 2"
    by (simp only: round_away_near)
  show "\<not> clips reals v \<Longrightarrow> clamp16 reals v = v" by (simp add: clips_def clamp16_def)
qed

lemma skip_angle:
  "same_angle (vr_phase (skip_samples reals n r)) (angle r (unat n))"
proof -
  define t where "t = real (unat n) * turns r"
  have "vr_phase (skip_samples reals n r) =
    (vr_phase r + 2 * pi * (t - real_of_int (nearest_even t))) -
      2 * pi * real_of_int (nearest_even ((vr_phase r + 2 * pi * (t - real_of_int (nearest_even t))) / (2 * pi)))"
    by (simp add: skip_samples_def Let_def t_def turns_def ac_simps)
  also have "same_angle \<dots> (vr_phase r + 2 * pi * (t - real_of_int (nearest_even t)))"
    by (rule same_angle_remainder)
  also have "vr_phase r + 2 * pi * (t - real_of_int (nearest_even t)) =
      vr_phase r + 2 * pi * t - 2 * pi * real_of_int (nearest_even t)" by (simp add: algebra_simps)
  also have "same_angle \<dots> (vr_phase r + 2 * pi * t)" by (rule same_angle_remainder)
  finally (same_angle_trans) show ?thesis by (simp add: angle_def t_def)
qed

text \<open>C39. Reading is independent of how it is split into calls, and is the tone: on exact arithmetic
  a call on a streaming radio fills the buffer with consecutive pairs; the components of pair
  \<open>m\<close> are within half a unit of the scale times the cosine and sine of the tone's angle \<open>m\<close>
  samples on (limited to 16 bits), a later call goes on where this one stopped, and the
  count of clipped samples grows by the number of components out of range.\<close>

theorem radio_reads_tone:
  assumes "vr_streaming r" "0 < k" "k \<le> 1024" "k * 2 \<le> length buffer"
  shows "\<exists>pairs r'. read_radio reals buffer k r = (interleave pairs @ drop (k * 2) buffer, k, r') \<and> length pairs = k \<and>
    (\<forall>m < k.
       \<bar>real_of_int (sint (fst (pairs ! m))) - clamp16 reals (tone_scale reals r * cos (angle r m))\<bar> \<le> 1 / 2 \<and>
       \<bar>real_of_int (sint (snd (pairs ! m))) - clamp16 reals (tone_scale reals r * sin (angle r m))\<bar> \<le> 1 / 2) \<and>
    vr_streaming r' \<and> vr_settings r' = vr_settings r \<and> vr_sample_ordinal r' = vr_sample_ordinal r + of_nat k \<and>
    vr_clipped_samples r' = vr_clipped_samples r + of_nat (\<Sum>m<k. clips_at reals r (angle r m)) \<and>
    (\<forall>buffer' k'. 0 < k' \<and> k' \<le> 1024 \<and> k' * 2 \<le> length buffer' \<longrightarrow>
       read_radio reals buffer' k' r' =
         (interleave (map (\<lambda>m. pair_at reals r (angle r (k + m))) [0..<k']) @ drop (k' * 2) buffer', k',
          advanced reals r (k + k')))"
proof (intro exI [of _ "pairs_from reals r k"] exI [of _ "advanced reals r k"] conjI)
  show "read_radio reals buffer k r = (interleave (pairs_from reals r k) @ drop (k * 2) buffer, k, advanced reals r k)"
    using assms by (rule read_radio_advanced)
  show "vr_clipped_samples (advanced reals r k) = vr_clipped_samples r + of_nat (\<Sum>m<k. clips_at reals r (angle r m))"
    unfolding advanced_def by (simp cong: sum.cong add: clips_at_same_angle [OF phases_angle])
  show "\<forall>buffer' k'. 0 < k' \<and> k' \<le> 1024 \<and> k' * 2 \<le> length buffer' \<longrightarrow>
       read_radio reals buffer' k' (advanced reals r k) =
         (interleave (map (\<lambda>m. pair_at reals r (angle r (k + m))) [0..<k']) @ drop (k' * 2) buffer', k',
          advanced reals r (k + k'))"
    using assms(1) by (simp add: read_radio_advanced advanced_add pairs_from_def pair_at_same_angle [OF phases_angle] cong: map_cong)
  show "\<forall>m < k.
       \<bar>real_of_int (sint (fst (pairs_from reals r k ! m))) - clamp16 reals (tone_scale reals r * cos (angle r m))\<bar> \<le> 1 / 2 \<and>
       \<bar>real_of_int (sint (snd (pairs_from reals r k ! m))) - clamp16 reals (tone_scale reals r * sin (angle r m))\<bar> \<le> 1 / 2"
    unfolding pairs_from_angle pair_at_def using quantized_near(1) by simp
qed (use assms(1) in simp_all)

definition example_radio :: "real virtual_radio" where
  "example_radio = \<lparr>vr_signal_hz = 100250000, vr_amplitude = 1 / 2, vr_phase = 0, vr_initial_phase = 0,
     vr_settings = default_settings reals, vr_sample_ordinal = 0, vr_clipped_samples = 0, vr_streaming = True\<rparr>"

lemma example_tone: "tone_scale reals example_radio = 32767 / 2" "turns example_radio = 1 / 4"
  by (simp_all add: tone_scale_def in_band_def tone_offset_def turns_def example_radio_def default_settings_def)

theorem radio_reads_tone_witness:
  "\<exists>pairs r'. read_radio reals (replicate 4 0) 2 example_radio = (interleave pairs, 2, r') \<and> length pairs = 2 \<and>
     \<bar>real_of_int (sint (fst (pairs ! 0))) - 32767 / 2\<bar> \<le> 1 / 2 \<and> \<bar>real_of_int (sint (snd (pairs ! 1))) - 32767 / 2\<bar> \<le> 1 / 2"
proof -
  have a: "angle example_radio 0 = 0" "angle example_radio 1 = pi / 2"
    by (simp_all add: angle_def example_tone) (simp_all add: example_radio_def)
  have c: "clamp16 reals (tone_scale reals example_radio * cos (angle example_radio 0)) = 32767 / 2"
    "clamp16 reals (tone_scale reals example_radio * sin (angle example_radio 1)) = 32767 / 2"
    unfolding a example_tone clamp16_def by simp_all
  have "vr_streaming example_radio" by (simp add: example_radio_def)
  from radio_reads_tone [OF this, of 2 "replicate 4 0"] obtain pairs r' where
    r: "read_radio reals (replicate 4 0) 2 example_radio = (interleave pairs, 2, r')" "length pairs = 2"
    and p: "\<forall>m<2. \<bar>real_of_int (sint (fst (pairs ! m))) - clamp16 reals (tone_scale reals example_radio * cos (angle example_radio m))\<bar> \<le> 1 / 2 \<and>
       \<bar>real_of_int (sint (snd (pairs ! m))) - clamp16 reals (tone_scale reals example_radio * sin (angle example_radio m))\<bar> \<le> 1 / 2"
    by auto
  have "\<bar>real_of_int (sint (fst (pairs ! 0))) - 32767 / 2\<bar> \<le> 1 / 2" "\<bar>real_of_int (sint (snd (pairs ! 1))) - 32767 / 2\<bar> \<le> 1 / 2"
    using p [rule_format, of 0] p [rule_format, of 1] unfolding c by simp_all
  with r show ?thesis by blast
qed

text \<open>Skipping is the same as reading and throwing away: on exact arithmetic a radio that skips \<open>n\<close>
  samples has the ordinal of one that delivered \<open>n\<close> pairs, and every later read of the two
  fills the buffer with the same samples.\<close>

lemma skip_is_discard:
  "vr_sample_ordinal (skip_samples reals n r) = vr_sample_ordinal (advanced reals r (unat n)) \<and>
   fst (read_radio reals buffer k (skip_samples reals n r)) = fst (read_radio reals buffer k (advanced reals r (unat n)))"
proof -
  let ?s = "skip_samples reals n r" and ?d = "advanced reals r (unat n)"
  have same: "vr_signal_hz ?s = vr_signal_hz r" "vr_amplitude ?s = vr_amplitude r" "vr_settings ?s = vr_settings r"
    "vr_streaming ?s = vr_streaming r" "vr_sample_ordinal ?s = vr_sample_ordinal r + n"
    by (simp_all add: skip_samples_def Let_def)
  have "same_angle (angle ?s m) (angle r (unat n + m))" for m
  proof -
    have "angle ?s m = vr_phase ?s + 2 * pi * (real m * turns r)"
      by (simp add: angle_def turns_def same)
    also have "same_angle \<dots> (angle r (unat n) + 2 * pi * (real m * turns r))"
      by (rule same_angle_add [OF skip_angle same_angle_refl])
    also have "angle r (unat n) + 2 * pi * (real m * turns r) = angle r (unat n + m)"
      by (simp add: angle_def algebra_simps)
    finally show ?thesis .
  qed
  then have "pair_at reals r (angle ?s m) = pair_at reals r (phases reals r (unat n + m))" for m
    by (metis pair_at_same_angle phases_angle)
  then have "pairs_from reals ?s k = pairs_from reals ?d k"
    unfolding pairs_from_angle [of ?s] by (simp add: pairs_from_def tone_cong(3) [OF same(1-3)])
  moreover have "vr_streaming ?d = vr_streaming ?s" by (simp add: same)
  ultimately have "fst (read_radio reals buffer k ?s) = fst (read_radio reals buffer k ?d)"
  proof (cases "vr_streaming ?s \<and> 0 < k \<and> k \<le> 1024 \<and> k * 2 \<le> length buffer")
    case True
    with \<open>pairs_from reals ?s k = pairs_from reals ?d k\<close> show ?thesis
      by (simp add: read_radio_advanced same)
  next
    case False
    then show ?thesis by (auto simp: read_radio_def same)
  qed
  then show ?thesis by (simp add: same)
qed

end
