(* ===== verification/Config.thy ===== *)
theory Config
  imports Json Delivery Controller VirtualRadio
begin

text \<open>
  How the processor and the detector are configured and started (\<open>src/apps/udp_pipeline.cpp\<close>,
  \<open>src/apps/processor.cpp\<close>, \<open>src/apps/detector.cpp\<close>): the command line, the loading of the two
  configurations from a JSON document, and what a configuration that loads guarantees to the
  components it is given to.
\<close>

section \<open>Configurations\<close>

record endpoint =
  ep_host :: string
  ep_port :: u16

record processor_config =
  uc_listeners :: "(u32 \<times> endpoint) list"
  uc_source_host :: string
  uc_destination :: endpoint
  uc_core :: core_config
  uc_controller :: controller_config

record detector_config =
  dc_listener :: endpoint
  dc_fft_size :: u32
  dc_receive_bytes :: nat

definition maximum_udp_datagram :: nat where
  "maximum_udp_datagram = 65535"

definition udp_port :: "u32 \<Rightarrow> u16 result" where
  "udp_port number =
     ensure (\<not> (number = 0 \<or> number > 65535)) (Invalid_argument ''UDP port is out of range'') (Inr (ucast number))"

definition load_endpoint :: "('j, 'f) reader \<Rightarrow> 'j \<Rightarrow> string \<Rightarrow> endpoint result" where
  "load_endpoint J v host_key =
     ebind (member_as (do_string J) J v host_key) (\<lambda>host.
     ebind (ebind (member_as (re_u32 J) J v ''port'') udp_port) (\<lambda>port. Inr \<lparr>ep_host = host, ep_port = port\<rparr>))"

text \<open>The spectrum settings that both programs support.\<close>

definition spectrum_supported :: "('j, 'f) reader \<Rightarrow> 'j \<Rightarrow> bool result" where
  "spectrum_supported J spectrum =
     and_also (member_is (\<lambda>x. do_is_int J x 1) J spectrum ''schema'')
    (and_also (member_is (\<lambda>x. do_is_int J x 2048) J spectrum ''fft_size'')
    (and_also (member_is (\<lambda>x. do_is_int J x 0) J spectrum ''overlap_samples'')
      (member_is (\<lambda>x. do_is_string J x ''rectangular'') J spectrum ''window'')))"

section \<open>The processor's configuration\<close>

definition no_radio_control :: radio_control where
  "no_radio_control = \<lparr>cr_id = [], cr_sid = 0, cr_control_host = [], cr_control_port = 0, cr_status_host = [],
     cr_status_port = 0, cr_center_hz = 0, cr_sample_rate_hz = 0, cr_bandwidth_hz = 0, cr_gain_db_q7 = 0\<rparr>"

text \<open>The arrays the loop over the radios fills: found, listeners, the controller's radios.\<close>

type_synonym radio_arrays = "bool list \<times> (u32 \<times> endpoint) list \<times> radio_control list"

definition radio_settings_ok :: "radio_control \<Rightarrow> bool" where
  "radio_settings_ok target \<longleftrightarrow> cr_id target \<noteq> [] \<and> cr_center_hz target > 0 \<and> cr_sample_rate_hz target > 0 \<and>
     cr_bandwidth_hz target > 0 \<and> cr_bandwidth_hz target \<le> cr_sample_rate_hz target"

definition load_target :: "('j, 'f) reader \<Rightarrow> u32 \<Rightarrow> 'j \<Rightarrow> radio_control result" where
  "load_target J sid radio =
     ebind (member_as (do_string J) J radio ''id'') (\<lambda>id.
     ebind (ebind (member J radio ''control'') (\<lambda>v. load_endpoint J v ''host'')) (\<lambda>control.
     ebind (ebind (member J radio ''status'') (\<lambda>v. load_endpoint J v ''host'')) (\<lambda>status.
     ebind (member J radio ''settings'') (\<lambda>settings.
     ebind (member_as (do_u64 J) J settings ''center_hz'') (\<lambda>center_hz.
     ebind (member_as (re_u32 J) J settings ''sample_rate_hz'') (\<lambda>sample_rate_hz.
     ebind (member_as (re_u32 J) J settings ''bandwidth_hz'') (\<lambda>bandwidth_hz.
     ebind (member_as (re_i16 J) J settings ''gain_db_q7'') (\<lambda>gain_db_q7.
     let target = \<lparr>cr_id = id, cr_sid = sid, cr_control_host = ep_host control, cr_control_port = ep_port control,
           cr_status_host = ep_host status, cr_status_port = ep_port status, cr_center_hz = center_hz,
           cr_sample_rate_hz = sample_rate_hz, cr_bandwidth_hz = bandwidth_hz, cr_gain_db_q7 = gain_db_q7\<rparr>
     in ensure (radio_settings_ok target) (Invalid_argument ''invalid processor radio settings'') (Inr target)))))))))"

definition load_radio :: "('j, 'f) reader \<Rightarrow> radio_arrays \<Rightarrow> 'j \<Rightarrow> radio_arrays result" where
  "load_radio J arrays radio =
    (case arrays of (found, listeners, radios) \<Rightarrow>
       ebind (member_as (re_u32 J) J radio ''sid'') (\<lambda>sid.
       let i = unat (sid - 1) in
       ensure (sid \<ge> 1 \<and> sid \<le> 4 \<and> \<not> found ! i) (Invalid_argument ''invalid processor stream ID'')
      (ebind (ebind (member J radio ''iq'') (\<lambda>v. load_endpoint J v ''bind'')) (\<lambda>iq.
       ebind (load_target J sid radio) (\<lambda>target.
         Inr (found[i := True], listeners[i := (sid, iq)], radios[i := target]))))))"

definition load_processor_config :: "('j, 'f) reader \<Rightarrow> 'j \<Rightarrow> processor_config result" where
  "load_processor_config J doc =
     ebind (identity_ok J doc ''processor'') (\<lambda>ok.
     ensure ok (Invalid_argument ''invalid processor config identity'')
    (ebind (member J doc ''spectrum'') (\<lambda>spectrum.
     ebind (spectrum_supported J spectrum) (\<lambda>ok.
     ensure ok (Invalid_argument ''unsupported processor spectrum config'')
    (ebind (member J doc ''radios'') (\<lambda>radios.
     let elements = (case re_elements J radios of Some vs \<Rightarrow> vs | None \<Rightarrow> []) in
     ensure (length elements = 4) (Invalid_argument ''processor requires four radios'')
    (ebind (ebind (member J doc ''application'') (\<lambda>application. member_as (do_string J) J application ''address'')) (\<lambda>address.
     ensure (before_slash address \<noteq> None \<and> before_slash address \<noteq> Some []) (Invalid_argument ''invalid processor application address'')
    (ebind (member_as (re_u32 J) J spectrum ''fft_size'') (\<lambda>fft_size.
     ebind (member_as (re_u32 J) J spectrum ''overlap_samples'') (\<lambda>overlap_samples.
     ebind (ebind (member J spectrum ''destination'') (\<lambda>v. load_endpoint J v ''host'')) (\<lambda>destination.
     ebind (ebind (member J doc ''application'') (\<lambda>application. member_as (size_of J) J application ''mtu'')) (\<lambda>mtu.
     ebind (ebind (member J doc ''limits'') (\<lambda>limits. member_as (size_of J) J limits ''data_queue'')) (\<lambda>data_queue.
     let receive_bytes = min mtu maximum_udp_datagram in
     ensure (receive_bytes \<ge> 32 \<and> data_queue > 0) (Invalid_argument ''invalid processor bounds'')
    (ebind (ebind (member J doc ''limits'') (\<lambda>limits. member_as (size_of J) J limits ''control_queue'')) (\<lambda>control_queue.
     ebind (ebind (member J doc ''limits'') (\<lambda>limits. member_as (do_u64 J) J limits ''retry_count'')) (\<lambda>retry_count.
     ensure (control_queue > 0 \<and> control_queue \<le> 64 \<and> retry_count > 0) (Invalid_argument ''invalid processor control bounds'')
    (ebind (efold (load_radio J)
        (replicate 4 False, replicate 4 (0, \<lparr>ep_host = [], ep_port = 0\<rparr>), replicate 4 no_radio_control) elements)
      (\<lambda>(found, listeners, targets).
     Inr \<lparr>uc_listeners = listeners, uc_source_host = the (before_slash address), uc_destination = destination,
       uc_core = \<lparr>cf_processing = \<lparr>pc_sample_rate_hz = 1000000, pc_fft_size = fft_size, pc_overlap_samples = overlap_samples\<rparr>,
         cf_receive_bytes = receive_bytes, cf_queue_limit = data_queue\<rparr>,
       uc_controller = \<lparr>cc_radios = targets, cc_queue_limit = control_queue, cc_retry_limit = retry_count,
         cc_io_timeout = millis 2000, cc_maximum_backoff = millis 2000, cc_liveness_interval = millis 1000\<rparr>\<rparr>)))))))))))))))))))"

section \<open>The detector's configuration\<close>

definition load_detector_config :: "('j, 'f) reader \<Rightarrow> 'j \<Rightarrow> detector_config result" where
  "load_detector_config J doc =
     ebind (identity_ok J doc ''detector'') (\<lambda>ok.
     ensure ok (Invalid_argument ''invalid detector config identity'')
    (ebind (member J doc ''spectrum'') (\<lambda>spectrum.
     ebind (spectrum_supported J spectrum) (\<lambda>ok.
     ensure ok (Invalid_argument ''unsupported detector spectrum config'')
    (ebind (load_endpoint J spectrum ''bind'') (\<lambda>listener.
     ebind (member_as (re_u32 J) J spectrum ''fft_size'') (\<lambda>fft_size.
     ebind (spectrum_wire_size (ucast fft_size)) (\<lambda>receive_bytes.
     Inr \<lparr>dc_listener = listener, dc_fft_size = fft_size, dc_receive_bytes = receive_bytes\<rparr>))))))))"

section \<open>What a configuration that loads guarantees\<close>

text \<open>Documented behaviour of the library: a value that equals an integer that fits its type converts to it.\<close>

definition reader_ok :: "('j, 'f) reader \<Rightarrow> bool" where
  "reader_ok J \<longleftrightarrow> (\<forall>v n. 0 \<le> n \<and> n < 2 ^ 32 \<and> do_is_int J v n \<longrightarrow> re_u32 J v = Some (of_int n))"

definition listener_ok :: "nat \<Rightarrow> u32 \<times> endpoint \<Rightarrow> bool" where
  "listener_ok i l \<longleftrightarrow> fst l = of_nat (i + 1) \<and> ep_port (snd l) \<noteq> 0"

definition target_ok :: "nat \<Rightarrow> radio_control \<Rightarrow> bool" where
  "target_ok i r \<longleftrightarrow> cr_sid r = of_nat (i + 1) \<and> radio_settings_ok r \<and> cr_control_port r \<noteq> 0 \<and> cr_status_port r \<noteq> 0"

definition arrays_ok :: "nat \<Rightarrow> radio_arrays \<Rightarrow> bool" where
  "arrays_ok n arrays \<longleftrightarrow> (case arrays of (found, listeners, radios) \<Rightarrow>
     length found = 4 \<and> length listeners = 4 \<and> length radios = 4 \<and> card {i. i < 4 \<and> found ! i} = n \<and>
     (\<forall>i < 4. found ! i \<longrightarrow> listener_ok i (listeners ! i) \<and> target_ok i (radios ! i)))"

lemma udp_port_Inr: "udp_port n = Inr p \<Longrightarrow> p \<noteq> 0"
proof -
  assume "udp_port n = Inr p"
  then have n: "n \<noteq> 0" "n \<le> 65535" "p = ucast n" by (simp_all add: udp_port_def not_less)
  have "unat n < 65536" using n(2) by (simp add: word_le_nat_alt)
  then have "unat p = unat n" using n(3) by (simp add: unsigned_ucast_eq take_bit_nat_eq_self)
  then show "p \<noteq> 0" using n(1) by (auto simp: unat_eq_0)
qed

lemma load_endpoint_Inr: "load_endpoint J v key = Inr e \<Longrightarrow> ep_port e \<noteq> 0"
  by (auto simp: load_endpoint_def ebind_eq_Inr dest: udp_port_Inr)

lemma load_target_Inr:
  "load_target J sid radio = Inr r \<Longrightarrow> cr_sid r = sid \<and> radio_settings_ok r \<and> cr_control_port r \<noteq> 0 \<and> cr_status_port r \<noteq> 0"
  by (auto simp: load_target_def ebind_eq_Inr Let_def dest: load_endpoint_Inr)

lemma sid_index: "1 \<le> sid \<Longrightarrow> sid \<le> (4 :: u32) \<Longrightarrow> unat (sid - 1) < 4 \<and> of_nat (unat (sid - 1) + 1) = sid"
proof -
  assume a: "1 \<le> sid" "sid \<le> (4 :: u32)"
  then have "unat (sid - 1) < 4" by unat_arith
  moreover have "of_nat (unat (sid - 1) + 1) = sid - 1 + 1" by simp
  ultimately show ?thesis by simp
qed

lemma load_radio_ok:
  assumes "load_radio J a radio = Inr b" "arrays_ok n a"
  shows "arrays_ok (Suc n) b"
proof -
  obtain found listeners radios where a: "a = (found, listeners, radios)" by (cases a)
  from assms(1) obtain sid iq target where sid: "1 \<le> sid" "sid \<le> (4 :: u32)" "\<not> found ! unat (sid - 1)"
    and iq: "ep_port iq \<noteq> 0" and t: "load_target J sid radio = Inr target"
    and b: "b = (found[unat (sid - 1) := True], listeners[unat (sid - 1) := (sid, iq)], radios[unat (sid - 1) := target])"
    by (auto simp: load_radio_def a ebind_eq_Inr Let_def dest: load_endpoint_Inr)
  define i where "i = unat (sid - 1)"
  have i: "i < 4" "of_nat (i + 1) = sid" using sid_index [OF sid(1,2)] by (simp_all add: i_def)
  have l: "length found = 4" "length listeners = 4" "length radios = 4" using assms(2) by (simp_all add: arrays_ok_def a)
  have "{j. j < 4 \<and> found[i := True] ! j} = insert i {j. j < 4 \<and> found ! j}" using i(1) l by (auto simp: nth_list_update)
  then have "card {j. j < 4 \<and> found[i := True] ! j} = Suc n" using assms(2) sid(3) by (simp add: arrays_ok_def a i_def)
  moreover have "listener_ok i (sid, iq)" "target_ok i target"
    using i(2) iq load_target_Inr [OF t] by (simp_all add: listener_ok_def target_ok_def)
  ultimately show ?thesis using assms(2) l i(1)
    unfolding arrays_ok_def a b i_def [symmetric] by (auto simp: nth_list_update)
qed

lemma load_radios_ok: "efold (load_radio J) a vs = Inr b \<Longrightarrow> arrays_ok n a \<Longrightarrow> arrays_ok (n + length vs) b"
proof (induction vs arbitrary: a n)
  case (Cons v vs)
  then obtain a' where "load_radio J a v = Inr a'" "efold (load_radio J) a' vs = Inr b" by (auto simp: ebind_eq_Inr)
  with Cons.IH [OF this(2) load_radio_ok [OF this(1) Cons.prems(2)]] show ?case by simp
qed simp

lemma arrays_full:
  assumes "arrays_ok 4 (found, listeners, radios)" "i < 4"
  shows "listener_ok i (listeners ! i)" "target_ok i (radios ! i)"
proof -
  have "{j. j < 4 \<and> found ! j} = {..< 4}"
    by (rule card_subset_eq) (use assms(1) in \<open>auto simp: arrays_ok_def\<close>)
  then have "found ! i" using assms(2) by blast
  then show "listener_ok i (listeners ! i)" "target_ok i (radios ! i)" using assms by (auto simp: arrays_ok_def)
qed

lemma reader_okD: "reader_ok J \<Longrightarrow> do_is_int J v n \<Longrightarrow> 0 \<le> n \<Longrightarrow> n < 2 ^ 32 \<Longrightarrow> re_u32 J v = Some (of_int n)"
  by (simp add: reader_ok_def)

lemma supported_members:
  assumes "reader_ok J" "spectrum_supported J v = Inr True"
  shows "member_as (re_u32 J) J v ''fft_size'' = Inr n \<Longrightarrow> n = 2048"
    and "member_as (re_u32 J) J v ''overlap_samples'' = Inr m \<Longrightarrow> m = 0"
proof -
  from assms(2) obtain x y where x: "member J v ''fft_size'' = Inr x" "do_is_int J x 2048"
    and y: "member J v ''overlap_samples'' = Inr y" "do_is_int J y 0"
    by (auto simp: spectrum_supported_def and_also_True member_is_def ebind_eq_Inr)
  from reader_okD [OF assms(1) x(2)] reader_okD [OF assms(1) y(2)] x(1) y(1)
  show "member_as (re_u32 J) J v ''fft_size'' = Inr n \<Longrightarrow> n = 2048"
    "member_as (re_u32 J) J v ''overlap_samples'' = Inr m \<Longrightarrow> m = 0"
    by (simp_all add: member_as_def)
qed

lemma start_arrays: "arrays_ok 0 (replicate 4 False, replicate 4 l, replicate 4 r)"
proof -
  have "{i. i < 4 \<and> replicate 4 False ! i} = {}" by (auto simp: nth_replicate)
  then show ?thesis by (simp add: arrays_ok_def)
qed

lemma loaded_processor:
  assumes "reader_ok J" "load_processor_config J doc = Inr c"
  shows "(\<forall>i < 4. listener_ok i (uc_listeners c ! i) \<and> target_ok i (cc_radios (uc_controller c) ! i)) \<and>
    pc_fft_size (cf_processing (uc_core c)) = 2048 \<and> pc_overlap_samples (cf_processing (uc_core c)) = 0 \<and>
    pc_sample_rate_hz (cf_processing (uc_core c)) = 1000000 \<and>
    32 \<le> cf_receive_bytes (uc_core c) \<and> cf_receive_bytes (uc_core c) \<le> maximum_udp_datagram \<and> 0 < cf_queue_limit (uc_core c) \<and>
    0 < cc_queue_limit (uc_controller c) \<and> cc_queue_limit (uc_controller c) \<le> 64 \<and> cc_io_timeout (uc_controller c) = millis 2000 \<and>
    length (uc_listeners c) = 4 \<and> length (cc_radios (uc_controller c)) = 4 \<and> ep_port (uc_destination c) \<noteq> 0 \<and> uc_source_host c \<noteq> []"
proof -
  from assms(2) obtain found listeners targets elements spectrum where
      e: "efold (load_radio J) (replicate 4 False, replicate 4 (0, \<lparr>ep_host = [], ep_port = 0\<rparr>), replicate 4 no_radio_control) elements =
          Inr (found, listeners, targets)" "length elements = 4"
    and c: "uc_listeners c = listeners" "cc_radios (uc_controller c) = targets"
    and s: "spectrum_supported J spectrum = Inr True"
      "member_as (re_u32 J) J spectrum ''fft_size'' = Inr (pc_fft_size (cf_processing (uc_core c)))"
      "member_as (re_u32 J) J spectrum ''overlap_samples'' = Inr (pc_overlap_samples (cf_processing (uc_core c)))"
    and r: "pc_sample_rate_hz (cf_processing (uc_core c)) = 1000000" "32 \<le> cf_receive_bytes (uc_core c)"
      "cf_receive_bytes (uc_core c) \<le> maximum_udp_datagram" "0 < cf_queue_limit (uc_core c)"
      "0 < cc_queue_limit (uc_controller c)" "cc_queue_limit (uc_controller c) \<le> 64" "cc_io_timeout (uc_controller c) = millis 2000"
      "ep_port (uc_destination c) \<noteq> 0" "uc_source_host c \<noteq> []"
    by (auto simp: load_processor_config_def ebind_eq_Inr Let_def maximum_udp_datagram_def split: prod.splits dest: load_endpoint_Inr)
  have a: "arrays_ok 4 (found, listeners, targets)" using load_radios_ok [OF e(1) start_arrays] e(2) by simp
  then have "length listeners = 4" "length targets = 4" by (simp_all add: arrays_ok_def)
  with arrays_full [OF a] c r supported_members [OF assms(1) s(1)] s(2,3) show ?thesis by simp
qed

lemma size_2048 [simp]: "has_single_bit (2048 :: u32)" "has_single_bit (2048 :: u64)"
  by (simp_all add: has_single_bit_def)

lemma loaded_core:
  assumes "reader_ok J" "load_processor_config J doc = Inr c"
  shows "new_processor (uc_core c) = Inr \<lparr>pr_streams = replicate 4 new_stream, pr_metrics = new_metrics\<rparr>"
  using loaded_processor [OF assms]
  by (simp add: new_processor_def validate_config_def require_spectrum_def valid_config_def)

lemma loaded_detector:
  assumes "reader_ok J" "load_detector_config J doc = Inr d"
  shows "dc_fft_size d = 2048 \<and> dc_receive_bytes d = 8576 \<and> ep_port (dc_listener d) \<noteq> 0"
proof -
  from assms(2) obtain spectrum where s: "spectrum_supported J spectrum = Inr True"
      "member_as (re_u32 J) J spectrum ''fft_size'' = Inr (dc_fft_size d)"
    and w: "spectrum_wire_size (ucast (dc_fft_size d)) = Inr (dc_receive_bytes d)"
    and l: "load_endpoint J spectrum ''bind'' = Inr (dc_listener d)"
    by (auto simp: load_detector_config_def ebind_eq_Inr Let_def)
  have "dc_fft_size d = 2048" by (rule supported_members(1) [OF assms(1) s])
  then show ?thesis using w load_endpoint_Inr [OF l] by (auto simp: spectrum_wire_size_def require_spectrum_def header_bytes_def ensure_def Let_def split: if_splits)
qed

text \<open>The setup of the transport to a radio.\<close>

definition session_setup :: "controller_config \<Rightarrow> radio_control \<Rightarrow> client_setup" where
  "session_setup config radio = \<lparr>cs_radio = radio, cs_queue_limit = cc_queue_limit config, cs_io_timeout = cc_io_timeout config\<rparr>"

text \<open>C11. A processor configuration that loads is complete and can be used, in whatever order the document
  lists the radios: there are four listeners and four radios, those at each position are of that stream, and
  the port of every endpoint (the four listeners, the control and the status of the four radios, the destination)
  is not zero, as are the settings of the radios; the datagram handler can be constructed
  from it; and the controller's transports accept it exactly when the control hosts, which the
  loader does not check, are given.\<close>

theorem processor_config_ready:
  assumes "reader_ok J" and "load_processor_config J doc = Inr c"
  shows "(\<exists>p. new_processor (uc_core c) = Inr p) \<and>
    32 \<le> cf_receive_bytes (uc_core c) \<and> cf_receive_bytes (uc_core c) \<le> 65535 \<and> 0 < cf_queue_limit (uc_core c) \<and>
    uc_source_host c \<noteq> [] \<and> ep_port (uc_destination c) \<noteq> 0 \<and> length (uc_listeners c) = 4 \<and> length (cc_radios (uc_controller c)) = 4 \<and>
    (\<forall>i < 4. fst (uc_listeners c ! i) = of_nat (i + 1) \<and> ep_port (snd (uc_listeners c ! i)) \<noteq> 0 \<and>
      (let radio = cc_radios (uc_controller c) ! i
       in cr_sid radio = of_nat (i + 1) \<and> cr_control_port radio \<noteq> 0 \<and> cr_status_port radio \<noteq> 0 \<and> cr_id radio \<noteq> [] \<and>
          0 < cr_center_hz radio \<and> 0 < cr_bandwidth_hz radio \<and> cr_bandwidth_hz radio \<le> cr_sample_rate_hz radio \<and>
          (valid_client_setup (session_setup (uc_controller c) radio) \<longleftrightarrow> cr_control_host radio \<noteq> [])))"
proof -
  have "of_nat (i + 1) \<noteq> (0 :: u32)" if "i < 4" for i :: nat
  proof -
    have "i \<in> {0, 1, 2, 3}" using that by auto
    then show ?thesis by auto
  qed
  then show ?thesis using loaded_processor [OF assms] loaded_core [OF assms]
    by (auto simp: listener_ok_def target_ok_def radio_settings_ok_def valid_client_setup_def session_setup_def Let_def
        maximum_udp_datagram_def millis_def)
qed

text \<open>C1. A processor and a detector started from configurations that load work together, whatever
  addresses and order of radios the two documents have and whatever datagrams reach the processor: the detector's records and
  its receive buffer are those of the processor's frames, so that, whatever the limits, frames delivered in order are
  never found malformed; and when the data queue holds at least sixteen frames, no spectrum is dropped and the
  detector finds no gap in a stream's sequence. (With a smaller queue a spectrum may be dropped, and its number is then
  missing.)\<close>

theorem configured_programs_agree:
  fixes V :: "'c vita"
  assumes "reader_ok J" "load_processor_config J pdoc = Inr c" and "reader_ok K" "load_detector_config K ddoc = Inr d"
    and "arithmetic_ok V (uc_core c)" "profile_ok V" "views_readable V"
  shows "\<exists>p\<^sub>0. new_processor (uc_core c) = Inr p\<^sub>0 \<and>
    (let (p, t) = foldl (deliver V (uc_core c)) (p\<^sub>0, new_detector (dc_fft_size d) (dc_receive_bytes d)) events in
      dm_malformed (dt_metrics t) = 0 \<and>
      (16 \<le> cf_queue_limit (uc_core c) \<longrightarrow> dm_sequence_gaps (dt_metrics t) = 0 \<and> pm_unavailable (pr_metrics p) = 0))"
proof -
  define p\<^sub>0 :: "'c processor_core" where "p\<^sub>0 = \<lparr>pr_streams = replicate 4 new_stream, pr_metrics = new_metrics\<rparr>"
  have p: "new_processor (uc_core c) = Inr p\<^sub>0" unfolding p\<^sub>0_def by (rule loaded_core [OF assms(1,2)])
  note sizes = loaded_processor [OF assms(1,2)] loaded_detector [OF assms(3,4)]
  then have n: "dc_fft_size d = pc_fft_size (cf_processing (uc_core c))"
    and r: "record_bytes (uc_core c) \<le> dc_receive_bytes d" by (simp_all add: record_bytes_def fft_size_of_def)
  note accepted = delivery_never_malformed [OF assms(5,6) p r, folded n, of events]
  from delivery_without_gaps [OF assms(5-7) _ p r, folded n, of events] accepted p show ?thesis
    by (auto simp: Let_def split: prod.splits)
qed

section \<open>The command line\<close>

text \<open>The arithmetic of \<open>double\<close>, \<open>std::stod\<close> (the value and the characters consumed) and the cast to an integer.\<close>

record 'f duration_reader =
  dr_arith :: "'f doubles"
  dr_stod :: "string \<Rightarrow> ('f \<times> nat) result"
  dr_truncate :: "'f \<Rightarrow> int"

definition duration_of :: "'f duration_reader \<Rightarrow> string \<Rightarrow> int result" where
  "duration_of R text = (let D = dr_arith R in
     ebind (dr_stod R text) (\<lambda>(seconds, consumed).
     ensure (consumed = length text \<and> db_finite D seconds \<and> db_le D (db_int D 0) seconds) (Invalid_argument ''invalid duration'')
    (ensure (db_le D seconds (db_div D (db_int D (2 ^ 63 - 1)) (db_int D 1000))) (Invalid_argument ''duration is out of range'')
      (Inr (dr_truncate R (db_mul D seconds (db_int D 1000)))))))"

definition command_usage :: exn where
  "command_usage = Invalid_argument ''usage: --config PATH [--duration-seconds N]''"

text \<open>The loop over the arguments after the program's name; the duration is in milliseconds.\<close>

fun parse_duration :: "'f duration_reader \<Rightarrow> string list \<Rightarrow> string \<times> int option \<Rightarrow> (string \<times> int option) result" where
  "parse_duration R [] st = Inr st"
| "parse_duration R [argument] st = Inl command_usage"
| "parse_duration R (argument # v # rest) (path, duration) =
    (if argument = ''--config'' then parse_duration R rest (v, duration)
     else if argument = ''--duration-seconds'' then ebind (duration_of R v) (\<lambda>d. parse_duration R rest (path, Some d))
     else Inl command_usage)"

text \<open>A duration that is accepted is in the range of its type on exact arithmetic.\<close>

lemma duration_of_bounds:
  assumes "dr_arith R = reals" "\<And>x. dr_truncate R x = \<lfloor>x\<rfloor>" "duration_of R text = Inr d"
  shows "0 \<le> d \<and> d \<le> 2 ^ 63 - 1"
proof -
  from assms obtain x :: real where x: "0 \<le> x" "x \<le> (2 ^ 63 - 1) / 1000" "d = \<lfloor>x * 1000\<rfloor>"
    by (auto simp: duration_of_def ebind_eq_Inr Let_def split: prod.splits)
  then have "x * 1000 \<le> real_of_int (2 ^ 63 - 1)" by simp
  with x show ?thesis by (simp add: floor_le_iff)
qed

text \<open>
  But the loops compare it with a difference of nanoseconds, in the type of nanoseconds: an
  accepted duration of ten thousand million seconds does not fit there.
\<close>

definition whole_seconds :: "real duration_reader" where
  "whole_seconds = \<lparr>dr_arith = reals, dr_stod = (\<lambda>text. ebind (stoul text) (\<lambda>(n, consumed). Inr (real n, consumed))),
     dr_truncate = (\<lambda>x. \<lfloor>x\<rfloor>)\<rparr>"

lemma duration_beyond_nanoseconds:
  "\<exists>d. parse_duration whole_seconds [''--duration-seconds'', ''10000000000''] ([], None) = Inr ([], Some d) \<and> 2 ^ 63 - 1 < millis d"
proof -
  have "stoul ''10000000000'' = Inr (10000000000, 11)"
    by (simp add: stoul_def is_space_def is_digit_def digits_value_def Let_def)
  then show ?thesis by (simp add: duration_of_def whole_seconds_def millis_def Let_def)
qed

section \<open>The construction of the controller\<close>

text \<open>What the framework answers for a session: the allocation, the runtime, its clock, the remote controller.\<close>

record session_answers =
  sa_allocated :: bool
  sa_runtime :: bool
  sa_clock :: bool
  sa_remote :: bool

text \<open>Creating the runtime creates the transport, which checks its setup.\<close>

definition build_session :: "controller_config \<Rightarrow> radio_control \<times> session_answers \<Rightarrow> unit result" where
  "build_session config entry =
    (case entry of (radio, a) \<Rightarrow>
       ensure (sa_allocated a) (Runtime_error ''processor controller allocation failed'')
      (ensure (sa_runtime a \<and> valid_client_setup (session_setup config radio)) (Runtime_error ''processor controller runtime setup failed'')
      (ensure (sa_clock a) (Runtime_error ''processor controller clock setup failed'')
      (ensure (sa_remote a) (Runtime_error ''processor remote controller setup failed'') (Inr ())))))"

definition build_controller :: "session_answers list \<Rightarrow> controller_config \<Rightarrow> unit result" where
  "build_controller answers config = ebind (emap (build_session config) (zip (cc_radios config) answers)) (\<lambda>_. Inr ())"

lemma loaded_controller_builds:
  assumes "reader_ok J" "load_processor_config J doc = Inr c"
    and "length (cc_radios (uc_controller c)) = 4" "\<forall>r \<in> set (cc_radios (uc_controller c)). cr_control_host r \<noteq> []"
    and "\<forall>a \<in> set answers. sa_allocated a \<and> sa_runtime a \<and> sa_clock a \<and> sa_remote a"
  shows "build_controller answers (uc_controller c) = Inr ()"
proof -
  note l = loaded_processor [OF assms(1,2)]
  have "build_session (uc_controller c) (r, a) = Inr ()" if z: "(r, a) \<in> set (zip (cc_radios (uc_controller c)) answers)" for r a
  proof -
    have r: "r \<in> set (cc_radios (uc_controller c))" and a: "a \<in> set answers" using z by (auto dest: set_zip_leftD set_zip_rightD)
    from r assms(3) obtain i where i: "i < 4" "r = cc_radios (uc_controller c) ! i" by (auto simp: in_set_conv_nth)
    then have "i \<in> {0, 1, 2, 3}" by auto
    then have "of_nat (i + 1) \<noteq> (0 :: u32)" by auto
    then show ?thesis using l i r a assms(4,5)
      by (auto simp: build_session_def session_setup_def valid_client_setup_def target_ok_def millis_def)
  qed
  then have "emap (build_session (uc_controller c)) (zip (cc_radios (uc_controller c)) answers) =
      Inr (map (\<lambda>_. ()) (zip (cc_radios (uc_controller c)) answers))" by (intro emap_Inr) auto
  then show ?thesis by (simp add: build_controller_def)
qed

section \<open>The programs\<close>

text \<open>
  \<open>main\<close> of the processor and of the detector: the exit code, and what the run left. Reading and
  parsing the file, the construction of the controller and of the reporter, and the passes of the
  loop are inputs.
\<close>

definition processor_main ::
  "'f duration_reader \<Rightarrow> ('j, 'f) reader \<Rightarrow> (string \<Rightarrow> 'j result) \<Rightarrow> (controller_config \<Rightarrow> unit result) \<Rightarrow> 'c vita \<Rightarrow>
   ((processor_metrics \<times> processor_totals) telemetry_record \<Rightarrow> nat) \<Rightarrow> (processor_metrics \<times> processor_totals) reporter result \<Rightarrow>
   nanos \<Rightarrow> processor_pass list \<Rightarrow> report_clock \<Rightarrow> string list \<Rightarrow> nat \<times> 'c processor_app option" where
  "processor_main R J read_json build V line_size telemetry started passes final_clock args =
    (case ebind (parse_duration R args (''generated/processor.json'', None)) (\<lambda>(path, duration).
          ebind (read_json path) (\<lambda>doc.
          ebind (load_processor_config J doc) (\<lambda>config.
          ebind (build (uc_controller config)) (\<lambda>_.
          run_processor line_size V (uc_core config) (\<lambda>index. fst (uc_listeners config ! index)) (map_option millis duration)
            started telemetry passes final_clock)))) of
       Inl _ \<Rightarrow> (2, None)
     | Inr a \<Rightarrow> (0, Some a))"

definition detector_main ::
  "'f duration_reader \<Rightarrow> ('j, 'f) reader \<Rightarrow> (string \<Rightarrow> 'j result) \<Rightarrow> (detector_data telemetry_record \<Rightarrow> nat) \<Rightarrow>
   detector_data reporter result \<Rightarrow> nanos \<Rightarrow> detector_pass list \<Rightarrow> report_clock \<Rightarrow> string list \<Rightarrow> nat \<times> detector_app option" where
  "detector_main R K read_json line_size telemetry started passes final_clock args =
    (case ebind (parse_duration R args (''generated/detector.json'', None)) (\<lambda>(path, duration).
          ebind (read_json path) (\<lambda>doc.
          ebind (load_detector_config K doc) (\<lambda>config.
          run_detector line_size (dc_fft_size config) (dc_receive_bytes config) (map_option millis duration)
            started telemetry passes final_clock))) of
       Inl _ \<Rightarrow> (2, None)
     | Inr a \<Rightarrow> (0, Some a))"

text \<open>
  Once the processor has its arguments, its configuration, its controller and its reporter, it ends with
  the exit code 0 unless \<open>poll\<close> fails, whatever it receives.
\<close>

lemma processor_main_runs:
  fixes V :: "'c vita"
  assumes "reader_ok J" and "parse_duration R args (''generated/processor.json'', None) = Inr (path, duration)"
    and "read_json path = Inr doc" "load_processor_config J doc = Inr config" "build (uc_controller config) = Inr ()"
    and "arithmetic_ok V (uc_core config)" "profile_ok V"
    and "\<forall>p \<in> set passes. pn_poll p \<noteq> Pass_failed \<and> (\<forall>input \<in> set (pn_listeners p). fst input < 4)"
  shows "\<exists>a. processor_main R J read_json build V line_size (Inr telemetry) started passes final_clock args = (0, Some a) \<and>
    processor_books V (uc_core config) a"
proof -
  have "\<forall>p \<in> set passes. listens (\<lambda>index. fst (uc_listeners config ! index)) p"
  proof
    fix p assume p: "p \<in> set passes"
    have "1 \<le> fst (uc_listeners config ! i) \<and> fst (uc_listeners config ! i) \<le> 4" if "i < 4" for i
    proof -
      have "fst (uc_listeners config ! i) = of_nat (i + 1)" using loaded_processor [OF assms(1,4)] that by (simp add: listener_ok_def)
      moreover have "i \<in> {0, 1, 2, 3}" using that by auto
      ultimately show ?thesis by auto
    qed
    with assms(8) p show "listens (\<lambda>index. fst (uc_listeners config ! index)) p" by (auto simp: listens_def)
  qed
  from run_processor_books [OF assms(6,7) loaded_core [OF assms(1,4)] this, of line_size "map_option millis duration" started telemetry final_clock]
    assms(2-5)
  show ?thesis by (auto simp: processor_main_def)
qed

section \<open>The lines the programs write\<close>

definition detection_json :: "detection \<Rightarrow> rat json_value" where
  "detection_json d = J_object
     [(''type'', J_string ''detection''), (''stream_id'', J_unsigned (unat (dn_stream_id d))),
      (''observation_time'', J_object [(''seconds'', J_unsigned (unat (seconds (dn_observation_time d)))),
         (''picoseconds'', J_unsigned (unat (picoseconds (dn_observation_time d))))]),
      (''detected_frequency_hz'', case dn_frequency_hz d of Some f \<Rightarrow> J_float f | None \<Rightarrow> J_null),
      (''validity'', J_string (case dn_validity d of Valid \<Rightarrow> ''valid'' | Gapped \<Rightarrow> ''gapped'' | Zero \<Rightarrow> ''zero''
         | Unavailable \<Rightarrow> ''unavailable''))]"

definition discard_reasons_json :: "processor_discards \<Rightarrow> 'f json_value" where
  "discard_reasons_json d = J_object
     [(''limits'', J_unsigned (unat (pd_limits d))), (''invalid_envelope'', J_unsigned (unat (pd_invalid_envelope d))),
      (''invalid_context'', J_unsigned (unat (pd_invalid_context d))), (''invalid_data'', J_unsigned (unat (pd_invalid_data d))),
      (''invalid_samples'', J_unsigned (unat (pd_invalid_samples d))), (''waiting_context'', J_unsigned (unat (pd_waiting_context d))),
      (''timestamp_range'', J_unsigned (unat (pd_timestamp_range d)))]"

definition processor_metrics_json :: "nanos \<Rightarrow> processor_metrics \<Rightarrow> 'f json_value" where
  "processor_metrics_json wall m = J_object
     [(''type'', J_string ''metrics''), (''observed_unix_ns'', J_signed wall), (''datagrams'', J_unsigned (unat (pm_datagrams m))),
      (''malformed'', J_unsigned (unat (pm_malformed m))), (''discarded'', J_unsigned (unat (pm_malformed m))),
      (''discard_schema'', J_string ''processor.discards/1''), (''discard_reasons'', discard_reasons_json (pm_discards m)),
      (''context_updates'', J_unsigned (unat (pm_context_updates m))), (''packet_gaps'', J_unsigned (unat (pm_packet_gaps m))),
      (''spectra'', J_unsigned (unat (pm_spectra m))), (''send_failures'', J_unsigned (unat (pm_send_failures m))),
      (''unavailable'', J_unsigned (unat (pm_unavailable m)))]"

definition detector_metrics_json :: "nanos \<Rightarrow> detector_metrics \<Rightarrow> 'f json_value" where
  "detector_metrics_json wall m = J_object
     [(''type'', J_string ''metrics''), (''observed_unix_ns'', J_signed wall), (''datagrams'', J_unsigned (unat (dm_datagrams m))),
      (''detections'', J_unsigned (unat (dm_detections m))), (''malformed'', J_unsigned (unat (dm_malformed m))),
      (''sequence_gaps'', J_unsigned (unat (dm_sequence_gaps m))), (''gapped'', J_unsigned (unat (dm_gapped m))),
      (''zero'', J_unsigned (unat (dm_zero m))), (''unavailable'', J_unsigned (unat (dm_unavailable m)))]"

text \<open>The processor's last line, after its loop.\<close>

definition controller_metrics_json :: "bool \<Rightarrow> controller_metrics \<Rightarrow> 'f json_value" where
  "controller_metrics_json coordinated m = J_object
     [(''type'', J_string ''controller_metrics''), (''coordinated'', J_bool coordinated),
      (''connection_attempts'', J_unsigned (unat (km_connection_attempts m))), (''connections'', J_unsigned (unat (km_connections m))),
      (''reconnects'', J_unsigned (unat (km_reconnects m))), (''status_failures'', J_unsigned (unat (km_status_failures m))),
      (''protocol_failures'', J_unsigned (unat (km_protocol_failures m))), (''configurations'', J_unsigned (unat (km_configurations m))),
      (''starts_submitted'', J_unsigned (unat (km_starts_submitted m))), (''starts_admitted'', J_unsigned (unat (km_starts_admitted m))),
      (''stale_starts_replayed'', J_unsigned (unat (km_stale_starts_replayed m))), (''boot_changes'', J_unsigned (unat (km_boot_changes m)))]"

section \<open>Examples\<close>

definition example_endpoint :: "string \<Rightarrow> nat \<Rightarrow> unit json_value" where
  "example_endpoint key port = J_object [(key, J_string ''10.0.0.1''), (''port'', J_unsigned port)]"

definition example_radio_entry :: "nat \<Rightarrow> unit json_value" where
  "example_radio_entry sid = J_object [(''sid'', J_unsigned sid), (''id'', J_string ''r''), (''iq'', example_endpoint ''bind'' (4990 + sid)),
     (''control'', example_endpoint ''host'' 5000), (''status'', example_endpoint ''host'' 5001),
     (''settings'', J_object [(''center_hz'', J_unsigned 100000000), (''sample_rate_hz'', J_unsigned 1000000),
        (''bandwidth_hz'', J_unsigned 800000), (''gain_db_q7'', J_signed (- 128))])]"

definition example_spectrum_entry :: "unit json_value" where
  "example_spectrum_entry = J_object [(''schema'', J_unsigned 1), (''fft_size'', J_unsigned 2048), (''overlap_samples'', J_unsigned 0),
     (''window'', J_string ''rectangular''), (''destination'', example_endpoint ''host'' 6000), (''bind'', J_string ''10.0.0.1''),
     (''port'', J_unsigned 6000)]"

definition example_processor_document :: "unit json_value" where
  "example_processor_document = J_object [(''schema'', J_unsigned 1), (''role'', J_string ''processor''),
     (''spectrum'', example_spectrum_entry), (''radios'', J_array (map example_radio_entry [3, 1, 4, 2])),
     (''application'', J_object [(''address'', J_string ''10.0.0.9/24''), (''mtu'', J_unsigned 1500)]),
     (''limits'', J_object [(''data_queue'', J_unsigned 16), (''control_queue'', J_unsigned 64), (''retry_count'', J_unsigned 8)])]"

definition example_detector_document :: "unit json_value" where
  "example_detector_document = J_object [(''schema'', J_unsigned 1), (''role'', J_string ''detector''), (''spectrum'', example_spectrum_entry)]"

definition unit_reader :: "(unit json_value, unit) reader" where
  "unit_reader = json_reader (\<lambda>_. ())"

lemma unit_reader_ok: "reader_ok unit_reader"
  by (auto simp: reader_ok_def unit_reader_def)

lemmas load_simps = identity_ok_def member_is_def member_as_def member_def size_of_def before_slash_def udp_port_def
  load_endpoint_def spectrum_supported_def result_simps Let_def

lemma example_radio_loads_at:
  assumes "k \<in> {1, 2, 3, 4}" "\<not> found ! (k - 1)"
  shows "\<exists>a. load_radio unit_reader (found, listeners, radios) (example_radio_entry k) = Inr (found[k - 1 := True], a)"
  using assms
  by (auto simp: load_radio_def load_target_def example_radio_entry_def example_endpoint_def unit_reader_def radio_settings_ok_def load_simps)

lemma example_radios_load:
  "distinct ks \<Longrightarrow> set ks \<subseteq> {1, 2, 3, 4} \<Longrightarrow> \<forall>k \<in> set ks. \<not> found ! (k - 1) \<Longrightarrow>
   \<exists>a. efold (load_radio unit_reader) (found, listeners, radios) (map example_radio_entry ks) = Inr a"
proof (induction ks arbitrary: found listeners radios)
  case (Cons k ks)
  then obtain l r where "load_radio unit_reader (found, listeners, radios) (example_radio_entry k) = Inr (found[k - 1 := True], l, r)"
    using example_radio_loads_at [of k found listeners radios] by auto
  moreover have "\<forall>j \<in> set ks. \<not> found[k - 1 := True] ! (j - 1)"
  proof
    fix j assume j: "j \<in> set ks"
    with Cons.prems have "j - 1 \<noteq> k - 1" by auto
    with j Cons.prems show "\<not> found[k - 1 := True] ! (j - 1)" by simp
  qed
  ultimately show ?case using Cons.IH [of "found[k - 1 := True]" l r] Cons.prems by simp
qed simp

lemma example_documents_load:
  "\<exists>c. load_processor_config unit_reader example_processor_document = Inr c \<and> 16 \<le> cf_queue_limit (uc_core c)"
  "\<exists>d. load_detector_config unit_reader example_detector_document = Inr d"
proof -
  obtain found listeners targets where radios: "efold (load_radio unit_reader)
      (replicate 4 False, replicate 4 (0, \<lparr>ep_host = [], ep_port = 0\<rparr>), replicate 4 no_radio_control)
      (map example_radio_entry [3, 1, 4, 2]) = Inr (found, listeners, targets)"
    using example_radios_load [of "[3, 1, 4, 2]" "replicate 4 False" "replicate 4 (0, \<lparr>ep_host = [], ep_port = 0\<rparr>)" "replicate 4 no_radio_control"]
    by (auto simp: nth_replicate)
  show "\<exists>c. load_processor_config unit_reader example_processor_document = Inr c \<and> 16 \<le> cf_queue_limit (uc_core c)"
    using radios unfolding load_processor_config_def example_processor_document_def
    by (simp add: example_spectrum_entry_def example_endpoint_def unit_reader_def maximum_udp_datagram_def load_simps del: efold.simps list.map)
  show "\<exists>d. load_detector_config unit_reader example_detector_document = Inr d"
    by (simp add: load_detector_config_def example_detector_document_def example_spectrum_entry_def unit_reader_def load_simps
        spectrum_wire_size_def require_spectrum_def)
qed

lemma example_processor_loads:
  obtains c where "load_processor_config unit_reader example_processor_document = Inr c" "16 \<le> cf_queue_limit (uc_core c)"
  using example_documents_load(1) by blast

theorem processor_config_ready_witness:
  "\<exists>c. load_processor_config unit_reader example_processor_document = Inr c \<and>
     (\<forall>i < 4. fst (uc_listeners c ! i) = of_nat (i + 1)) \<and> cf_receive_bytes (uc_core c) \<le> 65535"
proof -
  obtain c where c: "load_processor_config unit_reader example_processor_document = Inr c" by (rule example_processor_loads)
  with processor_config_ready [OF unit_reader_ok c] show ?thesis by blast
qed

theorem configured_programs_agree_witness:
  "\<exists>c d p\<^sub>0 p t. load_processor_config unit_reader example_processor_document = Inr c \<and>
     load_detector_config unit_reader example_detector_document = Inr d \<and> new_processor (uc_core c) = Inr p\<^sub>0 \<and>
     foldl (deliver example_vita (uc_core c)) (p\<^sub>0, new_detector (dc_fft_size d) (dc_receive_bytes d)) [(1, [1, 0, 5]), (2, [9])] = (p, t) \<and>
     dm_sequence_gaps (dt_metrics t) = 0"
proof -
  obtain c where c: "load_processor_config unit_reader example_processor_document = Inr c" "16 \<le> cf_queue_limit (uc_core c)"
    by (rule example_processor_loads)
  obtain d where d: "load_detector_config unit_reader example_detector_document = Inr d"
    using example_documents_load(2) by blast
  have a: "arithmetic_ok example_vita (uc_core c)" using example_arithmetic by (auto simp: arithmetic_ok_def example_vita_def exact_def
    round_example_def f32_isfinite_def f32_nonneg_def f32_key_def f32_magnitude_def)
  from configured_programs_agree [OF unit_reader_ok c(1) unit_reader_ok d a example_profile example_views, of "[(1, [1, 0, 5]), (2, [9])]"] c d
  show ?thesis by (fastforce simp: Let_def split: prod.splits)
qed

end
