(* ===== verification/Recorder.thy ===== *)
theory Recorder
  imports Telemetry
begin

text \<open>
  The recorder (\<open>include/sdr/recorder.hpp\<close>, \<open>src/recorder.cpp\<close>,
  \<open>apps/recorder.cpp\<close>): its options, its counters, the PCAP writer and the capture
  loop. A stdio stream is the bytes it accepted and the number of bytes it will
  still accept, so that every write may fail at any byte. Socket calls, clock readings and
  file-system outcomes are inputs of the loop.
\<close>

section \<open>Options\<close>

definition usage :: exn where
  "usage = Invalid_argument ''usage: recorder --interface INTERFACE --metrics PATH [--duration-seconds 1..60] [--pcap PATH [--capture-bytes 40..67108864]]''"

definition pcap_header_bytes :: nat where
  "pcap_header_bytes = 24"

definition pcap_record_header_bytes :: nat where
  "pcap_record_header_bytes = 16"

definition maximum_duration :: nat where
  "maximum_duration = 60"

definition maximum_capture_bytes :: nat where
  "maximum_capture_bytes = 64 * 1024 * 1024"

definition receive_buffer_bytes :: nat where
  "receive_buffer_bytes = 65535"

definition parse_number :: "string \<Rightarrow> nat \<Rightarrow> nat \<Rightarrow> string \<Rightarrow> nat result" where
  "parse_number text minimum maximum name =
    (case from_chars text of
       Some (n, rest) \<Rightarrow>
         if rest \<noteq> [] \<or> n < minimum \<or> n > maximum then Inl (Invalid_argument (name @ '' is out of range'')) else Inr n
     | None \<Rightarrow> Inl (Invalid_argument (name @ '' is out of range'')))"

text \<open>Paths are their text. Durations are in seconds.\<close>

record recorder_options =
  op_interface :: string
  op_metrics_path :: string
  op_pcap_path :: "string option"
  op_duration :: "nat option"
  op_capture_bytes :: nat

definition no_options :: recorder_options where
  "no_options = \<lparr>op_interface = '''', op_metrics_path = '''', op_pcap_path = None, op_duration = None,
                 op_capture_bytes = maximum_capture_bytes\<rparr>"

text \<open>The options and the two flags of the parsing loop.\<close>

type_synonym parse_state = "recorder_options \<times> bool \<times> bool"

fun parse_argument :: "parse_state \<Rightarrow> string \<Rightarrow> string \<Rightarrow> parse_state result" where
  "parse_argument (o\<^sub>1, duration_seen, capture_bytes_seen) argument text =
    (if argument = ''--interface'' \<and> op_interface o\<^sub>1 = [] then
       Inr (o\<^sub>1\<lparr>op_interface := text\<rparr>, duration_seen, capture_bytes_seen)
     else if argument = ''--metrics'' \<and> op_metrics_path o\<^sub>1 = [] then
       Inr (o\<^sub>1\<lparr>op_metrics_path := text\<rparr>, duration_seen, capture_bytes_seen)
     else if argument = ''--pcap'' \<and> op_pcap_path o\<^sub>1 = None then
       Inr (o\<^sub>1\<lparr>op_pcap_path := Some text\<rparr>, duration_seen, capture_bytes_seen)
     else if argument = ''--duration-seconds'' \<and> \<not> duration_seen then
       ebind (parse_number text 1 maximum_duration ''duration'')
         (\<lambda>n. Inr (o\<^sub>1\<lparr>op_duration := Some n\<rparr>, True, capture_bytes_seen))
     else if argument = ''--capture-bytes'' \<and> \<not> capture_bytes_seen then
       ebind (parse_number text (pcap_header_bytes + pcap_record_header_bytes) maximum_capture_bytes ''capture byte limit'')
         (\<lambda>n. Inr (o\<^sub>1\<lparr>op_capture_bytes := n\<rparr>, duration_seen, True))
     else Inl usage)"

fun parse_arguments :: "parse_state \<Rightarrow> string list \<Rightarrow> parse_state result" where
  "parse_arguments s [] = Inr s"
| "parse_arguments s [argument] = Inl usage"
| "parse_arguments s (argument # text # rest) = ebind (parse_argument s argument text) (\<lambda>t. parse_arguments t rest)"

text \<open>\<open>argv\<close> without the program's name.\<close>

definition parse_options :: "string list \<Rightarrow> recorder_options result" where
  "parse_options arguments =
    ebind (parse_arguments (no_options, False, False) arguments) (\<lambda>(o\<^sub>1, duration_seen, capture_bytes_seen).
      if op_interface o\<^sub>1 = [] \<or> length (op_interface o\<^sub>1) > 15 \<or> op_metrics_path o\<^sub>1 = [] \<or>
         op_pcap_path o\<^sub>1 = Some [] \<or> (capture_bytes_seen \<and> op_pcap_path o\<^sub>1 = None) \<or>
         (duration_seen \<and> op_pcap_path o\<^sub>1 = None)
      then Inl usage
      else if op_pcap_path o\<^sub>1 \<noteq> None \<and> op_duration o\<^sub>1 = None
      then Inr (o\<^sub>1\<lparr>op_duration := Some maximum_duration\<rparr>)
      else Inr o\<^sub>1)"

section \<open>Counters\<close>

record recorder_metrics =
  rm_frames :: u64
  rm_wire_bytes :: u64
  rm_receive_truncations :: u64
  rm_receive_errors :: u64
  rm_kernel_packets :: u64
  rm_kernel_drops :: u64
  rm_pcap_frames :: u64
  rm_pcap_bytes :: u64
  rm_pcap_io_errors :: u64
  rm_pcap_limit_reached :: bool

definition zero_metrics :: recorder_metrics where
  "zero_metrics = \<lparr>rm_frames = 0, rm_wire_bytes = 0, rm_receive_truncations = 0, rm_receive_errors = 0,
     rm_kernel_packets = 0, rm_kernel_drops = 0, rm_pcap_frames = 0, rm_pcap_bytes = 0, rm_pcap_io_errors = 0,
     rm_pcap_limit_reached = False\<rparr>"

definition observe_frame :: "recorder_metrics \<Rightarrow> u64 \<Rightarrow> u64 \<Rightarrow> recorder_metrics" where
  "observe_frame m wire_size copied_size =
    (let m = m\<lparr>rm_frames := rm_frames m + 1\<rparr>;
         m = m\<lparr>rm_wire_bytes := rm_wire_bytes m + wire_size\<rparr>
     in if copied_size < wire_size then m\<lparr>rm_receive_truncations := rm_receive_truncations m + 1\<rparr> else m)"

definition observe_kernel :: "recorder_metrics \<Rightarrow> u64 \<Rightarrow> u64 \<Rightarrow> recorder_metrics" where
  "observe_kernel m packets drops =
     m\<lparr>rm_kernel_packets := rm_kernel_packets m + packets, rm_kernel_drops := rm_kernel_drops m + drops\<rparr>"

text \<open>The statistics the kernel returned, or None when \<open>getsockopt\<close> failed.\<close>

definition collect_kernel_statistics :: "recorder_metrics \<Rightarrow> (u32 \<times> u32) option \<Rightarrow> recorder_metrics" where
  "collect_kernel_statistics m statistics =
    (case statistics of
       Some (packets, drops) \<Rightarrow> observe_kernel m (ucast packets) (ucast drops)
     | None \<Rightarrow> m\<lparr>rm_receive_errors := rm_receive_errors m + 1\<rparr>)"

section \<open>The PCAP writer\<close>

record stream =
  st_bytes :: bytes
  st_room :: nat

definition fputc :: "stream \<Rightarrow> byte \<Rightarrow> stream \<times> bool" where
  "fputc f b = (if st_room f = 0 then (f, False) else (f\<lparr>st_bytes := st_bytes f @ [b], st_room := st_room f - 1\<rparr>, True))"

definition fwrite :: "stream \<Rightarrow> bytes \<Rightarrow> stream \<times> nat" where
  "fwrite f bs =
    (let n = min (length bs) (st_room f)
     in (f\<lparr>st_bytes := st_bytes f @ take n bs, st_room := st_room f - n\<rparr>, n))"

text \<open>The loop over the bytes of a value; \<open>False\<close> is the exception.\<close>

fun put_little_endian :: "nat \<Rightarrow> stream \<Rightarrow> 'a :: len word \<Rightarrow> stream \<times> bool" where
  "put_little_endian 0 f v = (f, True)"
| "put_little_endian (Suc n) f v =
    (case fputc f (ucast (v AND 0xff)) of
       (f, False) \<Rightarrow> (f, False)
     | (f, True) \<Rightarrow> put_little_endian n f (drop_bit 8 v))"

definition write_little_endian :: "'a :: len word \<Rightarrow> stream \<Rightarrow> stream \<times> bool" where
  "write_little_endian v f = put_little_endian (LENGTH('a) div 8) f v"

text \<open>One write after another, stopping at the first exception.\<close>

fun in_order :: "(stream \<Rightarrow> stream \<times> bool) list \<Rightarrow> stream \<Rightarrow> stream \<times> bool" where
  "in_order [] f = (f, True)"
| "in_order (w # ws) f = (case w f of (f, False) \<Rightarrow> (f, False) | (f, True) \<Rightarrow> in_order ws f)"

record pcap_writer =
  pw_file :: stream
  pw_limit :: u64
  pw_bytes :: u64
  pw_limit_reached :: bool

definition cannot_write :: exn where
  "cannot_write = Runtime_error ''cannot write recorder PCAP file''"

text \<open>
  The constructor, on the stream \<open>fopen\<close> returned, None when it failed. The file left behind is
  returned with an exception.
\<close>

definition new_pcap :: "stream option \<Rightarrow> u64 \<Rightarrow> stream option \<times> pcap_writer result" where
  "new_pcap opened byte_limit =
    (if byte_limit < of_nat (pcap_header_bytes + pcap_record_header_bytes)
     then (None, Inl (Invalid_argument ''PCAP byte limit is too small''))
     else case opened of
       None \<Rightarrow> (None, Inl (Runtime_error ''cannot open recorder PCAP file''))
     | Some f \<Rightarrow>
        (case in_order [write_little_endian (0xa1b2c3d4 :: u32), write_little_endian (2 :: u16),
            write_little_endian (4 :: u16), write_little_endian (0 :: 32 word), write_little_endian (0 :: u32),
            write_little_endian (of_nat receive_buffer_bytes :: u32), write_little_endian (1 :: u32)] f of
           (f, False) \<Rightarrow> (Some f, Inl cannot_write)
         | (f, True) \<Rightarrow>
            (Some f, Inr \<lparr>pw_file = f, pw_limit = byte_limit, pw_bytes = of_nat pcap_header_bytes,
                          pw_limit_reached = False\<rparr>)))"

text \<open>\<open>duration_cast\<close> to a coarser unit rounds towards zero.\<close>

definition toward_zero :: "int \<Rightarrow> int \<Rightarrow> int" where
  "toward_zero d unit = (if 0 \<le> d then d div unit else - ((- d) div unit))"

definition pcap_write :: "pcap_writer \<Rightarrow> bytes \<Rightarrow> nat \<Rightarrow> nanos \<Rightarrow> pcap_writer \<times> bool result" where
  "pcap_write w frame wire_size timestamp =
    (if pw_limit_reached w then (w, Inr False)
     else let record_bytes = of_nat (pcap_record_header_bytes + length frame) in
       if record_bytes > pw_limit w - pw_bytes w then (w\<lparr>pw_limit_reached := True\<rparr>, Inr False)
       else let seconds = toward_zero timestamp 1000000000;
                microseconds = toward_zero (timestamp - seconds * 1000000000) 1000
            in case in_order [write_little_endian (word_of_int seconds :: u32),
                write_little_endian (word_of_int microseconds :: u32),
                write_little_endian (of_nat (length frame) :: u32),
                write_little_endian (of_nat (min wire_size (2 ^ 32 - 1)) :: u32)] (pw_file w) of
              (f, False) \<Rightarrow> (w\<lparr>pw_file := f\<rparr>, Inl cannot_write)
            | (f, True) \<Rightarrow>
               (case fwrite f frame of (f, n) \<Rightarrow>
                  if n \<noteq> length frame then (w\<lparr>pw_file := f\<rparr>, Inl cannot_write)
                  else (w\<lparr>pw_file := f, pw_bytes := pw_bytes w + record_bytes\<rparr>, Inr True)))"

definition pcap_finish :: "pcap_writer \<Rightarrow> bool \<Rightarrow> pcap_writer result" where
  "pcap_finish w flushed =
     (if \<not> flushed then Inl (Runtime_error ''cannot finalize recorder PCAP file'') else Inr w)"
section \<open>The capture loop\<close>

text \<open>
  The outcome of one \<open>recvmsg\<close> call. A received frame comes as it was on the wire (with
  \<open>MSG_TRUNC\<close> the call returns its size), with the reading of the steady clock for the
  telemetry and of the system clock for the capture.
\<close>

datatype receive_outcome =
    Would_block
  | Interrupted
  | Receive_failed
  | Received bytes nanos nanos

text \<open>The counters, the writer (None: no capture, or given up), what the closed writer left, and the reporter.\<close>

record capture =
  cp_metrics :: recorder_metrics
  cp_pcap :: "pcap_writer option"
  cp_closed :: "stream option"
  cp_telemetry :: "(recorder_metrics \<times> bool) reporter"

definition write_frame :: "capture \<Rightarrow> bytes \<Rightarrow> nat \<Rightarrow> nanos \<Rightarrow> capture" where
  "write_frame c frame wire_size now =
    (case cp_pcap c of
       None \<Rightarrow> c
     | Some w \<Rightarrow>
        if rm_pcap_limit_reached (cp_metrics c) then c
        else (case pcap_write w frame wire_size now of
            (w, Inr written) \<Rightarrow>
              let m = cp_metrics c;
                  m = (if written then m\<lparr>rm_pcap_frames := rm_pcap_frames m + 1\<rparr> else m);
                  m = m\<lparr>rm_pcap_bytes := pw_bytes w, rm_pcap_limit_reached := pw_limit_reached w\<rparr>
              in c\<lparr>cp_metrics := m, cp_pcap := Some w\<rparr>
          | (w, Inl e) \<Rightarrow>
              c\<lparr>cp_metrics := (cp_metrics c)\<lparr>rm_pcap_io_errors := rm_pcap_io_errors (cp_metrics c) + 1\<rparr>,
                cp_pcap := None, cp_closed := Some (pw_file w)\<rparr>))"

definition receive_frame :: "capture \<Rightarrow> bytes \<Rightarrow> nanos \<Rightarrow> nanos \<Rightarrow> capture" where
  "receive_frame c wire steady now =
    (let wire_size = length wire; copied_size = min wire_size receive_buffer_bytes;
         c = c\<lparr>cp_metrics := observe_frame (cp_metrics c) (of_nat wire_size) (of_nat copied_size),
               cp_telemetry := note_activity (cp_telemetry c) steady\<rparr>
     in write_frame c (take copied_size wire) wire_size now)"

text \<open>The inner loop of at most \<open>n\<close> calls; a missing outcome is \<open>Would_block\<close>.\<close>

fun drain :: "nat \<Rightarrow> capture \<Rightarrow> receive_outcome list \<Rightarrow> capture" where
  "drain 0 c os = c"
| "drain (Suc n) c [] = c"
| "drain (Suc n) c (Would_block # os) = c"
| "drain (Suc n) c (Interrupted # os) = drain n c os"
| "drain (Suc n) c (Receive_failed # os) =
     c\<lparr>cp_metrics := (cp_metrics c)\<lparr>rm_receive_errors := rm_receive_errors (cp_metrics c) + 1\<rparr>\<rparr>"
| "drain (Suc n) c (Received wire steady now # os) = drain n (receive_frame c wire steady now) os"

text \<open>\<open>report\<close>: \<open>due\<close>, the heartbeat and the record each read the clock.\<close>

definition report ::
  "((recorder_metrics \<times> bool) telemetry_record \<Rightarrow> nat) \<Rightarrow> bool \<Rightarrow> capture \<Rightarrow> nanos \<times> nanos \<times> nanos \<Rightarrow> bool \<Rightarrow> capture" where
  "report line_size enabled c clock final =
    (case clock of (due_now, now, later) \<Rightarrow>
       if final \<or> due (cp_telemetry c) due_now
       then let m = cp_metrics c
            in c\<lparr>cp_telemetry := heartbeat line_size (cp_telemetry c) now later (m, enabled)
                   (rm_receive_errors m + rm_pcap_io_errors m + rm_kernel_drops m) final\<rparr>
       else c)"

datatype poll_outcome =
    Poll_failed bool
  | Poll_idle
  | Poll_terminal
  | Poll_other
  | Poll_readable "receive_outcome list"

text \<open>
  What one pass of the loop reads: \<open>running\<close>, the clock for the deadline, for the report and
  after the poll, the outcome of \<open>poll\<close> (\<open>Poll_failed True\<close> for \<open>EINTR\<close>), the
  kernel statistics and the outcome of \<open>write_metrics\<close>.
\<close>

record pass =
  ps_running :: bool
  ps_now :: nanos
  ps_report :: "nanos \<times> nanos \<times> nanos"
  ps_poll :: poll_outcome
  ps_after :: nanos
  ps_statistics :: "(u32 \<times> u32) option"
  ps_metrics_written :: "unit result"

definition poll_step :: "capture \<Rightarrow> poll_outcome \<Rightarrow> capture result" where
  "poll_step c outcome =
    (case outcome of
       Poll_failed interrupted \<Rightarrow>
         if interrupted then Inr c else Inl (Runtime_error ''packet socket poll failed: '')
     | Poll_idle \<Rightarrow> Inr c
     | Poll_terminal \<Rightarrow> Inl (Runtime_error ''packet socket reported a terminal error'')
     | Poll_other \<Rightarrow> Inr c
     | Poll_readable os \<Rightarrow> Inr (drain 256 c os))"

definition statistics_step :: "capture \<Rightarrow> (u32 \<times> u32) option \<Rightarrow> capture" where
  "statistics_step c statistics = c\<lparr>cp_metrics := collect_kernel_statistics (cp_metrics c) statistics\<rparr>"

text \<open>
  The loop: the capture when it ended and the exception it ended with. The end of the inputs is
  the signal that clears \<open>running\<close>.
\<close>

fun capture_loop ::
  "((recorder_metrics \<times> bool) telemetry_record \<Rightarrow> nat) \<Rightarrow> bool \<Rightarrow> nanos option \<Rightarrow> capture \<Rightarrow> nanos \<Rightarrow> pass list \<Rightarrow>
   capture \<times> exn option" where
  "capture_loop line_size enabled deadline c next_report [] = (c, None)"
| "capture_loop line_size enabled deadline c next_report (p # ps) =
    (if \<not> ps_running p \<or> (case deadline of None \<Rightarrow> False | Some d \<Rightarrow> ps_now p \<ge> d) then (c, None)
     else let c = report line_size enabled c (ps_report p) False
       in case poll_step c (ps_poll p) of
          Inl e \<Rightarrow> (c, Some e)
        | Inr c \<Rightarrow>
           if ps_after p \<ge> next_report
           then let c = statistics_step c (ps_statistics p)
                in case ps_metrics_written p of
                   Inl e \<Rightarrow> (c, Some e)
                 | Inr _ \<Rightarrow> capture_loop line_size enabled deadline c (ps_after p + millis 1000) ps
           else capture_loop line_size enabled deadline c next_report ps)"

text \<open>What follows the loop.\<close>

definition capture_end ::
  "((recorder_metrics \<times> bool) telemetry_record \<Rightarrow> nat) \<Rightarrow> bool \<Rightarrow> capture \<Rightarrow> (u32 \<times> u32) option \<Rightarrow> bool \<Rightarrow>
   nanos \<times> nanos \<times> nanos \<Rightarrow> unit result \<Rightarrow> capture \<times> exn option" where
  "capture_end line_size enabled c statistics flushed clock written =
    (let c = statistics_step c statistics;
         c = (case cp_pcap c of
                None \<Rightarrow> c
              | Some w \<Rightarrow>
                 (case pcap_finish w flushed of
                    Inr w \<Rightarrow> c
                  | Inl e \<Rightarrow> c\<lparr>cp_metrics := (cp_metrics c)\<lparr>rm_pcap_io_errors := rm_pcap_io_errors (cp_metrics c) + 1\<rparr>\<rparr>));
         c = report line_size enabled c clock True
     in (c, case written of Inl e \<Rightarrow> Some e | Inr _ \<Rightarrow> None))"

text \<open>
  Waiting for the interface: each round is the outcome of the inspection (None when
  \<open>getifaddrs\<close> fails) and the clock read when it is not ready. None when the inputs end first.
\<close>

fun wait_interface :: "nanos \<Rightarrow> (bool option \<times> nanos) list \<Rightarrow> unit result option" where
  "wait_interface deadline [] = None"
| "wait_interface deadline ((None, now) # rounds) = Some (Inl (Runtime_error ''cannot inspect capture interface readiness''))"
| "wait_interface deadline ((Some True, now) # rounds) = Some (Inr ())"
| "wait_interface deadline ((Some False, now) # rounds) =
    (if now \<ge> deadline then Some (Inl (Runtime_error ''capture interface did not become ready before timeout''))
     else wait_interface deadline rounds)"

record recorder_inputs =
  ri_begin :: nanos
  ri_rounds :: "(bool option \<times> nanos) list"
  ri_socket :: "unit result"
  ri_directories :: "unit result"
  ri_opened :: "stream option"
  ri_started :: nanos
  ri_telemetry :: "(recorder_metrics \<times> bool) reporter result"
  ri_passes :: "pass list"
  ri_statistics :: "(u32 \<times> u32) option"
  ri_flushed :: bool
  ri_clock :: "nanos \<times> nanos \<times> nanos"
  ri_written :: "unit result"

text \<open>The writer of the run, when a capture was asked for, and the file it left when that threw.\<close>

definition make_pcap :: "recorder_options \<Rightarrow> recorder_inputs \<Rightarrow> stream option \<times> pcap_writer option result" where
  "make_pcap opts inp =
    (case op_pcap_path opts of
       None \<Rightarrow> (None, Inr None)
     | Some path \<Rightarrow>
        (case ri_directories inp of
           Inl e \<Rightarrow> (None, Inl e)
         | Inr _ \<Rightarrow>
            (case new_pcap (ri_opened inp) (of_nat (op_capture_bytes opts)) of
               (file, Inl e) \<Rightarrow> (file, Inl e)
             | (file, Inr w) \<Rightarrow> (file, Inr (Some w)))))"

text \<open>\<open>run\<close>: the file of the capture, the last state of the loop when it was reached, and the exception.\<close>

definition capture_file :: "capture \<Rightarrow> stream option" where
  "capture_file c = (case cp_pcap c of Some w \<Rightarrow> Some (pw_file w) | None \<Rightarrow> cp_closed c)"

definition run_recorder ::
  "((recorder_metrics \<times> bool) telemetry_record \<Rightarrow> nat) \<Rightarrow> recorder_options \<Rightarrow> recorder_inputs \<Rightarrow>
   (stream option \<times> capture option \<times> exn option) option" where
  "run_recorder line_size opts inp =
    (case wait_interface (ri_begin inp + millis 30000) (ri_rounds inp) of
       None \<Rightarrow> None
     | Some (Inl e) \<Rightarrow> Some (None, None, Some e)
     | Some (Inr _) \<Rightarrow>
        (case ri_socket inp of
           Inl e \<Rightarrow> Some (None, None, Some e)
         | Inr _ \<Rightarrow>
            (case make_pcap opts inp of
               (file, Inl e) \<Rightarrow> Some (file, None, Some e)
             | (file, Inr pcap) \<Rightarrow>
                (case ri_telemetry inp of
                   Inl e \<Rightarrow> Some (file, None, Some e)
                 | Inr telemetry \<Rightarrow>
                    let m = (case pcap of None \<Rightarrow> zero_metrics | Some w \<Rightarrow> zero_metrics\<lparr>rm_pcap_bytes := pw_bytes w\<rparr>);
                        c = \<lparr>cp_metrics = m, cp_pcap = pcap, cp_closed = None, cp_telemetry = telemetry\<rparr>;
                        deadline = map_option (\<lambda>d. ri_started inp + millis (int d * 1000)) (op_duration opts);
                        enabled = (op_pcap_path opts \<noteq> None)
                    in (case capture_loop line_size enabled deadline c (ri_started inp) (ri_passes inp) of
                         (c, Some e) \<Rightarrow> Some (capture_file c, Some c, Some e)
                       | (c, None) \<Rightarrow>
                          (case capture_end line_size enabled c (ri_statistics inp) (ri_flushed inp) (ri_clock inp) (ri_written inp) of
                             (c, e) \<Rightarrow> Some (capture_file c, Some c, e)))))))"

text \<open>\<open>main\<close>: the exit code, None while the rounds given are not enough.\<close>

definition recorder_main ::
  "((recorder_metrics \<times> bool) telemetry_record \<Rightarrow> nat) \<Rightarrow> string list \<Rightarrow> recorder_inputs \<Rightarrow> nat option" where
  "recorder_main line_size args inp =
    (case parse_options args of
       Inl _ \<Rightarrow> Some 2
     | Inr opts \<Rightarrow> map_option (\<lambda>(_, _, e). if e = None then 0 else 2) (run_recorder line_size opts inp))"

section \<open>The capture file\<close>

text \<open>The bytes of the header and of a frame's record, as a PCAP reader expects them.\<close>

definition pcap_header :: bytes where
  "pcap_header = le_bytes 4 (0xa1b2c3d4 :: u32) @ le_bytes 2 (2 :: u16) @ le_bytes 2 (4 :: u16) @ le_bytes 4 (0 :: u32) @
     le_bytes 4 (0 :: u32) @ le_bytes 4 (65535 :: u32) @ le_bytes 4 (1 :: u32)"

type_synonym frame = "bytes \<times> nanos"

definition copied :: "frame \<Rightarrow> bytes" where
  "copied f = take receive_buffer_bytes (fst f)"

definition frame_seconds :: "nanos \<Rightarrow> int" where
  "frame_seconds t = toward_zero t 1000000000"

definition frame_microseconds :: "nanos \<Rightarrow> int" where
  "frame_microseconds t = toward_zero (t - frame_seconds t * 1000000000) 1000"

definition pcap_record :: "bytes \<Rightarrow> nat \<Rightarrow> nanos \<Rightarrow> bytes" where
  "pcap_record data wire_size t =
     le_bytes 4 (word_of_int (frame_seconds t) :: u32) @ le_bytes 4 (word_of_int (frame_microseconds t) :: u32) @
     le_bytes 4 (of_nat (length data) :: u32) @ le_bytes 4 (of_nat (min wire_size (2 ^ 32 - 1)) :: u32) @ data"

definition frame_record :: "frame \<Rightarrow> bytes" where
  "frame_record f = pcap_record (copied f) (length (fst f)) (snd f)"

text \<open>The frames that fit into a budget: up to the first that does not.\<close>

fun fitting :: "nat \<Rightarrow> frame list \<Rightarrow> frame list" where
  "fitting b [] = []"
| "fitting b (f # fs) = (if 16 + length (copied f) \<le> b then f # fitting (b - (16 + length (copied f))) fs else [])"

definition pcap_image :: "nat \<Rightarrow> frame list \<Rightarrow> bytes" where
  "pcap_image limit fs = pcap_header @ concat (map frame_record (fitting (limit - 24) fs))"

lemma length_pcap_header [simp]: "length pcap_header = 24"
  by (simp add: pcap_header_def)

lemma length_frame_record [simp]: "length (frame_record f) = 16 + length (copied f)"
  by (simp add: frame_record_def pcap_record_def)

lemma length_fitting: "length (concat (map frame_record (fitting b fs))) \<le> b"
  by (induction b fs rule: fitting.induct) auto

lemma length_pcap_image: "24 \<le> limit \<Longrightarrow> length (pcap_image limit fs) \<le> limit"
  using length_fitting [of "limit - 24" fs] by (simp add: pcap_image_def)

lemma fitting_snoc:
  "fitting b (fs @ [f]) =
    (if fitting b fs = fs \<and> 16 + length (copied f) + length (concat (map frame_record fs)) \<le> b then fs @ [f]
     else fitting b fs)"
  by (induction b fs rule: fitting.induct) auto

lemma fitting_stays: "fitting b fs \<noteq> fs \<Longrightarrow> fitting b (fs @ gs) = fitting b fs"
  by (induction b fs rule: fitting.induct) auto

lemma fitting_prefix: "\<exists>k. fitting b fs = take k fs"
proof (induction b fs rule: fitting.induct)
  case (2 b f fs)
  show ?case
  proof (cases "16 + length (copied f) \<le> b")
    case True
    then obtain k where "fitting (b - (16 + length (copied f))) fs = take k fs" using 2 by blast
    with True have "fitting b (f # fs) = take (Suc k) (f # fs)" by simp
    then show ?thesis by blast
  next
    case False
    then have "fitting b (f # fs) = take 0 (f # fs)" by simp
    then show ?thesis by blast
  qed
qed simp

text \<open>Writing to a stream: what it accepted is a prefix of what was written.\<close>

definition pours :: "(stream \<Rightarrow> stream \<times> bool) \<Rightarrow> bytes \<Rightarrow> bool" where
  "pours w bs \<longleftrightarrow> (\<forall>f. w f =
     (f\<lparr>st_bytes := st_bytes f @ take (st_room f) bs, st_room := st_room f - length bs\<rparr>, length bs \<le> st_room f))"

lemma poursD: "pours w bs \<Longrightarrow> w f =
     (f\<lparr>st_bytes := st_bytes f @ take (st_room f) bs, st_room := st_room f - length bs\<rparr>, length bs \<le> st_room f)"
  by (simp add: pours_def)

lemma low_byte: "ucast (v AND 0xff) = (ucast (v :: 'a :: len word) :: byte)"
proof -
  have "(0xff :: 'a word) = mask 8" by (simp add: mask_eq_exp_minus_1)
  show ?thesis unfolding \<open>0xff = mask 8\<close> by (rule bit_word_eqI) (auto simp: bit_simps dest: bit_imp_le_length)
qed

lemma pours_put: "pours (\<lambda>f. put_little_endian n f v) (le_bytes n v)"
proof (induction n arbitrary: v)
  case 0
  show ?case by (simp add: pours_def)
next
  case (Suc n)
  show ?case
    unfolding pours_def
  proof
    fix f
    show "put_little_endian (Suc n) f v =
      (f\<lparr>st_bytes := st_bytes f @ take (st_room f) (le_bytes (Suc n) v), st_room := st_room f - length (le_bytes (Suc n) v)\<rparr>,
       length (le_bytes (Suc n) v) \<le> st_room f)"
      by (cases "st_room f") (simp_all add: fputc_def low_byte poursD [OF Suc] le_bytes_Suc)
  qed
qed

lemma pours_write: "pours (write_little_endian (v :: 'a :: len word)) (le_bytes (LENGTH('a) div 8) v)"
  using pours_put [of "LENGTH('a) div 8" v] by (simp add: pours_def write_little_endian_def)

lemma pours_in_order: "list_all2 pours ws bss \<Longrightarrow> pours (in_order ws) (concat bss)"
proof (induction ws bss rule: list_all2_induct)
  case (Cons w ws bs bss)
  show ?case
    unfolding pours_def
  proof
    fix f
    show "in_order (w # ws) f =
      (f\<lparr>st_bytes := st_bytes f @ take (st_room f) (concat (bs # bss)), st_room := st_room f - length (concat (bs # bss))\<rparr>,
       length (concat (bs # bss)) \<le> st_room f)"
      by (cases "length bs \<le> st_room f") (auto simp: poursD [OF Cons(1)] poursD [OF Cons(3)])
  qed
qed (simp add: pours_def)

lemma fwrite_pours: "pours (\<lambda>f. case fwrite f bs of (f, n) \<Rightarrow> (f, n = length bs)) bs"
  by (auto simp: pours_def fwrite_def Let_def min_def)

text \<open>A fresh writer: the header, or an exception when not even that fits.\<close>

lemma new_pcap_stream:
  assumes "st_bytes f = []" and "40 \<le> byte_limit"
  shows "new_pcap (Some f) byte_limit =
    (Some \<lparr>st_bytes = take (st_room f) pcap_header, st_room = st_room f - 24\<rparr>,
     if 24 \<le> st_room f then Inr \<lparr>pw_file = \<lparr>st_bytes = take (st_room f) pcap_header, st_room = st_room f - 24\<rparr>,
        pw_limit = byte_limit, pw_bytes = 24, pw_limit_reached = False\<rparr> else Inl cannot_write)"
proof -
  have "pours (in_order [write_little_endian (0xa1b2c3d4 :: u32), write_little_endian (2 :: u16),
            write_little_endian (4 :: u16), write_little_endian (0 :: 32 word), write_little_endian (0 :: u32),
            write_little_endian (of_nat receive_buffer_bytes :: u32), write_little_endian (1 :: u32)])
      (concat [le_bytes 4 (0xa1b2c3d4 :: u32), le_bytes 2 (2 :: u16), le_bytes 2 (4 :: u16), le_bytes 4 (0 :: u32),
        le_bytes 4 (0 :: u32), le_bytes 4 (65535 :: u32), le_bytes 4 (1 :: u32)])"
    by (rule pours_in_order) (use pours_write [where 'a = 32] pours_write [where 'a = 16] in \<open>simp add: receive_buffer_bytes_def\<close>)
  from poursD [OF this, of f] assms show ?thesis
    by (cases f) (simp add: new_pcap_def pcap_header_bytes_def pcap_record_header_bytes_def pcap_header_def not_less)
qed

text \<open>A write, in terms of the record's bytes.\<close>

lemma pcap_write_record:
  assumes "\<not> pw_limit_reached w" and "of_nat (16 + length frame) \<le> pw_limit w - pw_bytes w"
  shows "pcap_write w frame wire_size t =
    (let bs = pcap_record frame wire_size t; f = pw_file w;
         g = f\<lparr>st_bytes := st_bytes f @ take (st_room f) bs, st_room := st_room f - length bs\<rparr>
     in if length bs \<le> st_room f then (w\<lparr>pw_file := g, pw_bytes := pw_bytes w + of_nat (16 + length frame)\<rparr>, Inr True)
        else (w\<lparr>pw_file := g\<rparr>, Inl cannot_write))"
proof -
  let ?ws = "[write_little_endian (word_of_int (toward_zero t 1000000000) :: u32),
       write_little_endian (word_of_int (toward_zero (t - toward_zero t 1000000000 * 1000000000) 1000) :: u32),
       write_little_endian (of_nat (length frame) :: u32), write_little_endian (of_nat (min wire_size (2 ^ 32 - 1)) :: u32)]"
  let ?bss = "[le_bytes 4 (word_of_int (toward_zero t 1000000000) :: u32),
       le_bytes 4 (word_of_int (toward_zero (t - toward_zero t 1000000000 * 1000000000) 1000) :: u32),
       le_bytes 4 (of_nat (length frame) :: u32), le_bytes 4 (of_nat (min wire_size (2 ^ 32 - 1)) :: u32)]"
  have "pours (in_order ?ws) (concat ?bss)"
    by (rule pours_in_order) (use pours_write [where 'a = 32] in simp)
  note p = poursD [OF this] and q = poursD [OF fwrite_pours [of frame]]
  obtain g n where g: "fwrite (pw_file w\<lparr>st_bytes := st_bytes (pw_file w) @ concat ?bss, st_room := st_room (pw_file w) - 16\<rparr>) frame = (g, n)"
    by fastforce
  show ?thesis
    using assms q [of "pw_file w\<lparr>st_bytes := st_bytes (pw_file w) @ concat ?bss, st_room := st_room (pw_file w) - 16\<rparr>"] g
    unfolding pcap_write_def Let_def p pcap_record_def frame_seconds_def frame_microseconds_def
    by (cases "16 \<le> st_room (pw_file w)") (auto simp: pcap_record_header_bytes_def not_less le_diff_conv2 add.commute)
qed

section \<open>The capture invariant\<close>

definition wire_size :: "frame \<Rightarrow> nat" where
  "wire_size f = length (fst f)"

definition counts :: "frame list \<Rightarrow> recorder_metrics \<Rightarrow> bool" where
  "counts fs m \<longleftrightarrow> rm_frames m = of_nat (length fs) \<and> rm_wire_bytes m = of_nat (sum_list (map wire_size fs)) \<and>
     rm_receive_truncations m = of_nat (length (filter (\<lambda>f. receive_buffer_bytes < wire_size f) fs))"

definition complete_capture :: "nat \<Rightarrow> frame list \<Rightarrow> bool" where
  "complete_capture limit fs \<longleftrightarrow> fitting (limit - 24) fs = fs"

definition captured :: "nat \<Rightarrow> nat \<Rightarrow> frame list \<Rightarrow> capture \<Rightarrow> bool" where
  "captured limit room fs c \<longleftrightarrow>
    (case cp_pcap c of
       Some w \<Rightarrow>
         length (pcap_image limit fs) \<le> room \<and>
         w = \<lparr>pw_file = \<lparr>st_bytes = pcap_image limit fs, st_room = room - length (pcap_image limit fs)\<rparr>,
              pw_limit = of_nat limit, pw_bytes = of_nat (length (pcap_image limit fs)),
              pw_limit_reached = (\<not> complete_capture limit fs)\<rparr> \<and>
         rm_pcap_bytes (cp_metrics c) = pw_bytes w \<and> rm_pcap_limit_reached (cp_metrics c) = pw_limit_reached w \<and>
         rm_pcap_frames (cp_metrics c) = of_nat (length (fitting (limit - 24) fs)) \<and> rm_pcap_io_errors (cp_metrics c) = 0
     | None \<Rightarrow>
         room < length (pcap_image limit fs) \<and> rm_pcap_io_errors (cp_metrics c) = 1 \<and>
         (\<exists>f. cp_closed c = Some f \<and> st_bytes f = take room (pcap_image limit fs) \<and>
           unat (rm_pcap_bytes (cp_metrics c)) \<le> room))"

lemma pcap_image_snoc:
  assumes "24 \<le> limit"
  shows "pcap_image limit (fs @ [f]) =
    (if complete_capture limit fs \<and> length (pcap_image limit fs) + 16 + length (copied f) \<le> limit
     then pcap_image limit fs @ frame_record f else pcap_image limit fs)"
proof (cases "fitting (limit - 24) fs = fs")
  case True
  show ?thesis
  proof (cases "16 + length (copied f) + length (concat (map frame_record fs)) \<le> limit - 24")
    case fits: True
    then have "24 + length (concat (map frame_record fs)) + 16 + length (copied f) \<le> limit" using assms by linarith
    then show ?thesis using True fits unfolding pcap_image_def complete_capture_def fitting_snoc
      by (simp add: ac_simps)
  next
    case False
    then have "\<not> 24 + length (concat (map frame_record fs)) + 16 + length (copied f) \<le> limit" by linarith
    then show ?thesis using True False unfolding pcap_image_def complete_capture_def fitting_snoc
      by (simp add: ac_simps)
  qed
next
  case False
  then show ?thesis by (simp add: pcap_image_def complete_capture_def fitting_snoc)
qed

lemma complete_snoc:
  assumes "24 \<le> limit"
  shows "complete_capture limit (fs @ [f]) \<longleftrightarrow>
     complete_capture limit fs \<and> length (pcap_image limit fs) + 16 + length (copied f) \<le> limit"
proof -
  obtain k where "fitting (limit - 24) fs = take k fs" using fitting_prefix by blast
  then have "fitting (limit - 24) fs \<noteq> fs @ [f]" by (auto dest: arg_cong [of _ _ length])
  then show ?thesis using assms unfolding complete_capture_def fitting_snoc
    by (auto simp: pcap_image_def)
qed

lemma fitting_length_snoc:
  assumes "24 \<le> limit"
  shows "length (fitting (limit - 24) (fs @ [f])) =
    (if complete_capture limit (fs @ [f]) then Suc (length fs) else length (fitting (limit - 24) fs))"
  using complete_snoc [OF assms, of fs f] assms
  unfolding complete_capture_def fitting_snoc by auto

lemma copied_bound: "length (copied f) \<le> 65535"
  by (simp add: copied_def receive_buffer_bytes_def)

lemma room_left:
  assumes "40 \<le> limit" and "limit < 2 ^ 63" and "n \<le> limit" and "k \<le> 65551"
  shows "(of_nat k :: u64) > of_nat limit - of_nat n \<longleftrightarrow> limit < n + k"
proof -
  have eq: "(of_nat limit - of_nat n :: u64) = of_nat (limit - n)" using assms(3) by (simp add: of_nat_diff)
  have "unat (of_nat (limit - n) :: u64) = limit - n" "unat (of_nat k :: u64) = k"
    using assms by (simp_all add: unat_of_nat take_bit_nat_eq_self del: of_nat_diff)
  then show ?thesis using assms(3) unfolding eq word_less_nat_alt by linarith
qed

lemma captured_step:
  assumes inv: "captured limit room fs c" and limit: "40 \<le> limit" "limit < 2 ^ 63"
  shows "captured limit room (fs @ [(wire, now)]) (write_frame c (copied (wire, now)) (length wire) now)"
proof (cases "cp_pcap c")
  case None
  have "\<exists>xs. pcap_image limit (fs @ [(wire, now)]) = pcap_image limit fs @ xs"
    using limit(1) by (subst pcap_image_snoc) auto
  then obtain xs where "pcap_image limit (fs @ [(wire, now)]) = pcap_image limit fs @ xs" by blast
  with None inv show ?thesis by (auto simp: captured_def write_frame_def)
next
  case (Some w)
  let ?f = "(wire, now)" and ?img = "pcap_image limit fs"
  have lim24: "24 \<le> limit" using limit(1) by simp
  note image = pcap_image_snoc [OF lim24, of fs ?f] and complete = complete_snoc [OF lim24, of fs ?f]
    and frames = fitting_length_snoc [OF lim24, of fs ?f]
  have len: "length ?img \<le> limit" by (rule length_pcap_image [OF lim24])
  have room: "length ?img \<le> room" and w: "w = \<lparr>pw_file = \<lparr>st_bytes = ?img, st_room = room - length ?img\<rparr>,
      pw_limit = of_nat limit, pw_bytes = of_nat (length ?img), pw_limit_reached = (\<not> complete_capture limit fs)\<rparr>"
    and m: "rm_pcap_bytes (cp_metrics c) = of_nat (length ?img)"
      "rm_pcap_limit_reached (cp_metrics c) = (\<not> complete_capture limit fs)"
      "rm_pcap_frames (cp_metrics c) = of_nat (length (fitting (limit - 24) fs))" "rm_pcap_io_errors (cp_metrics c) = 0"
    using inv Some by (auto simp: captured_def)
  have gt: "(of_nat (16 + length (copied ?f)) :: u64) > of_nat limit - of_nat (length ?img) \<longleftrightarrow>
      limit < length ?img + (16 + length (copied ?f))"
    by (rule room_left [OF limit len]) (use copied_bound [of ?f] in simp)
  show ?thesis
  proof (cases "complete_capture limit fs")
    case False
    then show ?thesis using Some w m room by (simp add: write_frame_def captured_def image complete frames)
  next
    case True
    show ?thesis
    proof (cases "length ?img + 16 + length (copied ?f) \<le> limit")
      case False
      then have "pcap_write w (copied ?f) (length wire) now = (w\<lparr>pw_limit_reached := True\<rparr>, Inr False)"
        using gt True by (simp add: pcap_write_def w pcap_record_header_bytes_def)
      then show ?thesis using Some m room True False
        by (simp add: write_frame_def captured_def image complete frames w)
    next
      case fits: True
      have len': "length (frame_record ?f) = 16 + length (copied ?f)" by simp
      have rec: "frame_record ?f = pcap_record (copied ?f) (length wire) now" by (simp add: frame_record_def)
      have wr: "pcap_write w (copied ?f) (length wire) now =
        (let bs = frame_record ?f; f = pw_file w;
           g = f\<lparr>st_bytes := st_bytes f @ take (st_room f) bs, st_room := st_room f - length bs\<rparr>
         in if length bs \<le> st_room f then (w\<lparr>pw_file := g, pw_bytes := pw_bytes w + of_nat (16 + length (copied ?f))\<rparr>, Inr True)
            else (w\<lparr>pw_file := g\<rparr>, Inl cannot_write))"
        unfolding rec by (rule pcap_write_record) (use True fits gt in \<open>simp_all add: w not_less\<close>)
      have all: "fitting (limit - 24) fs = fs" using True by (simp add: complete_capture_def)
      show ?thesis
      proof (cases "length ?img + (16 + length (copied ?f)) \<le> room")
        case ok: True
        then have "16 + length (copied ?f) \<le> room - length ?img" by linarith
        then show ?thesis using Some m room True fits ok wr all
          by (simp add: write_frame_def captured_def image complete frames w Let_def ac_simps)
      next
        case False
        then have full: "\<not> 16 + length (copied ?f) \<le> room - length ?img" using room by linarith
        have "unat (of_nat (length ?img) :: u64) \<le> room"
          using room len limit(2) by (simp add: unat_of_nat take_bit_nat_eq_self)
        then show ?thesis using Some m room True fits False full wr
          by (simp add: write_frame_def captured_def image complete w Let_def)
      qed
    qed
  qed
qed

text \<open>The frames one pass of the loop receives.\<close>

fun drained :: "nat \<Rightarrow> receive_outcome list \<Rightarrow> frame list" where
  "drained 0 os = []"
| "drained (Suc n) (Interrupted # os) = drained n os"
| "drained (Suc n) (Received wire steady now # os) = (wire, now) # drained n os"
| "drained (Suc n) os = []"

definition pass_frames :: "pass \<Rightarrow> frame list" where
  "pass_frames p = (case ps_poll p of Poll_readable os \<Rightarrow> drained 256 os | _ \<Rightarrow> [])"

text \<open>
  The invariant of the loop after the frames \<open>fs\<close>: the counters, and with a capture of
  \<open>limit\<close> bytes on a disk with \<open>room\<close> for \<open>room\<close> of them, the file.
\<close>

definition recording :: "(nat \<times> nat) option \<Rightarrow> frame list \<Rightarrow> capture \<Rightarrow> bool" where
  "recording target fs c \<longleftrightarrow> counts fs (cp_metrics c) \<and>
    (case target of None \<Rightarrow> cp_pcap c = None \<and> cp_closed c = None
     | Some (limit, room) \<Rightarrow> 40 \<le> limit \<and> limit < 2 ^ 63 \<and> captured limit room fs c)"

lemma write_frame_metrics [simp]:
  "counts fs (cp_metrics (write_frame c data n now)) = counts fs (cp_metrics c)"
  by (auto simp: write_frame_def counts_def Let_def split: option.splits prod.splits sum.splits)

lemma counts_snoc:
  "length wire < 2 ^ 64 \<Longrightarrow> counts fs m \<Longrightarrow>
   counts (fs @ [(wire, now)]) (observe_frame m (of_nat (length wire)) (of_nat (min (length wire) receive_buffer_bytes)))"
  by (auto simp: counts_def observe_frame_def Let_def wire_size_def word_less_nat_alt unat_of_nat take_bit_nat_eq_self
      receive_buffer_bytes_def)

lemma captured_other [simp]:
  "captured limit room fs (c\<lparr>cp_telemetry := t\<rparr>) = captured limit room fs c"
  "captured limit room fs (c\<lparr>cp_metrics := (cp_metrics c)\<lparr>rm_receive_errors := e\<rparr>\<rparr>) = captured limit room fs c"
  "captured limit room fs (c\<lparr>cp_metrics := observe_frame (cp_metrics c) a b\<rparr>) = captured limit room fs c"
  "captured limit room fs (c\<lparr>cp_metrics := observe_frame (cp_metrics c) a b, cp_telemetry := t\<rparr>) = captured limit room fs c"
  "captured limit room fs (statistics_step c s) = captured limit room fs c"
  by (auto simp: captured_def observe_frame_def statistics_step_def collect_kernel_statistics_def observe_kernel_def Let_def
      split: option.splits)

lemma recording_other [simp]:
  "recording target fs (c\<lparr>cp_telemetry := t\<rparr>) = recording target fs c"
  "recording target fs (c\<lparr>cp_metrics := (cp_metrics c)\<lparr>rm_receive_errors := e\<rparr>\<rparr>) = recording target fs c"
  "recording target fs (statistics_step c s) = recording target fs c"
  by (auto simp: recording_def counts_def statistics_step_def collect_kernel_statistics_def observe_kernel_def
      split: option.splits prod.splits) (auto simp: captured_def split: option.splits)

lemma report_recording [simp]: "recording target fs (report line_size enabled c clock final) = recording target fs c"
  by (cases clock) (simp add: report_def Let_def)

lemma receive_frame_recording:
  assumes "recording target fs c" and "length wire < 2 ^ 64"
  shows "recording target (fs @ [(wire, now)]) (receive_frame c wire steady now)"
proof -
  have take: "take (min (length wire) receive_buffer_bytes) wire = copied (wire, now)"
    by (simp add: copied_def min_def)
  note counts = counts_snoc [OF assms(2), of fs "cp_metrics c" now]
  show ?thesis
  proof (cases target)
    case None
    then show ?thesis using assms counts
      by (auto simp: recording_def receive_frame_def Let_def take write_frame_def)
  next
    case (Some t)
    obtain limit room where t: "t = (limit, room)" by (cases t)
    let ?c = "c\<lparr>cp_metrics := observe_frame (cp_metrics c) (of_nat (length wire)) (of_nat (min (length wire) receive_buffer_bytes)),
       cp_telemetry := note_activity (cp_telemetry c) steady\<rparr>"
    have "captured limit room fs ?c" using assms(1) Some t by (simp add: recording_def)
    from captured_step [OF this, of wire now] assms(1) Some t counts show ?thesis
      unfolding receive_frame_def Let_def take by (simp add: recording_def)
  qed
qed

lemma drain_recording:
  "recording target fs c \<Longrightarrow> (\<And>w s t. Received w s t \<in> set os \<Longrightarrow> length w < 2 ^ 64) \<Longrightarrow>
   recording target (fs @ drained n os) (drain n c os)"
proof (induction n c os arbitrary: fs rule: drain.induct)
  case (6 n c wire steady now os)
  have "length wire < 2 ^ 64" using "6.prems"(2) by auto
  moreover have "\<And>w s t. Received w s t \<in> set os \<Longrightarrow> length w < 2 ^ 64" using "6.prems"(2) by auto
  ultimately show ?case using "6.IH" [OF receive_frame_recording [OF "6.prems"(1), of wire now steady]]
    by (simp del: numeral_power_eq_of_nat_cancel_iff)
qed simp_all

text \<open>Frames have lengths a \<open>size_t\<close> can hold.\<close>

definition sane_pass :: "pass \<Rightarrow> bool" where
  "sane_pass p \<longleftrightarrow> (case ps_poll p of
      Poll_readable os \<Rightarrow> list_all (\<lambda>r. case r of Received w s t \<Rightarrow> length w < 2 ^ 64 | _ \<Rightarrow> True) os | _ \<Rightarrow> True)"

lemma sane_passD: "sane_pass p \<Longrightarrow> ps_poll p = Poll_readable os \<Longrightarrow> Received w s t \<in> set os \<Longrightarrow> length w < 2 ^ 64"
  by (fastforce simp: sane_pass_def list_all_iff)

lemma poll_step_recording:
  assumes "poll_step c (ps_poll p) = Inr c'" and "recording target fs c"
    and "sane_pass p"
  shows "recording target (fs @ pass_frames p) c'"
proof (cases "ps_poll p")
  case (Poll_readable os)
  from drain_recording [OF assms(2) sane_passD [OF assms(3) this], where n = 256] assms(1) Poll_readable show ?thesis
    by (auto simp: poll_step_def pass_frames_def)
qed (use assms in \<open>auto simp: poll_step_def pass_frames_def split: if_splits\<close>)

text \<open>No exception and no reason to stop before the inputs end.\<close>

definition live_pass :: "nanos option \<Rightarrow> pass \<Rightarrow> bool" where
  "live_pass deadline p \<longleftrightarrow> ps_running p \<and> (case deadline of None \<Rightarrow> True | Some d \<Rightarrow> ps_now p < d) \<and>
     ps_poll p \<noteq> Poll_terminal \<and> ps_poll p \<noteq> Poll_failed False \<and> ps_metrics_written p = Inr ()"

lemma capture_loop_recording:
  "recording target fs c \<Longrightarrow> list_all sane_pass ps \<Longrightarrow>
   \<exists>k \<le> length ps. recording target (fs @ concat (map pass_frames (take k ps)))
      (fst (capture_loop line_size enabled deadline c next_report ps)) \<and>
     (list_all (live_pass deadline) ps \<longrightarrow> k = length ps \<and> snd (capture_loop line_size enabled deadline c next_report ps) = None)"
proof (induction ps arbitrary: fs c next_report)
  case Nil
  then show ?case by simp
next
  case (Cons p ps)
  let ?c = "report line_size enabled c (ps_report p) False"
  have c: "recording target fs ?c" using Cons.prems by simp
  have sane: "sane_pass p" "list_all sane_pass ps" using Cons.prems by auto
  show ?case
  proof (cases "\<not> ps_running p \<or> (case deadline of None \<Rightarrow> False | Some d \<Rightarrow> ps_now p \<ge> d)")
    case True
    then show ?thesis using Cons.prems by (intro exI [of _ 0]) (auto simp: live_pass_def split: option.splits)
  next
    case go: False
    show ?thesis
    proof (cases "poll_step ?c (ps_poll p)")
      case (Inl e)
      then have "\<not> live_pass deadline p"
        by (auto simp: poll_step_def live_pass_def split: poll_outcome.splits if_splits)
      then show ?thesis using go Inl c by (intro exI [of _ 0]) auto
    next
      case (Inr c1)
      from poll_step_recording [OF Inr c sane(1)]
      have c1: "recording target (fs @ pass_frames p) c1" by blast
      have onward: "\<exists>k \<le> length (p # ps). recording target (fs @ concat (map pass_frames (take k (p # ps)))) (fst (capture_loop line_size enabled deadline c' t ps)) \<and>
          (list_all (live_pass deadline) (p # ps) \<longrightarrow> k = length (p # ps) \<and> snd (capture_loop line_size enabled deadline c' t ps) = None)"
        if "recording target (fs @ pass_frames p) c'" for c' t
      proof -
        from Cons.IH [OF that sane(2)] obtain k where "k \<le> length ps" and
          "recording target ((fs @ pass_frames p) @ concat (map pass_frames (take k ps))) (fst (capture_loop line_size enabled deadline c' t ps))" and
          "list_all (live_pass deadline) ps \<longrightarrow> k = length ps \<and> snd (capture_loop line_size enabled deadline c' t ps) = None"
          by blast
        then show ?thesis by (intro exI [of _ "Suc k"]) simp
      qed
      show ?thesis
      proof (cases "ps_after p \<ge> next_report \<and> ps_metrics_written p \<noteq> Inr ()")
        case True
        then obtain e where "ps_metrics_written p = Inl e" by (cases "ps_metrics_written p") auto
        then show ?thesis using True go Inr c1
          by (intro exI [of _ 1]) (auto simp: Let_def live_pass_def)
      next
        case False
        then show ?thesis using go Inr c1 onward [OF c1, of next_report] onward [of "statistics_step c1 (ps_statistics p)" "ps_after p + millis 1000"]
          by (auto simp: Let_def)
      qed
    qed
  qed
qed

section \<open>Reading a capture back\<close>

text \<open>One record as a reader sees it: seconds, microseconds, size on the wire, bytes.\<close>

type_synonym pcap_entry = "u32 \<times> u32 \<times> u32 \<times> bytes"

function read_records :: "bytes \<Rightarrow> pcap_entry list option" where
  "read_records bs =
    (if bs = [] then Some []
     else let n = unat (le_value (read_at bs 8 4) :: u32)
       in if length bs < 16 + n then None
          else map_option (Cons (le_value (read_at bs 0 4), le_value (read_at bs 4 4), le_value (read_at bs 12 4), read_at bs 16 n))
                 (read_records (drop (16 + n) bs)))"
  by pat_completeness auto
termination by (relation "measure length") auto

declare read_records.simps [simp del]

definition read_pcap :: "bytes \<Rightarrow> pcap_entry list option" where
  "read_pcap bs = (if take 24 bs = pcap_header then read_records (drop 24 bs) else None)"

definition entry_of :: "frame \<Rightarrow> pcap_entry" where
  "entry_of f = (word_of_int (frame_seconds (snd f)), word_of_int (frame_microseconds (snd f)),
     of_nat (min (length (fst f)) (2 ^ 32 - 1)), copied f)"

lemma read_records_frame:
  "read_records (frame_record f @ bs) = map_option (Cons (entry_of f)) (read_records bs)"
proof -
  have len: "length (copied f) < 2 ^ 32" using copied_bound [of f] by simp
  have n: "unat (of_nat (length (copied f)) :: u32) = length (copied f)"
    using len by (simp add: unat_of_nat take_bit_nat_eq_self)
  have ne: "le_bytes 4 (v :: u32) \<noteq> []" for v by (simp add: le_bytes_def)
  show ?thesis
    by (subst read_records.simps)
      (simp add: ne frame_record_def pcap_record_def read_at_def drop_append entry_of_def n)
qed

lemma read_records_frames: "read_records (concat (map frame_record fs)) = Some (map entry_of fs)"
proof (induction fs)
  case Nil
  show ?case by (simp add: read_records.simps [of "[]"])
qed (simp add: read_records_frame)

lemma read_pcap_image: "read_pcap (pcap_image limit fs) = Some (map entry_of (fitting (limit - 24) fs))"
  by (simp add: read_pcap_def pcap_image_def read_records_frames)

text \<open>What a run with a capture is given: a valid limit, a fresh file with room for \<open>room\<close> bytes.\<close>

definition capture_setup :: "recorder_options \<Rightarrow> recorder_inputs \<Rightarrow> nat \<Rightarrow> bool" where
  "capture_setup opts inp room \<longleftrightarrow> op_pcap_path opts \<noteq> None \<and> 40 \<le> op_capture_bytes opts \<and>
     op_capture_bytes opts \<le> maximum_capture_bytes \<and> ri_opened inp = Some \<lparr>st_bytes = [], st_room = room\<rparr> \<and>
     list_all sane_pass (ri_passes inp)"

lemma report_unchanged [simp]:
  "cp_metrics (report line_size enabled c clock final) = cp_metrics c \<and>
   capture_file (report line_size enabled c clock final) = capture_file c"
proof -
  obtain a b d where "clock = (a, b, d)" by (cases clock)
  then show ?thesis by (simp add: report_def capture_file_def Let_def split: option.split)
qed

lemma statistics_unchanged [simp]:
  "capture_file (statistics_step c s) = capture_file c" "cp_pcap (statistics_step c s) = cp_pcap c"
  "rm_pcap_bytes (cp_metrics (statistics_step c s)) = rm_pcap_bytes (cp_metrics c)"
  "rm_pcap_frames (cp_metrics (statistics_step c s)) = rm_pcap_frames (cp_metrics c)"
  "rm_pcap_limit_reached (cp_metrics (statistics_step c s)) = rm_pcap_limit_reached (cp_metrics c)"
  "counts fs (cp_metrics (statistics_step c s)) = counts fs (cp_metrics c)"
  by (auto simp: statistics_step_def capture_file_def collect_kernel_statistics_def observe_kernel_def counts_def split: option.splits)

lemma capture_end_recording:
  assumes "capture_end line_size enabled c statistics flushed clock written = (c', e)" and "recording target fs c"
  shows "counts fs (cp_metrics c') \<and> capture_file c' = capture_file c \<and> rm_pcap_bytes (cp_metrics c') = rm_pcap_bytes (cp_metrics c) \<and>
     rm_pcap_frames (cp_metrics c') = rm_pcap_frames (cp_metrics c) \<and>
     rm_pcap_limit_reached (cp_metrics c') = rm_pcap_limit_reached (cp_metrics c)"
proof -
  define c1 where "c1 = statistics_step c statistics"
  define c2 where "c2 = (case cp_pcap c1 of None \<Rightarrow> c1
      | Some w \<Rightarrow> (case pcap_finish w flushed of Inr w \<Rightarrow> c1
          | Inl e \<Rightarrow> c1\<lparr>cp_metrics := (cp_metrics c1)\<lparr>rm_pcap_io_errors := rm_pcap_io_errors (cp_metrics c1) + 1\<rparr>\<rparr>))"
  have "c' = report line_size enabled c2 clock True"
    using assms(1) by (simp add: capture_end_def Let_def c1_def [symmetric] c2_def del: statistics_unchanged)
  moreover have "counts fs (cp_metrics c2) = counts fs (cp_metrics c1)" "capture_file c2 = capture_file c1"
    "rm_pcap_bytes (cp_metrics c2) = rm_pcap_bytes (cp_metrics c1)" "rm_pcap_frames (cp_metrics c2) = rm_pcap_frames (cp_metrics c1)"
    "rm_pcap_limit_reached (cp_metrics c2) = rm_pcap_limit_reached (cp_metrics c1)"
    unfolding c2_def by (simp_all add: counts_def capture_file_def split: option.splits sum.splits)
  ultimately show ?thesis using assms(2) by (simp add: c1_def recording_def)
qed

lemma captured_file:
  "captured limit room fs c \<Longrightarrow> \<exists>f. capture_file c = Some f \<and> st_bytes f = take room (pcap_image limit fs)"
  by (auto simp: captured_def capture_file_def split: option.splits)

lemma captured_room:
  "captured limit room fs c \<Longrightarrow> length (pcap_image limit fs) \<le> room \<Longrightarrow>
     rm_pcap_bytes (cp_metrics c) = of_nat (length (pcap_image limit fs)) \<and>
     rm_pcap_frames (cp_metrics c) = of_nat (length (fitting (limit - 24) fs)) \<and>
     rm_pcap_limit_reached (cp_metrics c) = (fitting (limit - 24) fs \<noteq> fs)"
  by (auto simp: captured_def complete_capture_def split: option.splits)

lemma run_recorder_capture:
  assumes run: "run_recorder line_size opts inp = Some (file, Some c, e)" and given: "capture_setup opts inp room"
  obtains k c' where "k \<le> length (ri_passes inp)"
    and "recording (Some (op_capture_bytes opts, room)) (concat (map pass_frames (take k (ri_passes inp)))) c'"
    and "counts (concat (map pass_frames (take k (ri_passes inp)))) (cp_metrics c)" and "file = capture_file c'"
    and "rm_pcap_bytes (cp_metrics c) = rm_pcap_bytes (cp_metrics c')" and "rm_pcap_frames (cp_metrics c) = rm_pcap_frames (cp_metrics c')"
    and "rm_pcap_limit_reached (cp_metrics c) = rm_pcap_limit_reached (cp_metrics c')"
proof -
  let ?limit = "op_capture_bytes opts"
  have limit: "40 \<le> ?limit" "?limit < 2 ^ 63" "(40 :: u64) \<le> of_nat ?limit"
    using given by (auto simp: capture_setup_def maximum_capture_bytes_def word_le_nat_alt unat_of_nat take_bit_nat_eq_self)
  have opened: "ri_opened inp = Some \<lparr>st_bytes = [], st_room = room\<rparr>" and sane: "list_all sane_pass (ri_passes inp)"
    using given by (auto simp: capture_setup_def)
  obtain w telemetry where mk: "make_pcap opts inp = (Some (pw_file w), Inr (Some w)) \<and> 24 \<le> room \<and>
      w = \<lparr>pw_file = \<lparr>st_bytes = pcap_header, st_room = room - 24\<rparr>, pw_limit = of_nat ?limit, pw_bytes = 24, pw_limit_reached = False\<rparr>"
    and tel: "ri_telemetry inp = Inr telemetry"
    using run given new_pcap_stream [of "\<lparr>st_bytes = [], st_room = room\<rparr>" "of_nat ?limit", OF _ limit(3)]
    by (auto simp: run_recorder_def make_pcap_def capture_setup_def opened split: option.splits sum.splits if_splits)
  define c0 where "c0 = \<lparr>cp_metrics = zero_metrics\<lparr>rm_pcap_bytes := pw_bytes w\<rparr>, cp_pcap = Some w, cp_closed = None, cp_telemetry = telemetry\<rparr>"
  have "recording (Some (?limit, room)) [] c0"
    using mk limit by (simp add: recording_def captured_def c0_def counts_def zero_metrics_def pcap_image_def complete_capture_def)
  from capture_loop_recording [OF this sane] obtain k where k: "k \<le> length (ri_passes inp)" and
    rec: "recording (Some (?limit, room)) (concat (map pass_frames (take k (ri_passes inp))))
      (fst (capture_loop line_size (op_pcap_path opts \<noteq> None) (map_option (\<lambda>d. ri_started inp + millis (int d * 1000)) (op_duration opts))
        c0 (ri_started inp) (ri_passes inp)))"
    by fastforce
  define l where "l = capture_loop line_size (op_pcap_path opts \<noteq> None) (map_option (\<lambda>d. ri_started inp + millis (int d * 1000)) (op_duration opts))
        c0 (ri_started inp) (ri_passes inp)"
  have eq: "Some (file, Some c, e) = (case l of
       (c, Some e) \<Rightarrow> Some (capture_file c, Some c, Some e)
     | (c, None) \<Rightarrow> (case capture_end line_size (op_pcap_path opts \<noteq> None) c (ri_statistics inp) (ri_flushed inp) (ri_clock inp) (ri_written inp) of
         (c, e) \<Rightarrow> Some (capture_file c, Some c, e)))"
    using run mk tel unfolding l_def c0_def
    by (auto simp: run_recorder_def Let_def split: option.splits sum.splits)
  obtain c1 e1 where l: "l = (c1, e1)" by (cases l)
  have rec1: "recording (Some (?limit, room)) (concat (map pass_frames (take k (ri_passes inp)))) c1"
    using rec unfolding l_def [symmetric] l by simp
  show thesis
  proof (cases e1)
    case (Some x)
    then show thesis using eq l rec1 by (intro that [OF k rec1]) (auto simp: recording_def)
  next
    case None
    obtain c2 e2 where fin: "capture_end line_size (op_pcap_path opts \<noteq> None) c1 (ri_statistics inp) (ri_flushed inp) (ri_clock inp) (ri_written inp) = (c2, e2)"
      by fastforce
    from capture_end_recording [OF this rec1] None fin eq l show thesis
      by (intro that [OF k rec1]) auto
  qed
qed

text \<open>C29. The capture file of a run of the recorder, whatever the passes of its loop meet (errors of the
  socket or of the metrics file included) and however little room the disk has: after some of
  the passes, it is what the disk had room for of the header and of the records of the frames received, in order, up to
  the first one that would pass the byte limit; so it never exceeds the limit.\<close>

theorem recorder_capture_file:
  assumes "run_recorder line_size opts inp = Some (file, Some c, e)" and "capture_setup opts inp room"
  shows "\<exists>k f. k \<le> length (ri_passes inp) \<and> file = Some f \<and>
    st_bytes f = take room (pcap_image (op_capture_bytes opts) (concat (map pass_frames (take k (ri_passes inp))))) \<and>
    length (st_bytes f) \<le> op_capture_bytes opts"
proof -
  from run_recorder_capture [OF assms] obtain k c' where k: "k \<le> length (ri_passes inp)" and
    "recording (Some (op_capture_bytes opts, room)) (concat (map pass_frames (take k (ri_passes inp)))) c'" and left: "file = capture_file c'"
    by blast
  then have "captured (op_capture_bytes opts) room (concat (map pass_frames (take k (ri_passes inp)))) c'" and l: "24 \<le> op_capture_bytes opts"
    by (simp_all add: recording_def)
  from captured_file [OF this(1)] length_pcap_image [OF l] k left show ?thesis
    by (metis length_take min.coboundedI1)
qed

text \<open>C17. Reading the capture back: when the disk has room for the byte limit, a PCAP reader finds exactly the frames
  received up to the first that would pass the limit, each with its time in seconds and microseconds, its
  size on the wire and its first 65535 bytes; and the run's counters are the number of frames and bytes in
  the file, whether the limit was reached, and the frames, bytes and truncations received.\<close>

theorem recorder_capture_readable:
  assumes "run_recorder line_size opts inp = Some (file, Some c, e)" and "capture_setup opts inp room" and "op_capture_bytes opts \<le> room"
  shows "\<exists>k f. k \<le> length (ri_passes inp) \<and> file = Some f \<and>
    (let fs = concat (map pass_frames (take k (ri_passes inp))); kept = fitting (op_capture_bytes opts - 24) fs; m = cp_metrics c in
      read_pcap (st_bytes f) = Some (map entry_of kept) \<and>
      rm_pcap_frames m = of_nat (length kept) \<and> rm_pcap_bytes m = of_nat (length (st_bytes f)) \<and>
      rm_pcap_limit_reached m = (kept \<noteq> fs) \<and> counts fs m)"
proof -
  from run_recorder_capture [OF assms(1,2)] obtain k c' where k: "k \<le> length (ri_passes inp)" and
    rec: "recording (Some (op_capture_bytes opts, room)) (concat (map pass_frames (take k (ri_passes inp)))) c'" and left: "file = capture_file c'"
    and counts: "counts (concat (map pass_frames (take k (ri_passes inp)))) (cp_metrics c)"
    and same: "rm_pcap_bytes (cp_metrics c) = rm_pcap_bytes (cp_metrics c')" "rm_pcap_frames (cp_metrics c) = rm_pcap_frames (cp_metrics c')"
      "rm_pcap_limit_reached (cp_metrics c) = rm_pcap_limit_reached (cp_metrics c')"
    by blast
  let ?fs = "concat (map pass_frames (take k (ri_passes inp)))"
  have cap: "captured (op_capture_bytes opts) room ?fs c'" and l: "24 \<le> op_capture_bytes opts"
    using rec by (simp_all add: recording_def)
  have room: "length (pcap_image (op_capture_bytes opts) ?fs) \<le> room"
    using length_pcap_image [OF l, of ?fs] assms(3) by simp
  obtain f where f: "file = Some f" "st_bytes f = pcap_image (op_capture_bytes opts) ?fs"
    using captured_file [OF cap] room left by auto
  from captured_room [OF cap room] same counts k f show ?thesis
    by (intro exI [of _ k] exI [of _ f]) (simp add: read_pcap_image Let_def)
qed

text \<open>A capture loop whose passes all run (before the deadline, without a terminal error) receives
  every frame offered to it: the counters of frames, bytes and truncations are those of all passes, with and
  without a capture.\<close>

lemma recorder_counts_all:
  assumes "recording target [] c" and "list_all sane_pass ps" and "list_all (live_pass deadline) ps"
  shows "counts (concat (map pass_frames ps)) (cp_metrics (fst (capture_loop line_size enabled deadline c next_report ps))) \<and>
    snd (capture_loop line_size enabled deadline c next_report ps) = None"
  using capture_loop_recording [OF assms(1,2), of line_size enabled deadline next_report] assms(3) by (auto simp: recording_def)

section \<open>Options\<close>

text \<open>The command line of given options, in the order of a list of flags.\<close>

definition flag_value :: "recorder_options \<Rightarrow> string \<Rightarrow> string" where
  "flag_value opts flag =
    (if flag = ''--interface'' then op_interface opts else if flag = ''--metrics'' then op_metrics_path opts
     else if flag = ''--pcap'' then the (op_pcap_path opts)
     else if flag = ''--duration-seconds'' then decimal (the (op_duration opts))
     else decimal (op_capture_bytes opts))"

definition flags_of :: "recorder_options \<Rightarrow> string list" where
  "flags_of opts = [''--interface'', ''--metrics''] @
     (if op_pcap_path opts = None then [] else [''--pcap'', ''--duration-seconds'', ''--capture-bytes''])"

definition command_line :: "recorder_options \<Rightarrow> string list \<Rightarrow> string list" where
  "command_line opts flags = concat (map (\<lambda>flag. [flag, flag_value opts flag]) flags)"

definition valid_options :: "recorder_options \<Rightarrow> bool" where
  "valid_options opts \<longleftrightarrow> op_interface opts \<noteq> [] \<and> length (op_interface opts) \<le> 15 \<and> op_metrics_path opts \<noteq> [] \<and>
     (case op_pcap_path opts of
        None \<Rightarrow> op_duration opts = None \<and> op_capture_bytes opts = maximum_capture_bytes
      | Some path \<Rightarrow> path \<noteq> [] \<and> (case op_duration opts of None \<Rightarrow> False | Some d \<Rightarrow> 1 \<le> d \<and> d \<le> 60) \<and>
          40 \<le> op_capture_bytes opts \<and> op_capture_bytes opts \<le> 67108864)"

text \<open>The parser's state after the flags \<open>S\<close> of the options' command line.\<close>

definition seen :: "recorder_options \<Rightarrow> string set \<Rightarrow> parse_state" where
  "seen opts S =
    (\<lparr>op_interface = (if ''--interface'' \<in> S then op_interface opts else []),
      op_metrics_path = (if ''--metrics'' \<in> S then op_metrics_path opts else []),
      op_pcap_path = (if ''--pcap'' \<in> S then op_pcap_path opts else None),
      op_duration = (if ''--duration-seconds'' \<in> S then op_duration opts else None),
      op_capture_bytes = (if ''--capture-bytes'' \<in> S then op_capture_bytes opts else maximum_capture_bytes)\<rparr>,
     ''--duration-seconds'' \<in> S, ''--capture-bytes'' \<in> S)"

lemma parse_number_decimal:
  "lo \<le> n \<Longrightarrow> n \<le> hi \<Longrightarrow> n < 2 ^ 64 \<Longrightarrow> parse_number (decimal n) lo hi name = Inr n"
  by (simp add: parse_number_def from_chars_decimal)

lemma flags_cases: "flag \<in> set (flags_of opts) \<Longrightarrow>
   flag = ''--interface'' \<or> flag = ''--metrics'' \<or> op_pcap_path opts \<noteq> None \<and>
     (flag = ''--pcap'' \<or> flag = ''--duration-seconds'' \<or> flag = ''--capture-bytes'')"
  unfolding flags_of_def by (simp split: if_splits)

lemma parse_interface: "''--interface'' \<notin> S \<Longrightarrow>
  parse_argument (seen opts S) ''--interface'' (flag_value opts ''--interface'') = Inr (seen opts (insert ''--interface'' S))"
  by (simp add: seen_def flag_value_def)

lemma parse_metrics: "''--metrics'' \<notin> S \<Longrightarrow>
  parse_argument (seen opts S) ''--metrics'' (flag_value opts ''--metrics'') = Inr (seen opts (insert ''--metrics'' S))"
  by (simp add: seen_def flag_value_def)

lemma parse_pcap: "''--pcap'' \<notin> S \<Longrightarrow> op_pcap_path opts \<noteq> None \<Longrightarrow>
  parse_argument (seen opts S) ''--pcap'' (flag_value opts ''--pcap'') = Inr (seen opts (insert ''--pcap'' S))"
  by (simp add: seen_def flag_value_def)

lemma parse_duration: "''--duration-seconds'' \<notin> S \<Longrightarrow> op_duration opts = Some d \<Longrightarrow> 1 \<le> d \<Longrightarrow> d \<le> 60 \<Longrightarrow>
  parse_argument (seen opts S) ''--duration-seconds'' (flag_value opts ''--duration-seconds'') =
    Inr (seen opts (insert ''--duration-seconds'' S))"
  by (simp add: seen_def flag_value_def parse_number_decimal maximum_duration_def)

lemma parse_capture_bytes: "''--capture-bytes'' \<notin> S \<Longrightarrow> 40 \<le> op_capture_bytes opts \<Longrightarrow> op_capture_bytes opts \<le> 67108864 \<Longrightarrow>
  parse_argument (seen opts S) ''--capture-bytes'' (flag_value opts ''--capture-bytes'') =
    Inr (seen opts (insert ''--capture-bytes'' S))"
  by (simp add: seen_def flag_value_def parse_number_decimal pcap_header_bytes_def pcap_record_header_bytes_def maximum_capture_bytes_def)

lemma parse_flag:
  assumes "valid_options opts" and "flag \<in> set (flags_of opts)" and "flag \<notin> S"
  shows "parse_argument (seen opts S) flag (flag_value opts flag) = Inr (seen opts (insert flag S))"
proof -
  have pcap: "(\<exists>d. op_duration opts = Some d \<and> 1 \<le> d \<and> d \<le> 60) \<and> 40 \<le> op_capture_bytes opts \<and> op_capture_bytes opts \<le> 67108864"
    if "op_pcap_path opts \<noteq> None"
    using that assms(1) unfolding valid_options_def by (auto split: option.splits)
  from flags_cases [OF assms(2)] show ?thesis
  proof (elim disjE conjE)
    assume flag: "flag = ''--interface''"
    show ?thesis unfolding flag by (rule parse_interface [OF assms(3) [unfolded flag]])
  next
    assume flag: "flag = ''--metrics''"
    show ?thesis unfolding flag by (rule parse_metrics [OF assms(3) [unfolded flag]])
  next
    assume flag: "flag = ''--pcap''" and some: "op_pcap_path opts \<noteq> None"
    show ?thesis unfolding flag by (rule parse_pcap [OF assms(3) [unfolded flag] some])
  next
    assume flag: "flag = ''--duration-seconds''" and some: "op_pcap_path opts \<noteq> None"
    from pcap [OF some] obtain d where d: "op_duration opts = Some d" "1 \<le> d" "d \<le> 60" by blast
    show ?thesis unfolding flag by (rule parse_duration [OF assms(3) [unfolded flag] d])
  next
    assume flag: "flag = ''--capture-bytes''" and some: "op_pcap_path opts \<noteq> None"
    from pcap [OF some] have n: "40 \<le> op_capture_bytes opts" "op_capture_bytes opts \<le> 67108864" by simp_all
    show ?thesis unfolding flag by (rule parse_capture_bytes [OF assms(3) [unfolded flag] n])
  qed
qed

lemma parse_flags:
  "valid_options opts \<Longrightarrow> distinct flags \<Longrightarrow> set flags \<subseteq> set (flags_of opts) \<Longrightarrow> S \<inter> set flags = {} \<Longrightarrow>
   parse_arguments (seen opts S) (command_line opts flags) = Inr (seen opts (S \<union> set flags))"
proof (induction flags arbitrary: S)
  case Nil
  then show ?case by (simp add: command_line_def)
next
  case (Cons flag flags)
  have "parse_argument (seen opts S) flag (flag_value opts flag) = Inr (seen opts (insert flag S))"
    by (rule parse_flag) (use Cons.prems in auto)
  with Cons.IH [of "insert flag S"] Cons.prems show ?case
    by (simp add: command_line_def del: parse_argument.simps)
qed

text \<open>Every valid set of options (an interface name of at most 15 characters, a metrics path, and with a
  capture a duration of 1 to 60 seconds and a limit of 40 bytes to 64 MiB) is what its command line parses to,
  with the flags in any order.\<close>

lemma recorder_options_roundtrip:
  assumes "valid_options opts" and "distinct flags" and "set flags = set (flags_of opts)"
  shows "parse_options (command_line opts flags) = Inr opts"
proof -
  have start: "(no_options, False, False) = seen opts {}"
    by (simp add: seen_def no_options_def)
  have parsed: "parse_arguments (no_options, False, False) (command_line opts flags) = Inr (seen opts (set (flags_of opts)))"
    unfolding start using parse_flags [OF assms(1,2), of "{}"] assms(3) by simp
  have whole: "seen opts (set (flags_of opts)) = (opts, op_pcap_path opts \<noteq> None, op_pcap_path opts \<noteq> None)"
    using assms(1) by (cases opts) (auto simp: seen_def flags_of_def valid_options_def split: option.splits)
  show ?thesis
    using assms(1) unfolding parse_options_def parsed whole by (auto simp: valid_options_def split: option.splits)
qed

text \<open>The parser's invariant.\<close>

definition parsing :: "parse_state \<Rightarrow> bool" where
  "parsing s \<longleftrightarrow> (case s of (opts, duration_seen, capture_bytes_seen) \<Rightarrow>
     (case op_duration opts of None \<Rightarrow> \<not> duration_seen | Some d \<Rightarrow> duration_seen \<and> 1 \<le> d \<and> d \<le> 60) \<and>
     40 \<le> op_capture_bytes opts \<and> op_capture_bytes opts \<le> 67108864 \<and>
     (\<not> capture_bytes_seen \<longrightarrow> op_capture_bytes opts = maximum_capture_bytes))"

lemma parse_number_range: "parse_number text lo hi name = Inr n \<Longrightarrow> lo \<le> n \<and> n \<le> hi"
  by (auto simp: parse_number_def split: option.splits if_splits)

lemma parse_argument_parsing: "parse_argument s a t = Inr s' \<Longrightarrow> parsing s \<Longrightarrow> parsing s'"
  by (cases s) (auto simp: parsing_def ebind_eq_Inr pcap_header_bytes_def pcap_record_header_bytes_def maximum_capture_bytes_def
      maximum_duration_def dest!: parse_number_range split: if_splits)

lemma parse_arguments_parsing: "parse_arguments s args = Inr s' \<Longrightarrow> parsing s \<Longrightarrow> parsing s'"
proof (induction s args rule: parse_arguments.induct)
  case (3 s argument t\<^sub>1 rest)
  then obtain t where t: "parse_argument s argument t\<^sub>1 = Inr t" "parse_arguments t rest = Inr s'"
    by (auto simp: ebind_eq_Inr simp del: parse_argument.simps)
  with "3.IH" parse_argument_parsing [OF t(1) "3.prems"(2)] show ?case by blast
qed auto

text \<open>Whatever the command line, the options that are accepted are valid: in particular the
  capture is bounded in time and size whenever there is one, and its limits are the defaults when there is none.\<close>

lemma recorder_options_valid:
  assumes "parse_options args = Inr opts"
  shows "valid_options opts"
proof -
  obtain o\<^sub>1 d c where p: "parse_arguments (no_options, False, False) args = Inr (o\<^sub>1, d, c)"
    using assms by (auto simp: parse_options_def ebind_eq_Inr)
  have "parsing (no_options, False, False)"
    by (simp add: parsing_def no_options_def maximum_capture_bytes_def)
  from parse_arguments_parsing [OF p this] assms p show ?thesis
    by (auto simp: parse_options_def parsing_def valid_options_def maximum_duration_def split: if_splits option.splits)
qed

section \<open>Examples\<close>

definition example_options :: recorder_options where
  "example_options = \<lparr>op_interface = ''eth1'', op_metrics_path = ''m.json'', op_pcap_path = Some ''c.pcap'',
     op_duration = Some 5, op_capture_bytes = 64\<rparr>"

definition example_pass :: pass where
  "example_pass = \<lparr>ps_running = True, ps_now = 0, ps_report = (0, 0, 0),
     ps_poll = Poll_readable [Received [1, 2, 3] 7 1500000000, Interrupted, Received [4, 5] 8 (-1), Received [6, 7, 8, 9] 9 2, Would_block],
     ps_after = 0, ps_statistics = Some (4, 1), ps_metrics_written = Inr ()\<rparr>"

definition example_inputs :: "nat \<Rightarrow> recorder_inputs" where
  "example_inputs room = \<lparr>ri_begin = 0, ri_rounds = [(Some False, 1), (Some True, 2)], ri_socket = Inr (), ri_directories = Inr (),
     ri_opened = Some \<lparr>st_bytes = [], st_room = room\<rparr>, ri_started = 0, ri_telemetry = Inr (new_reporter 5000 0 0),
     ri_passes = [example_pass], ri_statistics = None, ri_flushed = True, ri_clock = (1, 1, 1), ri_written = Inr ()\<rparr>"

definition example_run :: "nat \<Rightarrow> (stream option \<times> capture option \<times> exn option) option" where
  "example_run room = run_recorder (\<lambda>_. 0) example_options (example_inputs room)"

lemma example_setup: "capture_setup example_options (example_inputs room) room"
  by (simp add: capture_setup_def example_options_def example_inputs_def sane_pass_def example_pass_def maximum_capture_bytes_def)

lemma run_recorder_reaches:
  assumes "wait_interface (ri_begin inp + millis 30000) (ri_rounds inp) = Some (Inr ())" and "ri_socket inp = Inr ()"
    and "make_pcap opts inp = (left, Inr pcap)" and "ri_telemetry inp = Inr t"
  shows "\<exists>left c e. run_recorder line_size opts inp = Some (left, Some c, e)"
  using assms by (auto simp: run_recorder_def Let_def split: prod.splits option.splits)

lemma example_run_ends:
  assumes "24 \<le> room"
  obtains left c e where "example_run room = Some (left, Some c, e)"
proof -
  have "make_pcap example_options (example_inputs room) =
      (Some \<lparr>st_bytes = pcap_header, st_room = room - 24\<rparr>, Inr (Some \<lparr>pw_file = \<lparr>st_bytes = pcap_header, st_room = room - 24\<rparr>,
        pw_limit = 64, pw_bytes = 24, pw_limit_reached = False\<rparr>))"
    using assms new_pcap_stream [of "\<lparr>st_bytes = [], st_room = room\<rparr>" 64]
    by (simp add: make_pcap_def example_options_def example_inputs_def)
  from run_recorder_reaches [OF _ _ this, of "new_reporter 5000 0 0" "\<lambda>_. 0"] that show thesis
    by (auto simp: example_inputs_def millis_def example_run_def)
qed

theorem recorder_capture_file_witness:
  "case example_run 50 of Some (file, Some c, e) \<Rightarrow>
     (\<exists>k f. k \<le> length (ri_passes (example_inputs 50)) \<and> file = Some f \<and>
       st_bytes f = take 50 (pcap_image (op_capture_bytes example_options) (concat (map pass_frames (take k (ri_passes (example_inputs 50)))))) \<and>
       length (st_bytes f) \<le> op_capture_bytes example_options) | _ \<Rightarrow> False"
proof -
  obtain left c e where run: "example_run 50 = Some (left, Some c, e)" by (rule example_run_ends [of 50]) simp
  from recorder_capture_file [OF run [unfolded example_run_def] example_setup] show ?thesis unfolding run by simp
qed

theorem recorder_capture_readable_witness:
  "case example_run 100 of Some (file, Some c, e) \<Rightarrow>
     (\<exists>k f. k \<le> length (ri_passes (example_inputs 100)) \<and> file = Some f \<and>
       read_pcap (st_bytes f) = Some (map entry_of (fitting (op_capture_bytes example_options - 24)
         (concat (map pass_frames (take k (ri_passes (example_inputs 100)))))))) | _ \<Rightarrow> False"
proof -
  obtain left c e where run: "example_run 100 = Some (left, Some c, e)" by (rule example_run_ends [of 100]) simp
  have "op_capture_bytes example_options \<le> 100" by (simp add: example_options_def)
  from recorder_capture_readable [OF run [unfolded example_run_def] example_setup this] show ?thesis
    unfolding run by (auto simp: Let_def)
qed

end
