(* ===== verification/MetricsFile.thy ===== *)
theory MetricsFile
  imports Recorder Json
begin

text \<open>
  The metrics document of the recorder and the file it is kept in (\<open>metrics_json\<close> and
  \<open>write_metrics\<close> of \<open>src/recorder.cpp\<close>): the document is written to a temporary file, which then
  replaces the metrics file. The printing of a JSON value is a parameter.
\<close>

section \<open>The document\<close>

definition socket_receive_bytes :: nat where
  "socket_receive_bytes = 4 * 1024 * 1024"

definition recorder_metrics_json ::
  "recorder_options \<Rightarrow> recorder_metrics \<Rightarrow> int \<Rightarrow> nanos \<Rightarrow> string \<Rightarrow> 'f json_value" where
  "recorder_metrics_json options m uptime_ms wall status = J_object
     [(''schema'', J_signed 1), (''role'', J_string ''recorder''), (''status'', J_string status), (''passive'', J_bool True),
      (''interface'', J_string (op_interface options)), (''observation_clock'', J_string ''unix''),
      (''observed_unix_ns'', J_signed wall), (''uptime_ms'', J_signed uptime_ms),
      (''limits'', J_object [(''duration_seconds'', case op_duration options of Some d \<Rightarrow> J_signed (int d) | None \<Rightarrow> J_null),
         (''receive_buffer_bytes'', J_unsigned receive_buffer_bytes), (''socket_receive_bytes'', J_signed (int socket_receive_bytes)),
         (''capture_bytes'', case op_pcap_path options of Some _ \<Rightarrow> J_unsigned (op_capture_bytes options) | None \<Rightarrow> J_null)]),
      (''receive'', J_object [(''frames'', J_unsigned (unat (rm_frames m))), (''wire_bytes'', J_unsigned (unat (rm_wire_bytes m))),
         (''truncations'', J_unsigned (unat (rm_receive_truncations m))), (''errors'', J_unsigned (unat (rm_receive_errors m))),
         (''kernel_packets'', J_unsigned (unat (rm_kernel_packets m))), (''kernel_drops'', J_unsigned (unat (rm_kernel_drops m)))]),
      (''pcap'', J_object [(''enabled'', J_bool (op_pcap_path options \<noteq> None)), (''frames'', J_unsigned (unat (rm_pcap_frames m))),
         (''bytes'', J_unsigned (unat (rm_pcap_bytes m))), (''limit_reached'', J_bool (rm_pcap_limit_reached m)),
         (''io_errors'', J_unsigned (unat (rm_pcap_io_errors m)))])]"

section \<open>Writing it\<close>

type_synonym files = "string \<Rightarrow> string option"

text \<open>
  The outcomes of the calls: the directories, the opening of the temporary file, the lengths the
  stream had flushed while the document was written, whether the stream is good after \<open>close\<close>, and the rename.
\<close>

record write_outcomes =
  wo_directories :: bool
  wo_opens :: bool
  wo_flushed :: "nat list"
  wo_good :: bool
  wo_renames :: bool

text \<open>
  \<open>write_metrics\<close>: every state the files go through, the last one being the one it leaves (none when
  it changes nothing), and how it ends.
\<close>

definition write_metrics :: "string \<Rightarrow> string \<Rightarrow> write_outcomes \<Rightarrow> files \<Rightarrow> files list \<times> unit result" where
  "write_metrics path document o' files =
    (let temporary = path @ ''.tmp''; line = document @ [CHR 0x0A];
         opened = files(temporary \<mapsto> '''');
         written = opened # map (\<lambda>n. opened(temporary \<mapsto> take n line)) (wo_flushed o');
         closed = opened(temporary \<mapsto> line)
     in if \<not> wo_directories o' then ([], Inl library_exception)
        else if \<not> wo_opens o' then ([], Inl (Runtime_error ''cannot open recorder metrics file''))
        else if \<not> wo_good o' then (written, Inl (Runtime_error ''cannot write recorder metrics file''))
        else if \<not> wo_renames o' then (written @ [closed], Inl library_exception)
        else (written @ [closed, (closed(path \<mapsto> line))(temporary := None)], Inr ()))"

text \<open>A recorder that writes its documents one after the other, whatever becomes of each.\<close>

fun write_all_metrics :: "string \<Rightarrow> (string \<times> write_outcomes) list \<Rightarrow> files \<Rightarrow> files list" where
  "write_all_metrics path [] files = [files]"
| "write_all_metrics path ((document, o') # ws) files =
    (case write_metrics path document o' files of (states, _) \<Rightarrow>
       (files # states) @ write_all_metrics path ws (last (files # states)))"

section \<open>The metrics file is always whole\<close>

definition completes :: "write_outcomes \<Rightarrow> bool" where
  "completes o' \<longleftrightarrow> wo_directories o' \<and> wo_opens o' \<and> wo_good o' \<and> wo_renames o'"

lemma temporary_other: "path @ ''.tmp'' \<noteq> path"
  by simp

lemma write_metrics_states:
  assumes "write_metrics path document o' files = (states, r)"
  shows "(\<forall>s \<in> set states. s path = files path \<or> s path = Some (document @ [CHR 0x0A])) \<and>
    last (files # states) path = (if completes o' then Some (document @ [CHR 0x0A]) else files path) \<and>
    (\<forall>s \<in> set states. \<forall>p. p \<noteq> path \<and> p \<noteq> path @ ''.tmp'' \<longrightarrow> s p = files p) \<and> (r = Inr () \<longleftrightarrow> completes o')"
  using assms by (auto simp: write_metrics_def Let_def completes_def last_map split: if_splits)

lemma write_all_metrics_states:
  "s \<in> set (write_all_metrics path ws files) \<Longrightarrow>
   s path = files path \<or> (\<exists>(document, o') \<in> set ws. s path = Some (document @ [CHR 0x0A]))"
proof (induction ws arbitrary: files)
  case (Cons w ws)
  obtain document o' where w: "w = (document, o')" by fastforce
  obtain states r where st: "write_metrics path document o' files = (states, r)" by fastforce
  note one = write_metrics_states [OF st]
  from Cons.prems consider "s = files" | "s \<in> set states" | "s \<in> set (write_all_metrics path ws (last (files # states)))"
    by (auto simp: w st)
  then show ?case
  proof cases
    case 3
    from Cons.IH [OF 3] one show ?thesis by (auto simp: w split: if_splits)
  qed (use one in \<open>auto simp: w\<close>)
qed simp

lemma write_all_metrics_nonempty [simp]: "write_all_metrics path ws files \<noteq> []"
  by (cases "(path, ws, files)" rule: write_all_metrics.cases) (auto split: prod.splits)

definition documents_written :: "(string \<times> write_outcomes) list \<Rightarrow> string list" where
  "documents_written ws = map (\<lambda>(document, o'). document @ [CHR 0x0A]) (filter (\<lambda>(document, o'). completes o') ws)"

lemma write_all_metrics_last:
  "last (write_all_metrics path ws files) path = last (files path # map Some (documents_written ws))"
proof (induction ws arbitrary: files)
  case Nil
  then show ?case by (simp add: documents_written_def)
next
  case (Cons w ws)
  obtain document o' where w: "w = (document, o')" by fastforce
  obtain states r where st: "write_metrics path document o' files = (states, r)" by fastforce
  note one = write_metrics_states [OF st, THEN conjunct2, THEN conjunct1]
  have "last (write_all_metrics path (w # ws) files) = last (write_all_metrics path ws (last (files # states)))"
    by (simp add: w st)
  with Cons.IH [of "last (files # states)"] one show ?case by (auto simp: documents_written_def w)
qed

text \<open>C30. The metrics file is replaced as a whole: in every state the files go through, so also when the
  recorder dies in the middle of a write, the file has what it had before the first write or one whole
  document, never a part of one; and in the end it has the last document whose write went through, however
  the other writes failed.\<close>

theorem metrics_file_whole:
  "(\<forall>s \<in> set (write_all_metrics path ws files).
      s path = files path \<or> (\<exists>(document, o') \<in> set ws. s path = Some (document @ [CHR 0x0A]))) \<and>
   last (write_all_metrics path ws files) path = last (files path # map Some (documents_written ws))"
  using write_all_metrics_states write_all_metrics_last by blast

theorem metrics_file_whole_witness:
  "\<exists>s \<in> set (write_all_metrics ''m'' [(''{}'', \<lparr>wo_directories = True, wo_opens = True, wo_flushed = [1], wo_good = True, wo_renames = True\<rparr>)] (\<lambda>_. None)).
     s ''m'' = None \<and> s ''m.tmp'' = Some ''{''"
  using metrics_file_whole [of "''m''" "[(''{}'', \<lparr>wo_directories = True, wo_opens = True, wo_flushed = [1], wo_good = True, wo_renames = True\<rparr>)]" "\<lambda>_. None"]
  by (simp add: write_metrics_def Let_def)

end
