(* ===== verification/Sockets.thy ===== *)
theory Sockets
  imports Slots
begin

text \<open>
  How the programs open their sockets: the datagram sockets of the processor and the detector
  (\<open>src/apps/udp_pipeline.cpp\<close>), the listener and the data socket of the radio's transport
  (\<open>src/radio_transport.cpp\<close>), its status listener (\<open>src/apps/radio.cpp\<close>), the controller's
  connections (\<open>src/processor_controller.cpp\<close>) and the recorder's packet socket
  (\<open>src/apps/recorder.cpp\<close>). The answers of the system calls are inputs; the state is the set of open
  descriptors, which the classes \<open>Descriptor\<close>, \<open>Socket\<close> and \<open>PacketSocket\<close> close when they are destroyed.
\<close>

type_synonym descriptors = "nat set"

text \<open>
  What the calls answer. \<open>so_descriptor\<close> is None when \<open>socket\<close> fails; \<open>so_address\<close> is the outcome of
  \<open>inet_pton\<close> (of \<open>if_nametoindex\<close> for the recorder), \<open>so_rounds\<close> the outcomes of the calls of \<open>bind\<close> with
  the clock reading after each.
\<close>

datatype bind_outcome = Bound | Address_unavailable | Bind_failed

record socket_io =
  so_lookup :: bool
  so_descriptor :: "nat option"
  so_option :: bool
  so_address :: bool
  so_rounds :: "(bind_outcome \<times> nanos) list"
  so_listen :: bool
  so_connect :: bool
  so_nonblocking :: bool

definition bound_first :: "socket_io \<Rightarrow> bool" where
  "bound_first io \<longleftrightarrow> (case so_rounds io of (Bound, _) # _ \<Rightarrow> True | _ \<Rightarrow> False)"

text \<open>A descriptor object goes out of scope on an error, or is returned.\<close>

definition keep_or_close :: "bool \<Rightarrow> 'e \<Rightarrow> nat \<Rightarrow> descriptors \<Rightarrow> ('e + nat) \<times> descriptors" where
  "keep_or_close ok e fd os = (if ok then (Inr fd, insert fd os) else (Inl e, insert fd os - {fd}))"

section \<open>Opening\<close>

definition bind_udp :: "socket_io \<Rightarrow> descriptors \<Rightarrow> nat result \<times> descriptors" where
  "bind_udp io os =
    (if \<not> so_lookup io then (Inl (Runtime_error ''address lookup failed''), os)
     else case so_descriptor io of
       None \<Rightarrow> (Inl (Runtime_error ''cannot create UDP socket''), os)
     | Some fd \<Rightarrow>
        keep_or_close (so_option io \<and> bound_first io \<and> so_nonblocking io) (Runtime_error ''cannot bind UDP socket'') fd os)"

text \<open>
  The loop that waits for the source address: None while the outcomes given are not enough, the
  flag says whether the socket was bound. A round that retries sleeps for 100 ms.
\<close>

fun bind_source :: "nanos \<Rightarrow> (bind_outcome \<times> nanos) list \<Rightarrow> bool option" where
  "bind_source deadline [] = None"
| "bind_source deadline ((Bound, now) # rounds) = Some True"
| "bind_source deadline ((Bind_failed, now) # rounds) = Some False"
| "bind_source deadline ((Address_unavailable, now) # rounds) =
    (if now \<ge> deadline then Some False else bind_source deadline rounds)"

definition connect_udp :: "socket_io \<Rightarrow> nanos \<Rightarrow> descriptors \<Rightarrow> (nat result \<times> descriptors) option" where
  "connect_udp io started os =
    (if \<not> so_lookup io then Some (Inl (Runtime_error ''address lookup failed''), os)
     else case so_descriptor io of
       None \<Rightarrow> Some (Inl (Invalid_argument ''invalid UDP source address''), os)
     | Some fd \<Rightarrow>
        if \<not> so_address io then Some (keep_or_close False (Invalid_argument ''invalid UDP source address'') fd os)
        else (case bind_source (started + millis 30000) (so_rounds io) of
            None \<Rightarrow> None
          | Some False \<Rightarrow> Some (keep_or_close False (Runtime_error ''cannot bind UDP source'') fd os)
          | Some True \<Rightarrow> Some (keep_or_close (so_connect io) (Runtime_error ''cannot connect UDP socket'') fd os)))"

definition control_listener :: "socket_io \<Rightarrow> descriptors \<Rightarrow> (vita_error + nat) \<times> descriptors" where
  "control_listener io os =
    (if \<not> so_lookup io then (Inl Invalid_parameter, os)
     else case so_descriptor io of
       None \<Rightarrow> (Inl Invalid_state, os)
     | Some fd \<Rightarrow> keep_or_close (so_option io \<and> bound_first io \<and> so_listen io \<and> so_nonblocking io) Invalid_state fd os)"

definition udp_destination :: "socket_io \<Rightarrow> nanos \<Rightarrow> descriptors \<Rightarrow> ((vita_error + nat) \<times> descriptors) option" where
  "udp_destination io started os =
    (if \<not> so_lookup io then Some (Inl Invalid_parameter, os)
     else case so_descriptor io of
       None \<Rightarrow> Some (Inl Invalid_parameter, os)
     | Some fd \<Rightarrow>
        if \<not> so_address io then Some (keep_or_close False Invalid_parameter fd os)
        else (case bind_source (started + millis 30000) (so_rounds io) of
            None \<Rightarrow> None
          | Some False \<Rightarrow> Some (keep_or_close False Invalid_state fd os)
          | Some True \<Rightarrow> Some (keep_or_close (so_connect io \<and> so_nonblocking io) Invalid_state fd os)))"

text \<open>
  The sockets of the radio's transport: both are tried, in this order, and the one that was opened
  goes out of scope when the other was not.
\<close>

definition transport_sockets ::
  "socket_io \<Rightarrow> socket_io \<Rightarrow> nanos \<Rightarrow> descriptors \<Rightarrow> ((vita_error + nat \<times> nat) \<times> descriptors) option" where
  "transport_sockets listen_io data_io started os =
    (case control_listener listen_io os of (listen_socket, os) \<Rightarrow>
      (case udp_destination data_io started os of
         None \<Rightarrow> None
       | Some (data_socket, os) \<Rightarrow>
          Some (case (listen_socket, data_socket) of
              (Inl e, Inl _) \<Rightarrow> (Inl e, os)
            | (Inl e, Inr data) \<Rightarrow> (Inl e, os - {data})
            | (Inr l, Inl e) \<Rightarrow> (Inl e, os - {l})
            | (Inr l, Inr data) \<Rightarrow> (Inr (l, data), os))))"

definition tcp_listener :: "socket_io \<Rightarrow> descriptors \<Rightarrow> nat result \<times> descriptors" where
  "tcp_listener io os =
    (if \<not> so_lookup io then (Inl (Runtime_error ''status address lookup failed''), os)
     else case so_descriptor io of
       None \<Rightarrow> (Inl (Runtime_error ''cannot bind status listener''), os)
     | Some fd \<Rightarrow>
        keep_or_close (so_option io \<and> bound_first io \<and> so_listen io \<and> so_nonblocking io)
          (Runtime_error ''cannot bind status listener'') fd os)"

text \<open>
  The controller's connection: connected at once, or in progress and then writable before the
  deadline without an error. The result is an empty descriptor on failure.
\<close>

datatype connect_outcome = Connected | In_progress bool bool | Connect_failed

definition connect_blocking :: "socket_io \<Rightarrow> connect_outcome \<Rightarrow> descriptors \<Rightarrow> (unit + nat) \<times> descriptors" where
  "connect_blocking io outcome os =
    (if \<not> so_lookup io then (Inl (), os)
     else case so_descriptor io of
       None \<Rightarrow> (Inl (), os)
     | Some fd \<Rightarrow>
        if \<not> so_nonblocking io then keep_or_close False () fd os
        else (case outcome of
            Connected \<Rightarrow> keep_or_close True () fd os
          | Connect_failed \<Rightarrow> keep_or_close False () fd os
          | In_progress writable no_error \<Rightarrow>
             if \<not> writable then keep_or_close False () fd os else keep_or_close no_error () fd os))"

text \<open>The constructor of \<open>PacketSocket\<close>, whose \<open>fail\<close> closes the descriptor before it throws.\<close>

definition packet_socket :: "socket_io \<Rightarrow> descriptors \<Rightarrow> nat result \<times> descriptors" where
  "packet_socket io os =
    (if \<not> so_address io then (Inl (Runtime_error ''capture interface not found''), os)
     else case so_descriptor io of
       None \<Rightarrow> (Inl (Runtime_error ''cannot create packet socket''), os)
     | Some fd \<Rightarrow>
        if \<not> so_option io then keep_or_close False (Runtime_error ''cannot set packet socket receive bound'') fd os
        else keep_or_close (bound_first io) (Runtime_error ''cannot bind packet socket'') fd os)"

section \<open>No descriptor is lost\<close>

text \<open>
  The contract the callers rely on: an attempt that fails leaves the open descriptors as they were,
  one that succeeds adds the descriptor it returns, which was not open before. A caller that keeps
  what it gets then knows every open descriptor, over any sequence of attempts.
\<close>

locale socket_opener =
  fixes attempt :: "'i \<Rightarrow> descriptors \<Rightarrow> ('e + nat) \<times> descriptors"
    and fresh :: "'i \<Rightarrow> descriptors \<Rightarrow> bool"
  assumes failed: "fresh io os \<Longrightarrow> attempt io os = (Inl e, os') \<Longrightarrow> os' = os"
    and opened: "fresh io os \<Longrightarrow> attempt io os = (Inr fd, os') \<Longrightarrow> fd \<notin> os \<and> os' = insert fd os"
begin

fun attempts :: "'i list \<Rightarrow> descriptors \<Rightarrow> nat list \<times> descriptors" where
  "attempts [] os = ([], os)"
| "attempts (io # ios) os =
    (case attempt io os of
       (Inl e, os') \<Rightarrow> attempts ios os'
     | (Inr fd, os') \<Rightarrow> (case attempts ios os' of (fds, os'') \<Rightarrow> (fd # fds, os'')))"

fun all_fresh :: "'i list \<Rightarrow> descriptors \<Rightarrow> bool" where
  "all_fresh [] os \<longleftrightarrow> True"
| "all_fresh (io # ios) os \<longleftrightarrow> fresh io os \<and> all_fresh ios (snd (attempt io os))"

lemma attempts_known:
  "all_fresh ios os \<Longrightarrow> attempts ios os = (fds, os') \<Longrightarrow> os' = os \<union> set fds \<and> distinct fds \<and> set fds \<inter> os = {}"
proof (induction ios arbitrary: os fds)
  case (Cons io ios)
  obtain r os1 where r: "attempt io os = (r, os1)" by fastforce
  show ?case
  proof (cases r)
    case (Inl e)
    with Cons.prems r failed [of io os e os1] have "all_fresh ios os" "attempts ios os = (fds, os')" by auto
    then show ?thesis by (rule Cons.IH)
  next
    case (Inr fd)
    then have fd: "fd \<notin> os" "os1 = insert fd os" using Cons.prems(1) r opened [of io os fd os1] by simp_all
    obtain fds' where f: "attempts ios os1 = (fds', os')" "fds = fd # fds'"
      using Cons.prems(2) r Inr by (auto split: prod.splits)
    from Cons.IH [OF _ f(1)] Cons.prems(1) r fd f(2) show ?thesis by auto
  qed
qed simp

end

definition fresh_descriptor :: "socket_io \<Rightarrow> descriptors \<Rightarrow> bool" where
  "fresh_descriptor io os \<longleftrightarrow> (\<forall>fd. so_descriptor io = Some fd \<longrightarrow> fd \<notin> os)"

lemmas opener_defs = fresh_descriptor_def keep_or_close_def bind_udp_def connect_udp_def control_listener_def udp_destination_def
  tcp_listener_def connect_blocking_def packet_socket_def

interpretation udp_bound: socket_opener bind_udp fresh_descriptor
  by unfold_locales (auto simp: opener_defs split: if_splits option.splits)

interpretation listening: socket_opener control_listener fresh_descriptor
  by unfold_locales (auto simp: opener_defs split: if_splits option.splits)

interpretation status_listening: socket_opener tcp_listener fresh_descriptor
  by unfold_locales (auto simp: opener_defs split: if_splits option.splits)

interpretation packets: socket_opener packet_socket fresh_descriptor
  by unfold_locales (auto simp: opener_defs split: if_splits option.splits)

interpretation connecting: socket_opener "\<lambda>(io, outcome). connect_blocking io outcome" "\<lambda>(io, outcome). fresh_descriptor io"
  by unfold_locales (auto simp: opener_defs split: if_splits option.splits connect_outcome.splits)

section \<open>Waiting for the source address\<close>

text \<open>Rounds whose clock readings are at least 100 ms apart, as the sleep between them makes them.\<close>

definition spaced :: "nanos \<Rightarrow> (bind_outcome \<times> nanos) list \<Rightarrow> bool" where
  "spaced started rounds \<longleftrightarrow> (\<forall>i < length rounds. started + int i * millis 100 \<le> snd (rounds ! i))"

lemma bind_source_returns:
  "spaced started rounds \<Longrightarrow> deadline - started \<le> (int (length rounds) - 1) * millis 100 \<Longrightarrow> rounds \<noteq> [] \<Longrightarrow>
   bind_source deadline rounds \<noteq> None"
proof (induction rounds arbitrary: started)
  case (Cons r rounds)
  obtain outcome now where r: "r = (outcome, now)" by fastforce
  show ?case
  proof (cases "outcome = Address_unavailable \<and> now < deadline")
    case True
    have s: "spaced (started + millis 100) rounds"
      unfolding spaced_def
    proof (intro allI impI)
      fix i assume "i < length rounds"
      then have "started + int (Suc i) * millis 100 \<le> snd ((r # rounds) ! Suc i)"
        using Cons.prems(1) unfolding spaced_def by (metis Suc_less_eq length_Cons)
      then show "started + millis 100 + int i * millis 100 \<le> snd (rounds ! i)" by (simp add: algebra_simps)
    qed
    have "started \<le> now" using Cons.prems(1) r by (auto simp: spaced_def)
    then have "rounds \<noteq> []" using True Cons.prems(2) by (auto simp: millis_def)
    with Cons.IH [OF s] Cons.prems(2) True r show ?thesis by (simp add: algebra_simps)
  qed (cases outcome; simp add: r)
qed simp

lemma source_bound:
  assumes "spaced started rounds" "300 < length rounds"
  obtains b where "bind_source (started + millis 30000) rounds = Some b"
proof -
  have "rounds \<noteq> []" using assms(2) by auto
  from bind_source_returns [OF assms(1) _ this, of "started + millis 30000"] assms(2) that show ?thesis
    by (auto simp: millis_def)
qed

lemma udp_destination_opens:
  assumes "fresh_descriptor io os" "spaced started (so_rounds io)" "300 < length (so_rounds io)"
  shows "\<exists>r os'. udp_destination io started os = Some (r, os') \<and>
    (case r of Inl e \<Rightarrow> os' = os | Inr fd \<Rightarrow> fd \<notin> os \<and> os' = insert fd os)"
proof -
  obtain b where "bind_source (started + millis 30000) (so_rounds io) = Some b" by (rule source_bound [OF assms(2,3)])
  with assms(1) show ?thesis by (cases b) (auto simp: opener_defs split: option.splits)
qed

lemma connect_udp_opens:
  assumes "fresh_descriptor io os" "spaced started (so_rounds io)" "300 < length (so_rounds io)"
  shows "\<exists>r os'. connect_udp io started os = Some (r, os') \<and>
    (case r of Inl e \<Rightarrow> os' = os | Inr fd \<Rightarrow> fd \<notin> os \<and> os' = insert fd os)"
proof -
  obtain b where "bind_source (started + millis 30000) (so_rounds io) = Some b" by (rule source_bound [OF assms(2,3)])
  with assms(1) show ?thesis by (cases b) (auto simp: opener_defs split: option.splits)
qed

text \<open>C31. Opening the radio's sockets returns, and no descriptor is lost: when the kernel hands out descriptors
  that are not open and the clock advances by the sleep of each round, the wait for the source
  address ends within 301 rounds; on an error every descriptor that was opened on the way is closed
  again, the other socket's included, and on success the two that are returned are the only new ones.\<close>

theorem transport_sockets_no_leak:
  assumes "fresh_descriptor listen_io os" and "fresh_descriptor data_io (snd (control_listener listen_io os))"
    and "spaced started (so_rounds data_io)" "300 < length (so_rounds data_io)"
  shows "\<exists>r os'. transport_sockets listen_io data_io started os = Some (r, os') \<and>
    (case r of Inl e \<Rightarrow> os' = os
     | Inr (l, d) \<Rightarrow> l \<notin> os \<and> d \<notin> os \<and> l \<noteq> d \<and> os' = os \<union> {l, d})"
proof -
  obtain lr os1 where l: "control_listener listen_io os = (lr, os1)" by fastforce
  then have f: "fresh_descriptor data_io os1" using assms(2) by simp
  obtain dr os2 where d: "udp_destination data_io started os1 = Some (dr, os2)"
      "case dr of Inl e \<Rightarrow> os2 = os1 | Inr fd \<Rightarrow> fd \<notin> os1 \<and> os2 = insert fd os1"
    using udp_destination_opens [OF f assms(3,4)] by blast
  have "case lr of Inl e \<Rightarrow> os1 = os | Inr fd \<Rightarrow> fd \<notin> os \<and> os1 = insert fd os"
    using listening.failed [OF assms(1)] listening.opened [OF assms(1)] l by (auto split: sum.splits)
  with l d show ?thesis by (cases lr; cases dr) (auto simp: transport_sockets_def)
qed

text \<open>
  The controller connects again and again: whatever the attempts come to, the open descriptors are the
  ones it had and the ones it was given, each once.
\<close>

lemma connections_known:
  "connecting.all_fresh ios os \<Longrightarrow> connecting.attempts ios os = (fds, os') \<Longrightarrow>
   os' = os \<union> set fds \<and> distinct fds \<and> set fds \<inter> os = {}"
  by (rule connecting.attempts_known)

definition example_socket :: "nat \<Rightarrow> socket_io" where
  "example_socket fd = \<lparr>so_lookup = True, so_descriptor = Some fd, so_option = True, so_address = True,
     so_rounds = map (\<lambda>i. (Address_unavailable, int i * millis 100)) [0..<301], so_listen = True, so_connect = True, so_nonblocking = True\<rparr>"

theorem transport_sockets_no_leak_witness:
  "\<exists>r os'. transport_sockets ((example_socket 7)\<lparr>so_rounds := [(Bound, 0)]\<rparr>) (example_socket 8) 0 {0, 1, 2} = Some (r, os') \<and>
    (case r of Inl e \<Rightarrow> os' = {0, 1, 2} | Inr (l, d) \<Rightarrow> l \<notin> {0, 1, 2} \<and> d \<notin> {0, 1, 2} \<and> l \<noteq> d \<and> os' = {0, 1, 2} \<union> {l, d})"
proof (rule transport_sockets_no_leak)
  let ?l = "(example_socket 7)\<lparr>so_rounds := [(Bound, 0)]\<rparr>"
  have l: "control_listener ?l {0, 1, 2} = (Inr 7, {7, 0, 1, 2})"
    by (simp add: control_listener_def example_socket_def bound_first_def keep_or_close_def)
  show "fresh_descriptor ?l {0, 1, 2}" by (simp add: fresh_descriptor_def example_socket_def)
  show "fresh_descriptor (example_socket 8) (snd (control_listener ?l {0, 1, 2}))"
    unfolding l by (simp add: fresh_descriptor_def example_socket_def)
qed (simp_all add: spaced_def example_socket_def)

end
