(* ===== verification/VirtualDevice.thy ===== *)
theory VirtualDevice
  imports VirtualRadio
begin

text \<open>
  The radio behind the device interface of the driver library
  (\<open>SoapyVirtualDevice\<close> in \<open>src/soapy_virtual_device.cpp\<close>): the checked setters, the
  single receive stream and its activation, and reading. Every operation holds the
  device's lock, so a call is one step; every exception is thrown before the call
  has changed anything, so an operation that throws has no new state.

  The constants of the library are the fields of \<open>soapy\<close>. A stream is known by its
  address, which the allocation in \<open>setupStream\<close> supplies: it is an argument there.
\<close>

record soapy =
  sy_rx :: int
  sy_cs16 :: string
  sy_not_supported :: int
  sy_stream_error :: int
  sy_timeout :: int
  sy_has_time :: int

record rx_stream =
  rx_address :: nat
  rx_active :: bool

record 'f device =
  dv_radio_id :: string
  dv_radio :: "'f virtual_radio"
  dv_stream :: "rx_stream option"

definition new_device :: "'f doubles \<Rightarrow> string \<Rightarrow> u64 \<Rightarrow> 'f \<Rightarrow> 'f \<Rightarrow> 'f device result" where
  "new_device D radio_id signal_hz amplitude phase_radians =
     ebind (new_radio D signal_hz amplitude phase_radians) (\<lambda>r.
     ebind (configure_radio D (default_settings D) r) (\<lambda>r.
       Inr \<lparr>dv_radio_id = radio_id, dv_radio = r, dv_stream = None\<rparr>))"

section \<open>Settings\<close>

definition require_rx :: "soapy \<Rightarrow> nat \<Rightarrow> int \<Rightarrow> 'a result \<Rightarrow> 'a result" where
  "require_rx S channel direction k =
     ensure (\<not> (direction \<noteq> sy_rx S \<or> channel \<noteq> 0))
       (Invalid_argument ''virtual radio supports RX channel 0 only'') k"

definition get_num_channels :: "soapy \<Rightarrow> int \<Rightarrow> nat" where
  "get_num_channels S direction = (if direction = sy_rx S then 1 else 0)"

definition get_stream_formats :: "soapy \<Rightarrow> int \<Rightarrow> nat \<Rightarrow> string list result" where
  "get_stream_formats S direction channel = require_rx S channel direction (Inr [sy_cs16 S])"

definition get_native_stream_format :: "'f doubles \<Rightarrow> soapy \<Rightarrow> int \<Rightarrow> nat \<Rightarrow> (string \<times> 'f) result" where
  "get_native_stream_format D S direction channel =
     require_rx S channel direction (Inr (sy_cs16 S, db_int D 32767))"

definition settings_of_device :: "'f device \<Rightarrow> 'f radio_settings" where
  "settings_of_device d = vr_settings (dv_radio d)"

definition configure_locked :: "'f doubles \<Rightarrow> 'f radio_settings \<Rightarrow> 'f device \<Rightarrow> 'f device result" where
  "configure_locked D s d = ebind (configure_radio D s (dv_radio d)) (\<lambda>r. Inr (d\<lparr>dv_radio := r\<rparr>))"

text \<open>The check of the numeric setters; the bound is the largest value of the target type, as a double.\<close>

definition representable :: "'f doubles \<Rightarrow> int \<Rightarrow> 'f \<Rightarrow> bool" where
  "representable D bound value \<longleftrightarrow>
     \<not> (\<not> db_finite D value \<or> db_less D value (db_int D 0) \<or> db_less D (db_int D bound) value)"

definition set_sample_rate :: "'f doubles \<Rightarrow> soapy \<Rightarrow> int \<Rightarrow> nat \<Rightarrow> 'f \<Rightarrow> 'f device \<Rightarrow> 'f device result" where
  "set_sample_rate D S direction channel rate d =
     require_rx S channel direction
       (ensure (representable D (2 ^ 32 - 1) rate) (Invalid_argument ''invalid sample rate'')
         (configure_locked D ((settings_of_device d)\<lparr>rs_sample_rate_hz := of_int (db_round D rate)\<rparr>) d))"

definition set_frequency :: "'f doubles \<Rightarrow> soapy \<Rightarrow> int \<Rightarrow> nat \<Rightarrow> 'f \<Rightarrow> 'f device \<Rightarrow> 'f device result" where
  "set_frequency D S direction channel frequency d =
     require_rx S channel direction
       (ensure (representable D (2 ^ 64 - 1) frequency) (Invalid_argument ''invalid center frequency'')
         (configure_locked D ((settings_of_device d)\<lparr>rs_center_hz := of_int (db_round D frequency)\<rparr>) d))"

definition set_bandwidth :: "'f doubles \<Rightarrow> soapy \<Rightarrow> int \<Rightarrow> nat \<Rightarrow> 'f \<Rightarrow> 'f device \<Rightarrow> 'f device result" where
  "set_bandwidth D S direction channel bandwidth d =
     require_rx S channel direction
       (ensure (representable D (2 ^ 32 - 1) bandwidth) (Invalid_argument ''invalid bandwidth'')
         (configure_locked D ((settings_of_device d)\<lparr>rs_bandwidth_hz := of_int (db_round D bandwidth)\<rparr>) d))"

definition set_gain :: "'f doubles \<Rightarrow> soapy \<Rightarrow> int \<Rightarrow> nat \<Rightarrow> 'f \<Rightarrow> 'f device \<Rightarrow> 'f device result" where
  "set_gain D S direction channel gain d =
     require_rx S channel direction
       (configure_locked D ((settings_of_device d)\<lparr>rs_gain_db := gain\<rparr>) d)"

definition get_sample_rate :: "'f doubles \<Rightarrow> soapy \<Rightarrow> int \<Rightarrow> nat \<Rightarrow> 'f device \<Rightarrow> 'f result" where
  "get_sample_rate D S direction channel d =
     require_rx S channel direction (Inr (db_int D (uint (rs_sample_rate_hz (settings_of_device d)))))"

definition get_frequency :: "'f doubles \<Rightarrow> soapy \<Rightarrow> int \<Rightarrow> nat \<Rightarrow> 'f device \<Rightarrow> 'f result" where
  "get_frequency D S direction channel d =
     require_rx S channel direction (Inr (db_int D (uint (rs_center_hz (settings_of_device d)))))"

definition get_bandwidth :: "'f doubles \<Rightarrow> soapy \<Rightarrow> int \<Rightarrow> nat \<Rightarrow> 'f device \<Rightarrow> 'f result" where
  "get_bandwidth D S direction channel d =
     require_rx S channel direction (Inr (db_int D (uint (rs_bandwidth_hz (settings_of_device d)))))"

definition get_gain :: "soapy \<Rightarrow> int \<Rightarrow> nat \<Rightarrow> 'f device \<Rightarrow> 'f result" where
  "get_gain S direction channel d = require_rx S channel direction (Inr (rs_gain_db (settings_of_device d)))"

definition apply_settings :: "'f doubles \<Rightarrow> 'f radio_settings \<Rightarrow> 'f device \<Rightarrow> 'f device result" where
  "apply_settings D s d = configure_locked D s d"

section \<open>The stream\<close>

definition setup_stream :: "soapy \<Rightarrow> nat \<Rightarrow> int \<Rightarrow> string \<Rightarrow> nat list \<Rightarrow> 'f device \<Rightarrow> (nat \<times> 'f device) result" where
  "setup_stream S address direction format channels d =
    (let channel = (if channels = [] then 0 else hd channels) in
     require_rx S channel direction
       (ensure (\<not> (format \<noteq> sy_cs16 S \<or> length channels > 1))
         (Invalid_argument ''virtual radio requires one CS16 RX channel'')
         (ensure (dv_stream d = None) (Runtime_error ''RX stream already exists'')
           (Inr (address, d\<lparr>dv_stream := Some \<lparr>rx_address = address, rx_active = False\<rparr>\<rparr>)))))"

definition require_stream :: "nat \<Rightarrow> 'f device \<Rightarrow> rx_stream result" where
  "require_stream stream d =
     (case dv_stream d of
        None \<Rightarrow> Inl (Invalid_argument ''unknown RX stream'')
      | Some rx \<Rightarrow> ensure (stream = rx_address rx) (Invalid_argument ''unknown RX stream'') (Inr rx))"

definition close_stream :: "nat \<Rightarrow> 'f device \<Rightarrow> 'f device result" where
  "close_stream stream d =
     ebind (require_stream stream d) (\<lambda>_. Inr (d\<lparr>dv_radio := stop_radio (dv_radio d), dv_stream := None\<rparr>))"

definition get_stream_mtu :: "nat \<Rightarrow> 'f device \<Rightarrow> nat result" where
  "get_stream_mtu stream d = ebind (require_stream stream d) (\<lambda>_. Inr 1024)"

definition activate_stream :: "soapy \<Rightarrow> nat \<Rightarrow> int \<Rightarrow> 'f device \<Rightarrow> (int \<times> 'f device) result" where
  "activate_stream S stream flags d =
     (if flags \<noteq> 0 then Inr (sy_not_supported S, d)
      else ebind (require_stream stream d) (\<lambda>rx.
        Inr (0, d\<lparr>dv_radio := start_radio (begin_epoch (dv_radio d)), dv_stream := Some (rx\<lparr>rx_active := True\<rparr>)\<rparr>)))"

definition deactivate_stream :: "soapy \<Rightarrow> nat \<Rightarrow> int \<Rightarrow> 'f device \<Rightarrow> (int \<times> 'f device) result" where
  "deactivate_stream S stream flags d =
     (if flags \<noteq> 0 then Inr (sy_not_supported S, d)
      else ebind (require_stream stream d) (\<lambda>rx.
        Inr (0, d\<lparr>dv_stream := Some (rx\<lparr>rx_active := False\<rparr>), dv_radio := stop_radio (dv_radio d)\<rparr>)))"

text \<open>
  What a read returns and leaves in its arguments. The buffer is \<open>None\<close> for a null pointer and
  otherwise holds at least \<open>elements\<close> pairs; the wait of a read on an inactive stream is left out.
\<close>

record read_call =
  rc_status :: int
  rc_buffer :: "i16 list"
  rc_flags :: int
  rc_time_ns :: int

definition stream_time :: "u64 \<Rightarrow> u32 \<Rightarrow> int" where
  "stream_time ordinal rate = sint (ordinal * 1000000000 div ucast rate :: u64)"

definition read_stream ::
  "'f doubles \<Rightarrow> soapy \<Rightarrow> nat \<Rightarrow> i16 list option \<Rightarrow> nat \<Rightarrow> int \<Rightarrow> int \<Rightarrow> 'f device \<Rightarrow> (read_call \<times> 'f device) result" where
  "read_stream D S stream buffers elements flags time_ns d =
    (let unread = (\<lambda>status. \<lparr>rc_status = status, rc_buffer = (case buffers of None \<Rightarrow> [] | Some b \<Rightarrow> b),
                            rc_flags = flags, rc_time_ns = time_ns\<rparr>)
     in case buffers of
       None \<Rightarrow> Inr (unread (sy_stream_error S), d)
     | Some buffer \<Rightarrow>
       if elements = 0 \<or> elements > 1024 then Inr (unread (sy_stream_error S), d)
       else ebind (require_stream stream d) (\<lambda>rx.
         if \<not> rx_active rx then Inr (unread (sy_timeout S), d)
         else
           let ordinal = vr_sample_ordinal (dv_radio d);
               (samples, count, r) = read_radio D (take (elements * 2) buffer) elements (dv_radio d)
           in Inr (\<lparr>rc_status = int count, rc_buffer = samples @ drop (elements * 2) buffer,
                    rc_flags = sy_has_time S,
                    rc_time_ns = stream_time ordinal (rs_sample_rate_hz (vr_settings (dv_radio d)))\<rparr>,
                   d\<lparr>dv_radio := r\<rparr>)))"

section \<open>The device is consistent\<close>

datatype 'f device_request =
    Set_sample_rate int nat 'f
  | Set_frequency int nat 'f
  | Set_bandwidth int nat 'f
  | Set_gain int nat 'f
  | Apply_settings "'f radio_settings"
  | Setup_stream nat int string "nat list"
  | Close_stream nat
  | Activate_stream nat int
  | Deactivate_stream nat int
  | Read_stream nat "i16 list option" nat

fun device_call :: "'f doubles \<Rightarrow> soapy \<Rightarrow> 'f device_request \<Rightarrow> 'f device \<Rightarrow> 'f device result" where
  "device_call D S (Set_sample_rate direction channel rate) d = set_sample_rate D S direction channel rate d"
| "device_call D S (Set_frequency direction channel frequency) d = set_frequency D S direction channel frequency d"
| "device_call D S (Set_bandwidth direction channel bandwidth) d = set_bandwidth D S direction channel bandwidth d"
| "device_call D S (Set_gain direction channel gain) d = set_gain D S direction channel gain d"
| "device_call D S (Apply_settings s) d = apply_settings D s d"
| "device_call D S (Setup_stream address direction format channels) d =
     ebind (setup_stream S address direction format channels d) (Inr \<circ> snd)"
| "device_call D S (Close_stream stream) d = close_stream stream d"
| "device_call D S (Activate_stream stream flags) d = ebind (activate_stream S stream flags d) (Inr \<circ> snd)"
| "device_call D S (Deactivate_stream stream flags) d = ebind (deactivate_stream S stream flags d) (Inr \<circ> snd)"
| "device_call D S (Read_stream stream buffers elements) d =
     ebind (read_stream D S stream buffers elements 0 0 d) (Inr \<circ> snd)"

definition device_step :: "'f doubles \<Rightarrow> soapy \<Rightarrow> 'f device \<Rightarrow> 'f device_request \<Rightarrow> 'f device" where
  "device_step D S d c = (case device_call D S c d of Inl _ \<Rightarrow> d | Inr d' \<Rightarrow> d')"

definition device_active :: "'f device \<Rightarrow> bool" where
  "device_active d \<longleftrightarrow> (\<exists>rx. dv_stream d = Some rx \<and> rx_active rx)"

definition device_ok :: "'f doubles \<Rightarrow> 'f device \<Rightarrow> bool" where
  "device_ok D d \<longleftrightarrow> valid_settings D (settings_of_device d) \<and> (vr_streaming (dv_radio d) \<longleftrightarrow> device_active d)"

text \<open>What no call changes: the signal the radio hears.\<close>

definition device_signal :: "'f device \<Rightarrow> string \<times> u64 \<times> 'f \<times> 'f" where
  "device_signal d = (dv_radio_id d, vr_signal_hz (dv_radio d), vr_amplitude (dv_radio d), vr_initial_phase (dv_radio d))"

lemmas device_defs = device_ok_def device_active_def device_signal_def settings_of_device_def

lemma require_rx_Inr [result_simps]: "require_rx S channel direction k = Inr x \<longleftrightarrow> direction = sy_rx S \<and> channel = 0 \<and> k = Inr x"
  by (auto simp: require_rx_def ensure_def)

lemma configure_locked_Inr [result_simps]:
  "configure_locked D s d = Inr d' \<longleftrightarrow> valid_settings D s \<and> d' = d\<lparr>dv_radio := (dv_radio d)\<lparr>vr_settings := s\<rparr>\<rparr>"
  by (auto simp: configure_locked_def configure_radio_def ensure_def)

lemma require_stream_Inr [result_simps]: "require_stream h d = Inr rx \<longleftrightarrow> dv_stream d = Some rx \<and> h = rx_address rx"
  by (auto simp: require_stream_def ensure_def split: option.splits)

lemma read_radio_cases:
  obtains (refused) "read_radio D buffer k r = (buffer, 0, r)"
  | (read) "vr_streaming r" "read_radio D buffer k r = (interleave (pairs_from D r k) @ drop (k * 2) buffer, k, advanced D r k)"
  by (cases "\<not> vr_streaming r \<or> k = 0 \<or> k > 1024 \<or> length buffer < k * 2")
    (auto simp: read_radio_advanced, auto simp: read_radio_def)

lemma device_call_ok:
  assumes "device_call D S c d = Inr d'" and "device_ok D d"
  shows "device_ok D d' \<and> device_signal d' = device_signal d"
proof (cases c)
  case (Read_stream stream buffers elements)
  show ?thesis
    using assms unfolding Read_stream
    by (cases rule: read_radio_cases [of D "take (elements * 2) (the buffers)" elements "dv_radio d"])
      (auto simp: read_stream_def Let_def device_defs result_simps split: option.splits if_splits)
qed (use assms in \<open>auto simp: device_defs set_sample_rate_def set_frequency_def set_bandwidth_def set_gain_def
      apply_settings_def setup_stream_def close_stream_def activate_stream_def deactivate_stream_def
      start_radio_def stop_radio_def begin_epoch_def Let_def result_simps split: if_splits\<close>)

lemma device_run_ok:
  "device_ok D d \<Longrightarrow> device_ok D (foldl (device_step D S) d calls) \<and>
     device_signal (foldl (device_step D S) d calls) = device_signal d"
proof (induction calls arbitrary: d)
  case Nil
  then show ?case by simp
next
  case (Cons c calls)
  have "device_ok D (device_step D S d c) \<and> device_signal (device_step D S d c) = device_signal d"
    using device_call_ok [of D S c d] Cons.prems by (auto simp: device_step_def split: sum.split)
  then show ?case using Cons.IH [of "device_step D S d c"] by simp
qed

lemma new_device_Inr:
  "new_device D radio_id signal_hz amplitude phase = Inr d \<longleftrightarrow>
     valid_signal D signal_hz amplitude phase \<and> valid_settings D (default_settings D) \<and>
     d = \<lparr>dv_radio_id = radio_id, dv_radio = \<lparr>vr_signal_hz = signal_hz, vr_amplitude = amplitude,
            vr_phase = phase, vr_initial_phase = phase, vr_settings = default_settings D,
            vr_sample_ordinal = 0, vr_clipped_samples = 0, vr_streaming = False\<rparr>, dv_stream = None\<rparr>"
  by (auto simp: new_device_def new_radio_def configure_radio_def result_simps)

text \<open>C16. Whatever is called on a device, in whatever order, its settings stay in the supported range,
  its radio delivers samples exactly while its stream exists and is active, and the signal it
  was built for is unchanged.\<close>

theorem device_invariant:
  assumes "new_device D radio_id signal_hz amplitude phase = Inr d"
  shows "let d' = foldl (device_step D S) d calls in
    valid_settings D (settings_of_device d') \<and>
    (vr_streaming (dv_radio d') \<longleftrightarrow> (\<exists>rx. dv_stream d' = Some rx \<and> rx_active rx)) \<and>
    device_signal d' = (radio_id, signal_hz, amplitude, phase)"
proof -
  have "device_ok D d" "device_signal d = (radio_id, signal_hz, amplitude, phase)"
    using assms by (auto simp: new_device_Inr device_defs)
  with device_run_ok [of D d S calls] show ?thesis
    by (simp add: device_ok_def device_active_def Let_def)
qed

definition example_soapy :: soapy where
  "example_soapy = \<lparr>sy_rx = 1, sy_cs16 = ''CS16'', sy_not_supported = - 5, sy_stream_error = - 2,
     sy_timeout = - 1, sy_has_time = 4\<rparr>"

lemma default_settings_valid: "valid_settings reals (default_settings reals)"
  by (simp add: valid_settings_def default_settings_def)

lemma example_device:
  "\<exists>d. new_device reals ''radio-1'' 100250000 (1 / 2) 0 = Inr d"
  unfolding new_device_Inr by (simp add: default_settings_valid valid_signal_def)

theorem device_invariant_witness:
  "\<exists>d. new_device reals ''radio-1'' 100250000 (1 / 2) 0 = Inr d \<and>
     valid_settings reals (settings_of_device (foldl (device_step reals example_soapy) d
        [Setup_stream 7 1 ''CS16'' [], Activate_stream 7 0, Set_gain 1 0 100, Set_sample_rate 1 0 2000000]))"
proof -
  obtain d where d: "new_device reals ''radio-1'' 100250000 (1 / 2) 0 = Inr d"
    using example_device by blast
  from device_invariant [OF d, of example_soapy] d show ?thesis
    unfolding Let_def by blast
qed

text \<open>A read of an active stream delivers what was asked for.\<close>

lemma read_stream_active:
  assumes "device_ok D d" and "dv_stream d = Some rx" "rx_active rx"
    and "0 < k" "k \<le> 1024" "k * 2 \<le> length buffer"
  shows "read_stream D S (rx_address rx) (Some buffer) k flags t d =
    Inr (\<lparr>rc_status = int k, rc_buffer = interleave (pairs_from D (dv_radio d) k) @ drop (k * 2) buffer,
          rc_flags = sy_has_time S,
          rc_time_ns = stream_time (vr_sample_ordinal (dv_radio d)) (rs_sample_rate_hz (settings_of_device d))\<rparr>,
         d\<lparr>dv_radio := advanced D (dv_radio d) k\<rparr>)"
proof -
  have "vr_streaming (dv_radio d)" using assms by (auto simp: device_ok_def device_active_def)
  with assms show ?thesis
    by (simp add: read_stream_def require_stream_def read_radio_advanced settings_of_device_def Let_def)
qed

lemma sint_eq_unat:
  assumes "unat (w :: u64) < 2 ^ 63"
  shows "sint w = int (unat w)"
proof -
  have "int (unat w) < int (2 ^ 63)" using assms by (simp only: of_nat_less_iff)
  moreover have "- (2 ^ 63) \<le> int (unat w)" by (rule order_trans [of _ 0]) simp_all
  ultimately have "signed_take_bit 63 (int (unat w)) = int (unat w)"
    by (intro signed_take_bit_int_eq_self) (simp_all only: of_nat_power of_nat_numeral)
  then show ?thesis by (simp add: sint_uint)
qed

lemma small_quotient: "q \<le> m div 1000 \<Longrightarrow> m < 2 ^ 64 \<Longrightarrow> q < (2 :: nat) ^ 63"
  by (erule le_less_trans) (simp add: less_mult_imp_div_less)

lemma stream_time_exact:
  assumes "1000 \<le> rate"
  shows "stream_time ordinal rate = int (unat ordinal * 1000000000 mod 2 ^ 64 div unat rate)"
proof -
  let ?w = "ordinal * 1000000000 div ucast rate :: u64"
  have r: "1000 \<le> unat rate" using assms by (simp add: word_le_nat_alt)
  have u: "unat ?w = unat ordinal * 1000000000 mod 2 ^ 64 div unat rate"
    by (simp add: unat_div_distrib unat_word_ariths)
  have "unat ordinal * 1000000000 mod 2 ^ 64 div unat rate \<le> unat ordinal * 1000000000 mod 2 ^ 64 div 1000"
    using r by (intro div_le_mono2) simp_all
  moreover have "unat ordinal * 1000000000 mod 2 ^ 64 < (2 :: nat) ^ 64" by (rule mod_less_divisor) simp
  ultimately have l: "unat ?w < 2 ^ 63" unfolding u by (rule small_quotient)
  have "sint ?w = int (unat ?w)"
    using l by (intro sint_eq_unat)
  then show ?thesis unfolding stream_time_def u .
qed

lemma wrapped_time_behind:
  assumes "0 < r" "r \<le> 2 ^ 64" "2 ^ 64 \<le> (x :: nat)"
  shows "x mod 2 ^ 64 div r < x div r"
proof -
  define M :: nat where "M = 2 ^ 64"
  have "1 \<le> x div M" using assms(3) by (simp add: M_def Suc_le_eq div_greater_zero_iff)
  then have "1 * M \<le> x div M * M" by (rule mult_le_mono1)
  then have "x mod M + r \<le> x" using assms(2) div_mult_mod_eq [of x M] unfolding M_def by linarith
  then have "x mod 2 ^ 64 + r \<le> x" unfolding M_def .
  then have "(x mod 2 ^ 64 + r) div r \<le> x div r" by (rule div_le_mono)
  with assms(1) show ?thesis by simp
qed

text \<open>C40. A read of an active stream delivers all the pairs asked for. The time it reports is the
  position of the first one in nanoseconds as long as fewer than 18446744074 samples came before
  it; from there on the product with the nanoseconds of a second wraps and the time falls behind.\<close>

theorem read_stream_time:
  assumes "device_ok D d" and "dv_stream d = Some rx" "rx_active rx" and "0 < k" "k \<le> 1024" "k * 2 \<le> length buffer"
  shows "\<exists>c d'. read_stream D S (rx_address rx) (Some buffer) k flags t d = Inr (c, d') \<and> rc_status c = int k \<and>
    (let ordinal = unat (vr_sample_ordinal (dv_radio d)); rate = unat (rs_sample_rate_hz (settings_of_device d))
     in (ordinal \<le> 18446744073 \<longrightarrow> rc_time_ns c = int (ordinal * 10 ^ 9 div rate)) \<and>
        (18446744073 < ordinal \<longrightarrow> rc_time_ns c < int (ordinal * 10 ^ 9 div rate)))"
proof -
  define o' where "o' = unat (vr_sample_ordinal (dv_radio d))"
  define rate where "rate = unat (rs_sample_rate_hz (settings_of_device d))"
  have r: "1000 \<le> rs_sample_rate_hz (settings_of_device d)" "rate \<le> 2000000"
    using assms(1) by (auto simp: device_ok_def valid_settings_def rate_def word_le_nat_alt not_less)
  then have "1000 \<le> rate" by (simp add: rate_def word_le_nat_alt)
  note e = stream_time_exact [OF r(1), of "vr_sample_ordinal (dv_radio d)", folded o'_def rate_def]
  have "o' \<le> 18446744073 \<Longrightarrow> o' * 1000000000 mod 2 ^ 64 = o' * 1000000000" by simp
  moreover have "o' * 1000000000 mod 2 ^ 64 div rate < o' * 1000000000 div rate" if "18446744073 < o'"
    by (rule wrapped_time_behind) (use that \<open>1000 \<le> rate\<close> r(2) in simp_all)
  ultimately show ?thesis
    unfolding read_stream_active [OF assms] o'_def [symmetric] rate_def [symmetric] e Let_def
    by (intro exI conjI) (auto simp: e)
qed

definition late_device :: "real device" where
  "late_device = \<lparr>dv_radio_id = ''radio-1'', dv_radio = example_radio\<lparr>vr_sample_ordinal := 18446744074\<rparr>,
     dv_stream = Some \<lparr>rx_address = 7, rx_active = True\<rparr>\<rparr>"

theorem read_stream_time_witness:
  "\<exists>c d'. read_stream reals example_soapy 7 (Some (replicate 4 0)) 2 0 0 late_device = Inr (c, d') \<and>
     rc_status c = 2 \<and> rc_time_ns c < 18446744074000"
proof -
  have "device_ok reals late_device"
    by (simp add: device_defs late_device_def example_radio_def default_settings_valid)
  from read_stream_time [OF this, of "\<lparr>rx_address = 7, rx_active = True\<rparr>" 2 "replicate 4 0" example_soapy 0 0] show ?thesis
    by (simp add: late_device_def settings_of_device_def example_radio_def default_settings_def)
qed

end
