(* ===== verification/RadioAdapter.thy ===== *)
theory RadioAdapter
  imports VirtualDevice
begin

text \<open>
  The adapter between the VITA runtime and the device (\<open>VrtRadioAdapter\<close> in
  \<open>src/vrt_radio_adapter.cpp\<close>): it owns the device's stream, carries out the fields of a
  control packet one by one (\<open>begin\<close>) or as a batch (\<open>commit\<close>) and fills the windows of
  samples the runtime sends (\<open>produce\<close>).

  Fields, outcomes and windows are the runtime's; the records below hold what the
  adapter reads and writes of them. The values of a field are the constructors of
  \<open>semantic\<close>, the field identifiers are the record \<open>field_ids\<close>, and a window's answers to
  \<open>write\<close> and \<open>validate_complete\<close> are arguments. The callbacks are \<open>noexcept\<close>, so an
  exception (\<open>Inl\<close>) of \<open>begin_field\<close> or \<open>produce\<close> would end the process.
\<close>

section \<open>What the adapter sees of the runtime\<close>

text \<open>An amount of hertz scaled by \<open>2^20\<close>, gain stages scaled by \<open>2^7\<close>, a word, anything else.\<close>

datatype semantic = Sem_hertz int | Sem_gain int int | Sem_word u32 | Sem_other

record field_ids =
  fi_sample_rate :: nat
  fi_reference_frequency :: nat
  fi_bandwidth :: nat
  fi_gain :: nat
  fi_discrete_io :: nat

record planned_field =
  pf_id :: nat
  pf_adjusted :: semantic
  pf_eligible :: bool
  pf_time_known :: bool
  pf_ordinal_known :: bool

record boundary =
  bd_time :: protocol_time
  bd_sample_ordinal :: u64

datatype field_status = Field_executed | Field_failed

record field_outcome =
  fo_id :: nat
  fo_status :: field_status
  fo_value :: semantic
  fo_known :: bool
  fo_actual_time :: protocol_time
  fo_sample_ordinal :: u64
  fo_time_known :: bool
  fo_ordinal_known :: bool

record batch_outcome =
  bo_status :: field_status
  bo_actual_time :: "protocol_time option"
  bo_uncertainty_ps :: u64

text \<open>An error of the library, or one of the adapter's own.\<close>

datatype 'e produce_error = Unsupported_capability | Invalid_state | Library_error 'e

section \<open>The adapter\<close>

record 'f adapter =
  ad_device :: "'f device"
  ad_stream :: nat

definition new_adapter :: "soapy \<Rightarrow> nat \<Rightarrow> 'f device option \<Rightarrow> 'f adapter result" where
  "new_adapter S address device =
     (case device of
        None \<Rightarrow> Inl (Invalid_argument ''radio device is required'')
      | Some d \<Rightarrow> ebind (setup_stream S address (sy_rx S) (sy_cs16 S) [] d) (\<lambda>(stream, d).
          Inr \<lparr>ad_device = d, ad_stream = stream\<rparr>))"

text \<open>The destructor: what it leaves of the device.\<close>

definition close_adapter :: "soapy \<Rightarrow> 'f adapter \<Rightarrow> 'f device result" where
  "close_adapter S a =
     ebind (deactivate_stream S (ad_stream a) 0 (ad_device a)) (\<lambda>(_, d). close_stream (ad_stream a) d)"

definition lift_status :: "'f adapter \<Rightarrow> (int \<times> 'f device) result \<Rightarrow> (int \<times> 'f adapter) result" where
  "lift_status a m = ebind m (\<lambda>(status, d). Inr (status, a\<lparr>ad_device := d\<rparr>))"

definition activate :: "soapy \<Rightarrow> 'f adapter \<Rightarrow> (int \<times> 'f adapter) result" where
  "activate S a = lift_status a (activate_stream S (ad_stream a) 0 (ad_device a))"

definition deactivate :: "soapy \<Rightarrow> 'f adapter \<Rightarrow> (int \<times> 'f adapter) result" where
  "deactivate S a = lift_status a (deactivate_stream S (ad_stream a) 0 (ad_device a))"

text \<open>
  \<open>begin\<close>: the outcome, whether the runtime accepted it (\<open>result.complete\<close>, an argument), and
  the adapter; the call reports an error exactly when it was not accepted.
\<close>

definition begin_field ::
  "soapy \<Rightarrow> field_ids \<Rightarrow> planned_field \<Rightarrow> boundary \<Rightarrow> (field_outcome \<Rightarrow> bool) \<Rightarrow> 'f adapter \<Rightarrow>
   (bool \<times> field_outcome \<times> 'f adapter) result" where
  "begin_field S I field b accept a =
    (let outcome = \<lparr>fo_id = pf_id field, fo_status = Field_executed, fo_value = pf_adjusted field, fo_known = True,
                    fo_actual_time = bd_time b, fo_sample_ordinal = bd_sample_ordinal b,
                    fo_time_known = pf_time_known field, fo_ordinal_known = pf_ordinal_known field\<rparr>
     in ebind (if pf_id field = fi_discrete_io I
               then ebind (case pf_adjusted field of
                      Sem_word action \<Rightarrow>
                        if action = 3 then activate S a else if action = 2 then deactivate S a else Inr (- 1, a)
                    | _ \<Rightarrow> Inr (- 1, a))
                   (\<lambda>(status, a). Inr (if status \<noteq> 0 then outcome\<lparr>fo_status := Field_failed\<rparr> else outcome, a))
               else Inr (outcome, a))
         (\<lambda>(outcome, a). Inr (accept outcome, outcome, a)))"

text \<open>The loop of \<open>commit\<close> over the plan: \<open>std::get\<close> of another alternative throws.\<close>

definition bad_variant :: exn where
  "bad_variant = Runtime_error ''bad_variant_access''"

fun get_hertz :: "semantic \<Rightarrow> int result" where
  "get_hertz (Sem_hertz q20) = Inr q20"
| "get_hertz _ = Inl bad_variant"

fun get_stage1 :: "semantic \<Rightarrow> int result" where
  "get_stage1 (Sem_gain stage1 stage2) = Inr stage1"
| "get_stage1 _ = Inl bad_variant"

fun get_word :: "semantic \<Rightarrow> u32 result" where
  "get_word (Sem_word w) = Inr w"
| "get_word _ = Inl bad_variant"

definition commit_field ::
  "'f doubles \<Rightarrow> field_ids \<Rightarrow> 'f radio_settings \<times> u32 option \<Rightarrow> planned_field \<Rightarrow>
   ('f radio_settings \<times> u32 option) result" where
  "commit_field D I st field =
    (let (settings, action) = st; v = pf_adjusted field in
     if \<not> pf_eligible field then Inr (settings, action)
     else if pf_id field = fi_sample_rate I then
       ebind (get_hertz v) (\<lambda>q20. Inr (settings\<lparr>rs_sample_rate_hz := of_int (drop_bit 20 q20)\<rparr>, action))
     else if pf_id field = fi_reference_frequency I then
       ebind (get_hertz v) (\<lambda>q20. Inr (settings\<lparr>rs_center_hz := of_int (drop_bit 20 q20)\<rparr>, action))
     else if pf_id field = fi_bandwidth I then
       ebind (get_hertz v) (\<lambda>q20. Inr (settings\<lparr>rs_bandwidth_hz := of_int (drop_bit 20 q20)\<rparr>, action))
     else if pf_id field = fi_gain I then
       ebind (get_stage1 v) (\<lambda>q7. Inr (settings\<lparr>rs_gain_db := db_div D (db_int D q7) (db_int D 128)\<rparr>, action))
     else if pf_id field = fi_discrete_io I then ebind (get_word v) (\<lambda>w. Inr (settings, Some w))
     else Inr (settings, action))"

text \<open>One of the two stream actions of \<open>commit\<close>: whether it went well, and the adapter.\<close>

definition stream_action ::
  "bool \<Rightarrow> ('f adapter \<Rightarrow> (int \<times> 'f adapter) result) \<Rightarrow> 'f adapter \<Rightarrow> bool \<times> 'f adapter" where
  "stream_action wanted act a =
     (if wanted then (case act a of Inl _ \<Rightarrow> (False, a) | Inr (status, a') \<Rightarrow> (status = 0, a')) else (True, a))"

definition commit ::
  "'f doubles \<Rightarrow> soapy \<Rightarrow> field_ids \<Rightarrow> planned_field list \<Rightarrow> boundary \<Rightarrow> 'f adapter \<Rightarrow> batch_outcome \<times> 'f adapter" where
  "commit D S I plan b a =
    (let failed = \<lparr>bo_status = Field_failed, bo_actual_time = None, bo_uncertainty_ps = 0\<rparr>;
         executed = \<lparr>bo_status = Field_executed, bo_actual_time = Some (bd_time b), bo_uncertainty_ps = 0\<rparr>
     in case efold (commit_field D I) (settings_of_device (ad_device a), None) plan of
       Inl _ \<Rightarrow> (failed, a)
     | Inr (settings, action) \<Rightarrow>
       (case apply_settings D settings (ad_device a) of
          Inl _ \<Rightarrow> (failed, a)
        | Inr d \<Rightarrow>
          let (ok, a) = stream_action (action = Some 3) (activate S) (a\<lparr>ad_device := d\<rparr>) in
          if \<not> ok then (failed, a)
          else let (ok, a) = stream_action (action = Some 2) (deactivate S) a in
               if \<not> ok then (failed, a) else (executed, a)))"

section \<open>Producing samples\<close>

text \<open>The loop that writes the window: the first refusal ends it; the values written so far.\<close>

fun write_samples :: "(nat \<Rightarrow> 'f \<times> 'f \<Rightarrow> 'e option) \<Rightarrow> nat \<Rightarrow> ('f \<times> 'f) list \<Rightarrow> 'e option \<times> ('f \<times> 'f) list" where
  "write_samples write index [] = (None, [])"
| "write_samples write index (v # vs) =
     (case write index v of
        Some e \<Rightarrow> (Some e, [])
      | None \<Rightarrow> let (e, written) = write_samples write (Suc index) vs in (e, v # written))"

definition sample_values :: "'f doubles \<Rightarrow> i16 list \<Rightarrow> nat \<Rightarrow> ('f \<times> 'f) list" where
  "sample_values D samples n =
     map (\<lambda>index. (db_div D (db_int D (sint (samples ! (index * 2)))) (db_int D 32768),
                  db_div D (db_int D (sint (samples ! (index * 2 + 1)))) (db_int D 32768))) [0..<n]"

definition produce ::
  "'f doubles \<Rightarrow> soapy \<Rightarrow> nat \<Rightarrow> bool \<Rightarrow> (nat \<Rightarrow> 'f \<times> 'f \<Rightarrow> 'e option) \<Rightarrow> 'e option \<Rightarrow> 'f adapter \<Rightarrow>
   ('e produce_error option \<times> ('f \<times> 'f) list \<times> 'f adapter) result" where
  "produce D S count iq16 write validate_complete a =
     (if count > 1024 \<or> \<not> iq16 then Inr (Some Unsupported_capability, [], a)
      else ebind (read_stream D S (ad_stream a) (Some (replicate 2048 0)) count 0 0 (ad_device a)) (\<lambda>(c, d).
        let a = a\<lparr>ad_device := d\<rparr> in
        if rc_status c \<noteq> int count then Inr (Some Invalid_state, [], a)
        else let (e, written) = write_samples write 0 (sample_values D (rc_buffer c) count)
             in Inr (map_option Library_error (case e of Some e \<Rightarrow> Some e | None \<Rightarrow> validate_complete), written, a)))"

section \<open>The adapter's stream is the device's\<close>

definition adapter_ok :: "'f doubles \<Rightarrow> 'f adapter \<Rightarrow> bool" where
  "adapter_ok D a \<longleftrightarrow> device_ok D (ad_device a) \<and>
     (\<exists>rx. dv_stream (ad_device a) = Some rx \<and> rx_address rx = ad_stream a)"

definition streaming :: "'f adapter \<Rightarrow> bool" where
  "streaming a \<longleftrightarrow> device_active (ad_device a)"

lemma new_adapter_ok: "new_adapter S address (Some d) = Inr a \<Longrightarrow> device_ok D d \<Longrightarrow> adapter_ok D a \<and> \<not> streaming a"
  by (auto simp: new_adapter_def setup_stream_def adapter_ok_def streaming_def device_defs result_simps)

lemma activate_ok:
  assumes "adapter_ok D a"
  shows "activate S a = Inr (0, a\<lparr>ad_device := (ad_device a)\<lparr>dv_radio := start_radio (begin_epoch (dv_radio (ad_device a))),
      dv_stream := Some \<lparr>rx_address = ad_stream a, rx_active = True\<rparr>\<rparr>\<rparr>)"
  using assms by (auto simp: adapter_ok_def activate_def lift_status_def activate_stream_def require_stream_def)

lemma deactivate_ok:
  assumes "adapter_ok D a"
  shows "deactivate S a = Inr (0, a\<lparr>ad_device := (ad_device a)\<lparr>dv_radio := stop_radio (dv_radio (ad_device a)),
      dv_stream := Some \<lparr>rx_address = ad_stream a, rx_active = False\<rparr>\<rparr>\<rparr>)"
  using assms by (auto simp: adapter_ok_def deactivate_def lift_status_def deactivate_stream_def require_stream_def)

lemma nth_interleave: "m < length ps \<Longrightarrow> interleave ps ! (m * 2) = fst (ps ! m) \<and> interleave ps ! Suc (m * 2) = snd (ps ! m)"
proof (induction ps arbitrary: m)
  case Nil
  then show ?case by simp
next
  case (Cons p ps)
  then show ?case by (cases m) (auto simp: interleave_def split: prod.splits)
qed

text \<open>The value of a pair on the wire.\<close>

definition pair_value :: "'f doubles \<Rightarrow> i16 \<times> i16 \<Rightarrow> 'f \<times> 'f" where
  "pair_value D p = (db_div D (db_int D (sint (fst p))) (db_int D 32768), db_div D (db_int D (sint (snd p))) (db_int D 32768))"

lemma sample_values_interleave:
  "n \<le> length ps \<Longrightarrow> sample_values D (interleave ps @ rest) n = map (pair_value D) (take n ps)"
  by (rule nth_equalityI) (auto simp: sample_values_def pair_value_def nth_append nth_interleave)

lemma write_samples_all: "\<forall>i v. write i v = None \<Longrightarrow> write_samples write index vs = (None, vs)"
  by (induction vs arbitrary: index) auto

lemma produce_streaming:
  assumes "adapter_ok D a" "streaming a" "0 < k" "k \<le> 1024" and "\<forall>i v. write i v = (None :: 'e option)"
  shows "produce D S k True write None a =
    Inr (None, map (pair_value D) (pairs_from D (dv_radio (ad_device a)) k),
         a\<lparr>ad_device := (ad_device a)\<lparr>dv_radio := advanced D (dv_radio (ad_device a)) k\<rparr>\<rparr>)"
proof -
  obtain rx where rx: "dv_stream (ad_device a) = Some rx" "rx_address rx = ad_stream a" "rx_active rx"
    using assms by (auto simp: adapter_ok_def streaming_def device_active_def)
  have "device_ok D (ad_device a)" using assms by (simp add: adapter_ok_def)
  from read_stream_active [OF this rx(1,3) assms(3,4), of "replicate 2048 0" S 0 0] rx(2) assms(3,4,5)
  show ?thesis
    by (simp add: produce_def write_samples_all sample_values_interleave)
qed

section \<open>A batch is applied as a whole or not at all\<close>

text \<open>The specification of a plan: the last eligible field of each kind decides.\<close>

definition chosen :: "nat \<Rightarrow> planned_field list \<Rightarrow> semantic option" where
  "chosen ident plan =
    (case rev (filter (\<lambda>f. pf_eligible f \<and> pf_id f = ident) plan) of [] \<Rightarrow> None | f # _ \<Rightarrow> Some (pf_adjusted f))"

fun hertz_or :: "int \<Rightarrow> semantic option \<Rightarrow> int" where
  "hertz_or old (Some (Sem_hertz q20)) = drop_bit 20 q20"
| "hertz_or old _ = old"

fun gain_or :: "'f doubles \<Rightarrow> 'f \<Rightarrow> semantic option \<Rightarrow> 'f" where
  "gain_or D old (Some (Sem_gain stage1 stage2)) = db_div D (db_int D stage1) (db_int D 128)"
| "gain_or D old _ = old"

fun word_or :: "u32 option \<Rightarrow> semantic option \<Rightarrow> u32 option" where
  "word_or old (Some (Sem_word w)) = Some w"
| "word_or old _ = old"

definition planned_settings :: "'f doubles \<Rightarrow> field_ids \<Rightarrow> 'f radio_settings \<Rightarrow> planned_field list \<Rightarrow> 'f radio_settings" where
  "planned_settings D I old plan =
     \<lparr>rs_center_hz = of_int (hertz_or (uint (rs_center_hz old)) (chosen (fi_reference_frequency I) plan)),
      rs_sample_rate_hz = of_int (hertz_or (uint (rs_sample_rate_hz old)) (chosen (fi_sample_rate I) plan)),
      rs_bandwidth_hz = of_int (hertz_or (uint (rs_bandwidth_hz old)) (chosen (fi_bandwidth I) plan)),
      rs_gain_db = gain_or D (rs_gain_db old) (chosen (fi_gain I) plan)\<rparr>"

definition planned_action :: "field_ids \<Rightarrow> planned_field list \<Rightarrow> u32 option" where
  "planned_action I plan = word_or None (chosen (fi_discrete_io I) plan)"

definition field_typed :: "field_ids \<Rightarrow> planned_field \<Rightarrow> bool" where
  "field_typed I f \<longleftrightarrow> pf_eligible f \<longrightarrow>
     (pf_id f \<in> {fi_sample_rate I, fi_reference_frequency I, fi_bandwidth I} \<longrightarrow> (\<exists>q20. pf_adjusted f = Sem_hertz q20)) \<and>
     (pf_id f = fi_gain I \<longrightarrow> (\<exists>stage1 stage2. pf_adjusted f = Sem_gain stage1 stage2)) \<and>
     (pf_id f = fi_discrete_io I \<longrightarrow> (\<exists>w. pf_adjusted f = Sem_word w))"

definition distinct_ids :: "field_ids \<Rightarrow> bool" where
  "distinct_ids I \<longleftrightarrow> distinct [fi_sample_rate I, fi_reference_frequency I, fi_bandwidth I, fi_gain I, fi_discrete_io I]"

lemma chosen_Nil [simp]: "chosen ident [] = None"
  by (simp add: chosen_def)

lemma chosen_snoc [simp]:
  "chosen ident (plan @ [f]) = (if pf_eligible f \<and> pf_id f = ident then Some (pf_adjusted f) else chosen ident plan)"
  by (simp add: chosen_def)

lemma distinct_idsD:
  assumes "distinct_ids I"
  shows "fi_sample_rate I \<noteq> fi_reference_frequency I" "fi_sample_rate I \<noteq> fi_bandwidth I"
     "fi_sample_rate I \<noteq> fi_gain I" "fi_sample_rate I \<noteq> fi_discrete_io I"
     "fi_reference_frequency I \<noteq> fi_bandwidth I" "fi_reference_frequency I \<noteq> fi_gain I"
     "fi_reference_frequency I \<noteq> fi_discrete_io I" "fi_bandwidth I \<noteq> fi_gain I"
     "fi_bandwidth I \<noteq> fi_discrete_io I" "fi_gain I \<noteq> fi_discrete_io I"
  using assms unfolding distinct_ids_def by simp_all

lemma commit_field_step:
  assumes "distinct_ids I"
  shows "commit_field D I (planned_settings D I old plan, planned_action I plan) f =
    (if field_typed I f then Inr (planned_settings D I old (plan @ [f]), planned_action I (plan @ [f])) else Inl bad_variant)"
proof -
  note ne = distinct_idsD [OF assms] distinct_idsD [OF assms, THEN not_sym]
  note defs = commit_field_def field_typed_def planned_settings_def planned_action_def
  consider "\<not> pf_eligible f" | (known) "pf_eligible f" "pf_id f \<in> {fi_sample_rate I, fi_reference_frequency I, fi_bandwidth I,
      fi_gain I, fi_discrete_io I}" | (other) "pf_eligible f" "pf_id f \<notin> {fi_sample_rate I, fi_reference_frequency I,
      fi_bandwidth I, fi_gain I, fi_discrete_io I}" by blast
  then show ?thesis
  proof cases
    case known
    then consider "pf_id f = fi_sample_rate I" | "pf_id f = fi_reference_frequency I" | "pf_id f = fi_bandwidth I"
      | "pf_id f = fi_gain I" | "pf_id f = fi_discrete_io I" by blast
    then show ?thesis
      by cases (cases "pf_adjusted f"; simp add: commit_field_def field_typed_def Let_def ne known(1);
        simp add: planned_settings_def planned_action_def ne known(1))+
  qed (simp_all add: defs Let_def)
qed

lemma planned_Nil: "planned_settings D I old [] = old" "planned_action I [] = None"
  by (simp_all add: planned_settings_def planned_action_def)

lemma commit_fields:
  assumes "distinct_ids I"
  shows "efold (commit_field D I) (old, None) plan =
    (if list_all (field_typed I) plan then Inr (planned_settings D I old plan, planned_action I plan) else Inl bad_variant)"
proof (induction plan rule: rev_induct)
  case Nil
  then show ?case by (simp add: planned_Nil)
next
  case (snoc f plan)
  then show ?case by (simp add: efold_append commit_field_step [OF assms])
qed

text \<open>The adapter with new settings, after the stream action.\<close>

definition configured :: "'f radio_settings \<Rightarrow> 'f adapter \<Rightarrow> 'f adapter" where
  "configured s a = a\<lparr>ad_device := (ad_device a)\<lparr>dv_radio := (dv_radio (ad_device a))\<lparr>vr_settings := s\<rparr>\<rparr>\<rparr>"

definition acted :: "u32 option \<Rightarrow> 'f adapter \<Rightarrow> 'f adapter" where
  "acted action a =
    (let d = ad_device a; r = dv_radio d in
     if action = Some 3 then
       a\<lparr>ad_device := d\<lparr>dv_stream := Some \<lparr>rx_address = ad_stream a, rx_active = True\<rparr>,
          dv_radio := r\<lparr>vr_streaming := True, vr_sample_ordinal := 0, vr_phase := vr_initial_phase r\<rparr>\<rparr>\<rparr>
     else if action = Some 2 then
       a\<lparr>ad_device := d\<lparr>dv_stream := Some \<lparr>rx_address = ad_stream a, rx_active = False\<rparr>,
          dv_radio := r\<lparr>vr_streaming := False\<rparr>\<rparr>\<rparr>
     else a)"

lemma configured_ok: "adapter_ok D a \<Longrightarrow> valid_settings D s \<Longrightarrow> adapter_ok D (configured s a)"
  by (auto simp: adapter_ok_def configured_def device_defs)

lemma acted_ok: "adapter_ok D a \<Longrightarrow> adapter_ok D (acted action a)"
  by (auto simp: adapter_ok_def acted_def device_defs Let_def)

lemma activate_acted: "adapter_ok D a \<Longrightarrow> activate S a = Inr (0, acted (Some 3) a)"
  by (simp add: activate_ok acted_def start_radio_def begin_epoch_def Let_def)

lemma deactivate_acted: "adapter_ok D a \<Longrightarrow> deactivate S a = Inr (0, acted (Some 2) a)"
  by (simp add: deactivate_ok acted_def stop_radio_def Let_def)

lemma acted_other: "action \<noteq> Some 3 \<Longrightarrow> action \<noteq> Some 2 \<Longrightarrow> acted action a = a"
  by (simp add: acted_def)

lemma actions_acted:
  assumes "adapter_ok D a"
  shows "(let (ok, a) = stream_action (action = Some 3) (activate S) a in
          if \<not> ok then (failed, a)
          else let (ok, a) = stream_action (action = Some 2) (deactivate S) a in
               if \<not> ok then (failed, a) else (executed, a)) = (executed, acted action a)"
proof -
  consider "action = Some 3" | "action = Some 2" | "action \<noteq> Some 3" "action \<noteq> Some 2" by blast
  then show ?thesis
    by cases (simp_all add: stream_action_def activate_acted [OF assms] deactivate_acted [OF assms] acted_other)
qed

lemma commit_all_or_nothing_eq:
  assumes "adapter_ok D a" and "distinct_ids I"
  shows "commit D S I plan b a =
    (let settings = planned_settings D I (settings_of_device (ad_device a)) plan
     in if list_all (field_typed I) plan \<and> valid_settings D settings
        then (\<lparr>bo_status = Field_executed, bo_actual_time = Some (bd_time b), bo_uncertainty_ps = 0\<rparr>,
              acted (planned_action I plan) (configured settings a))
        else (\<lparr>bo_status = Field_failed, bo_actual_time = None, bo_uncertainty_ps = 0\<rparr>, a))"
proof -
  let ?s = "planned_settings D I (settings_of_device (ad_device a)) plan"
  have apply_eq: "apply_settings D ?s (ad_device a) =
      (if valid_settings D ?s then Inr (ad_device (configured ?s a)) else Inl unsupported_setting)"
    by (simp add: apply_settings_def configure_locked_def configure_radio_def ensure_def configured_def)
  have device_eq: "a\<lparr>ad_device := ad_device (configured ?s a)\<rparr> = configured ?s a"
    by (simp add: configured_def)
  show ?thesis
  proof (cases "list_all (field_typed I) plan \<and> valid_settings D ?s")
    case True
    then show ?thesis
      using actions_acted [OF configured_ok [OF assms(1)], of ?s "planned_action I plan" S]
      unfolding commit_def commit_fields [OF assms(2)] Let_def by (simp add: apply_eq device_eq)
  next
    case False
    then show ?thesis
      unfolding commit_def commit_fields [OF assms(2)] Let_def by (auto simp: apply_eq)
  qed
qed

text \<open>C28. A batch is all or nothing: \<open>commit\<close> executes exactly the plans whose fields carry the right
  kind of value and whose resulting settings the radio supports. It then applies the last
  eligible value of every kind and the last stream action, and reports the boundary's time;
  otherwise it fails and the device is as before.\<close>

theorem commit_all_or_nothing:
  assumes "adapter_ok D a" and "distinct_ids I"
  shows "commit D S I plan b a =
    (let settings = planned_settings D I (settings_of_device (ad_device a)) plan
     in if list_all (field_typed I) plan \<and> valid_settings D settings
        then (\<lparr>bo_status = Field_executed, bo_actual_time = Some (bd_time b), bo_uncertainty_ps = 0\<rparr>,
              acted (planned_action I plan) (configured settings a))
        else (\<lparr>bo_status = Field_failed, bo_actual_time = None, bo_uncertainty_ps = 0\<rparr>, a))"
  using assms by (rule commit_all_or_nothing_eq)

definition example_ids :: field_ids where
  "example_ids = \<lparr>fi_sample_rate = 21, fi_reference_frequency = 27, fi_bandwidth = 29, fi_gain = 23, fi_discrete_io = 11\<rparr>"

definition example_plan :: "planned_field list" where
  "example_plan =
    [\<lparr>pf_id = 23, pf_adjusted = Sem_gain 128 0, pf_eligible = True, pf_time_known = True, pf_ordinal_known = True\<rparr>,
     \<lparr>pf_id = 23, pf_adjusted = Sem_gain 256 0, pf_eligible = True, pf_time_known = True, pf_ordinal_known = True\<rparr>,
     \<lparr>pf_id = 29, pf_adjusted = Sem_other, pf_eligible = False, pf_time_known = True, pf_ordinal_known = True\<rparr>,
     \<lparr>pf_id = 11, pf_adjusted = Sem_word 3, pf_eligible = True, pf_time_known = True, pf_ordinal_known = True\<rparr>]"

definition example_adapter :: "real adapter" where
  "example_adapter = \<lparr>ad_device = \<lparr>dv_radio_id = ''radio-1'', dv_radio = example_radio\<lparr>vr_streaming := False\<rparr>,
     dv_stream = Some \<lparr>rx_address = 7, rx_active = False\<rparr>\<rparr>, ad_stream = 7\<rparr>"

lemma example_adapter_ok: "adapter_ok reals example_adapter"
  by (simp add: adapter_ok_def device_defs example_adapter_def example_radio_def default_settings_valid)

lemma example_ids_distinct: "distinct_ids example_ids"
  by (simp add: distinct_ids_def example_ids_def)

lemma example_plan_typed: "list_all (field_typed example_ids) example_plan"
  by (simp add: field_typed_def example_ids_def example_plan_def)

lemma example_planned:
  "planned_settings reals example_ids (default_settings reals) example_plan = (default_settings reals)\<lparr>rs_gain_db := 2\<rparr>"
  "planned_action example_ids example_plan = Some 3"
  by (simp_all add: planned_settings_def planned_action_def chosen_def example_ids_def example_plan_def default_settings_def)

lemma example_planned_valid:
  "valid_settings reals (planned_settings reals example_ids (settings_of_device (ad_device example_adapter)) example_plan)"
  by (simp add: settings_of_device_def example_adapter_def example_radio_def example_planned)
    (simp add: valid_settings_def default_settings_def)

theorem commit_all_or_nothing_witness:
  "bo_status (fst (commit reals example_soapy example_ids example_plan \<lparr>bd_time = ProtocolTime 5 0, bd_sample_ordinal = 0\<rparr> example_adapter)) = Field_executed"
  unfolding commit_all_or_nothing [OF example_adapter_ok example_ids_distinct] Let_def
  using example_planned_valid example_plan_typed by simp

section \<open>A source of consecutive samples\<close>

text \<open>The values of a number of pulls one after another.\<close>

fun pull_all :: "(nat \<Rightarrow> 's \<Rightarrow> ('p list \<times> 's) option) \<Rightarrow> nat list \<Rightarrow> 's \<Rightarrow> ('p list \<times> 's) option" where
  "pull_all pull [] s = Some ([], s)"
| "pull_all pull (k # ks) s =
     (case pull k s of
        None \<Rightarrow> None
      | Some (vs, s') \<Rightarrow> (case pull_all pull ks s' of None \<Rightarrow> None | Some (us, s'') \<Rightarrow> Some (vs @ us, s'')))"

text \<open>
  What a consumer of samples relies on, at the radio as at the adapter: pulling up to 1024 values
  from a running source gives the next ones and leaves the source at the one after.
\<close>

locale sample_source =
  fixes good :: "'s \<Rightarrow> bool" and upcoming :: "'s \<Rightarrow> nat \<Rightarrow> 'p" and pull :: "nat \<Rightarrow> 's \<Rightarrow> ('p list \<times> 's) option"
  assumes pull_next: "good s \<Longrightarrow> 0 < k \<Longrightarrow> k \<le> 1024 \<Longrightarrow>
    \<exists>s'. pull k s = Some (map (upcoming s) [0..<k], s') \<and> good s' \<and> (\<forall>m. upcoming s' m = upcoming s (k + m))"
begin


lemma pulls:
  "good s \<Longrightarrow> \<forall>k \<in> set ks. 0 < k \<and> k \<le> 1024 \<Longrightarrow>
     \<exists>s'. pull_all pull ks s = Some (map (upcoming s) [0..<sum_list ks], s') \<and> good s' \<and>
       (\<forall>m. upcoming s' m = upcoming s (sum_list ks + m))"
proof (induction ks arbitrary: s)
  case Nil
  then show ?case by simp
next
  case (Cons k ks)
  from pull_next [OF Cons.prems(1), of k] Cons.prems(2) obtain s' where
    s': "pull k s = Some (map (upcoming s) [0..<k], s')" "good s'" "\<forall>m. upcoming s' m = upcoming s (k + m)" by auto
  from Cons.IH [OF s'(2)] Cons.prems(2) obtain s'' where
    s'': "pull_all pull ks s' = Some (map (upcoming s') [0..<sum_list ks], s'')" "good s''"
      "\<forall>m. upcoming s'' m = upcoming s' (sum_list ks + m)" by auto
  show ?case
    using s' s'' by (intro exI [of _ s'']) (simp add: map_upt_add add.assoc)
qed

lemma split_does_not_matter:
  assumes "good s" and "\<forall>k \<in> set ks \<union> set ls. 0 < k \<and> k \<le> 1024" and "sum_list ks = sum_list ls"
  shows "\<exists>vs s' s''. pull_all pull ks s = Some (vs, s') \<and> pull_all pull ls s = Some (vs, s'') \<and> upcoming s' = upcoming s''"
proof -
  from pulls [OF assms(1), of ks] assms(2) obtain s' where
    s': "pull_all pull ks s = Some (map (upcoming s) [0..<sum_list ks], s')" "\<forall>m. upcoming s' m = upcoming s (sum_list ks + m)" by auto
  from pulls [OF assms(1), of ls] assms(2) obtain s'' where
    s'': "pull_all pull ls s = Some (map (upcoming s) [0..<sum_list ls], s'')" "\<forall>m. upcoming s'' m = upcoming s (sum_list ls + m)" by auto
  show ?thesis using s' s'' assms(3) by (simp add: fun_eq_iff)
qed

end

text \<open>The radio is one, read into a buffer of the right size.\<close>

definition radio_pull :: "'f doubles \<Rightarrow> nat \<Rightarrow> 'f virtual_radio \<Rightarrow> (i16 list \<times> 'f virtual_radio) option" where
  "radio_pull D k r = (let (buffer, n, r') = read_radio D (replicate (2 * k) 0) k r in if n = k then Some (buffer, r') else None)"

definition radio_pairs :: "'f doubles \<Rightarrow> nat \<Rightarrow> 'f virtual_radio \<Rightarrow> ((i16 \<times> i16) list \<times> 'f virtual_radio) option" where
  "radio_pairs D k r =
     map_option (\<lambda>(buffer, r'). (map (\<lambda>m. (buffer ! (m * 2), buffer ! Suc (m * 2))) [0..<k], r')) (radio_pull D k r)"

lemma radio_pairs_next:
  assumes "vr_streaming r" "0 < k" "k \<le> 1024"
  shows "radio_pairs D k r = Some (map (\<lambda>m. pair_at D r (phases D r m)) [0..<k], advanced D r k)"
proof -
  have "map (\<lambda>m. (interleave (pairs_from D r k) ! (m * 2), interleave (pairs_from D r k) ! Suc (m * 2))) [0..<k] =
      map (\<lambda>m. pair_at D r (phases D r m)) [0..<k]"
    by (rule map_cong [OF refl]) (auto simp: nth_interleave pairs_from_def)
  then show ?thesis
    using assms by (simp add: radio_pairs_def radio_pull_def read_radio_advanced)
qed

interpretation radio: sample_source vr_streaming "\<lambda>r m. pair_at D r (phases D r m)" "radio_pairs D" for D :: "'f doubles"
  by unfold_locales (auto simp: radio_pairs_next)

text \<open>The adapter is one: the windows it fills while streaming.\<close>

definition window_pull :: "'f doubles \<Rightarrow> soapy \<Rightarrow> nat \<Rightarrow> 'f adapter \<Rightarrow> (('f \<times> 'f) list \<times> 'f adapter) option" where
  "window_pull D S k a =
     (case produce D S k True (\<lambda>_ _. None :: unit option) None a of
        Inr (None, written, a') \<Rightarrow> Some (written, a')
      | _ \<Rightarrow> None)"

interpretation windows: sample_source "\<lambda>a. adapter_ok D a \<and> streaming a"
    "\<lambda>a m. pair_value D (pair_at D (dv_radio (ad_device a)) (phases D (dv_radio (ad_device a)) m))"
    "window_pull D S" for D :: "'f doubles" and S :: soapy
proof unfold_locales
  fix a :: "'f adapter" and k :: nat
  assume a: "adapter_ok D a \<and> streaming a" and k: "0 < k" "k \<le> 1024"
  let ?r = "dv_radio (ad_device a)"
  let ?a = "a\<lparr>ad_device := (ad_device a)\<lparr>dv_radio := advanced D ?r k\<rparr>\<rparr>"
  have "window_pull D S k a = Some (map (\<lambda>m. pair_value D (pair_at D ?r (phases D ?r m))) [0..<k], ?a)"
    using produce_streaming [of D a k "\<lambda>_ _. None :: unit option" S] a k
    by (simp add: window_pull_def pairs_from_def)
  moreover have "adapter_ok D ?a \<and> streaming ?a"
    using a by (auto simp: adapter_ok_def streaming_def device_defs)
  ultimately show "\<exists>a'. window_pull D S k a = Some (map (\<lambda>m. pair_value D (pair_at D ?r (phases D ?r m))) [0..<k], a') \<and>
      (adapter_ok D a' \<and> streaming a') \<and>
      (\<forall>m. pair_value D (pair_at D (dv_radio (ad_device a')) (phases D (dv_radio (ad_device a')) m)) =
         pair_value D (pair_at D ?r (phases D ?r (k + m))))"
    by (intro exI [of _ ?a]) simp
qed

text \<open>C15. After a batch that starts the stream, the windows the adapter fills hold, in order and
  without a gap or a repetition, the tone's samples from the initial phase on under the settings
  of the batch, however the runtime cuts them into windows.\<close>

theorem started_stream_samples:
  assumes "adapter_ok D a" and "distinct_ids I" and c: "commit D S I plan b a = (outcome, a')"
    and "bo_status outcome = Field_executed" and start: "planned_action I plan = Some 3"
    and ks: "\<forall>k \<in> set ks. 0 < k \<and> k \<le> 1024"
  shows "\<exists>a''. let r = dv_radio (ad_device a);
        r' = r\<lparr>vr_settings := planned_settings D I (vr_settings r) plan, vr_phase := vr_initial_phase r\<rparr>
    in pull_all (window_pull D S) ks a' = Some (map (\<lambda>m. pair_value D (pair_at D r' (phases D r' m))) [0..<sum_list ks], a'') \<and>
       vr_sample_ordinal (dv_radio (ad_device a')) = 0"
proof -
  let ?s = "planned_settings D I (settings_of_device (ad_device a)) plan"
  let ?r = "(dv_radio (ad_device a))\<lparr>vr_settings := ?s, vr_phase := vr_initial_phase (dv_radio (ad_device a))\<rparr>"
  have a': "a' = acted (Some 3) (configured ?s a)" and v: "valid_settings D ?s"
    using c assms(4) start unfolding commit_all_or_nothing_eq [OF assms(1,2)] by (auto simp: Let_def split: if_splits)
  have ok: "adapter_ok D a'" "streaming a'"
    using acted_ok [OF configured_ok [OF assms(1) v], of "Some 3"]
    by (simp_all add: a') (simp add: acted_def streaming_def device_active_def Let_def)
  have r': "dv_radio (ad_device a') = ?r\<lparr>vr_streaming := True, vr_sample_ordinal := 0\<rparr>"
    by (simp add: a' acted_def configured_def Let_def)
  have same: "pair_at D (dv_radio (ad_device a')) = pair_at D ?r" "phases D (dv_radio (ad_device a')) = phases D ?r"
    using tone_cong [of "dv_radio (ad_device a')" ?r D] phases_cong [of "dv_radio (ad_device a')" D ?r 0]
    by (simp_all add: r' fun_eq_iff)
  from windows.pulls [of D a' ks S] ok ks obtain a'' where
    "pull_all (window_pull D S) ks a' = Some (map (\<lambda>m. pair_value D (pair_at D ?r (phases D ?r m))) [0..<sum_list ks], a'')"
    unfolding same by auto
  moreover have "vr_sample_ordinal (dv_radio (ad_device a')) = 0" by (simp add: r')
  ultimately show ?thesis by (simp add: Let_def settings_of_device_def)
qed

lemma example_commit:
  "commit reals example_soapy example_ids example_plan \<lparr>bd_time = ProtocolTime 5 0, bd_sample_ordinal = 0\<rparr> example_adapter =
     (\<lparr>bo_status = Field_executed, bo_actual_time = Some (ProtocolTime 5 0), bo_uncertainty_ps = 0\<rparr>,
      acted (Some 3) (configured (planned_settings reals example_ids (settings_of_device (ad_device example_adapter)) example_plan)
        example_adapter))"
  unfolding commit_all_or_nothing_eq [OF example_adapter_ok example_ids_distinct] Let_def
  using example_planned_valid example_plan_typed by (simp add: example_planned)

theorem started_stream_samples_witness:
  "\<exists>a' a'' vs. snd (commit reals example_soapy example_ids example_plan \<lparr>bd_time = ProtocolTime 5 0, bd_sample_ordinal = 0\<rparr>
       example_adapter) = a' \<and>
     pull_all (window_pull reals example_soapy) [1024, 7] a' = Some (vs, a'') \<and> length vs = 1031"
  using started_stream_samples [OF example_adapter_ok example_ids_distinct example_commit, of "[1024, 7]"]
  by (simp add: example_commit example_planned Let_def) (elim exE conjE, rule exI, rule exI, rule conjI, assumption, simp)

end
