(* ===== verification/Signal.thy ===== *)
theory Signal
  imports RadioAdapter
begin

text \<open>
  From the radio to the detector: the samples the virtual radio produces are a tone with a
  quantization error, the power spectrum of a window of them has its peak in the tone's
  bin, and the detector therefore reports the frequency the radio was built for.
\<close>

text \<open>The complex sample of a 16-bit pair, as \<open>consume\<close> in \<open>apps/udp_pipeline.cpp\<close> makes it.\<close>

definition wire_sample :: "i16 \<times> i16 \<Rightarrow> complex" where
  "wire_sample p = Complex (real_of_int (sint (fst p)) / 32768) (real_of_int (sint (snd p)) / 32768)"

section \<open>The transform of a disturbed tone\<close>

lemma dft_scale: "dft n (\<lambda>m. w * f m) j = w * dft n f j"
  by (simp add: dft_def sum_distrib_left mult.assoc)

lemma cmod_unit_root [simp]: "cmod (unit_root n ^ k) = 1"
  by (simp add: unit_root_power)

lemma dft_error:
  assumes "\<And>m. m < n \<Longrightarrow> cmod (x m - y m) \<le> e"
  shows "cmod (dft n x j - dft n y j) \<le> real n * e"
proof -
  have "dft n x j - dft n y j = (\<Sum>m<n. (x m - y m) * unit_root n ^ (j * m))"
    by (simp add: dft_def sum_subtractf left_diff_distrib)
  also have "cmod \<dots> \<le> (\<Sum>m<n. cmod ((x m - y m) * unit_root n ^ (j * m)))" by (rule norm_sum)
  also have "\<dots> \<le> (\<Sum>m<n. e)" using assms by (intro sum_mono) (simp add: norm_mult)
  finally show ?thesis by simp
qed

lemma cis_whole_turns: "cis (2 * pi * real_of_int z) = 1"
  by (rule cis_multiple_2pi) simp

lemma cis_mod_turns:
  assumes "0 < n" and "q = nat (z mod int n)"
  shows "cis (2 * pi * real_of_int z * real m / real n) = cis (2 * pi * real q * real m / real n)"
proof -
  define t where "t = z div int n"
  have "int q = z - t * int n" using assms by (simp add: t_def minus_div_mult_eq_mod)
  then have z: "real_of_int z = real q + real_of_int t * real n"
    by (metis add.commute diff_add_cancel of_int_add of_int_mult of_int_of_nat_eq)
  have "2 * pi * real_of_int z * real m / real n = 2 * pi * real q * real m / real n + 2 * pi * real_of_int (t * int m)"
    using assms(1) unfolding z by (simp add: field_simps)
  then show ?thesis by (simp only: cis_mult [symmetric] cis_whole_turns mult_1_right)
qed

lemma dft_phased_tone:
  assumes "0 < n" and "j < n" and "q = nat (z mod int n)"
  shows "cmod (dft n (\<lambda>m. complex_of_real a * cis (phase + 2 * pi * (real m * (real_of_int z / real n)))) j) =
    (if j = q then \<bar>a\<bar> * real n else 0)"
proof -
  have q: "q < n" using assms by (simp add: nat_less_iff)
  have "complex_of_real a * cis (phase + 2 * pi * (real m * (real_of_int z / real n))) =
      (complex_of_real a * cis phase) * (complex_of_real 1 * cis (2 * pi * real q * real m / real n))" for m
    unfolding cis_mod_turns [OF assms(1,3), symmetric] by (simp add: cis_mult algebra_simps)
  then have "dft n (\<lambda>m. complex_of_real a * cis (phase + 2 * pi * (real m * (real_of_int z / real n)))) j =
      (complex_of_real a * cis phase) * (if j = q then complex_of_real (1 * real n) else 0)"
    by (simp only: dft_scale [of n "complex_of_real a * cis phase"] dft_tone [OF q assms(2)])
  then show ?thesis by (simp add: norm_mult)
qed

section \<open>The radio's samples\<close>

lemma scale_nonneg:
  assumes "valid_signal reals hz (vr_amplitude r) p"
  shows "0 \<le> tone_scale reals r"
  using assms by (simp add: tone_scale_def valid_signal_def)

lemma in_range:
  fixes c :: real
  assumes "0 \<le> a" "a \<le> 32767" "\<bar>c\<bar> \<le> 1"
  shows "\<not> clips reals (a * c)"
proof -
  have "\<bar>a * c\<bar> \<le> 32767 * 1" unfolding abs_mult using assms by (intro mult_mono) simp_all
  then show ?thesis by (auto simp: clips_def)
qed

lemma sample_error:
  assumes "0 \<le> tone_scale reals r" "tone_scale reals r \<le> 32767"
  shows "cmod (wire_sample (pair_at reals r (angle r m)) -
      complex_of_real (tone_scale reals r / 32768) * cis (angle r m)) \<le> 1 / 32768"
proof -
  let ?a = "tone_scale reals r" and ?p = "pair_at reals r (angle r m)"
  let ?d = "wire_sample ?p - complex_of_real (?a / 32768) * cis (angle r m)"
  have i: "\<bar>real_of_int (sint (fst ?p)) - ?a * cos (angle r m)\<bar> \<le> 1 / 2"
    and q: "\<bar>real_of_int (sint (snd ?p)) - ?a * sin (angle r m)\<bar> \<le> 1 / 2"
    using quantized_near(1,4) in_range [OF assms abs_cos_le_one] in_range [OF assms abs_sin_le_one]
    by (simp_all only: pair_at_def fst_conv snd_conv reals_simps) metis+
  have "Re ?d = (real_of_int (sint (fst ?p)) - ?a * cos (angle r m)) / 32768"
    "Im ?d = (real_of_int (sint (snd ?p)) - ?a * sin (angle r m)) / 32768"
    by (simp_all only: wire_sample_def minus_complex.sel complex.sel times_complex.sel Re_complex_of_real
        Im_complex_of_real cis.sel) (simp_all add: field_simps)
  then have "\<bar>Re ?d\<bar> \<le> 1 / 65536" "\<bar>Im ?d\<bar> \<le> 1 / 65536" using i q by (simp_all only: abs_divide) simp_all
  then show ?thesis using cmod_le [of ?d] by linarith
qed

section \<open>The peak\<close>

text \<open>
  What is asked of the rounding of a power to single precision: on powers up to full scale it
  is finite and not negative, and it keeps apart two powers of which one is at least twice the
  other, down to the power of a tone of one unit.
\<close>

definition good_rounding :: "(real \<Rightarrow> f32) \<Rightarrow> bool" where
  "good_rounding rnd \<longleftrightarrow>
     (\<forall>x. 0 \<le> x \<and> x \<le> 1 \<longrightarrow> f32_isfinite (rnd x) \<and> f32_nonneg (rnd x)) \<and>
     (\<forall>x y. 0 \<le> x \<and> 2 * x \<le> y \<and> (1 / 32768)\<^sup>2 \<le> y \<and> y \<le> 1 \<longrightarrow> f32_key (rnd x) < f32_key (rnd y))"

lemma per_sample: "0 < (n :: nat) \<Longrightarrow> a \<le> b + real n * e \<Longrightarrow> a / real n \<le> b / real n + e"
  by (simp add: field_simps)

lemma window_bins:
  assumes n: "0 < n" "i < n" and q: "q = nat (z mod int n)"
    and tone: "turns r = real_of_int z / real n"
    and scale: "3 \<le> tone_scale reals r" "tone_scale reals r \<le> 32767"
  defines "P j \<equiv> (cmod (dft n (\<lambda>m. map wire_sample (pairs_from reals r n) ! m) j))\<^sup>2 / (real n * real n)"
  shows "q < n" "4 * (1 / 32768)\<^sup>2 \<le> P q" "P q \<le> 1" "i \<noteq> q \<Longrightarrow> P i \<le> (1 / 32768)\<^sup>2"
proof -
  let ?a = "tone_scale reals r / 32768"
  let ?y = "\<lambda>m. complex_of_real ?a * cis (vr_phase r + 2 * pi * (real m * (real_of_int z / real n)))"
  let ?x = "\<lambda>m. map wire_sample (pairs_from reals r n) ! m"
  show qn: "q < n" using n q by (simp add: nat_less_iff)
  have "cmod (?x m - ?y m) \<le> 1 / 32768" if "m < n" for m
    using that sample_error [of r m] scale by (simp add: pairs_from_angle angle_def tone)
  then have e: "cmod (dft n ?x j - dft n ?y j) \<le> real n * (1 / 32768)" for j by (rule dft_error)
  note y = dft_phased_tone [OF n(1) _ q, of _ ?a "vr_phase r"]
  have root: "P j = (cmod (dft n ?x j) / real n)\<^sup>2" for j
    by (simp add: P_def power_divide power2_eq_square)
  have hi: "cmod (dft n ?x j) / real n \<le> cmod (dft n ?y j) / real n + 1 / 32768"
    and lo: "cmod (dft n ?y j) / real n - 1 / 32768 \<le> cmod (dft n ?x j) / real n" for j
  proof -
    have "cmod (dft n ?x j) \<le> cmod (dft n ?y j) + real n * (1 / 32768)"
      using norm_triangle_sub [of "dft n ?x j" "dft n ?y j"] e [of j] by linarith
    then show "cmod (dft n ?x j) / real n \<le> cmod (dft n ?y j) / real n + 1 / 32768"
      by (rule per_sample [OF n(1)])
    have "cmod (dft n ?y j) \<le> cmod (dft n ?x j) + real n * (1 / 32768)"
      using norm_triangle_sub [of "dft n ?y j" "dft n ?x j"] e [of j] by (simp add: norm_minus_commute)
    from per_sample [OF n(1) this]
    show "cmod (dft n ?y j) / real n - 1 / 32768 \<le> cmod (dft n ?x j) / real n" by linarith
  qed
  have peak: "cmod (dft n ?y q) / real n = ?a" using y [OF qn] n(1) scale(1) by simp
  have "2 * (1 / 32768) \<le> cmod (dft n ?x q) / real n" using lo [of q, unfolded peak] scale(1) by linarith
  then have "(2 * (1 / 32768))\<^sup>2 \<le> (cmod (dft n ?x q) / real n)\<^sup>2" by (rule power_mono) simp
  then show "4 * (1 / 32768)\<^sup>2 \<le> P q" unfolding root by (simp add: power2_eq_square)
  have "cmod (dft n ?x q) / real n \<le> 1" using hi [of q, unfolded peak] scale(2) by linarith
  then show "P q \<le> 1" unfolding root by (intro power_le_one) simp_all
  assume "i \<noteq> q"
  then have "cmod (dft n ?x i) / real n \<le> 1 / 32768" using hi [of i] y [OF n(2)] by simp
  then show "P i \<le> (1 / 32768)\<^sup>2" unfolding root by (rule power_mono) simp
qed

lemma tone_on_bin:
  assumes R: "0 < unat (rs_sample_rate_hz (vr_settings r))" and band: "in_band reals r" and h: "n = 2 * h" "0 < h"
    and bin: "(int (unat (vr_signal_hz r)) - int (unat (rs_center_hz (vr_settings r)))) * int n =
        z * int (unat (rs_sample_rate_hz (vr_settings r)))"
  shows "turns r = real_of_int z / real n" "- int h < z" "z < int h"
proof -
  define R where "R = unat (rs_sample_rate_hz (vr_settings r))"
  define S where "S = unat (vr_signal_hz r)"
  define C where "C = unat (rs_center_hz (vr_settings r))"
  have slope: "turns r = (real S - real C) / real R" by (simp add: turns_def S_def C_def R_def)
  have "(real S - real C) * real n = real_of_int z * real R"
    using arg_cong [OF bin, of real_of_int] by (simp add: S_def C_def R_def)
  moreover have "real R * turns r = real S - real C" using R [folded R_def] unfolding slope by simp
  ultimately have "real R * (turns r * real n) = real R * real_of_int z"
    by (simp add: mult.assoc [symmetric] mult.commute)
  then show turns: "turns r = real_of_int z / real n" using R [folded R_def] h by (simp add: eq_divide_eq)
  have "\<bar>real S - real C\<bar> < real R / 2"
    using band by (simp add: in_band_def tone_offset_def S_def C_def R_def)
  then have "\<bar>turns r\<bar> < 1 / 2" using R [folded R_def] unfolding slope by (simp add: abs_divide field_simps)
  then have "\<bar>real_of_int z\<bar> < real h" unfolding turns using h by (simp add: abs_divide field_simps)
  then show "- int h < z" "z < int h" by linarith+
qed

lemma centred_bin:
  assumes h: "n = 2 * h" and z: "- int h < z" "z < int h" and q: "q = nat (z mod int n)"
    and p: "p = (if q < h then q + h else q - h)"
  shows "p < n" "int p = z + int h"
proof -
  have "(z + int n) mod int n = z + int n" if "\<not> 0 \<le> z"
    by (rule mod_pos_pos_trivial) (use that z h in simp_all)
  moreover have "z mod int n = z" if "0 \<le> z"
    by (rule mod_pos_pos_trivial) (use that z h in simp_all)
  ultimately have "z mod int n = (if 0 \<le> z then z else z + int n)" by simp
  then have "int q = (if 0 \<le> z then z else z + int n)" using z h by (simp add: q)
  then show "int p = z + int h" using z h by (simp add: p split: if_splits)
  then show "p < n" using z h by simp
qed

lemma good_roundingD:
  assumes "good_rounding rnd" "0 \<le> x"
  shows "x \<le> 1 \<Longrightarrow> f32_isfinite (rnd x) \<and> f32_nonneg (rnd x)"
    and "x \<le> (1 / 32768)\<^sup>2 \<Longrightarrow> 4 * (1 / 32768)\<^sup>2 \<le> y \<Longrightarrow> y \<le> 1 \<Longrightarrow> f32_key (rnd x) < f32_key (rnd y)"
  using assms by (simp_all add: good_rounding_def power2_eq_square)

text \<open>A window of which one bin has a good part of the power and the others next to none.\<close>

lemma dominant_bin_detected:
  fixes rnd xs
  defines "P n j \<equiv> (cmod (dft n (\<lambda>m. xs ! m) j))\<^sup>2 / (real n * real n)"
  assumes c: "valid_config c" and n: "n = unat (pc_fft_size c)" and xs: "length xs = n" and h: "n = 2 * h"
    and rnd: "good_rounding rnd" and sid: "1 \<le> sid" "sid \<le> 4" and center: "1000000 \<le> center" "center \<le> 6000000000"
    and q: "q < n" "4 * (1 / 32768)\<^sup>2 \<le> P n q" "P n q \<le> 1"
    and others: "\<And>j. j < n \<Longrightarrow> j \<noteq> q \<Longrightarrow> P n j \<le> (1 / 32768)\<^sup>2"
    and p: "p = (if q < h then q + h else q - h)" "p < n"
  obtains s where "power_spectrum (exact rnd) c xs (replicate n 0) = Inr s"
    "sp_fft_size s = pc_fft_size c" "sp_sample_rate_hz s = pc_sample_rate_hz c"
    "detect_frequency (s\<lparr>sp_stream_id := sid, sp_center_hz := center\<rparr>) =
      Inr (Some (bin_frequency (s\<lparr>sp_stream_id := sid, sp_center_hz := center\<rparr>) p))"
proof -
  obtain s where s: "power_spectrum (exact rnd) c xs (replicate n 0) = Inr s"
    and f: "sp_fft_size s = pc_fft_size c" "sp_hop s = hop c" "sp_sample_rate_hz s = pc_sample_rate_hz c"
      "length (sp_gaps s) = n div 8" "length (sp_power s) = n" "\<forall>i < n. \<not> gap_bit (sp_gaps s) i"
    using power_spectrum_Inr [OF c n xs, of "replicate n (0 :: u8)" "exact rnd"] by auto
  have "dft n (\<lambda>m. if replicate n (0 :: u8) ! m \<noteq> 0 then 0 else xs ! m) j = dft n (\<lambda>m. xs ! m) j" for j
    unfolding dft_def by (rule sum.cong) simp_all
  then have bin: "sp_power s ! i = rnd (P n ((i + n div 2) mod n))" if "i < n" for i
    unfolding power_spectrum_dft_bins [OF s n that] P_def by simp
  have shift: "(i + n div 2) mod n = q \<longleftrightarrow> i = p" if "i < n" for i
    unfolding p(1) using q(1) that h by (rule shifted_bin)
  have P0: "0 \<le> P n j" for j by (simp add: P_def)
  have low: "P n ((i + n div 2) mod n) \<le> (1 / 32768)\<^sup>2" if "i < n" "i \<noteq> p" for i
    using others [of "(i + n div 2) mod n"] shift that by simp
  have pq: "sp_power s ! p = rnd (P n q)" using bin [OF p(2)] shift [OF p(2)] by simp
  have "P n ((i + n div 2) mod n) \<le> 1" if "i < n" for i
    using low [OF that] shift [OF that] q(3) by (cases "i = p") (simp_all add: power2_eq_square)
  then have powers: "f32_isfinite v \<and> f32_nonneg v" if "v \<in> set (sp_power s)" for v
    using that f(5) bin good_roundingD(1) [OF rnd P0] by (fastforce simp: in_set_conv_nth)
  let ?s = "s\<lparr>sp_stream_id := sid, sp_center_hz := center\<rparr>"
  have v: "valid_spectrum ?s"
    using c sid center powers f by (auto simp: valid_spectrum_def hop_def unat_div_distrib n not_less)
  have missing: "missing_count ?s = 0" using f by (simp add: missing_count_card n filter_False)
  have pos: "0 < f32_key (sp_power ?s ! p)"
    using good_roundingD [OF rnd, of 0] q pq by (fastforce simp: f32_nonneg_def)
  have rest: "f32_key (sp_power ?s ! i) < f32_key (sp_power ?s ! p)" if "i < unat (sp_fft_size ?s)" "i \<noteq> p" for i
    using good_roundingD(2) [OF rnd P0 low] q bin pq that f(1) by (simp add: n)
  have "detect_frequency ?s = Inr (Some (bin_frequency ?s p))"
    by (rule detect_frequency_unique [OF v missing _ pos rest]) (use p(2) f(1) in \<open>simp_all add: n\<close>)
  with that s f(1,3) show thesis by blast
qed

lemma frequency_on_bin:
  assumes n: "n = unat (sp_fft_size s)" "n = 2 * h" "0 < h" and p: "int p = z + int h"
    and bin: "(S - int (unat (sp_center_hz s))) * int n = z * int (unat (sp_sample_rate_hz s))"
  shows "bin_frequency s p = of_int S"
proof -
  have "bin_frequency s p = of_nat (unat (sp_center_hz s)) +
      (of_nat p - of_nat n / 2) * of_nat (unat (sp_sample_rate_hz s)) / of_nat n"
    by (simp add: bin_frequency_def n(1) del: of_nat_unat)
  also have "(of_nat p - of_nat n / 2 :: rat) = of_int z"
    using arg_cong [OF p, of "of_int :: int \<Rightarrow> rat"] n(2) by simp
  also have "of_int z * of_nat (unat (sp_sample_rate_hz s)) / of_nat n =
      (of_int S - of_nat (unat (sp_center_hz s)) :: rat)"
    using arg_cong [OF bin, of "of_int :: int \<Rightarrow> rat"] n(2,3) by (simp add: field_simps del: of_nat_unat)
  finally show ?thesis by simp
qed


text \<open>C4. The detector finds the radio: when the signal is in band, lies on a bin of the window and is
  neither clipped nor weaker than three units, the window of any \<open>n\<close> consecutive pairs the
  radio makes has a power spectrum from which, with the radio's center frequency, the detector
  reports exactly the frequency the radio was built for, the quantization to 16 bits included.\<close>

theorem radio_signal_detected:
  assumes c: "valid_config c" and rate: "rs_sample_rate_hz (vr_settings r) = pc_sample_rate_hz c"
    and settings: "valid_settings reals (vr_settings r)" and band: "in_band reals r"
    and bin: "(int (unat (vr_signal_hz r)) - int (unat (rs_center_hz (vr_settings r)))) * int (unat (pc_fft_size c)) =
        z * int (unat (pc_sample_rate_hz c))"
    and scale: "3 \<le> tone_scale reals r" "tone_scale reals r \<le> 32767"
    and rnd: "good_rounding rnd" and sid: "1 \<le> sid" "sid \<le> 4"
  shows "\<exists>s. power_spectrum (exact rnd) c (map wire_sample (pairs_from reals r (unat (pc_fft_size c))))
        (replicate (unat (pc_fft_size c)) 0) = Inr s \<and>
      detect_frequency (s\<lparr>sp_stream_id := sid, sp_center_hz := rs_center_hz (vr_settings r)\<rparr>) =
        Inr (Some (of_nat (unat (vr_signal_hz r))))"
proof -
  let ?n = "unat (pc_fft_size c)" and ?C = "rs_center_hz (vr_settings r)"
  obtain k where "?n = 8 * 2 ^ k" using config_size [OF c] by metis
  then obtain h where h: "?n = 2 * h" "0 < h" using that [of "4 * 2 ^ k"] by simp
  define q where "q = nat (z mod int ?n)"
  define p where "p = (if q < h then q + h else q - h)"
  have R: "0 < unat (rs_sample_rate_hz (vr_settings r))"
    using settings by (auto simp: valid_settings_def word_le_nat_alt not_less)
  note tone = tone_on_bin [OF R band h bin [folded rate]]
  note p = centred_bin [OF h(1) tone(2,3) q_def p_def]
  have n: "0 < ?n" using h by simp
  note bins = window_bins [OF n _ q_def tone(1) scale]
  have center: "1000000 \<le> ?C" "?C \<le> 6000000000" using settings by (auto simp: valid_settings_def not_less)
  obtain s where s: "power_spectrum (exact rnd) c (map wire_sample (pairs_from reals r ?n)) (replicate ?n 0) = Inr s"
    and f: "sp_fft_size s = pc_fft_size c" "sp_sample_rate_hz s = pc_sample_rate_hz c"
    and d: "detect_frequency (s\<lparr>sp_stream_id := sid, sp_center_hz := ?C\<rparr>) =
      Inr (Some (bin_frequency (s\<lparr>sp_stream_id := sid, sp_center_hz := ?C\<rparr>) p))"
    using dominant_bin_detected [OF c refl _ h(1) rnd sid center bins(1) [OF n] bins(2) [OF n] bins(3) [OF n] bins(4) p_def p(1)]
    by simp metis
  have "bin_frequency (s\<lparr>sp_stream_id := sid, sp_center_hz := ?C\<rparr>) p = of_int (int (unat (vr_signal_hz r)))"
    by (rule frequency_on_bin [OF _ h p(2)]) (use f bin in \<open>simp_all del: of_nat_unat\<close>)
  with s d show ?thesis by auto
qed

text \<open>A coarse rounding for the example: the number of powers of two a power reaches.\<close>

definition levels :: "real \<Rightarrow> nat set" where
  "levels x = {k. k \<le> 30 \<and> 2 ^ k / 2 ^ 30 \<le> x}"

definition coarse :: "real \<Rightarrow> f32" where
  "coarse x = of_nat (card (levels x))"

lemma levels_bound: "finite (levels x)" "card (levels x) \<le> 31"
proof -
  have "levels x \<subseteq> {..30}" by (auto simp: levels_def)
  then show "finite (levels x)" "card (levels x) \<le> 31"
    using finite_subset card_mono [of "{..30}" "levels x"] by auto
qed

lemma levels_twice:
  assumes "0 \<le> x" "2 * x \<le> y" "1 / 2 ^ 30 \<le> y" "y \<le> 1"
  shows "card (levels x) < card (levels y)"
proof -
  have "insert 0 (Suc ` levels x) \<subseteq> levels y"
  proof (intro insert_subsetI image_subsetI)
    show "0 \<in> levels y" using assms by (simp add: levels_def)
    fix k assume k: "k \<in> levels x"
    then have "2 ^ Suc k / 2 ^ 30 \<le> y" using assms(2) by (simp add: levels_def)
    moreover have "Suc k \<le> 30"
    proof (rule ccontr)
      assume "\<not> Suc k \<le> 30"
      with k have "k = 30" by (simp add: levels_def)
      with calculation assms(4) show False by simp
    qed
    ultimately show "Suc k \<in> levels y" by (simp add: levels_def)
  qed
  then have "card (insert 0 (Suc ` levels x)) \<le> card (levels y)" by (rule card_mono [OF levels_bound(1)])
  moreover have "card (insert 0 (Suc ` levels x)) = Suc (card (levels x))"
    by (subst card_insert_disjoint) (auto simp: levels_bound card_image)
  ultimately show ?thesis by simp
qed

lemma coarse_key: "f32_key (coarse x) = int (card (levels x))" "f32_isfinite (coarse x)"
proof -
  define m where "m = card (levels x)"
  have m: "m < 32" "card (levels x) = m" using levels_bound(2) [of x] by (simp_all add: m_def)
  have "list_all (\<lambda>m. f32_key (of_nat m) = int m \<and> f32_isfinite (of_nat m)) [0..<32]" by code_simp
  with m show "f32_key (coarse x) = int (card (levels x))" "f32_isfinite (coarse x)"
    by (simp_all add: coarse_def list_all_iff)
qed

lemma coarse_good: "good_rounding coarse"
  unfolding good_rounding_def coarse_key f32_nonneg_def using levels_twice by (simp add: coarse_key power2_eq_square)

theorem radio_signal_detected_witness:
  "\<exists>s. power_spectrum (exact coarse) tone_config (map wire_sample (pairs_from reals example_radio 64)) (replicate 64 0) = Inr s \<and>
     detect_frequency (s\<lparr>sp_stream_id := 1, sp_center_hz := 100000000\<rparr>) = Inr (Some 100250000)"
proof -
  have r: "vr_settings example_radio = default_settings reals" "vr_signal_hz example_radio = 100250000"
    by (simp_all add: example_radio_def)
  have band: "in_band reals example_radio"
    by (simp add: in_band_def tone_offset_def r default_settings_def)
  show ?thesis
    using radio_signal_detected [OF tone_config_valid _ _ band _ _ _ coarse_good, of 16 1]
    by (simp add: r default_settings_valid example_tone) (simp add: default_settings_def tone_config_def)
qed

end
