(* ===== verification/RadioTransport.thy ===== *)
theory RadioTransport
  imports Slots Status
begin

text \<open>
  The radio's transport (\<open>src/radio_transport.cpp\<close>): submissions wait in 320 slots, 256 for
  datagrams and the others for the control connection, and one call of \<open>progress\<close> checks
  for staleness, accepts a controller, receives, or writes one submission. Every
  system call's outcome and every reading of the clock is an input of the operation that
  makes it; the runtime library (admission, counters, ingress, framing, codecs) is a
  parameter with its own states.
\<close>

section \<open>Configuration, metrics and the runtime library\<close>

definition data_slots :: nat where
  "data_slots = 256"

definition total_slots :: nat where
  "total_slots = 320"

record radio_config =
  rc_control_host :: string
  rc_control_port :: u16
  rc_data_source_host :: string
  rc_data_host :: string
  rc_data_port :: u16
  rc_sid :: u32
  rc_controller_peer :: u64
  rc_controllee_peer :: u64
  rc_control_queue :: nat
  rc_tcp_send_buffer :: int
  rc_maximum_tcp_write_bytes :: nat
  rc_io_timeout :: nanos
  rc_stale_timeout :: nanos

record radio_metrics =
  tm_accepted_connections :: u64
  tm_rejected_connections :: u64
  tm_received_packets :: u64
  tm_received_bytes :: u64
  tm_transmitted_bytes :: u64
  tm_completed_submissions :: u64
  tm_failed_submissions :: u64
  tm_partial_writes :: u64
  tm_write_retries :: u64

definition no_radio_metrics :: radio_metrics where
  "no_radio_metrics = \<lparr>tm_accepted_connections = 0, tm_rejected_connections = 0, tm_received_packets = 0,
     tm_received_bytes = 0, tm_transmitted_bytes = 0, tm_completed_submissions = 0, tm_failed_submissions = 0,
     tm_partial_writes = 0, tm_write_retries = 0\<rparr>"

section \<open>The transport's state\<close>

text \<open>
  \<open>rt_connected\<close> and \<open>rt_listening\<close> say that the descriptors are open. The last four fields
  record what was accepted, what was published, and the bytes and datagrams the sockets took.
\<close>

record ('y, 'h, 'i, 'f) radio_transport =
  rt_config :: radio_config
  rt_control :: control_slot
  rt_listening :: bool
  rt_connected :: bool
  rt_host :: 'h
  rt_ingress :: "'i option"
  rt_liveness :: 'f
  rt_slots :: "'y slot list"
  rt_local :: "session option"
  rt_remote :: "session option"
  rt_connection :: "u64 option"
  rt_connected_at :: nanos
  rt_input_activity :: nanos
  rt_cursor :: u64
  rt_open :: bool
  rt_accepting :: bool
  rt_progressing :: bool
  rt_pending_status :: bool
  rt_metrics :: radio_metrics
  rt_accepted :: "token list"
  rt_done :: "(token \<times> outcome) list"
  rt_stream :: bytes
  rt_datagrams :: "bytes list"

definition new_radio_transport :: "radio_config \<Rightarrow> control_slot \<Rightarrow> 'h \<Rightarrow> 'i \<Rightarrow> 'f \<Rightarrow> ('y, 'h, 'i, 'f) radio_transport" where
  "new_radio_transport config control host ingress framer =
     \<lparr>rt_config = config, rt_control = control, rt_listening = True, rt_connected = False, rt_host = host,
      rt_ingress = Some ingress, rt_liveness = framer, rt_slots = replicate total_slots empty_slot, rt_local = None,
      rt_remote = None, rt_connection = None, rt_connected_at = 0, rt_input_activity = 0, rt_cursor = 0, rt_open = True,
      rt_accepting = True, rt_progressing = False, rt_pending_status = False, rt_metrics = no_radio_metrics,
      rt_accepted = [], rt_done = [], rt_stream = [], rt_datagrams = []\<rparr>"

section \<open>Recognising status traffic\<close>

definition status_bit :: "status_field \<Rightarrow> u8" where
  "status_bit f = (case f of RF_reference_frequency \<Rightarrow> 1 | Sample_rate \<Rightarrow> 2 | Bandwidth \<Rightarrow> 4 | Gain \<Rightarrow> 8
     | Discrete_io32 \<Rightarrow> 16 | Other_field \<Rightarrow> 0)"

definition is_status :: "('y, 'h, 'i, 'f) runtime \<Rightarrow> bytes \<Rightarrow> bool \<Rightarrow> bool" where
  "is_status R wire reply =
    (if reply
     then (case ru_envelope R wire of
         None \<Rightarrow> False
       | Some e \<Rightarrow> ru_is_command R (en_type e) \<and> en_ack e \<and> \<not> en_cancel e \<and>
           (case en_command e of None \<Rightarrow> False | Some cam \<Rightarrow> cam AND push_bit 18 1 \<noteq> 0))
     else (case ru_packet R wire of
         None \<Rightarrow> False
       | Some (e, ids) \<Rightarrow>
           if \<not> ru_is_command R (en_type e) \<or> en_command e = None \<or> en_ack e \<or> en_cancel e then False
           else (case ru_cam R e of
               None \<Rightarrow> False
             | Some (action, request_s) \<Rightarrow>
                 if action \<noteq> 0 \<or> \<not> request_s \<or> length ids \<noteq> 5 then False
                 else foldl (\<lambda>bits f. bits OR status_bit f) 0 ids = 0x1f)))"

definition is_status_reply :: "('y, 'h, 'i, 'f) runtime \<Rightarrow> bytes list \<Rightarrow> bool" where
  "is_status_reply R segments = (if byte_size segments > 1024 then False else is_status R (concat segments) True)"

section \<open>Completion\<close>

text \<open>\<open>finish\<close> on the slot with an index; \<open>now\<close> is read only for a status reply.\<close>

definition finish :: "('y, 'h, 'i, 'f) runtime \<Rightarrow> nanos \<Rightarrow> nat \<Rightarrow> outcome \<Rightarrow> ('y, 'h, 'i, 'f) radio_transport \<Rightarrow>
    ('y, 'h, 'i, 'f) radio_transport" where
  "finish R now i result t =
    (let sl = rt_slots t ! i; succeeded = (case result of Succeeded n \<Rightarrow> True | Failed_with e \<Rightarrow> False);
         m = rt_metrics t;
         t = t\<lparr>rt_metrics := (if succeeded then m\<lparr>tm_completed_submissions := tm_completed_submissions m + 1\<rparr>
                              else m\<lparr>tm_failed_submissions := tm_failed_submissions m + 1\<rparr>)\<rparr>;
         t = (case rt_connection t of
                None \<Rightarrow> t
              | Some g \<Rightarrow>
                 if sl_status_reply sl \<and> rt_pending_status t \<and> succeeded
                 then t\<lparr>rt_control := fst (observe_liveness (rt_control t) g now), rt_pending_status := False\<rparr> else t)
     in t\<lparr>rt_done := rt_done t @ [((i, sl_generation sl), result)],
          rt_host := (case sl_credit sl of None \<Rightarrow> rt_host t | Some c \<Rightarrow> ru_return R (rt_host t) c),
          rt_slots := (rt_slots t)[i := sl\<lparr>sl_submission := None, sl_credit := None, sl_segment := 0, sl_offset := 0,
             sl_generation := sl_generation sl + 1\<rparr>]\<rparr>)"

definition fail_slot :: "('y, 'h, 'i, 'f) runtime \<Rightarrow> ('y slot \<Rightarrow> bool) \<Rightarrow> ('y, 'h, 'i, 'f) radio_transport \<Rightarrow> nat \<Rightarrow>
    ('y, 'h, 'i, 'f) radio_transport" where
  "fail_slot R p t i =
     (if occupied (rt_slots t ! i) \<and> p (rt_slots t ! i) then finish R 0 i (Failed_with Invalid_state) t else t)"

definition fail_control :: "('y, 'h, 'i, 'f) runtime \<Rightarrow> ('y, 'h, 'i, 'f) radio_transport \<Rightarrow> ('y, 'h, 'i, 'f) radio_transport" where
  "fail_control R t =
    (let t = (if rt_connected t
              then t\<lparr>rt_connected := False, rt_ingress := map_option (ru_disconnect R) (rt_ingress t),
                     rt_liveness := ru_framer_disconnect R (rt_liveness t)\<rparr> else t);
         t = (case rt_connection t of
                None \<Rightarrow> t
              | Some g \<Rightarrow> t\<lparr>rt_control := fst (release (rt_control t) g), rt_connection := None\<rparr>);
         t = t\<lparr>rt_pending_status := False\<rparr>
     in foldl (fail_slot R (\<lambda>sl. \<not> sl_data sl)) t [0..<length (rt_slots t)])"
section \<open>Accepting, receiving and writing\<close>

text \<open>
  \<open>accept\<close>: nothing to accept, an error, or a connection, with whether it could be made
  non-blocking and its send buffer set, and the clock for the acquisition and the connection.
\<close>

datatype accept_outcome =
    Accept_none
  | Accept_failed
  | Accepted bool bool nanos nanos

definition bump_accepted :: "radio_metrics \<Rightarrow> radio_metrics" where
  "bump_accepted m = m\<lparr>tm_accepted_connections := tm_accepted_connections m + 1\<rparr>"

text \<open>What follows the acquisition of the control slot: the connection becomes the controller's.\<close>

definition connect_controller :: "('y, 'h, 'i, 'f) runtime \<Rightarrow> u64 \<Rightarrow> session \<Rightarrow> nanos \<Rightarrow> ('y, 'h, 'i, 'f) radio_transport \<Rightarrow>
    ('y, 'h, 'i, 'f) radio_transport \<times> (vita_error + bool)" where
  "connect_controller R generation remote later t =
    (let t = t\<lparr>rt_connected := True, rt_connection := Some generation, rt_connected_at := later,
               rt_input_activity := later, rt_stream := []\<rparr>
     in case rt_ingress t of
          None \<Rightarrow> (t\<lparr>rt_liveness := ru_framer_reconnect R (rt_liveness t), rt_metrics := bump_accepted (rt_metrics t)\<rparr>, Inr True)
        | Some ingress \<Rightarrow>
           (case ru_reconnect R ingress remote of
              (ingress, Some e) \<Rightarrow> (fail_control R (t\<lparr>rt_ingress := Some ingress\<rparr>), Inl e)
            | (ingress, None) \<Rightarrow>
               (t\<lparr>rt_ingress := Some ingress, rt_liveness := ru_framer_reconnect R (rt_liveness t),
                  rt_metrics := bump_accepted (rt_metrics t)\<rparr>, Inr True)))"

definition accept_controller :: "('y, 'h, 'i, 'f) runtime \<Rightarrow> accept_outcome \<Rightarrow> ('y, 'h, 'i, 'f) radio_transport \<Rightarrow>
    ('y, 'h, 'i, 'f) radio_transport \<times> (vita_error + bool)" where
  "accept_controller R outcome t =
    (if \<not> rt_accepting t \<or> \<not> rt_listening t then (t, Inr False)
     else case outcome of
        Accept_none \<Rightarrow> (t, Inr False)
      | Accept_failed \<Rightarrow> (t, Inl Socket_error)
      | Accepted nonblocking send_buffer now later \<Rightarrow>
         if \<not> nonblocking then (t, Inl Socket_error)
         else if rc_tcp_send_buffer (rt_config t) > 0 \<and> \<not> send_buffer then (t, Inl Socket_error)
         else if rt_connected t
         then (t\<lparr>rt_metrics := (rt_metrics t)\<lparr>tm_rejected_connections := tm_rejected_connections (rt_metrics t) + 1\<rparr>\<rparr>, Inr True)
         else (case acquire (rt_control t) now of
             (control, None) \<Rightarrow> (t\<lparr>rt_control := control\<rparr>, Inr True)
           | (control, Some generation) \<Rightarrow>
             (case rt_remote t of
                None \<Rightarrow> (t\<lparr>rt_control := control\<rparr>, Inr True)
              | Some remote \<Rightarrow> connect_controller R generation remote later (t\<lparr>rt_control := control\<rparr>))))"

definition inspect_liveness :: "('y, 'h, 'i, 'f) runtime \<Rightarrow> ('y, 'h, 'i, 'f) radio_transport \<Rightarrow> bytes \<Rightarrow>
    ('y, 'h, 'i, 'f) radio_transport" where
  "inspect_liveness R t wire = (if is_status R wire False then t\<lparr>rt_pending_status := True\<rparr> else t)"

text \<open>The bytes of one \<open>recv\<close> (at most 2048) go to the ingress and to the framer that looks for status requests.\<close>

definition deliver_input :: "('y, 'h, 'i, 'f) runtime \<Rightarrow> bytes \<Rightarrow> ('y, 'h, 'i, 'f) radio_transport \<Rightarrow>
    ('y, 'h, 'i, 'f) radio_transport \<times> nat option \<times> bool" where
  "deliver_input R input t =
    (let (ingress, delivered) = (case rt_ingress t of None \<Rightarrow> (None, None)
            | Some i \<Rightarrow> (case ru_feed R i input of (i, n) \<Rightarrow> (Some i, n)));
         (framer, packets, observed) = ru_frames R (rt_liveness t) input
     in (foldl (inspect_liveness R) (t\<lparr>rt_ingress := ingress, rt_liveness := framer\<rparr>) packets, delivered, observed))"

definition receive_control :: "('y, 'h, 'i, 'f) runtime \<Rightarrow> recv_outcome \<Rightarrow> ('y, 'h, 'i, 'f) radio_transport \<Rightarrow>
    ('y, 'h, 'i, 'f) radio_transport \<times> (vita_error + bool)" where
  "receive_control R outcome t =
    (if \<not> rt_connected t then (t, Inr False)
     else case outcome of
        Recv_closed \<Rightarrow> (fail_control R t, Inr True)
      | Recv_retry \<Rightarrow> (t, Inr False)
      | Recv_failed \<Rightarrow> (fail_control R t, Inr True)
      | Recv input now \<Rightarrow>
         let m = rt_metrics t;
             t = t\<lparr>rt_metrics := m\<lparr>tm_received_bytes := tm_received_bytes m + of_nat (length input)\<rparr>, rt_input_activity := now\<rparr>
         in (case deliver_input R input t of
              (t, None, observed) \<Rightarrow> (fail_control R t, Inr True)
            | (t, Some n, observed) \<Rightarrow>
               if \<not> observed then (fail_control R t, Inr True)
               else (t\<lparr>rt_metrics := (rt_metrics t)\<lparr>tm_received_packets := tm_received_packets (rt_metrics t) + of_nat n\<rparr>\<rparr>, Inr True)))"

definition write_budget :: "radio_config \<Rightarrow> bool \<Rightarrow> nat" where
  "write_budget config data =
     (if \<not> data \<and> rc_maximum_tcp_write_bytes config \<noteq> 0 then rc_maximum_tcp_write_bytes config else 2 ^ 64 - 1)"

text \<open>What \<open>sendmsg\<close> took goes to the connection or is a datagram.\<close>

definition put_out :: "bool \<Rightarrow> bytes \<Rightarrow> ('y, 'h, 'i, 'f) radio_transport \<Rightarrow> ('y, 'h, 'i, 'f) radio_transport" where
  "put_out data written t =
    (let m = rt_metrics t; t = t\<lparr>rt_metrics := m\<lparr>tm_transmitted_bytes := tm_transmitted_bytes m + of_nat (length written)\<rparr>\<rparr>
     in if data then t\<lparr>rt_datagrams := rt_datagrams t @ [written]\<rparr> else t\<lparr>rt_stream := rt_stream t @ written\<rparr>)"

text \<open>The accounting of a write of the slot with an index.\<close>

definition account :: "('y, 'h, 'i, 'f) runtime \<Rightarrow> nanos \<Rightarrow> nat \<Rightarrow> nat \<Rightarrow> ('y, 'h, 'i, 'f) radio_transport \<Rightarrow>
    ('y, 'h, 'i, 'f) radio_transport" where
  "account R later i sent t =
    (let sl = advance sent (rt_slots t ! i); t = t\<lparr>rt_slots := (rt_slots t)[i := sl]\<rparr>; m = rt_metrics t
     in if sl_segment sl \<noteq> length (storage sl) then t\<lparr>rt_metrics := m\<lparr>tm_partial_writes := tm_partial_writes m + 1\<rparr>\<rparr>
        else finish R later i (Succeeded (byte_size (storage sl))) t)"

text \<open>
  \<open>transmit\<close> on the slot with an index; \<open>now\<close> is read for the deadline and
  \<open>later\<close> by \<open>finish\<close>. \<open>sendmsg\<close> takes at most the bytes it is given.
\<close>

definition transmit :: "('y, 'h, 'i, 'f) runtime \<Rightarrow> nanos \<Rightarrow> send_outcome \<Rightarrow> nanos \<Rightarrow> nat \<Rightarrow> ('y, 'h, 'i, 'f) radio_transport \<Rightarrow>
    ('y, 'h, 'i, 'f) radio_transport \<times> (vita_error + bool)" where
  "transmit R now outcome later i t =
    (let sl = rt_slots t ! i in
     if \<not> occupied sl then (t, Inr False)
     else if now \<ge> sl_deadline sl \<or> (\<not> sl_data sl \<and> \<not> rt_connected t)
     then (finish R later i (Failed_with Invalid_state) t, Inr True)
     else let vectors = gather (write_budget (rt_config t) (sl_data sl)) (sl_offset sl) (drop (sl_segment sl) (storage sl));
              m = rt_metrics t
       in case outcome of
         Send_retry \<Rightarrow> (t\<lparr>rt_metrics := m\<lparr>tm_write_retries := tm_write_retries m + 1\<rparr>\<rparr>, Inr False)
       | Send_failed \<Rightarrow> (if \<not> sl_data sl then fail_control R t else finish R later i (Failed_with Socket_error) t, Inr True)
       | Sent n \<Rightarrow>
           let written = take n (concat vectors); t = put_out (sl_data sl) written t
           in if sl_data sl \<and> length written \<noteq> byte_size (storage sl)
              then (finish R later i (Failed_with Short_output) t, Inr True)
              else (account R later i (length written) t, Inr True))"

record progress_inputs =
  pi_now :: nanos
  pi_accept :: accept_outcome
  pi_recv :: recv_outcome
  pi_deadline :: nanos
  pi_send :: send_outcome
  pi_later :: nanos

text \<open>The staleness check: whether the connection is given up, and the control slot after it.\<close>

definition stale :: "('y, 'h, 'i, 'f) runtime \<Rightarrow> nanos \<Rightarrow> ('y, 'h, 'i, 'f) radio_transport \<Rightarrow> control_slot \<times> bool" where
  "stale R now t =
    (if (case rt_ingress t of None \<Rightarrow> False | Some i \<Rightarrow> ru_stalled R i) \<and>
        now - rt_input_activity t \<ge> rc_io_timeout (rt_config t) then (rt_control t, True)
     else if now - rt_connected_at t \<ge> rc_stale_timeout (rt_config t) \<and> fst (snapshot (rt_control t))
     then release_if_stale (rt_control t) now (rc_stale_timeout (rt_config t))
     else (rt_control t, False))"

definition progress_guarded :: "('y, 'h, 'i, 'f) runtime \<Rightarrow> progress_inputs \<Rightarrow> ('y, 'h, 'i, 'f) radio_transport \<Rightarrow>
    ('y, 'h, 'i, 'f) radio_transport \<times> (vita_error + bool)" where
  "progress_guarded R inp t =
    (let (control, expired) = (if rt_connected t then stale R (pi_now inp) t else (rt_control t, False));
         t = t\<lparr>rt_control := control\<rparr>
     in if expired then (fail_control R t, Inr True)
     else case accept_controller R (pi_accept inp) t of
         (t, Inl e) \<Rightarrow> (t, Inl e)
       | (t, Inr True) \<Rightarrow> (t, Inr True)
       | (t, Inr False) \<Rightarrow>
         (case receive_control R (pi_recv inp) t of
            (t, Inl e) \<Rightarrow> (t, Inl e)
          | (t, Inr True) \<Rightarrow> (t, Inr True)
          | (t, Inr False) \<Rightarrow>
            (case pick (length (rt_slots t)) (rt_cursor t) (rt_slots t) of
               (cursor, None) \<Rightarrow> (t\<lparr>rt_cursor := cursor\<rparr>, Inr False)
             | (cursor, Some i) \<Rightarrow>
                 transmit R (pi_deadline inp) (pi_send inp) (pi_later inp) i (t\<lparr>rt_cursor := cursor\<rparr>))))"

definition progress_next :: "('y, 'h, 'i, 'f) runtime \<Rightarrow> progress_inputs \<Rightarrow> ('y, 'h, 'i, 'f) radio_transport \<Rightarrow>
    ('y, 'h, 'i, 'f) radio_transport \<times> (vita_error + bool)" where
  "progress_next R inp t =
    (if \<not> rt_open t then (t, Inr False)
     else if rt_progressing t then (t, Inl Would_deadlock)
     else case progress_guarded R inp (t\<lparr>rt_progressing := True\<rparr>) of
        (t, r) \<Rightarrow> (t\<lparr>rt_progressing := False\<rparr>, r))"

section \<open>Submitting, associating and closing\<close>

definition send :: "('y, 'h, 'i, 'f) runtime \<Rightarrow> nanos \<Rightarrow> 'y submission \<Rightarrow> ('y, 'h, 'i, 'f) radio_transport \<Rightarrow>
    ('y, 'h, 'i, 'f) radio_transport \<times> (vita_error + token)" where
  "send R now s t =
    (if \<not> rt_open t \<or> rt_local t \<noteq> Some (su_source s) \<or> \<not> su_reserved s then (t, Inl Invalid_state)
     else case ru_inspect R (su_storage s) of
        Inl e \<Rightarrow> (t, Inl e)
      | Inr framing \<Rightarrow>
        let data = (\<not> ru_is_command R (fr_type framing)) in
        if (\<not> data \<and> \<not> rt_connected t) \<or> fr_bytes framing > (if data then 8192 else 1024) \<or>
           ck_sender (su_counter s) \<noteq> se_peer (su_source s) \<or> ck_stream (su_counter s) \<noteq> fr_stream framing \<or>
           ck_type (su_counter s) \<noteq> fr_type framing then (t, Inl Identity_conflict)
        else (case first_free (rt_slots t) (if data then 0 else data_slots)
                (if data then data_slots else data_slots + rc_control_queue (rt_config t)) of
           None \<Rightarrow> (t, Inl Capacity_exhausted)
         | Some i \<Rightarrow>
           if su_completion_credit s \<noteq> 1 \<or> \<not> su_credit_owned s then (t, Inl Invalid_parameter)
           else (let queue = (if data then Data_queue else if fr_cancel framing then Cancellation_queue else Ordinary_queue) in
             (case ru_acquire R (rt_host t) queue of
               Inl e \<Rightarrow> (t, Inl e)
             | Inr host \<Rightarrow>
               (case ru_count R host (su_counter s) (fr_count framing) of
                  Inl e \<Rightarrow> (t\<lparr>rt_host := ru_return R host queue\<rparr>, Inl e)
                | Inr host \<Rightarrow>
                  let sl = rt_slots t ! i;
                      sl = sl\<lparr>sl_submission := Some s, sl_credit := Some queue, sl_segment := 0, sl_offset := 0,
                              sl_deadline := now + rc_io_timeout (rt_config t), sl_data := data,
                              sl_status_reply := (\<not> data \<and> is_status_reply R (su_storage s))\<rparr>
                  in (t\<lparr>rt_host := host, rt_slots := (rt_slots t)[i := sl],
                        rt_accepted := rt_accepted t @ [(i, sl_generation sl)]\<rparr>, Inr (i, sl_generation sl)))))))"

definition pending :: "('y, 'h, 'i, 'f) radio_transport \<Rightarrow> token \<Rightarrow> bool" where
  "pending t tok \<longleftrightarrow> fst tok < length (rt_slots t) \<and> sl_generation (rt_slots t ! fst tok) = snd tok \<and>
     occupied (rt_slots t ! fst tok)"

definition close_admission :: "('y, 'h, 'i, 'f) radio_transport \<Rightarrow> ('y, 'h, 'i, 'f) radio_transport" where
  "close_admission t = t\<lparr>rt_accepting := False, rt_listening := False\<rparr>"

definition associate :: "association list \<Rightarrow> bool \<Rightarrow> ('y, 'h, 'i, 'f) radio_transport \<Rightarrow>
    ('y, 'h, 'i, 'f) radio_transport \<times> (vita_error + unit)" where
  "associate associations commit t =
    (case associations of
       [a] \<Rightarrow>
         if as_sid a \<noteq> rc_sid (rt_config t) \<or> se_peer (as_local a) \<noteq> rc_controllee_peer (rt_config t) \<or>
            se_peer (as_remote a) \<noteq> rc_controller_peer (rt_config t) \<or> se_generation (as_local a) = 0 \<or>
            se_generation (as_local a) \<noteq> se_generation (as_remote a)
         then (t, Inl Identity_conflict)
         else (if commit then t\<lparr>rt_local := Some (as_local a), rt_remote := Some (as_remote a)\<rparr> else t, Inr ())
     | _ \<Rightarrow> (t, Inl Identity_conflict))"

text \<open>The \<open>detach\<close> of the binding the runtime calls, and the one of the class.\<close>

definition binding_detach :: "('y, 'h, 'i, 'f) runtime \<Rightarrow> ('y, 'h, 'i, 'f) radio_transport \<Rightarrow> ('y, 'h, 'i, 'f) radio_transport" where
  "binding_detach R t =
    (fail_control R (t\<lparr>rt_open := False\<rparr>))\<lparr>rt_ingress := None, rt_listening := False\<rparr>"

definition detach :: "('y, 'h, 'i, 'f) runtime \<Rightarrow> ('y, 'h, 'i, 'f) radio_transport \<Rightarrow> ('y, 'h, 'i, 'f) radio_transport" where
  "detach R t =
    (if \<not> rt_open t then t
     else let t = fail_control R (t\<lparr>rt_open := False\<rparr>);
              t = foldl (fail_slot R (\<lambda>sl. True)) t [0..<length (rt_slots t)]
       in t\<lparr>rt_ingress := None, rt_listening := False\<rparr>)"

text \<open>The checks of the factory before any descriptor is opened.\<close>

definition valid_radio_config :: "radio_config \<Rightarrow> bool" where
  "valid_radio_config c \<longleftrightarrow> \<not> (rc_control_host c = [] \<or> rc_data_source_host c = [] \<or> rc_data_host c = [] \<or> rc_sid c = 0 \<or>
     rc_data_port c = 0 \<or> rc_control_queue c = 0 \<or> rc_control_queue c > total_slots - data_slots \<or> rc_tcp_send_buffer c < 0 \<or>
     rc_maximum_tcp_write_bytes c > 4096 \<or> rc_io_timeout c \<le> 0 \<or> rc_io_timeout c > millis 2000 \<or>
     rc_stale_timeout c \<le> 0 \<or> rc_stale_timeout c > millis 5000)"

section \<open>The transport refines the board\<close>

datatype 'y radio_event =
    Progress progress_inputs
  | Submit nanos "'y submission"
  | Associate "association list" bool
  | Close_admission
  | Disconnect
  | Binding_detach
  | Detach

fun radio_step :: "('y, 'h, 'i, 'f) runtime \<Rightarrow> ('y, 'h, 'i, 'f) radio_transport \<Rightarrow> 'y radio_event \<Rightarrow> ('y, 'h, 'i, 'f) radio_transport" where
  "radio_step R t (Progress inp) = fst (progress_next R inp t)"
| "radio_step R t (Submit now s) = fst (send R now s t)"
| "radio_step R t (Associate as commit) = fst (associate as commit t)"
| "radio_step R t Close_admission = close_admission t"
| "radio_step R t Disconnect = fail_control R t"
| "radio_step R t Binding_detach = binding_detach R t"
| "radio_step R t Detach = detach R t"

definition board_of :: "('y, 'h, 'i, 'f) radio_transport \<Rightarrow> board" where
  "board_of t = \<lparr>bd_slots = map (\<lambda>sl. (occupied sl, sl_generation sl)) (rt_slots t), bd_accepted = rt_accepted t, bd_done = rt_done t\<rparr>"

text \<open>
  Datagrams wait in the first 256 slots and control packets in the others; without a
  connection no control packet waits.
\<close>

definition slots_ok :: "bool \<Rightarrow> 'y slot list \<Rightarrow> bool" where
  "slots_ok connected slots \<longleftrightarrow> length slots = total_slots \<and>
     (\<forall>i < total_slots. occupied (slots ! i) \<longrightarrow> sl_data (slots ! i) = (i < data_slots) \<and> (connected \<or> i < data_slots))"

definition linked :: "('y, 'h, 'i, 'f) radio_transport \<Rightarrow> bool" where
  "linked t \<longleftrightarrow> rt_connected t = (rt_connection t \<noteq> None)"

definition radio_inv :: "('y, 'h, 'i, 'f) radio_transport \<Rightarrow> bool" where
  "radio_inv t \<longleftrightarrow> slots_ok (rt_connected t) (rt_slots t) \<and> linked t \<and>
     rc_control_queue (rt_config t) \<le> total_slots - data_slots \<and> (rt_open t \<or> rt_ingress t = None)"

definition radio_ok :: "('y, 'h, 'i, 'f) radio_transport \<Rightarrow> bool" where
  "radio_ok t \<longleftrightarrow> radio_inv t \<and> \<not> rt_progressing t"

lemma finish_fields [simp]:
  "rt_connected (finish R now i r t) = rt_connected t" "rt_connection (finish R now i r t) = rt_connection t"
  "rt_config (finish R now i r t) = rt_config t" "rt_open (finish R now i r t) = rt_open t"
  "rt_ingress (finish R now i r t) = rt_ingress t" "rt_progressing (finish R now i r t) = rt_progressing t"
  "rt_accepted (finish R now i r t) = rt_accepted t" "rt_listening (finish R now i r t) = rt_listening t"
  "rt_done (finish R now i r t) = rt_done t @ [((i, sl_generation (rt_slots t ! i)), r)]"
  "rt_stream (finish R now i r t) = rt_stream t" "rt_remote (finish R now i r t) = rt_remote t"
  "rt_cursor (finish R now i r t) = rt_cursor t" "rt_datagrams (finish R now i r t) = rt_datagrams t"
  "rt_slots (finish R now i r t) = (rt_slots t)[i := cleared (rt_slots t ! i)]"
  by (simp_all add: finish_def cleared_def Let_def split: option.splits)

lemma finish_board:
  "i < length (rt_slots t) \<Longrightarrow> occupied (rt_slots t ! i) \<Longrightarrow> board_step (board_of t) (board_of (finish R now i r t))"
  using board_step.complete [of i "board_of t" "sl_generation (rt_slots t ! i)" r]
  by (simp add: board_of_def map_update)

lemma finish_slots_ok: "slots_ok c (rt_slots t) \<Longrightarrow> slots_ok c (rt_slots (finish R now i r t))"
  by (cases "i < length (rt_slots t)") (auto simp: slots_ok_def nth_list_update split: if_splits)

lemma finish_inv: "radio_inv t \<Longrightarrow> radio_inv (finish R now i r t)"
  using finish_slots_ok [of "rt_connected t" t R now i r] unfolding radio_inv_def linked_def finish_fields(1-6)
  by (elim conjE, intro conjI)

text \<open>Failing the slots that satisfy a condition, one after another.\<close>

lemma fail_slot_fields [simp]:
  "rt_connected (fail_slot R p t i) = rt_connected t" "rt_connection (fail_slot R p t i) = rt_connection t"
  "rt_config (fail_slot R p t i) = rt_config t" "rt_open (fail_slot R p t i) = rt_open t"
  "rt_ingress (fail_slot R p t i) = rt_ingress t" "rt_progressing (fail_slot R p t i) = rt_progressing t"
  "length (rt_slots (fail_slot R p t i)) = length (rt_slots t)" "rt_stream (fail_slot R p t i) = rt_stream t"
  "rt_listening (fail_slot R p t i) = rt_listening t" "rt_remote (fail_slot R p t i) = rt_remote t"
  "rt_accepted (fail_slot R p t i) = rt_accepted t"
  by (simp_all add: fail_slot_def)

lemma fail_slots_fields [simp]:
  "rt_connected (foldl (fail_slot R p) t is) = rt_connected t" "rt_connection (foldl (fail_slot R p) t is) = rt_connection t"
  "rt_config (foldl (fail_slot R p) t is) = rt_config t" "rt_open (foldl (fail_slot R p) t is) = rt_open t"
  "rt_ingress (foldl (fail_slot R p) t is) = rt_ingress t" "rt_progressing (foldl (fail_slot R p) t is) = rt_progressing t"
  "length (rt_slots (foldl (fail_slot R p) t is)) = length (rt_slots t)" "rt_stream (foldl (fail_slot R p) t is) = rt_stream t"
  "rt_listening (foldl (fail_slot R p) t is) = rt_listening t" "rt_remote (foldl (fail_slot R p) t is) = rt_remote t"
  "rt_accepted (foldl (fail_slot R p) t is) = rt_accepted t"
  by (induction "is" arbitrary: t) simp_all

lemma fail_slot_other: "i \<noteq> j \<Longrightarrow> rt_slots (fail_slot R p t i) ! j = rt_slots t ! j"
  by (simp add: fail_slot_def)

lemma fail_slots_nth:
  assumes "j < length (rt_slots t)"
  shows "rt_slots (foldl (fail_slot R p) t [0..<n]) ! j =
    (if j < n \<and> occupied (rt_slots t ! j) \<and> p (rt_slots t ! j)
     then cleared (rt_slots t ! j) else rt_slots t ! j)"
proof (induction n)
  case (Suc n)
  define u where "u = foldl (fail_slot R p) t [0..<n]"
  have len: "length (rt_slots u) = length (rt_slots t)" by (simp add: u_def)
  have step: "foldl (fail_slot R p) t [0..<Suc n] = fail_slot R p u n" by (simp add: u_def)
  note IH = Suc [folded u_def]
  show ?case unfolding step
  proof (cases "j = n")
    case True
    then show "rt_slots (fail_slot R p u n) ! j = (if j < Suc n \<and> occupied (rt_slots t ! j) \<and> p (rt_slots t ! j)
        then cleared (rt_slots t ! j) else rt_slots t ! j)"
      using IH assms len by (auto simp: fail_slot_def)
  next
    case False
    then show "rt_slots (fail_slot R p u n) ! j = (if j < Suc n \<and> occupied (rt_slots t ! j) \<and> p (rt_slots t ! j)
        then cleared (rt_slots t ! j) else rt_slots t ! j)"
      using IH fail_slot_other [of n j R p u] by (auto simp: less_Suc_eq)
  qed
qed simp

lemma fail_slots_board:
  "set is \<subseteq> {..<length (rt_slots t)} \<Longrightarrow> board_steps (board_of t) (board_of (foldl (fail_slot R p) t is))"
proof (induction "is" arbitrary: t)
  case (Cons i js)
  have "board_steps (board_of t) (board_of (fail_slot R p t i))"
    using finish_board [of i t R 0 "Failed_with Invalid_state"] Cons.prems by (auto simp: fail_slot_def)
  moreover have "board_steps (board_of (fail_slot R p t i)) (board_of (foldl (fail_slot R p) (fail_slot R p t i) js))"
    by (rule Cons.IH) (use Cons.prems in simp)
  ultimately show ?case by (auto intro: rtranclp_trans)
qed simp

text \<open>The first part of \<open>fail_control\<close>, before the slots are failed.\<close>

definition dropped :: "('y, 'h, 'i, 'f) runtime \<Rightarrow> ('y, 'h, 'i, 'f) radio_transport \<Rightarrow> ('y, 'h, 'i, 'f) radio_transport" where
  "dropped R t =
    (let t = (if rt_connected t
              then t\<lparr>rt_connected := False, rt_ingress := map_option (ru_disconnect R) (rt_ingress t),
                     rt_liveness := ru_framer_disconnect R (rt_liveness t)\<rparr> else t);
         t = (case rt_connection t of
                None \<Rightarrow> t
              | Some g \<Rightarrow> t\<lparr>rt_control := fst (release (rt_control t) g), rt_connection := None\<rparr>)
     in t\<lparr>rt_pending_status := False\<rparr>)"

lemma fail_control_dropped:
  "fail_control R t = foldl (fail_slot R (\<lambda>sl. \<not> sl_data sl)) (dropped R t) [0..<length (rt_slots (dropped R t))]"
  by (simp add: fail_control_def dropped_def Let_def)

lemma dropped_fields [simp]:
  "rt_slots (dropped R t) = rt_slots t" "\<not> rt_connected (dropped R t)" "rt_connection (dropped R t) = None"
  "rt_config (dropped R t) = rt_config t" "rt_open (dropped R t) = rt_open t" "rt_progressing (dropped R t) = rt_progressing t"
  "rt_ingress (dropped R t) = None \<longleftrightarrow> rt_ingress t = None" "rt_listening (dropped R t) = rt_listening t"
  "rt_stream (dropped R t) = rt_stream t" "rt_accepted (dropped R t) = rt_accepted t" "rt_done (dropped R t) = rt_done t"
  by (simp_all add: dropped_def Let_def split: option.splits)

lemma board_of_dropped [simp]: "board_of (dropped R t) = board_of t"
  by (simp add: board_of_def)

lemma fail_control_board: "board_steps (board_of t) (board_of (fail_control R t))"
  using fail_slots_board [of "[0..<length (rt_slots (dropped R t))]" "dropped R t" R "\<lambda>sl. \<not> sl_data sl"]
  unfolding fail_control_dropped by (simp add: atLeast0LessThan)

lemma fail_control_nth:
  "i < length (rt_slots t) \<Longrightarrow> rt_slots (fail_control R t) ! i =
     (if occupied (rt_slots t ! i) \<and> \<not> sl_data (rt_slots t ! i) then cleared (rt_slots t ! i) else rt_slots t ! i)"
  unfolding fail_control_dropped by (simp add: fail_slots_nth)

lemma fail_control_fields [simp]:
  "length (rt_slots (fail_control R t)) = length (rt_slots t)" "\<not> rt_connected (fail_control R t)" "rt_connection (fail_control R t) = None"
  "rt_config (fail_control R t) = rt_config t" "rt_open (fail_control R t) = rt_open t" "rt_progressing (fail_control R t) = rt_progressing t"
  "rt_ingress (fail_control R t) = None \<longleftrightarrow> rt_ingress t = None" "rt_listening (fail_control R t) = rt_listening t"
  "rt_stream (fail_control R t) = rt_stream t" "rt_accepted (fail_control R t) = rt_accepted t"
  unfolding fail_control_dropped by simp_all

lemma fail_control_slots: "slots_ok c (rt_slots t) \<Longrightarrow> slots_ok False (rt_slots (fail_control R t))"
  by (auto simp: slots_ok_def fail_control_nth)

lemma fail_control_inv:
  assumes "slots_ok c (rt_slots t)" and "rc_control_queue (rt_config t) \<le> total_slots - data_slots" and "rt_open t \<or> rt_ingress t = None"
  shows "radio_inv (fail_control R t)"
  using fail_control_slots [OF assms(1), of R] assms(2,3) by (simp add: radio_inv_def linked_def)

text \<open>Every operation keeps the invariant and does steps of the board.\<close>

definition refined :: "('y, 'h, 'i, 'f) radio_transport \<Rightarrow> ('y, 'h, 'i, 'f) radio_transport \<Rightarrow> bool" where
  "refined t t' \<longleftrightarrow> radio_inv t' \<and> board_steps (board_of t) (board_of t') \<and> rt_progressing t' = rt_progressing t"

lemma refined_refl: "radio_inv t' \<Longrightarrow> board_of t' = board_of t \<Longrightarrow> rt_progressing t' = rt_progressing t \<Longrightarrow> refined t t'"
  by (simp add: refined_def)

lemma refined_trans: "refined t u \<Longrightarrow> refined u v \<Longrightarrow> refined t v"
  by (auto simp: refined_def intro: rtranclp_trans)

lemma refined_fail_control: "radio_inv t \<Longrightarrow> refined t (fail_control R t)"
proof -
  assume "radio_inv t"
  then have "radio_inv (fail_control R t)"
    by (intro fail_control_inv [of "rt_connected t"]) (simp_all add: radio_inv_def)
  then show ?thesis using fail_control_board [of t R] by (simp add: refined_def)
qed

lemma refined_finish: "radio_inv t \<Longrightarrow> i < length (rt_slots t) \<Longrightarrow> occupied (rt_slots t ! i) \<Longrightarrow> refined t (finish R now i r t)"
  using finish_inv [of t R now i r] finish_board [of i t R now r] by (simp add: refined_def)

text \<open>An update that touches neither the slots nor what the invariant reads.\<close>

definition inert :: "('y, 'h, 'i, 'f) radio_transport \<Rightarrow> ('y, 'h, 'i, 'f) radio_transport \<Rightarrow> bool" where
  "inert t u \<longleftrightarrow> rt_slots u = rt_slots t \<and> rt_connected u = rt_connected t \<and> rt_connection u = rt_connection t \<and>
     rt_config u = rt_config t \<and> rt_open u = rt_open t \<and> (rt_ingress u = None \<longleftrightarrow> rt_ingress t = None) \<and>
     rt_progressing u = rt_progressing t \<and> rt_accepted u = rt_accepted t \<and> rt_done u = rt_done t"

lemma refined_inert: "radio_inv t \<Longrightarrow> inert t u \<Longrightarrow> refined t u"
  by (auto simp: refined_def inert_def radio_inv_def linked_def board_of_def)

lemma refined_after: "radio_inv t \<Longrightarrow> inert t u \<Longrightarrow> (radio_inv u \<Longrightarrow> refined u v) \<Longrightarrow> refined t v"
  using refined_inert refined_trans refined_def by blast

lemma slots_ok_connected: "slots_ok c slots \<Longrightarrow> slots_ok True slots"
  by (simp add: slots_ok_def)

lemma connect_refined:
  assumes inv: "radio_inv t" and r: "connect_controller R generation remote later t = (t', r)"
  shows "refined t t'"
proof -
  define u where "u = t\<lparr>rt_connected := True, rt_connection := Some generation, rt_connected_at := later, rt_input_activity := later, rt_stream := []\<rparr>"
  have u: "radio_inv u" "board_of u = board_of t" "rt_progressing u = rt_progressing t"
    using inv slots_ok_connected by (auto simp: u_def radio_inv_def linked_def board_of_def)
  then have tu: "refined t u" by (simp add: refined_def)
  have "refined u t'"
  proof (cases "rt_ingress u")
    case None
    then show ?thesis using r u(1) unfolding connect_controller_def u_def [symmetric] Let_def
      by (auto intro!: refined_inert simp: inert_def)
  next
    case (Some ingress)
    obtain ingress' e where e: "ru_reconnect R ingress remote = (ingress', e)" by fastforce
    have i: "inert u (u\<lparr>rt_ingress := Some ingress'\<rparr>)" using Some by (simp add: inert_def)
    show ?thesis
    proof (cases e)
      case None
      then show ?thesis using r u(1) Some e unfolding connect_controller_def u_def [symmetric] Let_def
        by (auto intro!: refined_inert simp: inert_def)
    next
      case (Some x)
      then show ?thesis using r \<open>rt_ingress u = Some ingress\<close> e refined_after [OF u(1) i refined_fail_control]
        unfolding connect_controller_def u_def [symmetric] Let_def by auto
    qed
  qed
  with tu show ?thesis by (rule refined_trans)
qed

lemma accept_refined:
  assumes inv: "radio_inv t" and r: "accept_controller R outcome t = (t', r)"
  shows "refined t t'"
proof (cases outcome)
  case (Accepted nb sb now later)
  obtain control g where a: "acquire (rt_control t) now = (control, g)" by fastforce
  have i: "inert t (t\<lparr>rt_control := control\<rparr>)" by (simp add: inert_def)
  then have c: "radio_inv (t\<lparr>rt_control := control\<rparr>)" using refined_inert [OF inv] by (simp add: refined_def)
  show ?thesis using inv r Accepted a refined_trans [OF refined_inert [OF inv i] connect_refined [OF c]]
    by (auto simp: accept_controller_def inert_def intro!: refined_inert split: if_splits option.splits)
qed (use inv r in \<open>auto simp: accept_controller_def inert_def intro!: refined_inert split: if_splits\<close>)

lemma inspect_inert: "inert t u \<Longrightarrow> inert t (foldl (inspect_liveness R) u packets)"
  by (induction packets arbitrary: u) (auto simp: inspect_liveness_def inert_def)

lemma inert_input: "(x = None) = (rt_ingress t = None) \<Longrightarrow> inert t (t\<lparr>rt_ingress := x, rt_liveness := y\<rparr>)"
  by (simp add: inert_def)

lemma deliver_inert: "deliver_input R input t = (u, d) \<Longrightarrow> inert t u"
  unfolding deliver_input_def
  by (cases "ru_frames R (rt_liveness t) input"; cases "rt_ingress t") (auto intro!: inspect_inert inert_input split: prod.splits)

lemma receive_refined:
  assumes inv: "radio_inv t" and r: "receive_control R outcome t = (t', r)"
  shows "refined t t'"
proof (cases outcome)
  case (Recv input now)
  define t1 where "t1 = t\<lparr>rt_metrics := (rt_metrics t)\<lparr>tm_received_bytes := tm_received_bytes (rt_metrics t) + of_nat (length input)\<rparr>,
      rt_input_activity := now\<rparr>"
  obtain u delivered observed where u: "deliver_input R input t1 = (u, delivered, observed)" by (cases "deliver_input R input t1")
  have i: "inert t u" using deliver_inert [OF u] by (simp add: inert_def t1_def)
  have m: "refined t (u\<lparr>rt_metrics := x\<rparr>)" for x using i by (auto intro!: refined_inert [OF inv] simp: inert_def)
  have f: "refined t (fail_control R u)" by (rule refined_after [OF inv i refined_fail_control])
  show ?thesis
  proof (cases "rt_connected t")
    case True
    have res: "receive_control R outcome t = (case deliver_input R input t1 of
              (t, None, observed) \<Rightarrow> (fail_control R t, Inr True)
            | (t, Some n, observed) \<Rightarrow>
               if \<not> observed then (fail_control R t, Inr True)
               else (t\<lparr>rt_metrics := (rt_metrics t)\<lparr>tm_received_packets := tm_received_packets (rt_metrics t) + of_nat n\<rparr>\<rparr>, Inr True))"
      by (simp add: receive_control_def Recv True t1_def Let_def)
    show ?thesis using r f m unfolding res u by (auto split: option.splits if_splits)
  qed (use inv r in \<open>auto simp: receive_control_def inert_def intro!: refined_inert\<close>)
qed (use inv r in \<open>auto simp: receive_control_def inert_def intro!: refined_inert refined_fail_control split: if_splits\<close>)

lemma refined_move:
  assumes inv: "radio_inv t" and i: "i < length (rt_slots t)"
  shows "refined t (t\<lparr>rt_slots := (rt_slots t)[i := advance n (rt_slots t ! i)]\<rparr>)"
proof -
  have "map (\<lambda>sl. (occupied sl, sl_generation sl)) ((rt_slots t)[i := advance n (rt_slots t ! i)]) =
      map (\<lambda>sl. (occupied sl, sl_generation sl)) (rt_slots t)"
    using i by (intro nth_equalityI) (auto simp: nth_list_update)
  moreover have "slots_ok (rt_connected t) ((rt_slots t)[i := advance n (rt_slots t ! i)])"
    using inv i by (auto simp: radio_inv_def slots_ok_def nth_list_update)
  ultimately show ?thesis using inv by (simp add: refined_def radio_inv_def linked_def board_of_def)
qed

lemma account_refined:
  assumes inv: "radio_inv t" and i: "i < length (rt_slots t)" "occupied (rt_slots t ! i)"
  shows "refined t (account R later i sent t)"
proof -
  define u where "u = t\<lparr>rt_slots := (rt_slots t)[i := advance sent (rt_slots t ! i)]\<rparr>"
  have u: "refined t u" unfolding u_def by (rule refined_move [OF inv i(1)])
  then have inv': "radio_inv u" by (simp add: refined_def)
  have "refined u (finish R later i r u)" for r
    by (rule refined_finish [OF inv']) (use i in \<open>simp_all add: u_def\<close>)
  moreover have "refined u (u\<lparr>rt_metrics := x\<rparr>)" for x
    by (rule refined_inert [OF inv']) (simp add: inert_def)
  ultimately show ?thesis using refined_trans [OF u] by (simp add: account_def Let_def u_def)
qed

lemma put_out_inert: "inert t (put_out data written t)"
  by (simp add: put_out_def inert_def Let_def)

lemma transmit_refined:
  assumes inv: "radio_inv t" and i: "i < length (rt_slots t)" and r: "transmit R now outcome later i t = (t', r)"
  shows "refined t t'"
proof (cases "occupied (rt_slots t ! i)")
  case True
  have f: "refined t (finish R later i x t)" for x by (rule refined_finish [OF inv i True])
  have m: "refined t (t\<lparr>rt_metrics := x\<rparr>)" for x by (rule refined_inert [OF inv]) (simp add: inert_def)
  have put: "rt_slots (put_out data written t) = rt_slots t" for data written by (simp add: put_out_def Let_def)
  have a: "refined t (account R later i n (put_out data written t))" for n data written
    by (rule refined_after [OF inv put_out_inert account_refined]) (use i True in \<open>simp_all add: put\<close>)
  have fo: "refined t (finish R later i x (put_out data written t))" for x data written
    by (rule refined_after [OF inv put_out_inert refined_finish]) (use i True in \<open>simp_all add: put\<close>)
  show ?thesis using r True f m a fo refined_fail_control [OF inv]
    by (auto simp: transmit_def Let_def split: send_outcome.splits if_splits)
qed (use r inv in \<open>auto simp: transmit_def inert_def intro!: refined_inert\<close>)

lemma linked_upd [simp]:
  "linked (t\<lparr>rt_progressing := a\<rparr>) = linked t" "linked (t\<lparr>rt_open := a\<rparr>) = linked t" "linked (t\<lparr>rt_slots := b\<rparr>) = linked t"
  "linked (t\<lparr>rt_host := h, rt_slots := b, rt_accepted := c\<rparr>) = linked t"
  by (simp_all add: linked_def)

lemma refined_cursor: "radio_inv t \<Longrightarrow> refined t (t\<lparr>rt_cursor := c\<rparr>)"
  by (rule refined_inert) (simp_all add: inert_def)

lemma refined_control: "radio_inv t \<Longrightarrow> refined t (t\<lparr>rt_control := c\<rparr>)"
  by (rule refined_inert) (simp_all add: inert_def)

lemma progress_guarded_refined:
  assumes inv: "radio_inv t" and r: "progress_guarded R inp t = (t', r)"
  shows "refined t t'"
proof -
  obtain control expired where s: "(if rt_connected t then stale R (pi_now inp) t else (rt_control t, False)) = (control, expired)"
    by fastforce
  let ?t = "t\<lparr>rt_control := control\<rparr>"
  have t0: "refined t ?t" by (rule refined_control [OF inv])
  then have inv0: "radio_inv ?t" by (simp add: refined_def)
  obtain t1 r1 where a: "accept_controller R (pi_accept inp) ?t = (t1, r1)" by fastforce
  have t1: "refined t t1" by (rule refined_trans [OF t0 accept_refined [OF inv0 a]])
  then have inv1: "radio_inv t1" by (simp add: refined_def)
  obtain t2 r2 where b: "receive_control R (pi_recv inp) t1 = (t2, r2)" by fastforce
  have t2: "refined t t2" by (rule refined_trans [OF t1 receive_refined [OF inv1 b]])
  then have inv2: "radio_inv t2" by (simp add: refined_def)
  obtain c next_slot where p: "pick (length (rt_slots t2)) (rt_cursor t2) (rt_slots t2) = (c, next_slot)" by fastforce
  have t3: "refined t (t2\<lparr>rt_cursor := c\<rparr>)" by (rule refined_trans [OF t2 refined_cursor [OF inv2]])
  then have inv3: "radio_inv (t2\<lparr>rt_cursor := c\<rparr>)" by (simp add: refined_def)
  have len: "length (rt_slots t2) = 320" using inv2 by (simp add: radio_inv_def slots_ok_def total_slots_def)
  have res: "progress_guarded R inp t =
    (if expired then (fail_control R ?t, Inr True)
     else case r1 of Inl e \<Rightarrow> (t1, Inl e) | Inr True \<Rightarrow> (t1, Inr True)
       | Inr False \<Rightarrow> (case r2 of Inl e \<Rightarrow> (t2, Inl e) | Inr True \<Rightarrow> (t2, Inr True)
         | Inr False \<Rightarrow> (case next_slot of None \<Rightarrow> (t2\<lparr>rt_cursor := c\<rparr>, Inr False)
            | Some i \<Rightarrow> transmit R (pi_deadline inp) (pi_send inp) (pi_later inp) i (t2\<lparr>rt_cursor := c\<rparr>))))"
    unfolding progress_guarded_def s Let_def by (simp add: a b p split: sum.splits bool.splits option.splits)
  have f: "refined t (fail_control R ?t)" by (rule refined_trans [OF t0 refined_fail_control [OF inv0]])
  show ?thesis
  proof (cases "\<not> expired \<and> r1 = Inr False \<and> r2 = Inr False \<and> next_slot \<noteq> None")
    case True
    then obtain i where i: "next_slot = Some i" by blast
    with pick_selected [of "rt_slots t2" "length (rt_slots t2)" "rt_cursor t2" c i] p len
    have "i < length (rt_slots (t2\<lparr>rt_cursor := c\<rparr>))" by simp
    from refined_trans [OF t3 transmit_refined [OF inv3 this]] show ?thesis using True i r unfolding res by simp
  next
    case False
    then show ?thesis using r f t1 t2 t3 unfolding res by (auto split: sum.splits bool.splits option.splits if_splits)
  qed
qed

lemma progress_refined:
  assumes "radio_ok t"
  shows "refined t (fst (progress_next R inp t))"
proof -
  have inv: "radio_inv t" and p: "\<not> rt_progressing t" using assms by (auto simp: radio_ok_def)
  obtain t' r where g: "progress_guarded R inp (t\<lparr>rt_progressing := True\<rparr>) = (t', r)" by fastforce
  have "radio_inv (t\<lparr>rt_progressing := True\<rparr>)" using inv by (simp add: radio_inv_def)
  from progress_guarded_refined [OF this g] p have "refined t (t'\<lparr>rt_progressing := False\<rparr>)"
    by (simp add: refined_def radio_inv_def board_of_def)
  moreover have "refined t t" by (rule refined_inert [OF inv]) (simp add: inert_def)
  ultimately show ?thesis using g p by (simp add: progress_next_def)
qed

text \<open>A submission that is accepted, and one that is not.\<close>

lemma send_accepted:
  fixes R :: "('y, 'h, 'i, 'f) runtime"
  assumes "send R now s t = (t', Inr tok)"
  obtains framing :: "'y framing" and i host queue where "rt_open t" and "rt_local t = Some (su_source s)" and "ru_inspect R (su_storage s) = Inr framing"
    and "ru_is_command R (fr_type framing) \<Longrightarrow> rt_connected t"
    and "i < (if ru_is_command R (fr_type framing) then data_slots + rc_control_queue (rt_config t) else data_slots)"
    and "ru_is_command R (fr_type framing) \<Longrightarrow> data_slots \<le> i"
    and "\<not> occupied (rt_slots t ! i)" and "tok = (i, sl_generation (rt_slots t ! i))"
    and "t' = t\<lparr>rt_host := host, rt_slots := (rt_slots t)[i := (rt_slots t ! i)\<lparr>sl_submission := Some s, sl_credit := Some queue, sl_segment := 0, sl_offset := 0,
           sl_deadline := now + rc_io_timeout (rt_config t), sl_data := (\<not> ru_is_command R (fr_type framing)),
           sl_status_reply := (ru_is_command R (fr_type framing) \<and> is_status_reply R (su_storage s))\<rparr>], rt_accepted := rt_accepted t @ [tok]\<rparr>"
proof -
  from assms obtain framing where f: "ru_inspect R (su_storage s) = Inr framing"
    by (auto simp: send_def split: if_splits sum.splits)
  let ?data = "\<not> ru_is_command R (fr_type framing)"
  from assms f obtain i where i: "first_free (rt_slots t) (if ?data then 0 else data_slots)
      (if ?data then data_slots else data_slots + rc_control_queue (rt_config t)) = Some i"
    by (auto simp: send_def Let_def split: if_splits option.splits)
  let ?queue = "if ?data then Data_queue else if fr_cancel framing then Cancellation_queue else Ordinary_queue"
  from assms f i obtain h host where h: "ru_acquire R (rt_host t) ?queue = Inr h" "ru_count R h (su_counter s) (fr_count framing) = Inr host"
    by (auto simp: send_def Let_def split: if_splits sum.splits)
  show thesis
  proof (rule that [where framing = framing and i = i and host = host and queue = ?queue])
    show "rt_open t" "rt_local t = Some (su_source s)"
      using assms by (auto simp: send_def split: if_splits)
    show "rt_connected t" if "ru_is_command R (fr_type framing)"
      using assms f that by (auto simp: send_def Let_def split: if_splits)
    have "t' = t\<lparr>rt_host := host, rt_slots := (rt_slots t)[i := (rt_slots t ! i)\<lparr>sl_submission := Some s, sl_credit := Some ?queue, sl_segment := 0,
           sl_offset := 0, sl_deadline := now + rc_io_timeout (rt_config t), sl_data := ?data,
           sl_status_reply := (\<not> ?data \<and> is_status_reply R (su_storage s))\<rparr>],
         rt_accepted := rt_accepted t @ [(i, sl_generation (rt_slots t ! i))]\<rparr> \<and> tok = (i, sl_generation (rt_slots t ! i))"
      using assms unfolding send_def f Let_def sum.case i option.case h by (auto split: if_splits)
    then show "tok = (i, sl_generation (rt_slots t ! i))"
      "t' = t\<lparr>rt_host := host, rt_slots := (rt_slots t)[i := (rt_slots t ! i)\<lparr>sl_submission := Some s, sl_credit := Some ?queue, sl_segment := 0,
           sl_offset := 0, sl_deadline := now + rc_io_timeout (rt_config t), sl_data := \<not> ru_is_command R (fr_type framing),
           sl_status_reply := ru_is_command R (fr_type framing) \<and> is_status_reply R (su_storage s)\<rparr>],
         rt_accepted := rt_accepted t @ [tok]\<rparr>"
      by auto
  qed (use f first_free_Some [OF i] in \<open>auto split: if_splits\<close>)
qed

lemma send_rejected: "send R now s t = (t', Inl e) \<Longrightarrow> inert t t'"
  by (auto simp: send_def Let_def inert_def split: if_splits sum.splits option.splits)

lemma send_refined:
  fixes R :: "('y, 'h, 'i, 'f) runtime"
  assumes inv: "radio_inv t" and r: "send R now s t = (t', r)"
  shows "refined t t'"
proof (cases r)
  case (Inl e)
  then show ?thesis using send_rejected r refined_inert [OF inv] by blast
next
  case (Inr tok)
  with r have "send R now s t = (t', Inr tok)" by simp
  then obtain framing :: "'y framing" and i host queue where c: "ru_is_command R (fr_type framing) \<Longrightarrow> rt_connected t"
      "ru_is_command R (fr_type framing) \<Longrightarrow> data_slots \<le> i"
    and i: "i < (if ru_is_command R (fr_type framing) then data_slots + rc_control_queue (rt_config t) else data_slots)"
    and free: "\<not> occupied (rt_slots t ! i)" and tok: "tok = (i, sl_generation (rt_slots t ! i))"
    and t': "t' = t\<lparr>rt_host := host, rt_slots := (rt_slots t)[i := (rt_slots t ! i)\<lparr>sl_submission := Some s, sl_credit := Some queue,
        sl_segment := 0, sl_offset := 0, sl_deadline := now + rc_io_timeout (rt_config t), sl_data := (\<not> ru_is_command R (fr_type framing)),
        sl_status_reply := (ru_is_command R (fr_type framing) \<and> is_status_reply R (su_storage s))\<rparr>], rt_accepted := rt_accepted t @ [tok]\<rparr>"
    by (rule send_accepted) blast
  let ?sl = "(rt_slots t ! i)\<lparr>sl_submission := Some s, sl_credit := Some queue, sl_segment := 0, sl_offset := 0,
        sl_deadline := now + rc_io_timeout (rt_config t), sl_data := (\<not> ru_is_command R (fr_type framing)),
        sl_status_reply := (ru_is_command R (fr_type framing) \<and> is_status_reply R (su_storage s))\<rparr>"
  have len: "i < length (rt_slots t)" using i inv
    by (auto simp: radio_inv_def slots_ok_def total_slots_def data_slots_def split: if_splits)
  have occ: "occupied ?sl" by (simp add: occupied_def)
  have "board_step (board_of t) (board_of t')"
    using board_step.place [of i "board_of t" "sl_generation (rt_slots t ! i)"] len free occ unfolding t' tok
    by (simp add: board_of_def map_update)
  moreover have "slots_ok (rt_connected t) ((rt_slots t)[i := ?sl])"
    using inv len c i by (auto simp: radio_inv_def slots_ok_def nth_list_update split: if_splits)
  ultimately show ?thesis using inv unfolding t' by (simp add: refined_def radio_inv_def)
qed

lemma fail_slots_slots:
  "slots_ok c (rt_slots t) \<Longrightarrow> slots_ok c (rt_slots (foldl (fail_slot R p) t [0..<n]))"
  by (auto simp: slots_ok_def fail_slots_nth)

lemma binding_detach_refined: "radio_inv t \<Longrightarrow> refined t (binding_detach R t)"
proof -
  assume inv: "radio_inv t"
  have "slots_ok False (rt_slots (fail_control R (t\<lparr>rt_open := False\<rparr>)))"
    by (rule fail_control_slots [of "rt_connected t"]) (use inv in \<open>simp add: radio_inv_def\<close>)
  then show ?thesis using fail_control_board [of "t\<lparr>rt_open := False\<rparr>" R] inv
    by (simp add: refined_def binding_detach_def radio_inv_def linked_def board_of_def)
qed

lemma detach_refined: "radio_inv t \<Longrightarrow> refined t (detach R t)"
proof (cases "rt_open t")
  case True
  assume inv: "radio_inv t"
  let ?u = "fail_control R (t\<lparr>rt_open := False\<rparr>)"
  have u: "slots_ok False (rt_slots ?u)"
    by (rule fail_control_slots [of "rt_connected t"]) (use inv in \<open>simp add: radio_inv_def\<close>)
  have "board_steps (board_of t) (board_of ?u)" using fail_control_board [of "t\<lparr>rt_open := False\<rparr>" R] by (simp add: board_of_def)
  moreover have "board_steps (board_of ?u) (board_of (foldl (fail_slot R (\<lambda>sl. True)) ?u [0..<length (rt_slots ?u)]))"
    by (rule fail_slots_board) auto
  ultimately have "board_steps (board_of t) (board_of (foldl (fail_slot R (\<lambda>sl. True)) ?u [0..<length (rt_slots ?u)]))"
    by (rule rtranclp_trans)
  then show ?thesis using fail_slots_slots [OF u] inv True
    by (simp add: refined_def detach_def Let_def radio_inv_def linked_def board_of_def)
next
  case False
  assume "radio_inv t"
  then show ?thesis using False by (auto simp: detach_def inert_def intro: refined_inert)
qed

lemma radio_step_refined:
  assumes "radio_ok t"
  shows "refined t (radio_step R t e)"
proof -
  have inv: "radio_inv t" using assms by (simp add: radio_ok_def)
  show ?thesis
  proof (cases e)
    case (Progress inp)
    then show ?thesis using progress_refined [OF assms] by simp
  next
    case (Submit now s)
    then show ?thesis using send_refined [OF inv, of R now s] by (cases "send R now s t") simp
  next
    case (Associate as commit)
    then show ?thesis using inv by (auto simp: associate_def inert_def intro!: refined_inert split: list.splits)
  next
    case Close_admission
    then show ?thesis using inv by (auto simp: close_admission_def inert_def intro!: refined_inert)
  next
    case Disconnect
    then show ?thesis using refined_fail_control [OF inv] by simp
  next
    case Binding_detach
    then show ?thesis using binding_detach_refined [OF inv] by simp
  next
    case Detach
    then show ?thesis using detach_refined [OF inv] by simp
  qed
qed

lemma radio_step_ok: "radio_ok t \<Longrightarrow> radio_ok (radio_step R t e)"
  using radio_step_refined [of t R e] by (simp add: refined_def radio_ok_def)

interpretation radio: completion_board "radio_step R" board_of radio_ok for R
  by unfold_locales (fact radio_step_ok, fact radio_step_refined [unfolded refined_def, THEN conjunct2, THEN conjunct1])

lemma new_radio_ok: "valid_radio_config config \<Longrightarrow> radio_ok (new_radio_transport config control host ingress framer)"
  by (auto simp: radio_ok_def radio_inv_def slots_ok_def linked_def new_radio_transport_def valid_radio_config_def occupied_def empty_slot_def
      total_slots_def data_slots_def)

lemma new_radio_board: "board_of (new_radio_transport config control host ingress framer) = new_board total_slots"
  by (simp add: board_of_def new_radio_transport_def new_board_def occupied_def empty_slot_def)

section \<open>What the transport promises\<close>

lemma pending_iff: "pending t tok \<longleftrightarrow> tok \<in> set (pending_tokens (board_of t))"
  by (cases tok) (auto simp: pending_def set_pending_tokens board_of_def)

lemma radio_board_ok:
  assumes "valid_radio_config config" and "t = foldl (radio_step R) (new_radio_transport config control host ingress framer) es"
    and "length (rt_done t) < 2 ^ 64 - 1"
  shows "board_ok (board_of t)"
proof -
  have "length (bd_done (board_of (foldl (radio_step R) (new_radio_transport config control host ingress framer) es))) < 2 ^ 64 - 1"
    using assms(2,3) by (simp add: board_of_def)
  from radio.run_board_ok [OF new_radio_ok [OF assms(1)] _ this] show ?thesis
    unfolding new_radio_board using new_board_ok assms(2) by blast
qed

text \<open>C7. Exactly one completion: after any sequence of operations of the radio's transport (submissions, progress with any outcome of its
  system calls, associations, disconnections and closing), the tokens handed out are distinct, no token was
  completed twice, and every token handed out either was completed or is still pending, but not both; nothing else
  was completed. (Fewer than 2^64 - 1 completions, after which the generations wrap.)\<close>

theorem radio_completes_once:
  assumes "valid_radio_config config" and "t = foldl (radio_step R) (new_radio_transport config control host ingress framer) es"
    and "length (rt_done t) < 2 ^ 64 - 1"
  shows "distinct (rt_accepted t) \<and> distinct (map fst (rt_done t)) \<and>
    (\<forall>tok. tok \<in> set (rt_accepted t) \<longleftrightarrow> (tok \<in> set (map fst (rt_done t))) \<noteq> pending t tok)"
proof -
  note ok = radio_board_ok [OF assms]
  have acc: "bd_accepted (board_of t) = rt_accepted t" "bd_done (board_of t) = rt_done t" by (simp_all add: board_of_def)
  have set: "set (rt_accepted t) = set (map fst (rt_done t)) \<union> set (pending_tokens (board_of t))"
    and d: "distinct (rt_accepted t)" "distinct (map fst (rt_done t))"
    using ok acc unfolding board_ok_def by metis+
  show ?thesis
    using d set done_not_pending [OF ok] unfolding pending_iff acc by blast
qed

text \<open>Tokens are never reused: once a submission is completed, its token is not pending after any further
  operations, and its completion stays the same.\<close>

lemma radio_token_stays_done:
  assumes "valid_radio_config config" and "t = foldl (radio_step R) (new_radio_transport config control host ingress framer) es"
    and "(tok, r) \<in> set (rt_done t)" and "length (rt_done (foldl (radio_step R) t fs)) < 2 ^ 64 - 1"
  shows "(tok, r) \<in> set (rt_done (foldl (radio_step R) t fs)) \<and> \<not> pending (foldl (radio_step R) t fs) tok"
proof -
  have d: "bd_done (board_of u) = rt_done u" for u :: "('a, 'b, 'c, 'd) radio_transport" by (simp add: board_of_def)
  have "board_ok (board_of (new_radio_transport config control host ingress framer))"
    unfolding new_radio_board by (rule new_board_ok)
  from radio.run_done_stays [OF new_radio_ok [OF assms(1)] this, of R es fs tok r] assms(2-4) show ?thesis
    by (simp add: d pending_iff)
qed

text \<open>Datagrams and control packets never share slots: after any sequence of operations, what waits in the first 256 slots is
  datagrams and what waits in the others is control packets; and without a connection no control packet waits.\<close>

lemma radio_slots_partition:
  assumes "valid_radio_config config" and "t = foldl (radio_step R) (new_radio_transport config control host ingress framer) es"
    and "pending t (i, g)"
  shows "sl_data (rt_slots t ! i) = (i < data_slots) \<and> (data_slots \<le> i \<longrightarrow> rt_connected t) \<and> i < total_slots"
proof -
  have "radio_ok t" using radio.run [OF new_radio_ok [OF assms(1)], of R control host ingress framer es] assms(2) by simp
  then show ?thesis using assms(3) by (auto simp: radio_ok_def radio_inv_def slots_ok_def pending_def)
qed

section \<open>Losing the connection and closing\<close>

lemma fail_control_done:
  "\<exists>ds. rt_done (fail_control R t) = rt_done t @ ds"
  using board_steps_done [OF fail_control_board [of t R]] by (simp add: board_of_def)

text \<open>Losing the connection: every control packet that waits is completed as failed, at once, the control
  slot is released and the connection is closed; the datagrams that wait are untouched.\<close>

lemma disconnect_fails_control_only:
  assumes "radio_ok t"
  shows "let t' = fail_control R t in
    \<not> rt_connected t' \<and> rt_connection t' = None \<and>
    (\<forall>i < total_slots. rt_slots t' ! i = (if occupied (rt_slots t ! i) \<and> data_slots \<le> i then cleared (rt_slots t ! i) else rt_slots t ! i)) \<and>
    (\<forall>g. rt_connection t = Some g \<longrightarrow> cs_active_generation (rt_control t') \<noteq> Some g)"
proof -
  have ok: "slots_ok (rt_connected t) (rt_slots t)" using assms by (simp add: radio_ok_def radio_inv_def)
  have ctl: "rt_control (foldl (fail_slot R p) u is) = rt_control u" if "rt_connection u = None" for u p "is"
    using that by (induction "is" arbitrary: u) (auto simp: fail_slot_def finish_def Let_def)
  have c: "rt_control (fail_control R t) = rt_control (dropped R t)"
    unfolding fail_control_dropped by (rule ctl) simp
  have "cs_active_generation (rt_control (fail_control R t)) \<noteq> Some g" if "rt_connection t = Some g" for g
    using that slot.free_owner [of "rt_control t" g] slot.free_other [of "rt_control t" g] unfolding c
    by (cases "cs_active_generation (rt_control t) = Some g") (auto simp: dropped_def Let_def)
  moreover have "\<forall>i < total_slots. rt_slots (fail_control R t) ! i =
      (if occupied (rt_slots t ! i) \<and> data_slots \<le> i then cleared (rt_slots t ! i) else rt_slots t ! i)"
    using ok by (auto simp: slots_ok_def fail_control_nth not_less)
  ultimately show ?thesis by (simp add: Let_def)
qed

text \<open>A closed transport in which nothing waits does nothing any more.\<close>

lemma fail_slots_none:
  "n \<le> length (rt_slots t) \<Longrightarrow> \<forall>i < length (rt_slots t). \<not> (occupied (rt_slots t ! i) \<and> p (rt_slots t ! i)) \<Longrightarrow>
   foldl (fail_slot R p) t [0..<n] = t"
  by (induction n) (auto simp: fail_slot_def)

lemma dropped_more [simp]: "rt_datagrams (dropped R t) = rt_datagrams t"
  by (simp add: dropped_def Let_def split: option.splits)

definition closed :: "('y, 'h, 'i, 'f) radio_transport \<Rightarrow> ('y, 'h, 'i, 'f) radio_transport \<Rightarrow> bool" where
  "closed t u \<longleftrightarrow> \<not> rt_open u \<and> (\<forall>i < length (rt_slots u). \<not> occupied (rt_slots u ! i)) \<and> rt_accepted u = rt_accepted t \<and>
     rt_stream u = rt_stream t \<and> rt_datagrams u = rt_datagrams t \<and> rt_done u = rt_done t"

lemma closed_step: "closed t u \<Longrightarrow> closed t (radio_step R u e)"
proof -
  assume c: "closed t u"
  have fc: "fail_control R v = dropped R v" if "\<forall>i < length (rt_slots v). \<not> occupied (rt_slots v ! i)" for v
    unfolding fail_control_dropped by (rule fail_slots_none) (use that in simp_all)
  show ?thesis
  proof (cases e)
    case (Associate as commit)
    then show ?thesis using c by (auto simp: associate_def closed_def split: list.splits)
  qed (use c in \<open>auto simp: closed_def progress_next_def send_def close_admission_def fc binding_detach_def detach_def\<close>)
qed

lemma closed_run: "closed t u \<Longrightarrow> closed t (foldl (radio_step R) u es)"
  by (induction es arbitrary: u) (auto intro: closed_step)

lemma fail_slots_more:
  "rt_datagrams (foldl (fail_slot R p) t is) = rt_datagrams t"
  by (induction "is" arbitrary: t) (simp_all add: fail_slot_def)

lemma detach_closed:
  assumes "rt_open t"
  shows "closed (detach R t) (detach R t) \<and> rt_accepted (detach R t) = rt_accepted t \<and> rt_stream (detach R t) = rt_stream t \<and>
    rt_datagrams (detach R t) = rt_datagrams t"
proof -
  let ?u = "fail_control R (t\<lparr>rt_open := False\<rparr>)"
  have "rt_datagrams ?u = rt_datagrams t" unfolding fail_control_dropped fail_slots_more by simp
  then show ?thesis using assms
    by (auto simp: detach_def Let_def closed_def fail_slots_nth fail_slots_more)
qed

text \<open>C26. Closing the transport completes everything: after \<open>detach\<close> nothing is pending, every token ever
  handed out was completed, and whatever happens afterwards, nothing more is accepted, written or completed.\<close>

theorem detach_completes_all:
  assumes "valid_radio_config config" and "t = foldl (radio_step R) (new_radio_transport config control host ingress framer) es"
    and "rt_open t" and "length (rt_done (detach R t)) < 2 ^ 64 - 1"
  shows "let u = foldl (radio_step R) (detach R t) fs in
    (\<forall>tok. \<not> pending u tok) \<and> set (map fst (rt_done u)) = set (rt_accepted t) \<and> rt_accepted u = rt_accepted t \<and>
    rt_stream u = rt_stream t \<and> rt_datagrams u = rt_datagrams t \<and> rt_done u = rt_done (detach R t)"
proof -
  have "detach R t = foldl (radio_step R) (new_radio_transport config control host ingress framer) (es @ [Detach])"
    by (simp add: assms(2))
  note ok = radio_board_ok [OF assms(1) this assms(4)]
  note d = detach_closed [OF assms(3), of R]
  have u: "closed (detach R t) (foldl (radio_step R) (detach R t) fs)" using d closed_run by blast
  have "set (pending_tokens (board_of (detach R t))) = {}"
    using d by (auto simp: closed_def set_pending_tokens board_of_def)
  then have "set (map fst (rt_done (detach R t))) = set (rt_accepted (detach R t))"
    using ok unfolding board_ok_def by (simp add: board_of_def)
  then show ?thesis using u d by (auto simp: Let_def closed_def pending_def)
qed

text \<open>A closed transport that still holds a datagram.\<close>

definition kept :: "nat \<Rightarrow> 'y slot \<Rightarrow> ('y, 'h, 'i, 'f) radio_transport \<Rightarrow> bool" where
  "kept i sl u \<longleftrightarrow> \<not> rt_open u \<and> i < length (rt_slots u) \<and> rt_slots u ! i = sl"

lemma kept_fail_control: "kept i sl u \<Longrightarrow> sl_data sl \<Longrightarrow> kept i sl (fail_control R u)"
  by (simp add: kept_def fail_control_nth)

lemma kept_binding_detach: "kept i sl (u\<lparr>rt_open := False\<rparr>) \<Longrightarrow> sl_data sl \<Longrightarrow> kept i sl (binding_detach R u)"
  using kept_fail_control [of i sl "u\<lparr>rt_open := False\<rparr>" R] by (simp add: kept_def binding_detach_def)

lemma kept_step: "kept i sl u \<Longrightarrow> sl_data sl \<Longrightarrow> kept i sl (radio_step R u e)"
proof (cases e)
  case (Associate as commit)
  assume "kept i sl u"
  then show ?thesis using Associate by (auto simp: kept_def associate_def split: list.splits)
next
  case Binding_detach
  assume "kept i sl u" and d: "sl_data sl"
  then have "kept i sl (u\<lparr>rt_open := False\<rparr>)" by (simp add: kept_def)
  from kept_binding_detach [OF this d] Binding_detach show ?thesis by simp
next
  case Disconnect
  assume "kept i sl u" and d: "sl_data sl"
  then show ?thesis using kept_fail_control Disconnect by simp
qed (auto simp: progress_next_def send_def close_admission_def detach_def kept_def)

lemma kept_run: "kept i sl u \<Longrightarrow> sl_data sl \<Longrightarrow> kept i sl (foldl (radio_step R) u es)"
  by (induction es arbitrary: u) (auto intro: kept_step)

text \<open>The \<open>detach\<close> of the binding completes only the control packets: a datagram that waits stays in its slot,
  and as the transport counts as closed no later operation, the class's own \<open>detach\<close> included, ever
  completes it.\<close>

lemma binding_detach_abandons_data:
  assumes "radio_ok t" and "pending t (i, g)" and "i < data_slots"
  shows "let u = foldl (radio_step R) (binding_detach R t) es in pending u (i, g) \<and> rt_slots u ! i = rt_slots t ! i \<and> \<not> rt_open u"
proof -
  have sl: "sl_data (rt_slots t ! i)" "i < length (rt_slots t)" "occupied (rt_slots t ! i)" "sl_generation (rt_slots t ! i) = g"
    using assms by (auto simp: radio_ok_def radio_inv_def slots_ok_def pending_def data_slots_def total_slots_def)
  have "kept i (rt_slots t ! i) (t\<lparr>rt_open := False\<rparr>)" using sl by (simp add: kept_def)
  from kept_run [OF kept_binding_detach [OF this sl(1)] sl(1)] sl show ?thesis
    by (simp add: kept_def Let_def pending_def)
qed

text \<open>A transport without a connection whose control slot is claimed.\<close>

definition leaked :: "u64 \<Rightarrow> ('y, 'h, 'i, 'f) radio_transport \<Rightarrow> bool" where
  "leaked g u \<longleftrightarrow> \<not> rt_connected u \<and> rt_connection u = None \<and> cs_active_generation (rt_control u) = Some g"

lemma leaked_upd [simp]:
  "leaked g (u\<lparr>rt_cursor := c\<rparr>) = leaked g u" "leaked g (u\<lparr>rt_open := q\<rparr>) = leaked g u" "leaked g (u\<lparr>rt_progressing := p\<rparr>) = leaked g u"
  "leaked g (u\<lparr>rt_slots := b\<rparr>) = leaked g u" "leaked g (u\<lparr>rt_metrics := m\<rparr>) = leaked g u"
  "leaked g (u\<lparr>rt_ingress := i, rt_listening := l\<rparr>) = leaked g u"
  by (simp_all add: leaked_def)

lemma leaked_finish: "leaked g u \<Longrightarrow> leaked g (finish R n i r u)"
  by (simp add: leaked_def finish_def Let_def)

lemma leaked_fail_slots: "leaked g u \<Longrightarrow> leaked g (foldl (fail_slot R p) u is)"
  by (induction "is" arbitrary: u) (auto simp: fail_slot_def intro: leaked_finish)

lemma leaked_fail_control: "leaked g u \<Longrightarrow> leaked g (fail_control R u)"
  unfolding fail_control_dropped by (rule leaked_fail_slots) (simp add: leaked_def dropped_def Let_def)

lemma leaked_accept: "leaked g u \<Longrightarrow> leaked g (fst (accept_controller R a u))"
  using slot.held [of "rt_control u" g] by (cases a) (auto simp: leaked_def accept_controller_def)

lemma leaked_transmit: "leaked g u \<Longrightarrow> leaked g (fst (transmit R n a l i u))"
proof -
  assume u: "leaked g u"
  have put: "leaked g (put_out d w u)" for d w using u by (simp add: leaked_def put_out_def Let_def)
  have acct: "leaked g (account R n i k v)" if "leaked g v" for n i k v
    using that by (simp add: account_def Let_def leaked_finish)
  show ?thesis using u leaked_finish [OF u] leaked_fail_control [OF u] leaked_finish [OF put] acct [OF put]
    by (auto simp: transmit_def Let_def split: send_outcome.splits)
qed

lemma leaked_progress: "leaked g u \<Longrightarrow> leaked g (fst (progress_guarded R inp u))"
proof -
  assume u: "leaked g u"
  then have same: "u\<lparr>rt_control := rt_control u\<rparr> = u" "\<not> rt_connected u" by (simp_all add: leaked_def)
  obtain u1 r1 where a: "accept_controller R (pi_accept inp) u = (u1, r1)" by fastforce
  have l1: "leaked g u1" using leaked_accept [OF u, of R "pi_accept inp"] a by simp
  then have rec: "receive_control R (pi_recv inp) u1 = (u1, Inr False)" by (simp add: leaked_def receive_control_def)
  show ?thesis using l1 leaked_transmit [of g "u1\<lparr>rt_cursor := c\<rparr>" for c]
    by (auto simp: progress_guarded_def same a rec Let_def split: sum.splits bool.splits prod.splits option.splits)
qed

lemma leaked_step: "leaked g u \<Longrightarrow> leaked g (radio_step R u e)"
proof (cases e)
  case (Progress inp)
  assume "leaked g u"
  then show ?thesis using leaked_progress [of g "u\<lparr>rt_progressing := True\<rparr>" R inp] Progress
    by (auto simp: progress_next_def split: prod.splits)
next
  case (Submit n s)
  assume "leaked g u"
  then show ?thesis using Submit by (auto simp: send_def leaked_def Let_def split: sum.splits option.splits)
next
  case (Associate as commit)
  assume "leaked g u"
  then show ?thesis using Associate by (auto simp: leaked_def associate_def split: list.splits)
next
  case Binding_detach
  assume "leaked g u"
  then show ?thesis using leaked_fail_control [of g "u\<lparr>rt_open := False\<rparr>" R] Binding_detach by (simp add: binding_detach_def)
next
  case Detach
  assume "leaked g u"
  then show ?thesis using leaked_fail_slots [OF leaked_fail_control [of g "u\<lparr>rt_open := False\<rparr>" R], of R "\<lambda>sl. True"] Detach
    by (simp add: detach_def Let_def)
qed (auto simp: close_admission_def leaked_def leaked_fail_control [unfolded leaked_def])

lemma leaked_run: "leaked g u \<Longrightarrow> leaked g (foldl (radio_step R) u es)"
  by (induction es arbitrary: u) (auto intro: leaked_step)

text \<open>A connection that arrives before the association takes the control slot without becoming the controller's: the
  slot stays claimed by a generation nobody holds, and whatever happens afterwards no controller is ever connected.\<close>

lemma early_connection_leaks_slot:
  assumes "rt_accepting t" and "rt_listening t" and "linked t" and "\<not> rt_connected t" and "rt_remote t = None"
    and "rt_open t" and "\<not> rt_progressing t" and "acquire (rt_control t) now = (control, Some g)"
  shows "let u = foldl (radio_step R) (fst (progress_next R \<lparr>pi_now = before, pi_accept = Accepted True True now later,
      pi_recv = recv, pi_deadline = deadline, pi_send = sent, pi_later = after\<rparr> t)) es in
    \<not> rt_connected u \<and> cs_active_generation (rt_control u) = Some g"
proof -
  have "leaked g (fst (progress_next R \<lparr>pi_now = before, pi_accept = Accepted True True now later, pi_recv = recv,
      pi_deadline = deadline, pi_send = sent, pi_later = after\<rparr> t))"
    using assms slot.claim_Some [OF assms(8)]
    by (simp add: progress_next_def progress_guarded_def accept_controller_def leaked_def linked_def Let_def)
  from leaked_run [OF this, of R es] show ?thesis by (simp add: leaked_def Let_def)
qed

section \<open>The bytes on the connection\<close>

lemma put_out_fields [simp]:
  "rt_slots (put_out d w t) = rt_slots t" "rt_done (put_out d w t) = rt_done t" "rt_connected (put_out d w t) = rt_connected t"
  "rt_stream (put_out False w t) = rt_stream t @ w" "rt_stream (put_out True w t) = rt_stream t"
  "rt_datagrams (put_out True w t) = rt_datagrams t @ [w]" "rt_datagrams (put_out False w t) = rt_datagrams t"
  "rt_cursor (put_out d w t) = rt_cursor t" "rt_config (put_out d w t) = rt_config t"
  by (simp_all add: put_out_def Let_def)

lemma account_fields [simp]:
  "rt_stream (account R n i k t) = rt_stream t" "rt_datagrams (account R n i k t) = rt_datagrams t"
  "rt_connected (account R n i k t) = rt_connected t" "rt_cursor (account R n i k t) = rt_cursor t"
  "rt_config (account R n i k t) = rt_config t"
  by (simp_all add: account_def Let_def)

text \<open>A write that the deadline and the connection allow.\<close>

definition writable :: "nanos \<Rightarrow> nat \<Rightarrow> ('y, 'h, 'i, 'f) radio_transport \<Rightarrow> bool" where
  "writable now i t \<longleftrightarrow> i < length (rt_slots t) \<and> occupied (rt_slots t ! i) \<and> now < sl_deadline (rt_slots t ! i) \<and>
     (sl_data (rt_slots t ! i) \<or> rt_connected t) \<and> positioned (rt_slots t ! i)"

lemma transmit_sent:
  assumes "writable now i t"
  shows "transmit R now (Sent n) later i t =
    (let sl = rt_slots t ! i; written = take n (take (write_budget (rt_config t) (sl_data sl)) (unsent sl)); t = put_out (sl_data sl) written t
     in if sl_data sl \<and> length written \<noteq> byte_size (storage sl) then (finish R later i (Failed_with Short_output) t, Inr True)
        else (account R later i (length written) t, Inr True))"
  using assms by (auto simp: writable_def transmit_def Let_def gather_position not_le)

text \<open>Writing a control packet: the bytes the connection takes are the first of those of the packet not written yet, appended
  to the stream; the packet is completed, with its size, exactly when none is left, and until then it waits with
  exactly the others.\<close>

lemma control_write_bytes:
  assumes "writable now i t" and "\<not> sl_data (rt_slots t ! i)"
    and "w = take n (take (write_budget (rt_config t) False) (unsent (rt_slots t ! i)))"
  shows "let t' = fst (transmit R now (Sent n) later i t); sl = rt_slots t ! i; sl' = rt_slots t' ! i in
    rt_stream t' = rt_stream t @ w \<and> rt_datagrams t' = rt_datagrams t \<and>
    (if w = unsent sl
     then \<not> pending t' (i, sl_generation sl) \<and> rt_done t' = rt_done t @ [((i, sl_generation sl), Succeeded (byte_size (storage sl)))]
     else rt_done t' = rt_done t \<and> pending t' (i, sl_generation sl) \<and> storage sl' = storage sl \<and> positioned sl' \<and>
       unsent sl' = drop (length w) (unsent sl))"
proof -
  let ?sl = "rt_slots t ! i"
  have len: "i < length (rt_slots t)" and pos: "positioned ?sl" and occ: "occupied ?sl" using assms(1) by (auto simp: writable_def)
  have wl: "length w \<le> length (unsent ?sl)" "w = take (length w) (unsent ?sl)"
    by (simp_all add: assms(3)) (auto simp: min_def)
  note adv = unsent_advance [OF pos wl(1)]
  have t': "fst (transmit R now (Sent n) later i t) = account R later i (length w) (put_out False w t)"
    using transmit_sent [OF assms(1), of R n later] assms(2,3) by (simp add: Let_def)
  have all: "w = unsent ?sl \<longleftrightarrow> sl_segment (advance (length w) ?sl) = length (storage ?sl)"
    using positioned_done [of "advance (length w) ?sl"] adv wl by (metis drop_eq_Nil order_refl storage_advance take_all_iff)
  show ?thesis
  proof (cases "w = unsent ?sl")
    case True
    then show ?thesis using all len unfolding t' Let_def
      by (simp add: account_def Let_def pending_def)
  next
    case False
    then show ?thesis using all len adv occ unfolding t' Let_def
      by (simp add: account_def Let_def pending_def)
  qed
qed

text \<open>Writing a datagram: it is sent whole and completed with its size, or completed as failed; it never waits for a
  second write.\<close>

lemma datagram_write:
  assumes "writable now i t" and "sl_data (rt_slots t ! i)" and "sl_segment (rt_slots t ! i) = 0" and "sl_offset (rt_slots t ! i) = 0"
    and "byte_size (storage (rt_slots t ! i)) < 2 ^ 64"
  shows "let t' = fst (transmit R now (Sent n) later i t); sl = rt_slots t ! i; whole = concat (storage sl) in
    rt_datagrams t' = rt_datagrams t @ [take n whole] \<and> \<not> pending t' (i, sl_generation sl) \<and>
    rt_done t' = rt_done t @ [((i, sl_generation sl), if length whole \<le> n then Succeeded (length whole) else Failed_with Short_output)]"
proof -
  let ?sl = "rt_slots t ! i"
  have len: "i < length (rt_slots t)" and pos: "positioned ?sl" using assms(1) by (auto simp: writable_def)
  have uns: "unsent ?sl = concat (storage ?sl)"
    using assms(3,4) by (cases "storage ?sl") (simp_all add: unsent_def)
  have size: "byte_size (storage ?sl) = length (unsent ?sl)" by (simp add: uns byte_size_concat)
  have w: "take n (take (write_budget (rt_config t) True) (unsent ?sl)) = take n (unsent ?sl)"
    using assms(5) size by (simp add: write_budget_def)
  have tr: "transmit R now (Sent n) later i t =
    (if length (take n (unsent ?sl)) \<noteq> byte_size (storage ?sl)
     then (finish R later i (Failed_with Short_output) (put_out True (take n (unsent ?sl)) t), Inr True)
     else (account R later i (length (take n (unsent ?sl))) (put_out True (take n (unsent ?sl)) t), Inr True))"
    using transmit_sent [OF assms(1), of R n later] by (simp only: Let_def assms(2) w simp_thms)
  show ?thesis
  proof (cases "length (unsent ?sl) \<le> n")
    case True
    have "sl_segment (advance (length (unsent ?sl)) ?sl) = length (storage ?sl)"
      using positioned_done [of "advance (length (unsent ?sl)) ?sl"] unsent_advance [OF pos order_refl] by simp
    then show ?thesis using True tr size len by (simp add: Let_def account_def uns pending_def)
  next
    case False
    then show ?thesis using tr size len by (simp add: Let_def uns pending_def)
  qed
qed

section \<open>The order of writes\<close>

text \<open>A pass of \<open>progress\<close> in which nothing is stale, nothing arrives and nothing is received.\<close>

definition quiet_pass :: "('y, 'h, 'i, 'f) runtime \<Rightarrow> progress_inputs \<Rightarrow> ('y, 'h, 'i, 'f) radio_transport \<Rightarrow> bool" where
  "quiet_pass R inp t \<longleftrightarrow> rt_open t \<and> \<not> rt_progressing t \<and> pi_accept inp = Accept_none \<and> pi_recv inp = Recv_retry \<and>
     (rt_connected t \<longrightarrow> (case rt_ingress t of None \<Rightarrow> True | Some i \<Rightarrow> \<not> ru_stalled R i) \<and>
       pi_now inp - rt_connected_at t < rc_stale_timeout (rt_config t))"

lemma quiet_progress:
  assumes "quiet_pass R inp t" and "pick (length (rt_slots t)) (rt_cursor t) (rt_slots t) = (c, Some i)"
  shows "fst (progress_next R inp t) =
    (fst (transmit R (pi_deadline inp) (pi_send inp) (pi_later inp) i (t\<lparr>rt_progressing := True, rt_cursor := c\<rparr>)))\<lparr>rt_progressing := False\<rparr>"
proof -
  let ?t = "t\<lparr>rt_progressing := True\<rparr>"
  have s: "(if rt_connected ?t then stale R (pi_now inp) ?t else (rt_control ?t, False)) = (rt_control t, False)"
    using assms(1) by (auto simp: quiet_pass_def stale_def split: option.splits)
  have "progress_guarded R inp ?t = transmit R (pi_deadline inp) (pi_send inp) (pi_later inp) i (?t\<lparr>rt_cursor := c\<rparr>)"
    using assms unfolding progress_guarded_def s Let_def
    by (simp add: quiet_pass_def accept_controller_def receive_control_def)
  then show ?thesis using assms(1) by (simp add: progress_next_def quiet_pass_def split: prod.splits)
qed

lemma transmit_partial:
  assumes "writable now i t" and "\<not> sl_data (rt_slots t ! i)"
    and "w = take n (take (write_budget (rt_config t) False) (unsent (rt_slots t ! i)))" and "w \<noteq> unsent (rt_slots t ! i)"
  obtains m where "fst (transmit R now (Sent n) later i t) =
    (put_out False w t)\<lparr>rt_slots := (rt_slots t)[i := advance (length w) (rt_slots t ! i)], rt_metrics := m\<rparr>"
proof -
  let ?sl = "rt_slots t ! i"
  have len: "i < length (rt_slots t)" and pos: "positioned ?sl" using assms(1) by (auto simp: writable_def)
  have wl: "length w \<le> length (unsent ?sl)" "w = take (length w) (unsent ?sl)"
    by (simp_all add: assms(3)) (auto simp: min_def)
  have "sl_segment (advance (length w) ?sl) \<noteq> length (storage ?sl)"
    using positioned_done [of "advance (length w) ?sl"] unsent_advance [OF pos wl(1)] wl assms(4)
    by (metis drop_eq_Nil order_refl storage_advance take_all_iff)
  then show thesis
    using transmit_sent [OF assms(1), of R n later] assms(2,3) len by (intro that) (simp add: Let_def account_def)
qed

lemma writable_upd [simp]:
  "writable now i (t\<lparr>rt_progressing := p, rt_cursor := c\<rparr>) = writable now i t"
  by (simp add: writable_def)

lemma account_other: "i \<noteq> j \<Longrightarrow> rt_slots (account R later j k t) ! i = rt_slots t ! i"
  by (simp add: account_def Let_def)

text \<open>C37. Two control packets that wait together are interleaved on the connection: when the connection takes only the first bytes of
  one, the next pass goes on with another packet, so that its bytes come in the middle of the first one's,
  of which the rest still waits to be written.\<close>

theorem control_packets_interleave:
  assumes ok: "radio_ok t" and "quiet_pass R inp\<^sub>1 t" and "pick total_slots (rt_cursor t) (rt_slots t) = (c, Some i)"
    and "writable (pi_deadline inp\<^sub>1) i t" and "\<not> sl_data (rt_slots t ! i)" and "pi_send inp\<^sub>1 = Sent n"
    and "w = take n (take (write_budget (rt_config t) False) (unsent (rt_slots t ! i)))" and "w \<noteq> unsent (rt_slots t ! i)"
    and "quiet_pass R inp\<^sub>2 (fst (progress_next R inp\<^sub>1 t))" and "pick total_slots c (rt_slots t) = (c', Some j)" and "i \<noteq> j"
    and "writable (pi_deadline inp\<^sub>2) j t" and "\<not> sl_data (rt_slots t ! j)" and "pi_send inp\<^sub>2 = Sent m"
  shows "let t' = fst (progress_next R inp\<^sub>2 (fst (progress_next R inp\<^sub>1 t))) in
    rt_stream t' = rt_stream t @ w @ take m (take (write_budget (rt_config t) False) (unsent (rt_slots t ! j))) \<and>
    pending t' (i, sl_generation (rt_slots t ! i)) \<and> unsent (rt_slots t' ! i) = drop (length w) (unsent (rt_slots t ! i)) \<and>
    unsent (rt_slots t' ! i) \<noteq> []"
proof -
  let ?sl = "rt_slots t ! i"
  have len: "length (rt_slots t) = total_slots" using ok by (simp add: radio_ok_def radio_inv_def slots_ok_def)
  have ij: "i < total_slots" "j < total_slots" "occupied ?sl" "positioned ?sl" using assms(4,12) len by (auto simp: writable_def)
  have wl: "length w \<le> length (unsent ?sl)" "w = take (length w) (unsent ?sl)"
    by (simp_all add: assms(7)) (auto simp: min_def)
  have ne: "drop (length w) (unsent ?sl) \<noteq> []" using assms(8) wl by auto
  obtain m1 where t1: "fst (progress_next R inp\<^sub>1 t) = (put_out False w (t\<lparr>rt_progressing := True, rt_cursor := c\<rparr>))
      \<lparr>rt_slots := (rt_slots t)[i := advance (length w) ?sl], rt_metrics := m1, rt_progressing := False\<rparr>"
  proof -
    have "writable (pi_deadline inp\<^sub>1) i (t\<lparr>rt_progressing := True, rt_cursor := c\<rparr>)" using assms(4) by simp
    then show thesis
    proof (rule transmit_partial [of _ _ _ w n R "pi_later inp\<^sub>1"])
      fix m1 assume "fst (transmit R (pi_deadline inp\<^sub>1) (Sent n) (pi_later inp\<^sub>1) i (t\<lparr>rt_progressing := True, rt_cursor := c\<rparr>)) =
        put_out False w (t\<lparr>rt_progressing := True, rt_cursor := c\<rparr>)
        \<lparr>rt_slots := (rt_slots (t\<lparr>rt_progressing := True, rt_cursor := c\<rparr>))[i := advance (length w) (rt_slots (t\<lparr>rt_progressing := True, rt_cursor := c\<rparr>) ! i)],
         rt_metrics := m1\<rparr>"
      then show thesis using quiet_progress [OF assms(2), of c i] assms(3,6) len by (intro that [of m1]) simp
    qed (use assms(5,7,8) in simp_all)
  qed
  define t1 where "t1 = fst (progress_next R inp\<^sub>1 t)"
  have s1: "rt_slots t1 = (rt_slots t)[i := advance (length w) ?sl]" "rt_cursor t1 = c" "rt_stream t1 = rt_stream t @ w"
    "rt_config t1 = rt_config t" "rt_connected t1 = rt_connected t"
    by (simp_all add: t1_def t1)
  have "map occupied (rt_slots t1) = map occupied (rt_slots t)"
    using len ij by (intro nth_equalityI) (auto simp: s1 nth_list_update)
  then have p2: "pick (length (rt_slots t1)) (rt_cursor t1) (rt_slots t1) = (c', Some j)"
    using pick_cong [of "rt_slots t1" "rt_slots t" total_slots c] assms(10) s1 len by (simp add: total_slots_def)
  have wr: "writable (pi_deadline inp\<^sub>2) j (t1\<lparr>rt_progressing := True, rt_cursor := c'\<rparr>)"
    using assms(11,12) s1 by (simp add: writable_def)
  let ?w2 = "take m (take (write_budget (rt_config t) False) (unsent (rt_slots t ! j)))"
  have t2: "fst (progress_next R inp\<^sub>2 t1) =
      (account R (pi_later inp\<^sub>2) j (length ?w2) (put_out False ?w2 (t1\<lparr>rt_progressing := True, rt_cursor := c'\<rparr>)))\<lparr>rt_progressing := False\<rparr>"
    using quiet_progress [OF assms(9) [folded t1_def] p2] transmit_sent [OF wr, of R m "pi_later inp\<^sub>2"] assms(11,13,14) s1
    by (simp add: Let_def)
  show ?thesis
    using unsent_advance [OF ij(4) wl(1)] ne ij len s1 assms(11) unfolding t1_def [symmetric] t2 Let_def
    by (simp add: account_other pending_def) (simp add: account_def Let_def)
qed

section \<open>Fairness\<close>

text \<open>C27. No pending submission starves: as long as a slot is occupied, it is among the slots picked in any 320 passes that come to
  writing, whatever else is submitted and completed between them (the cursor, a 64-bit count of attempts, not wrapping in
  the meantime).\<close>

theorem every_slot_served:
  assumes "\<forall>slots \<in> set tables. length slots = total_slots \<and> occupied (slots ! i)" and "i < total_slots"
    and "total_slots \<le> length tables" and "unat cursor + 2 * total_slots < 2 ^ 64"
  shows "Some i \<in> set (take total_slots (picks cursor tables))"
  by (rule slots_served [OF assms(1-3)]) (use assms(4) in \<open>simp_all add: total_slots_def\<close>)

section \<open>Examples\<close>

text \<open>A runtime that accepts everything; a packet whose first byte is 1 is a command.\<close>

definition example_runtime :: "(bool, unit, unit, unit) runtime" where
  "example_runtime = \<lparr>ru_inspect = (\<lambda>segments. Inr \<lparr>fr_type = (take 1 (concat segments) = [1]), fr_cancel = False, fr_stream = None,
       fr_count = 0, fr_bytes = byte_size segments\<rparr>),
     ru_is_command = (\<lambda>y. y), ru_acquire = (\<lambda>h r. Inr h), ru_return = (\<lambda>h r. h), ru_count = (\<lambda>h k n. Inr h),
     ru_feed = (\<lambda>i bs. (i, Some 0)), ru_disconnect = (\<lambda>i. i), ru_shutdown = (\<lambda>i. i), ru_reconnect = (\<lambda>i s. (i, None)), ru_stalled = (\<lambda>i. False),
     ru_frames = (\<lambda>f bs. (f, [], True)), ru_framer_disconnect = (\<lambda>f. f), ru_framer_reconnect = (\<lambda>f. f),
     ru_envelope = (\<lambda>bs. None), ru_packet = (\<lambda>bs. None), ru_cam = (\<lambda>e. None)\<rparr>"

definition example_radio_config :: radio_config where
  "example_radio_config = \<lparr>rc_control_host = ''10.0.0.1'', rc_control_port = 5000, rc_data_source_host = ''10.0.0.1'',
     rc_data_host = ''10.0.0.2'', rc_data_port = 4991, rc_sid = 7, rc_controller_peer = 1, rc_controllee_peer = 2,
     rc_control_queue = 64, rc_tcp_send_buffer = 0, rc_maximum_tcp_write_bytes = 0, rc_io_timeout = millis 2000, rc_stale_timeout = millis 5000\<rparr>"

definition example_session :: session where
  "example_session = \<lparr>se_peer = 2, se_generation = 1\<rparr>"

definition example_submission :: "bool \<Rightarrow> bytes list \<Rightarrow> bool submission" where
  "example_submission command segments = \<lparr>su_source = example_session, su_reserved = True,
     su_counter = \<lparr>ck_sender = 2, ck_stream = None, ck_type = command\<rparr>, su_storage = segments, su_completion_credit = 1, su_credit_owned = True\<rparr>"

definition example_start :: "(bool, unit, unit, unit) radio_transport" where
  "example_start = new_radio_transport example_radio_config new_slot () () ()"

definition example_events :: "bool radio_event list" where
  "example_events = [Associate [\<lparr>as_sid = 7, as_local = example_session, as_remote = \<lparr>se_peer = 1, se_generation = 1\<rparr>\<rparr>] True,
     Submit 0 (example_submission False [[9, 8], [7]])]"

definition example_transport :: "(bool, unit, unit, unit) radio_transport" where
  "example_transport = foldl (radio_step example_runtime) example_start example_events"

lemma example_config_ok: "valid_radio_config example_radio_config"
  by (simp add: valid_radio_config_def example_radio_config_def total_slots_def data_slots_def millis_def)

lemma example_first_free: "first_free (replicate total_slots empty_slot) 0 data_slots = Some 0"
  unfolding first_free_def data_slots_def total_slots_def by (subst upt_conv_Cons) (simp_all add: occupied_def empty_slot_def)

definition example_slot :: "bool slot" where
  "example_slot = \<lparr>sl_submission = Some (example_submission False [[9, 8], [7]]), sl_credit = Some Data_queue, sl_segment = 0,
     sl_offset = 0, sl_generation = 1, sl_deadline = millis 2000, sl_data = True, sl_status_reply = False\<rparr>"

lemma example_transport_eq:
  "example_transport = example_start\<lparr>rt_local := Some example_session, rt_remote := Some \<lparr>se_peer = 1, se_generation = 1\<rparr>,
     rt_slots := (replicate total_slots empty_slot)[0 := example_slot], rt_accepted := [(0, 1)]\<rparr>"
proof -
  have e: "replicate total_slots empty_slot ! 0 = empty_slot" by (simp add: total_slots_def)
  show ?thesis
    by (simp add: example_transport_def example_events_def example_start_def associate_def send_def Let_def new_radio_transport_def
        example_radio_config_def example_session_def example_submission_def example_runtime_def byte_size_def example_first_free e)
      (simp add: empty_slot_def example_slot_def example_submission_def example_session_def)
qed

lemma example_transport_state:
  "rt_accepted example_transport = [(0, 1)]" "rt_done example_transport = []" "rt_open example_transport"
  "length (rt_slots example_transport) = total_slots" "rt_slots example_transport ! 0 = example_slot" "pending example_transport (0, 1)"
  by (simp_all add: example_transport_eq example_start_def new_radio_transport_def total_slots_def pending_def)
    (simp add: example_slot_def occupied_def)

theorem radio_completes_once_witness:
  "distinct (rt_accepted example_transport) \<and> distinct (map fst (rt_done example_transport)) \<and>
    (\<forall>tok. tok \<in> set (rt_accepted example_transport) \<longleftrightarrow> (tok \<in> set (map fst (rt_done example_transport))) \<noteq> pending example_transport tok)"
  by (rule radio_completes_once [OF example_config_ok, of _ example_runtime new_slot "()" "()" "()" example_events])
    (simp_all add: example_transport_state, simp add: example_transport_def example_start_def)

lemma fail_slots_count: "length (rt_done (foldl (fail_slot R p) t is)) \<le> length (rt_done t) + length is"
proof (induction "is" arbitrary: t)
  case (Cons i js)
  have "length (rt_done (fail_slot R p t i)) \<le> Suc (length (rt_done t))" by (simp add: fail_slot_def)
  with Cons [of "fail_slot R p t i"] show ?case by simp
qed simp

lemma detach_count: "length (rt_done (detach R t)) \<le> length (rt_done t) + 2 * length (rt_slots t)"
proof -
  let ?v = "dropped R (t\<lparr>rt_open := False\<rparr>)" and ?u = "fail_control R (t\<lparr>rt_open := False\<rparr>)"
  have "length (rt_done ?u) \<le> length (rt_done t) + length (rt_slots t)"
    unfolding fail_control_dropped using fail_slots_count [of R "\<lambda>sl. \<not> sl_data sl" ?v "[0..<length (rt_slots ?v)]"] by simp
  then show ?thesis using fail_slots_count [of R "\<lambda>sl. True" ?u "[0..<length (rt_slots ?u)]"] by (simp add: detach_def Let_def)
qed

lemma example_detach_count: "length (rt_done (detach example_runtime example_transport)) < 2 ^ 64 - 1"
  using detach_count [of example_runtime example_transport] by (simp add: example_transport_state total_slots_def)

theorem detach_completes_all_witness:
  "let u = foldl (radio_step example_runtime) (detach example_runtime example_transport) [Submit 5 (example_submission False [[1]])] in
    (\<forall>tok. \<not> pending u tok) \<and> set (map fst (rt_done u)) = {(0, 1)}"
  using detach_completes_all [OF example_config_ok, of example_transport example_runtime new_slot "()" "()" "()" example_events
      "[Submit 5 (example_submission False [[1]])]", OF _ example_transport_state(3) example_detach_count]
  by (simp add: example_transport_def [symmetric] example_start_def [symmetric] example_transport_state Let_def del: radio_step.simps foldl_Cons)
    metis

text \<open>A connected transport with two control packets of three bytes.\<close>

definition example_control :: "nat \<Rightarrow> bool slot" where
  "example_control n = \<lparr>sl_submission = Some (example_submission True [[1, 2], [of_nat n]]), sl_credit = Some Ordinary_queue, sl_segment = 0,
     sl_offset = 0, sl_generation = 1, sl_deadline = millis 2000, sl_data = False, sl_status_reply = False\<rparr>"

definition example_writer :: "(bool, unit, unit, unit) radio_transport" where
  "example_writer = example_start\<lparr>rt_connected := True, rt_connection := Some 1,
     rt_slots := (replicate total_slots empty_slot)[256 := example_control 3, 257 := example_control 4], rt_cursor := 256\<rparr>"

lemma example_writer_slots:
  "length (rt_slots example_writer) = total_slots" "rt_slots example_writer ! 256 = example_control 3"
  "rt_slots example_writer ! 257 = example_control 4" "rt_connected example_writer" "rt_stream example_writer = []"
  "rt_config example_writer = example_radio_config" "rt_datagrams example_writer = []" "rt_done example_writer = []"
  "rt_cursor example_writer = 256" "rt_open example_writer" "\<not> rt_progressing example_writer"
  by (simp_all add: example_writer_def total_slots_def example_start_def new_radio_transport_def)

lemma example_control_simps [simp]:
  "occupied (example_control n)" "storage (example_control n) = [[1, 2], [of_nat n]]" "unsent (example_control n) = [1, 2, of_nat n]"
  "\<not> sl_data (example_control n)" "sl_deadline (example_control n) = millis 2000" "sl_generation (example_control n) = 1"
  "positioned (example_control n)"
  by (simp_all add: example_control_def occupied_def storage_def example_submission_def unsent_def positioned_def)

lemma example_writable: "now < millis 2000 \<Longrightarrow> writable now 256 example_writer" "now < millis 2000 \<Longrightarrow> writable now 257 example_writer"
  by (simp_all add: writable_def example_writer_slots total_slots_def)

lemma example_budget: "write_budget example_radio_config False = 2 ^ 64 - 1"
  by (simp add: write_budget_def example_radio_config_def)

lemma example_writer_ok: "radio_ok example_writer"
  by (simp add: radio_ok_def radio_inv_def example_writer_slots slots_ok_def linked_def)
    (auto simp: example_writer_def total_slots_def data_slots_def example_start_def new_radio_transport_def example_radio_config_def
      nth_list_update empty_slot_def occupied_def)

definition example_pass :: "nanos \<Rightarrow> progress_inputs" where
  "example_pass now = \<lparr>pi_now = now, pi_accept = Accept_none, pi_recv = Recv_retry, pi_deadline = now, pi_send = Sent 1, pi_later = now\<rparr>"

lemma example_pick:
  "pick total_slots 256 (rt_slots example_writer) = (257, Some 256)"
  "pick total_slots 257 (rt_slots example_writer) = (258, Some 257)"
  using pick.simps(2) [of 319 256 "rt_slots example_writer"] pick.simps(2) [of 319 257 "rt_slots example_writer"]
  by (simp_all add: example_writer_slots total_slots_def Let_def del: pick.simps)

lemma example_quiet: "quiet_pass example_runtime (example_pass 5) example_writer"
  by (simp add: quiet_pass_def example_pass_def example_writer_slots example_runtime_def example_radio_config_def millis_def)
    (simp add: example_writer_def example_start_def new_radio_transport_def)

lemma example_quiet': "quiet_pass example_runtime (example_pass 6) (fst (progress_next example_runtime (example_pass 5) example_writer))"
proof -
  have w: "writable 5 256 (example_writer\<lparr>rt_progressing := True, rt_cursor := 257\<rparr>)" using example_writable(1) [of 5] by (simp add: millis_def)
  obtain m where "fst (transmit example_runtime 5 (Sent 1) 5 256 (example_writer\<lparr>rt_progressing := True, rt_cursor := 257\<rparr>)) =
    (put_out False [1] (example_writer\<lparr>rt_progressing := True, rt_cursor := 257\<rparr>))\<lparr>rt_slots :=
       (rt_slots example_writer)[256 := advance 1 (example_control 3)], rt_metrics := m\<rparr>"
    using transmit_partial [OF w, of "[1]" 1 example_runtime 5 thesis] by (auto simp: example_writer_slots example_budget)
  then show ?thesis
    using quiet_progress [OF example_quiet, of 257 256] example_pick(1)
    by (simp add: example_writer_slots quiet_pass_def example_pass_def put_out_def Let_def)
      (simp add: example_writer_def example_start_def new_radio_transport_def example_runtime_def example_radio_config_def millis_def)
qed

theorem control_packets_interleave_witness:
  "let t' = fst (progress_next example_runtime (example_pass 6) (fst (progress_next example_runtime (example_pass 5) example_writer))) in
    rt_stream t' = [1, 1] \<and> pending t' (256, 1) \<and> unsent (rt_slots t' ! 256) = [2, 3]"
  using control_packets_interleave [OF example_writer_ok example_quiet, of 257 256 1 "[1]" "example_pass 6" 258 257 1]
    example_pick example_writable example_quiet'
  by (simp add: example_writer_slots example_budget example_pass_def millis_def Let_def)

theorem every_slot_served_witness:
  "Some 256 \<in> set (take total_slots (picks 0 (replicate total_slots (rt_slots example_writer))))"
  by (rule every_slot_served) (simp_all add: example_writer_slots, simp_all add: total_slots_def)

end
