(* ===== verification/RadioServices.thy ===== *)
theory RadioServices
  imports RadioAdapter RadioTransport Json "HOL-Library.AList"
begin

text \<open>
  The radio's configuration, its status document and the framing of control packets
  (\<open>src/radio_services.cpp\<close>; the status transaction is in \<open>Status\<close>), and the check of the
  document by the controller. The JSON library is the parameter of theory \<open>Json\<close>.
\<close>

section \<open>The configuration\<close>

record 'f radio_app_config =
  ra_id :: string
  ra_application_host :: string
  ra_data_source_host :: string
  ra_application_mtu :: nat
  ra_sid :: u32
  ra_signal_hz :: u64
  ra_amplitude :: 'f
  ra_phase_radians :: 'f
  ra_defaults :: "'f radio_settings"
  ra_iq_host :: string
  ra_iq_port :: u16
  ra_control_port :: u16
  ra_status_bind :: string
  ra_status_port :: u16
  ra_control_queue :: nat
  ra_status_connections :: nat
  ra_samples_per_packet :: nat
  ra_burst_samples :: nat

definition checked_port :: "u32 \<Rightarrow> u16 result" where
  "checked_port number =
     ensure (\<not> (number = 0 \<or> number > 65535)) (Invalid_argument ''port is out of range'') (Inr (ucast number))"

definition radio_bounds_ok :: "'f radio_app_config \<Rightarrow> bool" where
  "radio_bounds_ok c \<longleftrightarrow>
     \<not> (ra_id c = [] \<or> ra_application_mtu c < 576 \<or> ra_sid c = 0 \<or> ra_control_queue c = 0 \<or>
        ra_status_connections c = 0 \<or> ra_status_connections c > 4 \<or>
        ra_samples_per_packet c = 0 \<or> ra_samples_per_packet c > 1024 \<or> ra_burst_samples c < ra_samples_per_packet c)"

text \<open>The loader, on the parsed file.\<close>

definition load_radio_config :: "'f doubles \<Rightarrow> ('j, 'f) reader \<Rightarrow> 'j \<Rightarrow> 'f radio_app_config result" where
  "load_radio_config D J doc =
     ebind (identity_ok J doc ''radio'') (\<lambda>ok.
     ensure ok (Invalid_argument ''invalid radio config identity'')
    (ebind (member J doc ''radio'') (\<lambda>radio.
     ebind (member J doc ''application'') (\<lambda>application.
     ebind (member J doc ''defaults'') (\<lambda>defaults.
     ebind (member J doc ''limits'') (\<lambda>limits.
     ebind (member_as (do_string J) J radio ''id'') (\<lambda>id.
     ebind (member_as (do_string J) J radio ''address'') (\<lambda>address.
     ensure (before_slash address \<noteq> None \<and> before_slash address \<noteq> Some []) (Invalid_argument ''invalid radio application address'')
    (ebind (ebind (member J doc ''control'') (\<lambda>control. member_as (do_string J) J control ''bind'')) (\<lambda>control_bind.
     ebind (member_as (size_of J) J application ''mtu'') (\<lambda>mtu.
     ebind (member_as (re_u32 J) J radio ''sid'') (\<lambda>sid.
     ebind (member_as (do_u64 J) J radio ''signal_hz'') (\<lambda>signal_hz.
     ebind (member_as (re_double J) J defaults ''amplitude'') (\<lambda>amplitude.
     ebind (member_as (re_double J) J radio ''phase_millidegrees'') (\<lambda>phase.
     ebind (member_as (do_u64 J) J defaults ''center_hz'') (\<lambda>center_hz.
     ebind (member_as (re_u32 J) J defaults ''sample_rate_hz'') (\<lambda>sample_rate_hz.
     ebind (member_as (re_u32 J) J defaults ''bandwidth_hz'') (\<lambda>bandwidth_hz.
     ebind (member_as (re_double J) J defaults ''gain_db_q7'') (\<lambda>gain_db_q7.
     ebind (ebind (member J doc ''iq_destination'') (\<lambda>iq. member_as (do_string J) J iq ''host'')) (\<lambda>iq_host.
     ebind (ebind (ebind (member J doc ''iq_destination'') (\<lambda>iq. member_as (re_u32 J) J iq ''port'')) checked_port) (\<lambda>iq_port.
     ebind (ebind (member_as (re_u32 J) J radio ''control_port'') checked_port) (\<lambda>control_port.
     ebind (ebind (member J doc ''status'') (\<lambda>status. member_as (do_string J) J status ''bind'')) (\<lambda>status_bind.
     ebind (ebind (ebind (member J doc ''status'') (\<lambda>status. member_as (re_u32 J) J status ''port'')) checked_port) (\<lambda>status_port.
     ebind (member_as (size_of J) J limits ''control_queue'') (\<lambda>control_queue.
     ebind (member_as (size_of J) J limits ''status_connections'') (\<lambda>status_connections.
     ebind (member_as (size_of J) J defaults ''samples_per_packet'') (\<lambda>samples_per_packet.
     ebind (member_as (size_of J) J defaults ''burst_samples'') (\<lambda>burst_samples.
     let config = \<lparr>ra_id = id, ra_application_host = control_bind, ra_data_source_host = the (before_slash address),
           ra_application_mtu = mtu, ra_sid = sid, ra_signal_hz = signal_hz, ra_amplitude = amplitude,
           ra_phase_radians = db_div D (db_mul D phase (db_pi D)) (db_int D 180000),
           ra_defaults = \<lparr>rs_center_hz = center_hz, rs_sample_rate_hz = sample_rate_hz, rs_bandwidth_hz = bandwidth_hz,
             rs_gain_db = db_div D gain_db_q7 (db_int D 128)\<rparr>,
           ra_iq_host = iq_host, ra_iq_port = iq_port, ra_control_port = control_port, ra_status_bind = status_bind,
           ra_status_port = status_port, ra_control_queue = control_queue, ra_status_connections = status_connections,
           ra_samples_per_packet = samples_per_packet, ra_burst_samples = burst_samples\<rparr>
     in ensure (radio_bounds_ok config) (Invalid_argument ''invalid radio config bounds'')
       (ebind (new_radio D (ra_signal_hz config) (ra_amplitude config) (ra_phase_radians config)) (\<lambda>validation.
        ebind (configure_radio D (ra_defaults config) validation) (\<lambda>_. Inr config)))
     ))))))))))))))))))))))))))))"

text \<open>What \<open>main\<close> in \<open>src/apps/radio.cpp\<close> makes of it: the device and the transport's configuration.\<close>

definition radio_device :: "'f doubles \<Rightarrow> 'f radio_app_config \<Rightarrow> 'f device result" where
  "radio_device D c =
     ebind (new_device D (ra_id c) (ra_signal_hz c) (ra_amplitude c) (ra_phase_radians c)) (\<lambda>d.
       apply_settings D (ra_defaults c) d)"

definition transport_config :: "'f radio_app_config \<Rightarrow> radio_config" where
  "transport_config c =
     \<lparr>rc_control_host = ra_application_host c, rc_control_port = ra_control_port c,
      rc_data_source_host = ra_data_source_host c, rc_data_host = ra_iq_host c, rc_data_port = ra_iq_port c,
      rc_sid = ra_sid c, rc_controller_peer = 1, rc_controllee_peer = 2, rc_control_queue = ra_control_queue c,
      rc_tcp_send_buffer = 0, rc_maximum_tcp_write_bytes = 0, rc_io_timeout = millis 2000, rc_stale_timeout = millis 5000\<rparr>"

section \<open>The status document\<close>

definition radio_status ::
  "'f radio_app_config \<Rightarrow> string \<Rightarrow> bool \<times> u64 option \<Rightarrow> 'f radio_settings \<Rightarrow> u64 \<Rightarrow> u64 \<Rightarrow> bool \<Rightarrow> u64 \<Rightarrow> u64 \<Rightarrow> bool \<Rightarrow>
   'f json_value" where
  "radio_status c boot_id control settings sample_ordinal clipped_samples streams uptime_ms observation_unix_ns ready =
    (let (busy, generation) = control;
         connection = J_object [(''active'', J_bool busy),
           (''generation'', case generation of Some g \<Rightarrow> J_unsigned (unat g) | None \<Rightarrow> J_null)]
     in J_object
       [(''version'', J_signed 1), (''radio_id'', J_string (ra_id c)), (''boot_id'', J_string boot_id),
        (''uptime_ms'', J_unsigned (unat uptime_ms)), (''ready'', J_bool ready),
        (''observation'', J_object [(''timestamp_unix_ns'', J_unsigned (unat observation_unix_ns)), (''clock_domain'', J_string ''utc'')]),
        (''connection'', connection), (''streaming'', J_bool streams),
        (''sample_ordinal'', J_unsigned (unat sample_ordinal)), (''clipped_samples'', J_unsigned (unat clipped_samples)),
        (''settings'', J_object [(''center_hz'', J_unsigned (unat (rs_center_hz settings))),
           (''sample_rate_hz'', J_unsigned (unat (rs_sample_rate_hz settings))),
           (''bandwidth_hz'', J_unsigned (unat (rs_bandwidth_hz settings))), (''gain_db'', J_float (rs_gain_db settings))])])"

text \<open>\<open>snapshot["command_resume"] = \<dots>\<close>: the member the radio's main loop adds.\<close>

definition command_resume :: "u32 \<Rightarrow> u32 \<Rightarrow> u64 \<Rightarrow> 'f json_value" where
  "command_resume sid admitted generation =
     J_object [(''version'', J_signed 1), (''sid'', J_unsigned (unat sid)), (''last_admitted_id'', J_unsigned (unat admitted)),
       (''association_generation'', J_unsigned (unat generation))]"

fun add_member :: "string \<Rightarrow> 'f json_value \<Rightarrow> 'f json_value \<Rightarrow> 'f json_value" where
  "add_member key v (J_object members) = J_object (AList.update key v members)"
| "add_member key v other = other"

section \<open>The controller reads the radio's document\<close>

lemma unat_of_nat_unat64 [simp]: "(of_nat (unat (w :: u64)) :: u64) = w" "(of_nat (unat (v :: u32)) :: u64) = ucast v"
  by simp_all

lemma ucast32_small: "\<not> 4294967295 < (ucast (v :: u32) :: u64)"
proof -
  have "unat v < Suc 4294967295" using unsigned_less [of v] by simp
  then have "unat v \<le> 4294967295" by (rule less_Suc_eq_le [THEN iffD1])
  then show ?thesis by (simp add: word_less_nat_alt not_less)
qed

text \<open>The document of the radio's main loop: the status with the member it adds.\<close>

definition loop_document :: "'f radio_app_config \<Rightarrow> string \<Rightarrow> control_slot \<Rightarrow> 'f radio_settings \<Rightarrow> u64 \<Rightarrow> u64 \<Rightarrow> bool \<Rightarrow> u64 \<Rightarrow> u64 \<Rightarrow>
    bool \<Rightarrow> u32 \<Rightarrow> u64 \<Rightarrow> 'f json_value" where
  "loop_document c boot_id slot settings ordinal clipped streams uptime observed ready admitted association =
     add_member ''command_resume'' (command_resume (ra_sid c) admitted association)
       (radio_status c boot_id (snapshot slot) settings ordinal clipped streams uptime observed ready)"

lemma snapshot_of_document:
  assumes "parse text_bytes =
      Some (reread finite_value (loop_document c boot_id slot settings ordinal clipped streams uptime observed ready admitted association))"
    and "cr_id radio = ra_id c" and "cr_sid radio = ra_sid c"
  shows "read_snapshot (json_document parse) radio text_bytes =
    (if association = 0 \<or> boot_id = [] then None
     else Some \<lparr>sn_boot_id = boot_id, sn_generation = cs_active_generation slot, sn_admitted_id = admitted,
        sn_association = association, sn_ready = ready, sn_active = (cs_active_generation slot \<noteq> None), sn_streaming = streams\<rparr>)"
  using assms
  by (cases "cs_active_generation slot")
    (simp_all add: read_snapshot_def json_document_def loop_document_def radio_status_def command_resume_def unsigned_at_def
      bool_at_def snapshot_def ucast32_small)

text \<open>C21. What the radio says is what the controller reads: of the status document the radio's main loop
  builds, printed by the library and parsed by it again (which turns every signed number of the document into
  an unsigned one and may turn the gain into \<open>null\<close>), the controller gets the boot identity, the slot's
  generation, the watermark of admitted commands, the association and the flags unchanged. It
  refuses the document exactly when there is no association yet or no boot identity.\<close>

theorem status_document_read:
  assumes "dump (loop_document c boot_id slot settings ordinal clipped streams uptime observed ready admitted association) = Some text_bytes"
    and "prints_back dump parse finite_value (loop_document c boot_id slot settings ordinal clipped streams uptime observed ready admitted association)"
    and "cr_id radio = ra_id c" and "cr_sid radio = ra_sid c"
  shows "read_snapshot (json_document parse) radio text_bytes =
    (if association = 0 \<or> boot_id = [] then None
     else Some \<lparr>sn_boot_id = boot_id, sn_generation = cs_active_generation slot, sn_admitted_id = admitted,
        sn_association = association, sn_ready = ready, sn_active = (cs_active_generation slot \<noteq> None), sn_streaming = streams\<rparr>)"
  by (rule snapshot_of_document [OF _ assms(3,4)]) (use assms(1,2) in \<open>simp add: prints_back_def\<close>)

definition described_radio :: "real radio_app_config" where
  "described_radio = \<lparr>ra_id = ''r1'', ra_application_host = ''10.0.0.1'', ra_data_source_host = ''10.0.0.1'',
     ra_application_mtu = 1500, ra_sid = 7, ra_signal_hz = 100250000, ra_amplitude = 1 / 2, ra_phase_radians = 0,
     ra_defaults = default_settings reals, ra_iq_host = ''10.0.0.2'', ra_iq_port = 4991, ra_control_port = 5000,
     ra_status_bind = ''10.0.0.1'', ra_status_port = 5001, ra_control_queue = 16, ra_status_connections = 2,
     ra_samples_per_packet = 256, ra_burst_samples = 1024\<rparr>"

definition described_document :: "real json_value" where
  "described_document = loop_document described_radio ''b0'' (new_slot\<lparr>cs_active_generation := Some 5\<rparr>) (default_settings reals)
     0 0 True 10 20 True 189 3"

theorem status_document_read_witness:
  "read_snapshot (json_document (\<lambda>_. Some (reread (\<lambda>_. True) described_document))) (cs_radio client_example_setup) [123] =
   Some \<lparr>sn_boot_id = ''b0'', sn_generation = Some 5, sn_admitted_id = 189, sn_association = 3,
     sn_ready = True, sn_active = True, sn_streaming = True\<rparr>"
proof -
  let ?dump = "\<lambda>v. if v = described_document then Some [123] else None"
  let ?parse = "\<lambda>_. Some (reread (\<lambda>_. True) described_document)"
  have "prints_back ?dump ?parse (\<lambda>_. True) described_document" by (simp add: prints_back_def)
  then show ?thesis
    using status_document_read [of ?dump described_radio "''b0''" "new_slot\<lparr>cs_active_generation := Some 5\<rparr>" "default_settings reals"
        0 0 True 10 20 True 189 3 "[123]" ?parse "\<lambda>_. True" "cs_radio client_example_setup", folded described_document_def]
    by (simp add: described_radio_def client_example_setup_def)
qed

section \<open>A configuration that loads\<close>

lemma checked_port_Inr: "checked_port n = Inr p \<Longrightarrow> p \<noteq> 0"
proof -
  assume "checked_port n = Inr p"
  then have n: "n \<noteq> 0" "n \<le> 65535" "p = ucast n" by (simp_all add: checked_port_def not_less)
  have "unat n < 65536" using n(2) by (simp add: word_le_nat_alt)
  then have "unat p = unat n" using n(3) by (simp add: unsigned_ucast_eq take_bit_nat_eq_self)
  then show "p \<noteq> 0" using n(1) by (auto simp: unat_eq_0)
qed

text \<open>A configuration that loads describes a radio that can be built: the device accepts the signal
  and the settings, and the transport's checks pass exactly when the two hosts the loader does
  not check are given and the control queue fits in the transport's slots.\<close>

lemma loaded_config_starts:
  assumes "load_radio_config D J doc = Inr c" and "valid_settings D (default_settings D)"
  shows "(\<exists>d. radio_device D c = Inr d \<and> settings_of_device d = ra_defaults c \<and> device_ok D d) \<and>
    (valid_radio_config (transport_config c) \<longleftrightarrow>
       ra_application_host c \<noteq> [] \<and> ra_iq_host c \<noteq> [] \<and> ra_control_queue c \<le> 64)"
proof -
  have c: "valid_signal D (ra_signal_hz c) (ra_amplitude c) (ra_phase_radians c)" "valid_settings D (ra_defaults c)"
    "radio_bounds_ok c" "ra_data_source_host c \<noteq> []" "ra_iq_port c \<noteq> 0"
    using assms(1)
    by (auto simp: load_radio_config_def new_radio_def configure_radio_def Let_def result_simps ensure_def
        split: option.splits if_splits dest: checked_port_Inr)
  let ?d = "\<lparr>dv_radio_id = ra_id c, dv_radio = \<lparr>vr_signal_hz = ra_signal_hz c, vr_amplitude = ra_amplitude c,
            vr_phase = ra_phase_radians c, vr_initial_phase = ra_phase_radians c, vr_settings = ra_defaults c,
            vr_sample_ordinal = 0, vr_clipped_samples = 0, vr_streaming = False\<rparr>, dv_stream = None\<rparr>"
  have "radio_device D c = Inr ?d"
    using c assms(2) new_device_Inr [of D "ra_id c" "ra_signal_hz c" "ra_amplitude c" "ra_phase_radians c"]
    by (auto simp: radio_device_def apply_settings_def configure_locked_def configure_radio_def result_simps)
  moreover have "settings_of_device ?d = ra_defaults c \<and> device_ok D ?d" using c by (simp add: device_defs)
  moreover have "valid_radio_config (transport_config c) \<longleftrightarrow> ra_application_host c \<noteq> [] \<and> ra_iq_host c \<noteq> [] \<and> ra_control_queue c \<le> 64"
    using c by (auto simp: valid_radio_config_def transport_config_def radio_bounds_ok_def total_slots_def data_slots_def millis_def)
  ultimately show ?thesis by blast
qed

definition example_radio_document :: "real json_value" where
  "example_radio_document = J_object
     [(''schema'', J_unsigned 1), (''role'', J_string ''radio''),
      (''radio'', J_object [(''id'', J_string ''r1''), (''address'', J_string ''10.0.0.1/24''), (''sid'', J_unsigned 7),
         (''signal_hz'', J_unsigned 100250000), (''phase_millidegrees'', J_unsigned 0), (''control_port'', J_unsigned 5000)]),
      (''application'', J_object [(''mtu'', J_unsigned 1500)]),
      (''defaults'', J_object [(''amplitude'', J_float (1 / 2)), (''center_hz'', J_unsigned 100000000),
         (''sample_rate_hz'', J_unsigned 1000000), (''bandwidth_hz'', J_unsigned 800000), (''gain_db_q7'', J_unsigned 0),
         (''samples_per_packet'', J_unsigned 256), (''burst_samples'', J_unsigned 1024)]),
      (''limits'', J_object [(''control_queue'', J_unsigned 16), (''status_connections'', J_unsigned 2)]),
      (''control'', J_object [(''bind'', J_string ''10.0.0.1'')]),
      (''status'', J_object [(''bind'', J_string ''10.0.0.1''), (''port'', J_unsigned 5001)]),
      (''iq_destination'', J_object [(''host'', J_string ''10.0.0.2''), (''port'', J_unsigned 4991)])]"

lemma example_radio_loads: "load_radio_config reals (json_reader real_of_int) example_radio_document = Inr described_radio"
  by (simp add: load_radio_config_def example_radio_document_def described_radio_def identity_ok_def member_is_def member_as_def
      member_def size_of_def before_slash_def checked_port_def radio_bounds_ok_def new_radio_def configure_radio_def
      valid_signal_def valid_settings_def default_settings_def result_simps Let_def)

section \<open>Framing of control packets\<close>

text \<open>\<open>VrtControlFramer\<close>: the library's stream framer hands every whole packet to \<open>deliver\<close>; None is a
  handler that throws. \<open>framed\<close> hands over a list of packets and stops at the first error.\<close>

datatype framing_error = Capacity_exhausted | Callback_failure

record control_framer =
  cf_packet_limit :: nat
  cf_packets :: nat

definition new_control_framer :: "nat \<Rightarrow> bool \<Rightarrow> control_framer result" where
  "new_control_framer packet_limit has_handler =
     ensure (packet_limit \<noteq> 0 \<and> has_handler) (Invalid_argument ''invalid control framing bounds'')
       (Inr \<lparr>cf_packet_limit = packet_limit, cf_packets = 0\<rparr>)"

definition deliver_packet :: "(bytes \<Rightarrow> bool option) \<Rightarrow> bytes \<Rightarrow> control_framer \<Rightarrow> framing_error + control_framer" where
  "deliver_packet handler packet f =
     (if cf_packets f \<ge> cf_packet_limit f then Inl Capacity_exhausted
      else case handler packet of
        Some True \<Rightarrow> Inr (f\<lparr>cf_packets := cf_packets f + 1\<rparr>)
      | _ \<Rightarrow> Inl Callback_failure)"

fun framed :: "(bytes \<Rightarrow> bool option) \<Rightarrow> bytes list \<Rightarrow> control_framer \<Rightarrow> framing_error option \<times> control_framer" where
  "framed handler [] f = (None, f)"
| "framed handler (p # ps) f =
    (case deliver_packet handler p f of Inl e \<Rightarrow> (Some e, f) | Inr g \<Rightarrow> framed handler ps g)"

lemma framed_within_limit:
  "cf_packets f \<le> cf_packet_limit f \<Longrightarrow> framed handler ps f = (e, g) \<Longrightarrow>
   cf_packets g \<le> cf_packet_limit g \<and> cf_packet_limit g = cf_packet_limit f \<and>
   cf_packets g = cf_packets f + length (takeWhile (\<lambda>p. handler p = Some True) (take (cf_packet_limit f - cf_packets f) ps))"
proof (induction ps arbitrary: f)
  case (Cons p ps)
  show ?case
  proof (cases "cf_packets f < cf_packet_limit f \<and> handler p = Some True")
    case True
    then obtain n where n: "cf_packet_limit f - cf_packets f = Suc n" by (metis Suc_diff_Suc)
    with True Cons.prems have "framed handler ps (f\<lparr>cf_packets := cf_packets f + 1\<rparr>) = (e, g)"
      by (simp add: deliver_packet_def)
    moreover have "cf_packet_limit f - Suc (cf_packets f) = n" using n by simp
    ultimately show ?thesis using Cons.IH [of "f\<lparr>cf_packets := cf_packets f + 1\<rparr>"] True n by simp
  next
    case False
    with Cons.prems show ?thesis
      by (cases "cf_packet_limit f - cf_packets f") (auto simp: deliver_packet_def split: option.splits bool.splits if_splits)
  qed
qed simp

end
