(* ===== verification/RadioApp.thy ===== *)
theory RadioApp
  imports RadioServices Telemetry
begin

text \<open>
  The radio process (\<open>src/apps/radio.cpp\<close>): the status cache that the main loop fills for the
  worker threads, and the main loop itself with its clock observations, its progress calls and
  its telemetry. The runtime of the framework is a parameter: what \<open>observe_pps\<close> and
  \<open>progress\<close> return is part of the loop's input.
\<close>

section \<open>The status cache\<close>

text \<open>
  \<open>requested\<close> and \<open>sequence\<close> as in \<open>StatusCache\<close>; \<open>main\<close> says where the main loop is between taking a
  request and publishing the document, and a worker is outside its transaction, in the wait
  with the sequence number \<open>before\<close>, or past it with the document it copied. A worker holds the
  mutex from reading \<open>sequence\<close> to the wait, so the request is one step; the main loop takes the
  request and builds the document without the mutex and publishes with it.
\<close>

datatype 'v main_phase = Looping | Taken | Built 'v

datatype 'v worker = Outside | Waiting u64 | Serving 'v

record 'v status_cache =
  sc_requested :: bool
  sc_sequence :: u64
  sc_value :: 'v
  sc_main :: "'v main_phase"
  sc_workers :: "'v worker list"

definition new_cache :: "'v \<Rightarrow> nat \<Rightarrow> 'v status_cache" where
  "new_cache null workers = \<lparr>sc_requested = False, sc_sequence = 0, sc_value = null, sc_main = Looping,
     sc_workers = replicate workers Outside\<rparr>"

datatype 'v cache_event = Take | Build 'v | Publish | Request nat | Wake nat | Give_up nat | Served nat

inductive cache_step :: "'v status_cache \<Rightarrow> 'v cache_event \<Rightarrow> 'v status_cache \<Rightarrow> bool" where
  take_request: "sc_main c = Looping \<Longrightarrow> sc_requested c \<Longrightarrow>
    cache_step c Take (c\<lparr>sc_requested := False, sc_main := Taken\<rparr>)"
| build_document: "sc_main c = Taken \<Longrightarrow> cache_step c (Build v) (c\<lparr>sc_main := Built v\<rparr>)"
| publish_document: "sc_main c = Built v \<Longrightarrow>
    cache_step c Publish (c\<lparr>sc_value := v, sc_sequence := sc_sequence c + 1, sc_main := Looping\<rparr>)"
| request: "i < length (sc_workers c) \<Longrightarrow> sc_workers c ! i = Outside \<Longrightarrow>
    cache_step c (Request i) (c\<lparr>sc_requested := True, sc_workers := (sc_workers c)[i := Waiting (sc_sequence c)]\<rparr>)"
| wake: "i < length (sc_workers c) \<Longrightarrow> sc_workers c ! i = Waiting before \<Longrightarrow> sc_sequence c > before \<Longrightarrow>
    cache_step c (Wake i) (c\<lparr>sc_workers := (sc_workers c)[i := Serving (sc_value c)]\<rparr>)"
| give_up: "i < length (sc_workers c) \<Longrightarrow> sc_workers c ! i = Waiting before \<Longrightarrow> \<not> sc_sequence c > before \<Longrightarrow>
    cache_step c (Give_up i) (c\<lparr>sc_workers := (sc_workers c)[i := Outside]\<rparr>)"
| served: "i < length (sc_workers c) \<Longrightarrow> sc_workers c ! i = Serving v \<Longrightarrow>
    cache_step c (Served i) (c\<lparr>sc_workers := (sc_workers c)[i := Outside]\<rparr>)"

inductive cache_run :: "'v status_cache \<Rightarrow> 'v cache_event list \<Rightarrow> 'v status_cache \<Rightarrow> bool" where
  here: "cache_run c [] c"
| there: "cache_run c es d \<Longrightarrow> cache_step d e d' \<Longrightarrow> cache_run c (es @ [e]) d'"

inductive_cases cache_stepE [elim!]:
  "cache_step c Take d" "cache_step c (Build v) d" "cache_step c Publish d" "cache_step c (Request i) d"
  "cache_step c (Wake i) d" "cache_step c (Give_up i) d" "cache_step c (Served i) d"

inductive_simps cache_step_simps:
  "cache_step c Take d" "cache_step c (Build v) d" "cache_step c Publish d" "cache_step c (Request i) d"
  "cache_step c (Wake i) d" "cache_step c (Give_up i) d" "cache_step c (Served i) d"

code_pred cache_step .

code_pred cache_run .

text \<open>The worker an event belongs to, None for the main loop.\<close>

fun worker_of :: "'v cache_event \<Rightarrow> nat option" where
  "worker_of (Request i) = Some i"
| "worker_of (Wake i) = Some i"
| "worker_of (Give_up i) = Some i"
| "worker_of (Served i) = Some i"
| "worker_of _ = None"

text \<open>
  After \<open>n\<close> steps at most \<open>n\<close> documents are published; nobody waits without a request being
  pending or under way; and whatever is published or served was built.
\<close>

definition cache_inv :: "nat \<Rightarrow> 'v set \<Rightarrow> 'v status_cache \<Rightarrow> bool" where
  "cache_inv n built c \<longleftrightarrow>
     unat (sc_sequence c) \<le> n \<and>
     (\<forall>v. sc_main c = Built v \<longrightarrow> v \<in> built) \<and> (sc_sequence c > 0 \<longrightarrow> sc_value c \<in> built) \<and>
     (\<forall>w \<in> set (sc_workers c). case w of
        Outside \<Rightarrow> True
      | Waiting before \<Rightarrow> before < sc_sequence c \<or> before = sc_sequence c \<and> (sc_requested c \<or> sc_main c \<noteq> Looping)
      | Serving v \<Rightarrow> v \<in> built)"

fun built_by :: "'v cache_event \<Rightarrow> 'v set" where
  "built_by (Build v) = {v}"
| "built_by _ = {}"

definition built_in :: "'v cache_event list \<Rightarrow> 'v set" where
  "built_in es = \<Union> (set (map built_by es))"

lemma built_in_simps [simp]: "built_in [] = {}" "built_in (es @ [e]) = built_in es \<union> built_by e"
  by (auto simp: built_in_def)

lemma sequence_step:
  "unat (w :: u64) \<le> n \<Longrightarrow> n < 2 ^ 64 - 1 \<Longrightarrow> unat (w + 1) = Suc (unat w) \<and> w < w + 1 \<and> 0 < w + 1"
proof -
  assume a: "unat w \<le> n" "n < 2 ^ 64 - 1"
  then have "unat (w + 1) = Suc (unat w)" by (intro unat_inc [where n = "2 ^ 64 - 1"]) simp_all
  then show ?thesis by (simp add: word_less_nat_alt)
qed

lemma cache_step_inv:
  assumes "cache_step c e d" "cache_inv n B c" "n < 2 ^ 64 - 1"
  shows "cache_inv (Suc n) (B \<union> built_by e) d"
  using assms
proof (cases rule: cache_step.cases)
  case (publish_document v)
  with assms(2,3) sequence_step [of "sc_sequence c" n] show ?thesis
    by (fastforce simp: cache_inv_def split: worker.splits)
next
  case (wake i before)
  then have "sc_sequence c > 0" by (auto simp: word_gt_0)
  with wake assms(2) show ?thesis
    by (auto simp: cache_inv_def dest!: set_update_subset_insert [THEN subsetD] split: worker.splits)
next
  case (request i)
  with assms(2) show ?thesis
    by (auto simp: cache_inv_def dest!: set_update_subset_insert [THEN subsetD] split: worker.splits)
qed (auto simp: cache_inv_def dest!: set_update_subset_insert [THEN subsetD] split: worker.splits)

lemma new_cache_inv: "cache_inv 0 {} (new_cache null workers)"
  by (auto simp: cache_inv_def new_cache_def)

lemma cache_run_inv:
  "cache_run c es d \<Longrightarrow> cache_inv n B c \<Longrightarrow> n + length es \<le> 2 ^ 64 - 1 \<Longrightarrow> cache_inv (n + length es) (B \<union> built_in es) d"
proof (induction rule: cache_run.induct)
  case (there c es d e d')
  then have "cache_inv (n + length es) (B \<union> built_in es) d" by simp
  from cache_step_inv [OF there.hyps(2) this] there.prems show ?case by (simp add: Un_assoc)
qed simp

lemma cache_run_append: "cache_run d es' d' \<Longrightarrow> cache_run c es d \<Longrightarrow> cache_run c (es @ es') d'"
proof (induction rule: cache_run.induct)
  case (there d es' d1 e d2)
  from cache_run.there [OF there.IH [OF there.prems] there.hyps(2)] show ?case by simp
qed simp

lemma cache_run_one: "cache_step c e d \<Longrightarrow> cache_run c [e] d"
  using cache_run.there [OF cache_run.here, of c e d] by simp

lemma cache_run_cons: "cache_step c e c' \<Longrightarrow> cache_run c' es d \<Longrightarrow> cache_run c (e # es) d"
  using cache_run_append [of c' es d c "[e]"] by (simp add: cache_run_one)

lemma in_built_in: "v \<in> built_in es \<longleftrightarrow> Build v \<in> set es"
proof -
  have "v \<in> built_by e \<longleftrightarrow> e = Build v" for e by (cases e) auto
  then show ?thesis by (auto simp: built_in_def)
qed

lemma reached_worker:
  assumes "cache_run (new_cache null k) es c" and "length es < 2 ^ 64" and "i < length (sc_workers c)"
  shows "case sc_workers c ! i of
      Outside \<Rightarrow> True
    | Waiting before \<Rightarrow> before < sc_sequence c \<or> before = sc_sequence c \<and> (sc_requested c \<or> sc_main c \<noteq> Looping)
    | Serving v \<Rightarrow> Build v \<in> set es"
proof -
  have "cache_inv (0 + length es) ({} \<union> built_in es) c"
    by (rule cache_run_inv [OF assms(1) new_cache_inv]) (use assms(2) in simp)
  then show ?thesis using nth_mem [OF assms(3)] by (auto simp: cache_inv_def in_built_in split: worker.splits)
qed

text \<open>C19. A status worker never sends the empty document it starts with, however the workers and the
  main loop interleave: what it serves is a document the main loop built. And no request is lost:
  while a worker waits, its document is published, or the main loop has the request before it.\<close>

theorem status_cache_safe:
  assumes "cache_run (new_cache null k) es c" and "length es < 2 ^ 64" and "i < length (sc_workers c)"
  shows "case sc_workers c ! i of
      Outside \<Rightarrow> True
    | Waiting before \<Rightarrow> before < sc_sequence c \<or> before = sc_sequence c \<and> (sc_requested c \<or> sc_main c \<noteq> Looping)
    | Serving v \<Rightarrow> Build v \<in> set es"
  by (rule reached_worker [OF assms])

lemma main_turn:
  fixes c :: "'a status_cache"
  assumes "before < sc_sequence c \<or> before = sc_sequence c \<and> (sc_requested c \<or> sc_main c \<noteq> Looping)"
    and "unat (sc_sequence c) < 2 ^ 64 - 1"
  shows "\<exists>turn d. length turn \<le> 3 \<and> set turn \<subseteq> {Take, Build v, Publish} \<and> cache_run c turn d \<and>
    before < sc_sequence d \<and> sc_workers d = sc_workers c"
proof (cases "before < sc_sequence c")
  case True
  then show ?thesis using cache_run.here by (intro exI [of _ "[]"] exI [of _ c]) simp
next
  case False
  then have eq: "before = sc_sequence c" and pend: "sc_main c = Looping \<Longrightarrow> sc_requested c" using assms(1) by auto
  have up: "sc_sequence c < sc_sequence c + 1"
    using sequence_step [of "sc_sequence c" "unat (sc_sequence c)"] assms(2) by simp
  have publish: "cache_run e [Publish] (e\<lparr>sc_value := v, sc_sequence := sc_sequence e + 1, sc_main := Looping\<rparr>)"
    if "sc_main e = Built v" for e :: "'a status_cache" and v using that by (rule publish_document [THEN cache_run_one])
  have build: "cache_run e [Build v, Publish] (e\<lparr>sc_value := v, sc_sequence := sc_sequence e + 1, sc_main := Looping\<rparr>)"
    if "sc_main e = Taken" for e :: "'a status_cache" and v
    using cache_run_cons [OF build_document [OF that] publish [of "e\<lparr>sc_main := Built v\<rparr>" v]] by simp
  show ?thesis
  proof (cases "sc_main c")
    case Looping
    have "cache_run c [Take, Build v, Publish]
       (c\<lparr>sc_requested := False, sc_value := v, sc_sequence := sc_sequence c + 1, sc_main := Looping\<rparr>)"
      using cache_run_cons [OF take_request [OF Looping pend [OF Looping]] build [of "c\<lparr>sc_requested := False, sc_main := Taken\<rparr>"]]
      by simp
    then show ?thesis using up eq by (intro exI [of _ "[Take, Build v, Publish]"] exI conjI) (assumption | simp)+
  next
    case Taken
    from build [OF this, of v] show ?thesis using up eq by (intro exI [of _ "[Build v, Publish]"] exI conjI) (assumption | simp)+
  next
    case (Built w)
    from publish [OF this] show ?thesis using up eq by (intro exI [of _ "[Publish]"] exI conjI) (assumption | simp)+
  qed
qed

text \<open>C20. A waiting worker is not stuck: from wherever the interleaving has led, at most three steps of
  the main loop alone, one turn of it, let the worker go on.\<close>

theorem status_request_served:
  fixes c :: "'a status_cache"
  assumes "cache_run (new_cache null k) es c" and "length es < 2 ^ 64 - 1"
    and "i < length (sc_workers c)" "sc_workers c ! i = Waiting before"
  shows "\<exists>turn d e. length turn \<le> 3 \<and> set turn \<subseteq> {Take, Build v, Publish} \<and> cache_run c turn d \<and>
    cache_step d (Wake i) e \<and> sc_workers e ! i = Serving (sc_value d)"
proof -
  have "unat (sc_sequence c) \<le> length es"
    using cache_run_inv [OF assms(1) new_cache_inv] assms(2) by (simp add: cache_inv_def)
  moreover have "before < sc_sequence c \<or> before = sc_sequence c \<and> (sc_requested c \<or> sc_main c \<noteq> Looping)"
    using reached_worker [OF assms(1) _ assms(3)] assms(2,4) by simp
  ultimately obtain turn d where turn: "length turn \<le> 3" "set turn \<subseteq> {Take, Build v, Publish}" "cache_run c turn d"
    "before < sc_sequence d" "sc_workers d = sc_workers c" using main_turn [of before c v] assms(2) by auto
  then have "cache_step d (Wake i) (d\<lparr>sc_workers := (sc_workers d)[i := Serving (sc_value d)]\<rparr>)"
    using assms(3,4) by (intro wake) simp_all
  with turn assms(3) show ?thesis by (intro exI [of _ turn] exI [of _ d] exI conjI) (assumption | simp)+
qed

text \<open>Documents published after a point of the run where nothing built was waiting to be published.\<close>

lemma published_since:
  "cache_run c es d \<Longrightarrow> unat (sc_sequence c) + length es \<le> 2 ^ 64 - 1 \<Longrightarrow>
   unat (sc_sequence d) \<le> unat (sc_sequence c) + length es \<and> sc_sequence c \<le> sc_sequence d \<and>
   (\<forall>v. sc_main d = Built v \<longrightarrow> Build v \<in> set es \<or> sc_main c = Built v) \<and>
   (sc_sequence c < sc_sequence d \<longrightarrow> Build (sc_value d) \<in> set es \<or> sc_main c = Built (sc_value d))"
proof (induction rule: cache_run.induct)
  case (there c es d e d')
  then have IH: "unat (sc_sequence d) \<le> unat (sc_sequence c) + length es" "sc_sequence c \<le> sc_sequence d"
    "\<forall>v. sc_main d = Built v \<longrightarrow> Build v \<in> set es \<or> sc_main c = Built v"
    "sc_sequence c < sc_sequence d \<longrightarrow> Build (sc_value d) \<in> set es \<or> sc_main c = Built (sc_value d)" by auto
  from there.hyps(2) IH show ?case
  proof (cases rule: cache_step.cases)
    case (publish_document v)
    with IH there.prems sequence_step [OF IH(1)] show ?thesis by auto
  qed auto
qed simp

text \<open>Freshness of a status document: a worker that asks while no built document is waiting to be
  published gets one that was built after it asked. When one is waiting, the worker can get it:
  then the document is older than the request (the radio's documentation says that a request gets
  a fresh document).\<close>

lemma status_freshness:
  assumes "cache_run c es d" and "unat (sc_sequence c) + length es < 2 ^ 64"
    and "i < length (sc_workers c)" "sc_workers c ! i = Waiting (sc_sequence c)"
    and "sc_workers d ! i = Waiting (sc_sequence c)" and "cache_step d (Wake i) e"
  shows "(\<exists>w. sc_workers e ! i = Serving w \<and> (Build w \<in> set es \<or> sc_main c = Built w)) \<and>
    (\<forall>w. sc_main c = Built w \<longrightarrow>
      (\<exists>d' e'. cache_run c [Publish] d' \<and> cache_step d' (Wake i) e' \<and> sc_workers e' ! i = Serving w))"
proof
  have "i < length (sc_workers d)" "sc_sequence c < sc_sequence d"
    "e = d\<lparr>sc_workers := (sc_workers d)[i := Serving (sc_value d)]\<rparr>"
    using assms(5,6) by auto
  then show "\<exists>w. sc_workers e ! i = Serving w \<and> (Build w \<in> set es \<or> sc_main c = Built w)"
    using published_since [OF assms(1)] assms(2) by auto
  show "\<forall>w. sc_main c = Built w \<longrightarrow>
      (\<exists>d' e'. cache_run c [Publish] d' \<and> cache_step d' (Wake i) e' \<and> sc_workers e' ! i = Serving w)"
  proof (intro allI impI)
    fix w
    assume m: "sc_main c = Built w"
    define d' where "d' = c\<lparr>sc_value := w, sc_sequence := sc_sequence c + 1, sc_main := Looping\<rparr>"
    have "unat (sc_sequence c) < 2 ^ 64 - 1 \<or> es = []" using assms(2) by (cases es) auto
    moreover have "es \<noteq> []" using \<open>sc_sequence c < sc_sequence d\<close> assms(1) by (auto elim: cache_run.cases)
    ultimately have "sc_sequence c < sc_sequence d'"
      using sequence_step [of "sc_sequence c" "unat (sc_sequence c)"] by (simp add: d'_def)
    then have "cache_step d' (Wake i) (d'\<lparr>sc_workers := (sc_workers d')[i := Serving (sc_value d')]\<rparr>)"
      using assms(3,4) by (intro wake) (simp_all add: d'_def)
    moreover have "cache_run c [Publish] d'" unfolding d'_def by (rule cache_run_one [OF publish_document [OF m]])
    ultimately show "\<exists>d' e'. cache_run c [Publish] d' \<and> cache_step d' (Wake i) e' \<and> sc_workers e' ! i = Serving w"
      using assms(3) by (intro exI [of _ d'] exI conjI) (assumption | simp add: d'_def)+
  qed
qed

definition example_cache :: "nat status_cache" where
  "example_cache = \<lparr>sc_requested = True, sc_sequence = 0, sc_value = 0, sc_main = Looping, sc_workers = [Waiting 0, Outside]\<rparr>"

lemma example_cache_run: "cache_run (new_cache 0 2) [Request 0] example_cache"
proof -
  have "cache_step (new_cache 0 2) (Request 0) example_cache"
    by (auto simp: cache_step_simps new_cache_def example_cache_def numeral_2_eq_2)
  then show ?thesis by (rule cache_run_one)
qed

definition example_holding :: "nat status_cache" where
  "example_holding = example_cache\<lparr>sc_requested := True, sc_main := Built 5, sc_workers := [Waiting 0, Waiting 0]\<rparr>"

definition example_published :: "nat status_cache" where
  "example_published = example_holding\<lparr>sc_value := 5, sc_sequence := 1, sc_main := Looping\<rparr>"

lemma example_publish: "cache_run example_holding [Publish] example_published"
  by (rule cache_run_one) (simp add: cache_step_simps example_published_def example_holding_def example_cache_def)

lemma example_wake: "cache_step example_published (Wake 1) (example_published\<lparr>sc_workers := [Waiting 0, Serving 5]\<rparr>)"
  by (simp add: cache_step_simps example_published_def example_holding_def example_cache_def)

theorem status_cache_safe_witness:
  "example_cache \<noteq> new_cache 0 2 \<and> (case sc_workers example_cache ! 0 of
      Outside \<Rightarrow> False | Waiting before \<Rightarrow> before = sc_sequence example_cache \<and> sc_requested example_cache | Serving v \<Rightarrow> False)"
  using status_cache_safe [OF example_cache_run, of 0] by (simp add: example_cache_def new_cache_def)

theorem status_request_served_witness:
  "\<exists>turn d e. length turn \<le> 3 \<and> set turn \<subseteq> {Take, Build 7, Publish} \<and> cache_run example_cache turn d \<and>
    cache_step d (Wake 0) e \<and> sc_workers e ! 0 = Serving (sc_value d)"
  by (rule status_request_served [OF example_cache_run, of 0 0 7]) (simp_all add: example_cache_def)

section \<open>The main loop\<close>

text \<open>\<open>utc_now\<close> reads the system clock, in nanoseconds.\<close>

definition utc_now :: "nanos \<Rightarrow> protocol_time" where
  "utc_now now = ProtocolTime (of_int (now div 10 ^ 9)) (of_int (now mod 10 ^ 9) * 1000)"

definition boot_id :: "u32 list \<Rightarrow> string" where
  "boot_id source = map (\<lambda>value. ''0123456789abcdef'' ! unat (value AND 0xf)) source"

text \<open>The counters of a heartbeat.\<close>

definition radio_heartbeat :: "radio_metrics \<Rightarrow> u64 \<Rightarrow> u64 \<Rightarrow> bool \<Rightarrow> 'f json_value" where
  "radio_heartbeat m ordinal clipped streams = J_object
     [(''control_rx_packets'', J_unsigned (unat (tm_received_packets m))), (''control_rx_bytes'', J_unsigned (unat (tm_received_bytes m))),
      (''tx_bytes'', J_unsigned (unat (tm_transmitted_bytes m))),
      (''tx_completed_submissions'', J_unsigned (unat (tm_completed_submissions m))),
      (''tx_failed_submissions'', J_unsigned (unat (tm_failed_submissions m))),
      (''write_retries'', J_unsigned (unat (tm_write_retries m))), (''sample_ordinal'', J_unsigned (unat ordinal)),
      (''clipped_samples'', J_unsigned (unat clipped)), (''streaming'', J_bool streams), (''queue_depth'', J_null),
      (''proven_packet_loss'', J_null), (''downstream_delivery'', J_null)]"

text \<open>
  What the loop finds in one turn: the clocks, the transport's counters and the device, and the
  runtime's answers. The error of a progress call is its flag \<open>retryable\<close>.
\<close>

record radio_turn =
  ru_monotonic :: u64
  ru_pps_accepted :: bool
  ru_progress :: "bool option"
  ru_metrics :: radio_metrics
  ru_sample_ordinal :: u64
  ru_clipped_samples :: u64
  ru_streaming :: bool
  ru_activity_at :: nanos
  ru_due_at :: nanos
  ru_heartbeat_at :: nanos
  ru_record_at :: nanos

text \<open>The loop's variables, and the pulses it gave the runtime: time on its clock and protocol time.\<close>

record 'f radio_loop =
  rl_clock_origin :: protocol_time
  rl_last_clock_second :: u64
  rl_last_completed :: u64
  rl_telemetry :: "'f json_value reporter"
  rl_pulses :: "(u64 \<times> protocol_time) list"

definition radio_report ::
  "('f json_value telemetry_record \<Rightarrow> nat) \<Rightarrow> bool \<Rightarrow> radio_turn \<Rightarrow> 'f radio_loop \<Rightarrow> 'f radio_loop" where
  "radio_report line_size final u l =
    (let m = ru_metrics u;
         l = (if tm_completed_submissions m \<noteq> rl_last_completed l
              then l\<lparr>rl_telemetry := note_activity (rl_telemetry l) (ru_activity_at u),
                     rl_last_completed := tm_completed_submissions m\<rparr>
              else l)
     in if final \<or> due (rl_telemetry l) (ru_due_at u)
        then l\<lparr>rl_telemetry := heartbeat line_size (rl_telemetry l) (ru_heartbeat_at u) (ru_record_at u)
                 (radio_heartbeat m (ru_sample_ordinal u) (ru_clipped_samples u) (ru_streaming u)) (tm_failed_submissions m) final\<rparr>
        else l)"

definition observe_second :: "radio_turn \<Rightarrow> 'f radio_loop \<Rightarrow> 'f radio_loop result" where
  "observe_second u l =
    (let second = ru_monotonic u div 1000000000
     in if second > rl_last_clock_second l
        then let pulse_time = ProtocolTime (seconds (rl_clock_origin l) + second) (picoseconds (rl_clock_origin l))
             in ensure (ru_pps_accepted u) (Runtime_error ''radio clock observation failed'')
               (Inr (l\<lparr>rl_last_clock_second := second, rl_pulses := rl_pulses l @ [(second * 1000000000, pulse_time)]\<rparr>))
        else Inr l)"

definition radio_turn_step ::
  "('f json_value telemetry_record \<Rightarrow> nat) \<Rightarrow> radio_turn \<Rightarrow> 'f radio_loop \<Rightarrow> 'f radio_loop result" where
  "radio_turn_step line_size u l =
     ebind (observe_second u l) (\<lambda>l.
     ensure (ru_progress u \<noteq> Some False) (Runtime_error ''radio runtime progress failed'')
       (Inr (radio_report line_size False u l)))"

text \<open>Start, the turns while the process is running, and the final report.\<close>

definition radio_loop_start :: "protocol_time \<Rightarrow> bool \<Rightarrow> 'f json_value reporter \<Rightarrow> 'f radio_loop result" where
  "radio_loop_start clock_origin pps_accepted telemetry =
     ensure pps_accepted (Runtime_error ''radio clock setup failed'')
       (Inr \<lparr>rl_clock_origin = clock_origin, rl_last_clock_second = 0, rl_last_completed = 0, rl_telemetry = telemetry,
             rl_pulses = [(0, clock_origin)]\<rparr>)"

fun radio_loop_run ::
  "('f json_value telemetry_record \<Rightarrow> nat) \<Rightarrow> radio_turn list \<Rightarrow> 'f radio_loop \<Rightarrow> 'f radio_loop result" where
  "radio_loop_run line_size [] l = Inr l"
| "radio_loop_run line_size (u # us) l = ebind (radio_turn_step line_size u l) (radio_loop_run line_size us)"

subsection \<open>Clock pulses\<close>

lemma radio_report_clock [simp]:
  "rl_pulses (radio_report ls f u l) = rl_pulses l" "rl_clock_origin (radio_report ls f u l) = rl_clock_origin l"
  "rl_last_clock_second (radio_report ls f u l) = rl_last_clock_second l"
  by (simp_all add: radio_report_def Let_def)

definition whole_second :: "u64 \<Rightarrow> u64" where
  "whole_second t = t div 1000000000 * 1000000000"

lemma unat_whole_second: "unat (whole_second t) = unat (t div 1000000000) * 10 ^ 9"
proof -
  have d: "unat (t div 1000000000) = unat t div 10 ^ 9" by (simp add: unat_div)
  have "unat t div 10 ^ 9 * 10 ^ 9 \<le> unat t" by simp
  also have "\<dots> < 2 ^ 64" using unsigned_less [of t] by simp
  finally show ?thesis unfolding whole_second_def d by (simp add: unat_word_ariths d)
qed

lemma whole_second_less: "s div 1000000000 < t div 1000000000 \<Longrightarrow> whole_second s < whole_second t"
  by (simp add: word_less_nat_alt unat_whole_second)

definition pulses_ok :: "u64 \<Rightarrow> 'f radio_loop \<Rightarrow> bool" where
  "pulses_ok reached l \<longleftrightarrow>
     rl_last_clock_second l = reached div 1000000000 \<and>
     sorted_wrt (\<lambda>p q. fst p < fst q) (rl_pulses l) \<and> (\<exists>ps p. rl_pulses l = ps @ [(whole_second reached, p)]) \<and>
     (\<forall>(t, time) \<in> set (rl_pulses l). t \<le> whole_second reached \<and>
        (\<exists>k. unat t = unat k * 10 ^ 9 \<and> time = ProtocolTime (seconds (rl_clock_origin l) + k) (picoseconds (rl_clock_origin l))))"

lemma max_div: "(max s t :: u64) div 1000000000 = (if t div 1000000000 > s div 1000000000 then t div 1000000000 else s div 1000000000)"
proof -
  have m: "a \<le> b \<Longrightarrow> a div 1000000000 \<le> b div 1000000000" for a b :: u64
    by (simp add: word_le_nat_alt unat_div div_le_mono)
  show ?thesis using m [of s t] m [of t s] by (auto simp: max_def not_less not_le dest: less_imp_le antisym)
qed

lemma observe_second_pulses:
  assumes "observe_second u l = Inr l'" "pulses_ok reached l"
  shows "pulses_ok (max reached (ru_monotonic u)) l' \<and> rl_clock_origin l' = rl_clock_origin l"
proof (cases "ru_monotonic u div 1000000000 > reached div 1000000000")
  case True
  let ?t = "ru_monotonic u"
  have m: "max reached ?t div 1000000000 = ?t div 1000000000" using True by (simp add: max_div)
  then have w: "whole_second (max reached ?t) = whole_second ?t" by (simp add: whole_second_def)
  have less: "whole_second reached < whole_second ?t" by (rule whole_second_less [OF True])
  have l': "l' = l\<lparr>rl_last_clock_second := ?t div 1000000000,
      rl_pulses := rl_pulses l @ [(whole_second ?t, ProtocolTime (seconds (rl_clock_origin l) + ?t div 1000000000) (picoseconds (rl_clock_origin l)))]\<rparr>"
    using assms True by (auto simp: observe_second_def pulses_ok_def whole_second_def Let_def result_simps split: prod.splits)
  have "fst p \<le> whole_second reached" if "p \<in> set (rl_pulses l)" for p
    using assms(2) that by (auto simp: pulses_ok_def)
  then have "fst p < whole_second ?t" if "p \<in> set (rl_pulses l)" for p
    using less that by (meson le_less_trans)
  moreover have "\<exists>k. unat (whole_second ?t) = unat k * 10 ^ 9 \<and>
      seconds (rl_clock_origin l) + ?t div 1000000000 = seconds (rl_clock_origin l) + k"
    by (intro exI [of _ "?t div 1000000000"]) (simp add: unat_whole_second)
  ultimately show ?thesis using assms(2) unfolding pulses_ok_def l' m w
    by (auto simp: sorted_wrt_append intro: order_less_imp_le)
next
  case False
  then have m: "max reached (ru_monotonic u) div 1000000000 = reached div 1000000000" by (simp add: max_div)
  then have w: "whole_second (max reached (ru_monotonic u)) = whole_second reached" by (simp add: whole_second_def)
  have "l' = l" using assms False by (simp add: observe_second_def pulses_ok_def)
  with assms(2) show ?thesis unfolding pulses_ok_def m w by simp
qed

lemma pulses_ok_report [simp]: "pulses_ok reached (radio_report ls f u l) = pulses_ok reached l"
  by (simp add: pulses_ok_def)

lemma radio_loop_pulses:
  "radio_loop_run ls us l = Inr l' \<Longrightarrow> pulses_ok reached l \<Longrightarrow>
   pulses_ok (fold max (map ru_monotonic us) reached) l' \<and> rl_clock_origin l' = rl_clock_origin l"
proof (induction us arbitrary: l reached)
  case (Cons u us)
  then obtain l1 where l1: "observe_second u l = Inr l1" "radio_loop_run ls us (radio_report ls False u l1) = Inr l'"
    by (auto simp: radio_turn_step_def ensure_def result_simps split: if_splits)
  note now = observe_second_pulses [OF l1(1) Cons.prems(2)]
  have "pulses_ok (max reached (ru_monotonic u)) (radio_report ls False u l1)" using now by simp
  from Cons.IH [OF l1(2) this] now show ?case by (simp add: max.commute)
qed simp

text \<open>C32. The radio's clock: whatever the times at which the loop runs, the pulses it gives the runtime
  are of strictly increasing whole seconds, each agrees with the clock's origin (as many seconds
  after it as its time on the local clock says, with the origin's picoseconds), and the last
  one is of the latest second that a turn has seen.\<close>

theorem radio_clock_pulses:
  assumes "radio_loop_start origin True telemetry = Inr l" and "radio_loop_run ls us l = Inr l'"
  shows "sorted_wrt (\<lambda>p q. fst p < fst q) (rl_pulses l') \<and>
    (\<forall>(t, time) \<in> set (rl_pulses l').
       \<exists>k. unat t = unat k * 10 ^ 9 \<and> time = ProtocolTime (seconds origin + k) (picoseconds origin)) \<and>
    unat (fst (last (rl_pulses l'))) = unat (fold max (map ru_monotonic us) 0) div 10 ^ 9 * 10 ^ 9"
proof -
  have start: "pulses_ok 0 l" "rl_clock_origin l = origin"
    using assms(1) by (auto simp: radio_loop_start_def pulses_ok_def whole_second_def result_simps intro!: exI [of _ 0])
  from radio_loop_pulses [OF assms(2) start(1)] start(2) show ?thesis
    by (auto simp: pulses_ok_def unat_whole_second unat_div)
qed

definition example_turns :: "radio_turn list" where
  "example_turns = map (\<lambda>t. \<lparr>ru_monotonic = t, ru_pps_accepted = True, ru_progress = Some True, ru_metrics = no_radio_metrics,
     ru_sample_ordinal = 0, ru_clipped_samples = 0, ru_streaming = False, ru_activity_at = 0, ru_due_at = 0,
     ru_heartbeat_at = 0, ru_record_at = 0\<rparr>) [500, 3000000100, 2999999999]"

theorem radio_clock_pulses_witness:
  "\<exists>l l' :: nat radio_loop. radio_loop_start (ProtocolTime 100 7) True (new_reporter 0 0 0) = Inr l \<and>
     radio_loop_run (\<lambda>_. 0) example_turns l = Inr l' \<and> unat (fst (last (rl_pulses l'))) = 3000000000 \<and>
     rl_pulses l' = [(0, ProtocolTime 100 7), (3000000000, ProtocolTime 103 7)]"
proof -
  define l :: "nat radio_loop" where "l = \<lparr>rl_clock_origin = ProtocolTime 100 7, rl_last_clock_second = 0, rl_last_completed = 0,
     rl_telemetry = new_reporter 0 0 0, rl_pulses = [(0, ProtocolTime 100 7)]\<rparr>"
  define l' where "l' = l\<lparr>rl_last_clock_second := 3, rl_pulses := [(0, ProtocolTime 100 7), (3000000000, ProtocolTime 103 7)]\<rparr>"
  have start: "radio_loop_start (ProtocolTime 100 7) True (new_reporter 0 0 0) = Inr l"
    by (simp add: radio_loop_start_def l_def result_simps)
  have run: "radio_loop_run (\<lambda>_. 0) example_turns l = Inr l'"
    by (simp add: example_turns_def radio_turn_step_def observe_second_def radio_report_def due_def new_reporter_def
        no_radio_metrics_def l_def l'_def result_simps Let_def)
  from radio_clock_pulses [OF start run] start run show ?thesis
    by (intro exI [of _ l] exI [of _ l'] conjI) (simp_all add: example_turns_def l'_def)
qed

section \<open>The reporter of the loop\<close>

lemma radio_report_ok:
  assumes "reporter_ok ls (rl_telemetry l)"
  shows "reporter_ok ls (rl_telemetry (radio_report ls final u l))"
proof -
  have "reporter_ok ls (note_activity (rl_telemetry l) t)" for t
    using reporter_step_ok [OF assms, of "Activity t"] by simp
  moreover have "reporter_ok ls (heartbeat ls r now later d errors f)" if "reporter_ok ls r" for r now later d errors f
    using reporter_step_ok [OF that, of "Heartbeat now later d errors f"] by simp
  ultimately show ?thesis using assms by (simp add: radio_report_def Let_def)
qed

lemma radio_loop_reporter_ok:
  "radio_loop_run ls us l = Inr l' \<Longrightarrow> reporter_ok ls (rl_telemetry l) \<Longrightarrow> reporter_ok ls (rl_telemetry l')"
proof (induction us arbitrary: l)
  case (Cons u us)
  then obtain l1 where l1: "observe_second u l = Inr l1" "radio_loop_run ls us (radio_report ls False u l1) = Inr l'"
    by (auto simp: radio_turn_step_def ensure_def result_simps split: if_splits)
  have "rl_telemetry l1 = rl_telemetry l"
    using l1(1) by (auto simp: observe_second_def Let_def result_simps split: prod.splits if_splits)
  with Cons.prems(2) Cons.IH [OF l1(2)] show ?case by (simp add: radio_report_ok)
qed simp

lemma boot_id_hex: "length (boot_id source) = length source" "set (boot_id source) \<subseteq> set ''0123456789abcdef''"
proof -
  have "unat (value AND 0xf) < length ''0123456789abcdef''" for "value" :: u32
  proof -
    have "value AND 0xf \<le> 0xf" by (rule word_and_le1)
    then show ?thesis by (simp add: word_le_nat_alt)
  qed
  then show "set (boot_id source) \<subseteq> set ''0123456789abcdef''" unfolding boot_id_def by (auto simp del: list.set intro!: nth_mem)
qed (simp add: boot_id_def)

section \<open>The stream the radio serves\<close>

text \<open>The fields of the framework's stream that come from the configuration; \<open>to_int\<close> is the cast of a \<open>double\<close> to an integer.\<close>

record stream_setup =
  st_sid :: u32
  st_controller :: u32
  st_controllee :: u32
  st_sample_rate :: u32
  st_center_frequency :: u64
  st_bandwidth :: u32
  st_gain :: i16
  st_ip_mtu :: nat
  st_maximum_samples :: nat
  st_burst_pairs :: nat

definition radio_stream :: "'f doubles \<Rightarrow> ('f \<Rightarrow> int) \<Rightarrow> 'f radio_app_config \<Rightarrow> stream_setup" where
  "radio_stream D to_int c =
     \<lparr>st_sid = ra_sid c, st_controller = 1, st_controllee = 2, st_sample_rate = rs_sample_rate_hz (ra_defaults c),
      st_center_frequency = rs_center_hz (ra_defaults c), st_bandwidth = rs_bandwidth_hz (ra_defaults c),
      st_gain = of_int (to_int (db_mul D (rs_gain_db (ra_defaults c)) (db_int D 128))), st_ip_mtu = ra_application_mtu c,
      st_maximum_samples = ra_samples_per_packet c, st_burst_pairs = ra_burst_samples c\<rparr>"

text \<open>
  The gain of the configuration, an integer number of 128ths of a decibel, reaches the stream unchanged:
  on exact arithmetic, where the division by 128 and its reverse are exact as they are in \<open>double\<close>.
\<close>

lemma stream_gain_exact:
  assumes "rs_gain_db (ra_defaults c) = real_of_int q7 / 128" "valid_settings reals (ra_defaults c)"
  shows "sint (st_gain (radio_stream reals (\<lambda>x. if 0 \<le> x then \<lfloor>x\<rfloor> else \<lceil>x\<rceil>) c)) = q7"
proof -
  have "- 60 \<le> real_of_int q7 / 128" "real_of_int q7 / 128 \<le> 60"
    using assms by (auto simp: valid_settings_def not_less)
  then have q: "- 7680 \<le> q7" "q7 \<le> 7680" by linarith+
  have "st_gain (radio_stream reals (\<lambda>x. if 0 \<le> x then \<lfloor>x\<rfloor> else \<lceil>x\<rceil>) c) = of_int q7"
    by (simp add: radio_stream_def assms(1))
  then show ?thesis using q by (simp add: signed_of_int signed_take_bit_int_eq_self)
qed

section \<open>Stopping\<close>

text \<open>The two flags of the process and its signal handlers.\<close>

record process_flags =
  pf_running :: bool
  pf_restart_requested :: bool

definition stop_process :: "process_flags \<Rightarrow> process_flags" where
  "stop_process f = f\<lparr>pf_running := False\<rparr>"

definition restart_process :: "process_flags \<Rightarrow> process_flags" where
  "restart_process f = f\<lparr>pf_restart_requested := True, pf_running := False\<rparr>"

datatype radio_end = Exit nat | Replaced

text \<open>
  After the loop: the final report, the last status document, which is never ready, and the exit, or
  after a restart signal the replacement of the process (\<open>execvp\<close> returns only when it fails).
\<close>

definition radio_finish ::
  "('f json_value telemetry_record \<Rightarrow> nat) \<Rightarrow> process_flags \<Rightarrow> bool \<Rightarrow> (bool \<Rightarrow> 'f json_value) \<Rightarrow> radio_turn \<Rightarrow> 'f radio_loop \<Rightarrow>
   'f radio_loop \<times> 'f json_value \<times> radio_end" where
  "radio_finish line_size flags replaced status u l =
    (radio_report line_size True u l, status False,
     if pf_restart_requested flags then (if replaced then Replaced else Exit 1) else Exit 0)"

lemma stop_keeps_restart: "pf_restart_requested (stop_process f) = pf_restart_requested f"
  by (simp add: stop_process_def)

lemma signals_end_loop: "\<not> pf_running (stop_process f) \<and> \<not> pf_running (restart_process f) \<and> pf_restart_requested (restart_process f)"
  by (simp add: stop_process_def restart_process_def)

end
