(* ===== verification/Fleet.thy ===== *)
theory Fleet
  imports Controller
begin

text \<open>
  What the controller promises: an abstract fleet of radios, of which its passes are steps; the
  outcome of a coordinated start.
\<close>

section \<open>The fleet: what the controller promises\<close>

text \<open>
  The abstract view: whether the radios were started together, and per radio the boot it was last seen
  with and whether it was configured and started since. A radio is started on its own only after
  the fleet was; the fleet is started once, when every radio is configured; a new boot forgets both.
\<close>

record phase =
  ph_boot :: "string option"
  ph_configured :: bool
  ph_started :: bool

record fleet =
  fl_coordinated :: bool
  fl_phases :: "phase list"

inductive fleet_step :: "fleet \<Rightarrow> fleet \<Rightarrow> bool" where
  seen: "i < length (fl_phases f) \<Longrightarrow> ph_boot (fl_phases f ! i) = None \<or> ph_boot (fl_phases f ! i) = Some b \<Longrightarrow>
    fleet_step f (f\<lparr>fl_phases := (fl_phases f)[i := (fl_phases f ! i)\<lparr>ph_boot := Some b\<rparr>]\<rparr>)"
| rebooted: "i < length (fl_phases f) \<Longrightarrow> ph_boot (fl_phases f ! i) = Some b' \<Longrightarrow> b' \<noteq> b \<Longrightarrow>
    fleet_step f (f\<lparr>fl_phases := (fl_phases f)[i := \<lparr>ph_boot = Some b, ph_configured = False, ph_started = False\<rparr>]\<rparr>)"
| configured: "i < length (fl_phases f) \<Longrightarrow> \<not> ph_configured (fl_phases f ! i) \<Longrightarrow>
    fleet_step f (f\<lparr>fl_phases := (fl_phases f)[i := (fl_phases f ! i)\<lparr>ph_configured := True\<rparr>]\<rparr>)"
| restarted: "fl_coordinated f \<Longrightarrow> i < length (fl_phases f) \<Longrightarrow> ph_configured (fl_phases f ! i) \<Longrightarrow> \<not> ph_started (fl_phases f ! i) \<Longrightarrow>
    fleet_step f (f\<lparr>fl_phases := (fl_phases f)[i := (fl_phases f ! i)\<lparr>ph_started := True\<rparr>]\<rparr>)"
| coordinated: "\<not> fl_coordinated f \<Longrightarrow> list_all ph_configured (fl_phases f) \<Longrightarrow>
    fleet_step f (f\<lparr>fl_coordinated := True, fl_phases := map (\<lambda>p. p\<lparr>ph_started := True\<rparr>) (fl_phases f)\<rparr>)"

abbreviation fleet_steps :: "fleet \<Rightarrow> fleet \<Rightarrow> bool" where
  "fleet_steps \<equiv> rtranclp fleet_step"

definition phase_of :: "radio_session \<Rightarrow> phase" where
  "phase_of s = \<lparr>ph_boot = map_option sn_boot_id (ps_status s), ph_configured = ps_configured s, ph_started = ps_started s\<rparr>"

definition fleet_of :: "'w controller \<Rightarrow> fleet" where
  "fleet_of c = \<lparr>fl_coordinated = kc_coordinated c, fl_phases = map phase_of (kc_sessions c)\<rparr>"

text \<open>A started radio is configured, and before the fleet was started none is.\<close>

definition fleet_ok :: "fleet \<Rightarrow> bool" where
  "fleet_ok f \<longleftrightarrow> list_all (\<lambda>p. ph_started p \<longrightarrow> ph_configured p \<and> fl_coordinated f) (fl_phases f)"

lemma fleet_step_ok: "fleet_step f f' \<Longrightarrow> fleet_ok f \<Longrightarrow> fleet_ok f'"
  by (induction rule: fleet_step.induct) (auto simp: fleet_ok_def list_all_length nth_list_update)

lemma fleet_step_coordinated: "fleet_step f f' \<Longrightarrow> fl_coordinated f \<Longrightarrow> fl_coordinated f'"
  by (induction rule: fleet_step.induct) simp_all

lemma fleet_step_length: "fleet_step f f' \<Longrightarrow> length (fl_phases f') = length (fl_phases f)"
  by (induction rule: fleet_step.induct) simp_all

lemma fleet_steps_ok: "fleet_steps f f' \<Longrightarrow> fleet_ok f \<Longrightarrow> fleet_ok f'"
  by (induction rule: rtranclp_induct) (auto intro: fleet_step_ok)

lemma fleet_steps_coordinated: "fleet_steps f f' \<Longrightarrow> fl_coordinated f \<Longrightarrow> fl_coordinated f'"
  by (induction rule: rtranclp_induct) (auto intro: fleet_step_coordinated)

lemma fleet_steps_length: "fleet_steps f f' \<Longrightarrow> length (fl_phases f') = length (fl_phases f)"
  by (induction rule: rtranclp_induct) (auto dest: fleet_step_length)

text \<open>What happens to one session: steps of the fleet that concern its radio only.\<close>

definition moves :: "nat \<Rightarrow> 'w controller \<Rightarrow> 'w controller \<Rightarrow> bool" where
  "moves i c c' \<longleftrightarrow> fleet_steps (fleet_of c) (fleet_of c') \<and> kc_coordinated c' = kc_coordinated c \<and>
     (\<exists>p. map phase_of (kc_sessions c') = (map phase_of (kc_sessions c))[i := p]) \<and> kc_config c' = kc_config c"

lemma length_moves: "moves i c c' \<Longrightarrow> length (kc_sessions c') = length (kc_sessions c)"
  unfolding moves_def by (metis length_list_update length_map)

lemma moves_trans [trans]: "moves i a b \<Longrightarrow> moves i b c \<Longrightarrow> moves i a c"
  by (auto simp: moves_def)

lemma calm_phases: "calm c c' \<Longrightarrow> map phase_of (kc_sessions c') = map phase_of (kc_sessions c)"
proof -
  assume "calm c c'"
  then have "map (phase_of \<circ> timeless) (kc_sessions c') = map (phase_of \<circ> timeless) (kc_sessions c)"
    unfolding calm_def by (metis map_map)
  moreover have "phase_of \<circ> timeless = phase_of" by (rule ext) (simp add: phase_of_def timeless_def)
  ultimately show ?thesis by simp
qed

definition still :: "'w controller \<Rightarrow> 'w controller \<Rightarrow> bool" where
  "still c c' \<longleftrightarrow> map phase_of (kc_sessions c') = map phase_of (kc_sessions c) \<and> kc_coordinated c' = kc_coordinated c \<and>
     kc_config c' = kc_config c"

lemma still_trans [trans]: "still a b \<Longrightarrow> still b c \<Longrightarrow> still a c"
  by (simp add: still_def)

lemma still_refl [simp, intro]: "still c c"
  by (simp add: still_def)

lemma still_calm: "calm c c' \<Longrightarrow> still c c'"
  using calm_phases [of c c'] by (simp add: still_def) (simp add: calm_def)

lemma still_moves: "still c c' \<Longrightarrow> moves i c c'"
  by (auto simp: still_def moves_def fleet_of_def intro: exI [of _ "map phase_of (kc_sessions c) ! i"])

lemma still_fleet: "still c c' \<Longrightarrow> fleet_of c' = fleet_of c"
  by (simp add: still_def fleet_of_def)

lemma still_length: "still c c' \<Longrightarrow> length (kc_sessions c') = length (kc_sessions c)"
  unfolding still_def by (metis length_map)

lemma still_phase: "still c c' \<Longrightarrow> i < length (kc_sessions c) \<Longrightarrow> phase_of (session_at i c') = phase_of (session_at i c)"
proof -
  assume s: "still c c'" and i: "i < length (kc_sessions c)"
  have "map phase_of (kc_sessions c') ! i = map phase_of (kc_sessions c) ! i" using s by (simp add: still_def)
  then show ?thesis using i still_length [OF s] by (simp add: session_at_def)
qed

lemma moves_refl [simp, intro]: "moves i c c"
  by (rule still_moves) simp

lemma still_count [simp]: "still c (count_metric f c)" "still c (status_failure c)" "still c (protocol_failure c)"
  "still c (count_submitted c)" "still c (count_admitted c)" "still c (report_event e c)" "still c (tell g c)"
  by (simp_all add: still_def count_metric_def status_failure_def protocol_failure_def count_submitted_def count_admitted_def
      report_event_def tell_def)

lemma still_ask: "ask f c = (x, c') \<Longrightarrow> still c c'"
  by (rule still_calm) (rule calm_ask)

lemma still_submit: "submit W i cmd c = (r, c') \<Longrightarrow> still c c'"
  using still_ask [of "wd_command W i cmd" c] still_trans [OF _ still_count(6)]
  by (fastforce simp: submit_def split: prod.splits option.splits)

lemma still_query: "query_state fuel W i c = Some (b, c') \<Longrightarrow> still c c'"
  by (auto simp: query_state_def split: prod.splits option.splits dest!: still_submit calm_wait_state intro: still_trans still_calm)

lemma still_execute: "execute fuel W i cmd c = Some (b, c') \<Longrightarrow> still c c'"
proof -
  assume e: "execute fuel W i cmd c = Some (b, c')"
  obtain r c1 where s: "submit W i cmd c = (r, c1)" by fastforce
  note m = still_submit [OF s]
  show ?thesis
  proof (cases r)
    case None
    then have "c' = protocol_failure c1" using e by (simp add: execute_def s)
    then show ?thesis using still_trans [OF m still_count(3)] by simp
  next
    case (Some h)
    obtain x c2 where w: "wait_evidence fuel W i h Execution (cc_io_timeout (kc_config c1)) c1 = Some (x, c2)"
      using e Some by (auto simp: execute_def s split: option.splits)
    have "c' = c2 \<or> c' = protocol_failure c2" using e Some by (auto simp: execute_def s w split: bool.splits)
    then show ?thesis using still_trans [OF still_trans [OF m still_calm [OF calm_wait_evidence [OF w]]] still_count(3)]
      still_trans [OF m still_calm [OF calm_wait_evidence [OF w]]] by auto
  qed
qed

lemma phases_update: "map phase_of (kc_sessions (update_session i f c)) =
    (if i < length (kc_sessions c) then (map phase_of (kc_sessions c))[i := phase_of (f (kc_sessions c ! i))] else map phase_of (kc_sessions c))"
  by (simp add: update_session_def map_update list_update_beyond)

lemma still_update:
  assumes "\<And>s. phase_of (f s) = phase_of s"
  shows "still c (update_session i f c)"
proof -
  have "map phase_of (kc_sessions (update_session i f c)) = map phase_of (kc_sessions c)"
    unfolding phases_update using assms by (auto intro!: nth_equalityI simp: nth_list_update)
  then show ?thesis by (simp add: still_def) (simp add: update_session_def)
qed

lemma moves_update:
  assumes "i < length (kc_sessions c)"
    and "fleet_step (fleet_of c) ((fleet_of c)\<lparr>fl_phases := (fl_phases (fleet_of c))[i := phase_of (f (session_at i c))]\<rparr>)"
  shows "moves i c (update_session i f c)"
  using assms unfolding moves_def fleet_of_def phases_update
  by (auto simp: update_session_def map_update session_at_def)

section \<open>A session's pass is steps of the fleet\<close>

lemma fleet_of_nth: "i < length (kc_sessions c) \<Longrightarrow> fl_phases (fleet_of c) ! i = phase_of (session_at i c)"
  by (simp add: fleet_of_def session_at_def)

lemma fleet_of_length [simp]: "length (fl_phases (fleet_of c)) = length (kc_sessions c)"
  by (simp add: fleet_of_def)

lemma session_update: "i < length (kc_sessions c) \<Longrightarrow> session_at i (update_session i f c) = f (session_at i c)"
  by (simp add: session_at_def update_session_def)

lemma moves_accept:
  assumes i: "i < length (kc_sessions c)"
    and changed: "changed \<longleftrightarrow> (case ps_status (session_at i c) of None \<Rightarrow> False | Some s \<Rightarrow> sn_boot_id s \<noteq> sn_boot_id after)"
  shows "moves i c (accept_status W i after changed c)"
proof -
  define f :: "u64 \<Rightarrow> radio_session \<Rightarrow> radio_session" where "f g s = (if changed then s\<lparr>ps_configured := False, ps_started := False\<rparr> else s)\<lparr>ps_status := Some after, ps_reconciled_generation := g\<rparr>" for g s
  define c1 where "c1 = (if changed then count_metric (\<lambda>m. m\<lparr>km_boot_changes := km_boot_changes m + 1\<rparr>)
      (update_session i (\<lambda>s. s\<lparr>ps_configured := False, ps_started := False\<rparr>) c) else c)"
  define g where "g = wd_generation W i (kc_world c1)"
  define c2 where "c2 = update_session i (\<lambda>s. s\<lparr>ps_status := Some after, ps_reconciled_generation := g\<rparr>) c1"
  have c2: "still (update_session i (f g) c) c2"
    using i by (simp add: c2_def c1_def f_def still_def update_session_def count_metric_def)
  obtain now c3 where c3: "ask (wd_clock W) c2 = (now, c3)" by fastforce
  have "still c2 (accept_status W i after changed c)"
  proof -
    have "still c2 (update_session i (\<lambda>s. s\<lparr>ps_last_liveness := now, ps_failures := 0\<rparr>) c3)" (is "still _ ?c4")
      using still_trans [OF still_ask [OF c3] still_update] by (simp add: phase_of_def)
    then have "still c2 (count_metric h ?c4)" for h by (rule still_trans) simp
    then show ?thesis by (simp add: accept_status_def c1_def [symmetric] g_def [symmetric] c2_def [symmetric] c3 Let_def)
  qed
  with c2 have rest: "still (update_session i (f g) c) (accept_status W i after changed c)" by (rule still_trans)
  have "moves i c (update_session i (f g) c)"
  proof (rule moves_update [OF i])
    let ?p = "phase_of (session_at i c)" and ?F = "fleet_of c"
    have nth: "fl_phases ?F ! i = ?p" using fleet_of_nth [OF i] .
    show "fleet_step ?F (?F\<lparr>fl_phases := (fl_phases ?F)[i := phase_of (f g (session_at i c))]\<rparr>)"
    proof (cases changed)
      case True
      then obtain s where s: "ps_status (session_at i c) = Some s" "sn_boot_id s \<noteq> sn_boot_id after"
        using changed by (auto split: option.splits)
      have eq: "phase_of (f g (session_at i c)) = \<lparr>ph_boot = Some (sn_boot_id after), ph_configured = False, ph_started = False\<rparr>"
        using True by (simp add: f_def phase_of_def)
      have "ph_boot (fl_phases ?F ! i) = Some (sn_boot_id s)" using nth s(1) by (simp add: phase_of_def)
      then show ?thesis unfolding eq
        using fleet_step.rebooted [of i ?F "sn_boot_id s" "sn_boot_id after"] i s(2) by simp
    next
      case False
      have "phase_of (f g (session_at i c)) = ?p\<lparr>ph_boot := Some (sn_boot_id after)\<rparr>"
        using False by (simp add: f_def phase_of_def)
      moreover have "ph_boot ?p = None \<or> ph_boot ?p = Some (sn_boot_id after)"
        using False changed by (auto simp: phase_of_def split: option.splits)
      ultimately show ?thesis using fleet_step.seen [of i ?F "sn_boot_id after"] i nth by simp
    qed
  qed
  from moves_trans [OF this still_moves [OF rest]] show ?thesis .
qed

lemma session_status_phase: "ph_boot (phase_of s) = map_option sn_boot_id (ps_status s)"
  by (simp add: phase_of_def)

lemma moves_reconcile_after:
  assumes i: "i < length (kc_sessions c)" and r: "reconcile_after fuel W i before c = Some (b, c')"
  shows "moves i c c'"
proof -
  obtain after c1 where c1: "ask (wd_read_status W i) c = (after, c1)" by fastforce
  note m1 = still_ask [OF c1]
  show ?thesis
  proof (cases after)
    case None
    then have "c' = status_failure c1" using r by (simp add: reconcile_after_def c1)
    then show ?thesis using still_moves [OF still_trans [OF m1 still_count(2)]] by simp
  next
    case (Some a)
    obtain ok c2 where c2: "ask (wd_resume_after W i (sn_admitted_id a)) c1 = (ok, c2)" by fastforce
    note m2 = still_trans [OF m1 still_ask [OF c2]]
    define changed where "changed = (case ps_status (session_at i c1) of None \<Rightarrow> False | Some s \<Rightarrow> sn_boot_id s \<noteq> sn_boot_id a)"
    have fails: "moves i c (status_failure c1)" "moves i c (report_event e (protocol_failure c2))" for e
      using still_trans [OF m1 still_count(2)] still_trans [OF still_trans [OF m2 still_count(3)] still_count(6)] still_moves by blast+
    show ?thesis
    proof (cases "same_boot before a \<and> ok")
      case False
      then have "c' = status_failure c1 \<or> c' = report_event (Resumption_failed i) (protocol_failure c2)"
        using r Some by (auto simp: reconcile_after_def c1 c2 split: if_splits)
      then show ?thesis using fails by auto
    next
      case True
      then have sb: "same_boot before a" "ok" by auto
      obtain q c3 where c3: "query_state fuel W i c2 = Some (q, c3)"
        using r Some True by (auto simp: reconcile_after_def c1 c2 split: option.splits)
      note m3 = still_trans [OF m2 still_query [OF c3]]
      have len: "i < length (kc_sessions c3)" "i < length (kc_sessions c1)" using i still_length [OF m3] still_length [OF m1] by simp_all
      show ?thesis
      proof (cases q)
        case False
        then have "c' = report_event (Status_failed i) (protocol_failure c3)"
          using r Some sb by (auto simp: reconcile_after_def c1 c2 c3)
        then show ?thesis using still_moves [OF still_trans [OF still_trans [OF m3 still_count(3)] still_count(6)]] by simp
      next
        case True
        then have c': "c' = accept_status W i a changed c3"
          using r Some sb by (simp add: reconcile_after_def c1 c2 c3 changed_def Let_def)
        have "still c1 c3" using still_trans [OF still_ask [OF c2] still_query [OF c3]] .
        from still_phase [OF this len(2)]
        have "map_option sn_boot_id (ps_status (session_at i c3)) = map_option sn_boot_id (ps_status (session_at i c1))"
          by (simp add: phase_of_def)
        then have "changed \<longleftrightarrow> (case ps_status (session_at i c3) of None \<Rightarrow> False | Some s \<Rightarrow> sn_boot_id s \<noteq> sn_boot_id a)"
          unfolding changed_def by (auto split: option.splits)
        from moves_accept [OF len(1) this] c' show ?thesis using moves_trans [OF still_moves [OF m3]] by simp
      qed
    qed
  qed
qed

lemma moves_reconcile:
  assumes i: "i < length (kc_sessions c)" and r: "reconcile fuel W i c = Some (b, c')"
  shows "moves i c c'"
proof -
  obtain before c1 where c1: "ask (wd_read_status W i) c = (before, c1)" by fastforce
  note m1 = still_ask [OF c1]
  show ?thesis
  proof (cases "case before of None \<Rightarrow> False | Some s \<Rightarrow> sn_ready s")
    case False
    then have "c' = status_failure c1" using r by (auto simp: reconcile_def c1 split: option.splits if_splits)
    then show ?thesis using still_moves [OF still_trans [OF m1 still_count(2)]] by simp
  next
    case True
    then obtain s where s: "before = Some s" "sn_ready s" by (auto split: option.splits)
    define c2 where "c2 = tell (wd_request_reconnect W i) (count_metric (\<lambda>m. m\<lparr>km_connection_attempts := km_connection_attempts m + 1\<rparr>) c1)"
    have m2: "still c c2" unfolding c2_def by (intro still_trans [OF still_trans [OF m1 still_count(1)] still_count(7)])
    obtain now c3 where c3: "ask (wd_clock W) c2 = (now, c3)" by fastforce
    note m3 = still_trans [OF m2 still_ask [OF c3]]
    obtain ok c4 where c4: "connect_loop fuel fuel W (now + cc_io_timeout (kc_config c3)) i c3 = Some (ok, c4)"
      using r s by (auto simp: reconcile_def c1 c2_def [symmetric] c3 Let_def split: option.splits)
    note m4 = still_trans [OF m3 still_calm [OF calm_connect_loop [OF c4]]]
    have "c' = c4 \<or> reconcile_after fuel W i s c4 = Some (b, c')"
      using r s by (auto simp: reconcile_def c1 c2_def [symmetric] c3 c4 Let_def split: bool.splits if_splits)
    then show ?thesis
      using moves_reconcile_after [of i c4 fuel W s b c'] still_moves [OF m4] moves_trans [OF still_moves [OF m4]] i still_length [OF m4]
      by auto
  qed
qed

lemma moves_liveness: "liveness fuel W i c = Some (b, c') \<Longrightarrow> still c c'"
proof -
  assume l: "liveness fuel W i c = Some (b, c')"
  obtain now c1 where c1: "ask (wd_clock W) c = (now, c1)" by fastforce
  note m1 = still_ask [OF c1]
  show ?thesis
  proof (cases "now - ps_last_liveness (session_at i c1) < cc_liveness_interval (kc_config c1)")
    case True
    then show ?thesis using l m1 by (simp add: liveness_def c1)
  next
    case False
    then obtain q c2 where c2: "query_state fuel W i c1 = Some (q, c2)"
      using l by (auto simp: liveness_def c1 split: option.splits)
    note m2 = still_trans [OF m1 still_query [OF c2]]
    obtain later c3 where c3: "ask (wd_clock W) c2 = (later, c3)" by fastforce
    have "still c3 (update_session i (\<lambda>s. s\<lparr>ps_last_liveness := t\<rparr>) c3)" for t
      by (rule still_update) (simp add: phase_of_def)
    then show ?thesis using l False still_trans [OF still_trans [OF m2 still_count(3)] still_count(7)] still_trans [OF m2 still_trans [OF still_ask [OF c3]]]
      by (auto simp: liveness_def c1 c2 c3 split: bool.splits)
  qed
qed

lemma still_quiesce: "quiesce fuel W i c = Some (b, c') \<Longrightarrow> still c c'"
proof -
  assume q: "quiesce fuel W i c = Some (b, c')"
  show ?thesis
  proof (cases "case ps_status (session_at i c) of None \<Rightarrow> False | Some s \<Rightarrow> sn_streaming s")
    case False
    then show ?thesis using q by (auto simp: quiesce_def split: option.splits if_splits)
  next
    case True
    then obtain s where s: "ps_status (session_at i c) = Some s" "sn_streaming s" by (auto split: option.splits)
    obtain ok c1 where c1: "execute fuel W i Stop_streaming c = Some (ok, c1)"
      using q s by (auto simp: quiesce_def split: option.splits)
    note m1 = still_execute [OF c1]
    have "still c1 (update_session i (\<lambda>s. s\<lparr>ps_status := map_option (\<lambda>st. st\<lparr>sn_streaming := False\<rparr>) (ps_status s)\<rparr>) c1)" (is "still _ ?c2")
      by (rule still_update) (simp add: phase_of_def option.map_comp comp_def)
    from still_trans [OF still_trans [OF m1 this] still_count(6)] show ?thesis
      using q s m1 by (auto simp: quiesce_def c1 split: bool.splits)
  qed
qed

lemma moves_configure:
  assumes i: "i < length (kc_sessions c)" and n: "\<not> ps_configured (session_at i c)" and r: "configure fuel W i c = Some (b, c')"
  shows "moves i c c' \<and> b = ps_configured (session_at i c')"
proof -
  obtain ok c1 where c1: "quiesce fuel W i c = Some (ok, c1)" using r by (auto simp: configure_def split: option.splits)
  note m1 = still_quiesce [OF c1]
  have conf: "ps_configured (session_at i d) = ps_configured (session_at i c)" if "still c d" for d
    using still_phase [OF that i] by (simp add: phase_of_def)
  show ?thesis
  proof (cases ok)
    case False
    then show ?thesis using r n conf [OF m1] still_moves [OF m1] by (simp add: configure_def c1)
  next
    case True
    then obtain ok2 c2 where c2: "execute fuel W i (Configure (settings_of (radio_of i c1))) c1 = Some (ok2, c2)"
      using r by (auto simp: configure_def c1 split: option.splits)
    note m2 = still_trans [OF m1 still_execute [OF c2]]
    have len: "i < length (kc_sessions c2)" using i still_length [OF m2] by simp
    show ?thesis
    proof (cases ok2)
      case False
      then show ?thesis using r True n conf [OF m2] still_moves [OF m2] by (simp add: configure_def c1 c2)
    next
      case ok2: True
      let ?u = "update_session i (\<lambda>s. s\<lparr>ps_configured := True\<rparr>) c2"
      have c': "b" "c' = count_metric (\<lambda>m. m\<lparr>km_configurations := km_configurations m + 1\<rparr>) ?u"
        using r True ok2 by (simp_all add: configure_def c1 c2)
      have "moves i c2 ?u"
      proof (rule moves_update [OF len])
        have eq: "phase_of ((session_at i c2)\<lparr>ps_configured := True\<rparr>) = (fl_phases (fleet_of c2) ! i)\<lparr>ph_configured := True\<rparr>"
          using fleet_of_nth [OF len] by (simp add: phase_of_def)
        have "\<not> ph_configured (fl_phases (fleet_of c2) ! i)" using fleet_of_nth [OF len] conf [OF m2] n by (simp add: phase_of_def)
        then show "fleet_step (fleet_of c2) ((fleet_of c2)\<lparr>fl_phases := (fl_phases (fleet_of c2))[i := phase_of ((session_at i c2)\<lparr>ps_configured := True\<rparr>)]\<rparr>)"
          unfolding eq using fleet_step.configured [of i "fleet_of c2"] len by simp
      qed
      then have "moves i c c'" using c'(2) moves_trans [OF moves_trans [OF still_moves [OF m2]] still_moves [OF still_count(1)]] by blast
      moreover have "ps_configured (session_at i c')"
        using session_update [OF len] c'(2) by (simp add: count_metric_def session_at_def)
      ultimately show ?thesis using c'(1) by simp
    qed
  qed
qed

lemma moves_restart:
  assumes i: "i < length (kc_sessions c)" and n: "ps_configured (session_at i c)" "\<not> ps_started (session_at i c)" "kc_coordinated c"
    and r: "restart_after_boot_change fuel W i c = Some (b, c')"
  shows "moves i c c' \<and> ps_configured (session_at i c')"
proof -
  obtain now c1 where c1: "ask (wd_system_clock W) c = (now, c1)" by fastforce
  obtain h c2 where c2: "submit W i (Start (start_epoch now)) c1 = (h, c2)" by fastforce
  note m2 = still_trans [OF still_ask [OF c1] still_submit [OF c2]]
  have conf: "ps_configured (session_at i d)" "\<not> ps_started (session_at i d)" "kc_coordinated d" if "still c d" for d
    using still_phase [OF that i] n that by (simp_all add: phase_of_def still_def)
  have same: ?thesis if "still c c'" using that conf still_moves by auto
  show ?thesis
  proof (cases h)
    case None
    then have "c' = protocol_failure c2" using r by (simp add: restart_after_boot_change_def c1 c2 Let_def)
    then show ?thesis using same still_trans [OF m2 still_count(3)] by simp
  next
    case (Some k)
    obtain ok c3 where c3: "wait_admission fuel W i k (start_epoch now) (count_submitted c2) = Some (ok, c3)"
      using r Some by (auto simp: restart_after_boot_change_def c1 c2 Let_def split: option.splits)
    note m3 = still_trans [OF still_trans [OF m2 still_count(4)] still_calm [OF calm_wait_admission [OF c3]]]
    show ?thesis
    proof (cases ok)
      case False
      then have "c' = protocol_failure c3" using r Some by (simp add: restart_after_boot_change_def c1 c2 c3 Let_def)
      then show ?thesis using same still_trans [OF m3 still_count(3)] by simp
    next
      case True
      define c4 where "c4 = count_admitted c3"
      note m4 = still_trans [OF m3 still_count(5), folded c4_def]
      have len: "i < length (kc_sessions c4)" using i still_length [OF m4] by simp
      let ?u = "update_session i (\<lambda>s. s\<lparr>ps_started := True\<rparr>) c4"
      have c': "c' = report_event (Restarted i (start_epoch now)) ?u"
        using r Some True by (simp add: restart_after_boot_change_def c1 c2 c3 c4_def Let_def)
      have "moves i c4 ?u"
      proof (rule moves_update [OF len])
        have eq: "phase_of ((session_at i c4)\<lparr>ps_started := True\<rparr>) = (fl_phases (fleet_of c4) ! i)\<lparr>ph_started := True\<rparr>"
          using fleet_of_nth [OF len] by (simp add: phase_of_def)
        have "fl_coordinated (fleet_of c4)" "ph_configured (fl_phases (fleet_of c4) ! i)" "\<not> ph_started (fl_phases (fleet_of c4) ! i)"
          using fleet_of_nth [OF len] conf [OF m4] by (simp_all add: phase_of_def) (simp add: fleet_of_def)
        then show "fleet_step (fleet_of c4) ((fleet_of c4)\<lparr>fl_phases := (fl_phases (fleet_of c4))[i := phase_of ((session_at i c4)\<lparr>ps_started := True\<rparr>)]\<rparr>)"
          unfolding eq using fleet_step.restarted [of "fleet_of c4" i] len by simp
      qed
      then have "moves i c c'" using c' moves_trans [OF moves_trans [OF still_moves [OF m4]] still_moves [OF still_count(6)]] by blast
      moreover have "ps_configured (session_at i c')"
        using session_update [OF len] c' conf [OF m4] by (simp add: report_event_def session_at_def)
      ultimately show ?thesis by simp
    qed
  qed
qed

lemma keep_session_moves:
  assumes i: "i < length (kc_sessions c)" and r: "keep_session fuel W i c = Some (b, c')"
  shows "moves i c c' \<and> (b \<longrightarrow> ps_configured (session_at i c'))"
proof -
  obtain x c1 where c1: "(if \<not> ps_configured (session_at i c) then configure fuel W i c else Some (True, c)) = Some (x, c1)"
    using r by (auto simp: keep_session_def split: option.splits)
  have m1: "moves i c c1" "x = ps_configured (session_at i c1)"
    using c1 moves_configure [OF i, of fuel W x c1] by (auto split: if_splits)
  obtain y c2 where c2: "(if kc_coordinated c1 \<and> ps_configured (session_at i c1) \<and> \<not> ps_started (session_at i c1)
      then restart_after_boot_change fuel W i c1 else Some (True, c1)) = Some (y, c2)"
    using r by (auto simp: keep_session_def c1 split: option.splits)
  have len1: "i < length (kc_sessions c1)" using i length_moves [OF m1(1)] by simp
  have m2: "moves i c1 c2" "ps_configured (session_at i c1) \<Longrightarrow> ps_configured (session_at i c2)"
    using c2 moves_restart [OF len1, of fuel W y c2] by (auto split: if_splits)
  obtain z c3 where c3: "(if ps_configured (session_at i c2) then liveness fuel W i c2 else Some (True, c2)) = Some (z, c3)"
    using r unfolding keep_session_def c1 option.case prod.case c2 by (auto split: option.splits)
  have m3: "still c2 c3" using c3 moves_liveness [of fuel W i c2 z c3] by (auto split: if_splits)
  have res: "b = (x \<and> y \<and> z)" "c' = c3" using r unfolding keep_session_def c1 option.case prod.case c2 c3 by auto
  have "i < length (kc_sessions c2)" using len1 length_moves [OF m2(1)] by simp
  from still_phase [OF m3 this] have "ps_configured (session_at i c3) = ps_configured (session_at i c2)" by (simp add: phase_of_def)
  then show ?thesis using res m1 m2 moves_trans [OF moves_trans [OF m1(1) m2(1)] still_moves [OF m3]] by auto
qed

lemma still_note_failure: "still c (note_failure i c)"
proof -
  have "still c (update_session i (\<lambda>s. s\<lparr>ps_failures := ps_failures s + 1\<rparr>) c)" (is "still c ?u")
    by (rule still_update) (simp add: phase_of_def)
  from this still_trans [OF this still_count(6)] show ?thesis by (simp add: note_failure_def Let_def)
qed

lemma visit_session_moves:
  assumes i: "i < length (kc_sessions c)" and r: "visit_session fuel W i c = Some (b, c')"
  shows "moves i c c' \<and> (b \<longrightarrow> ps_configured (session_at i c'))"
proof (cases "\<not> wd_connected W i (kc_world c) \<or> wd_generation W i (kc_world c) \<noteq> ps_reconciled_generation (session_at i c)")
  case False
  then show ?thesis using keep_session_moves [OF i] r by (simp add: visit_session_def)
next
  case True
  then obtain ok c1 where c1: "reconcile fuel W i c = Some (ok, c1)" using r by (auto simp: visit_session_def split: option.splits)
  note m1 = moves_reconcile [OF i c1]
  show ?thesis
  proof (cases ok)
    case True
    then have "keep_session fuel W i c1 = Some (b, c')" using r c1 \<open>\<not> _ \<or> _\<close> by (auto simp: visit_session_def)
    from keep_session_moves [OF _ this] i length_moves [OF m1] moves_trans [OF m1] show ?thesis by auto
  next
    case False
    then have "b = False" "c' = note_failure i c1" using r c1 \<open>\<not> _ \<or> _\<close> by (auto simp: visit_session_def)
    then show ?thesis using moves_trans [OF m1 still_moves [OF still_note_failure]] by simp
  qed
qed

lemma moves_other: "moves i c c' \<Longrightarrow> j \<noteq> i \<Longrightarrow> j < length (kc_sessions c) \<Longrightarrow> phase_of (session_at j c') = phase_of (session_at j c)"
proof -
  assume m: "moves i c c'" and j: "j \<noteq> i" "j < length (kc_sessions c)"
  then obtain p where "map phase_of (kc_sessions c') = (map phase_of (kc_sessions c))[i := p]" by (auto simp: moves_def)
  then have "map phase_of (kc_sessions c') ! j = map phase_of (kc_sessions c) ! j" using j by simp
  then show ?thesis using j length_moves [OF m] by (simp add: session_at_def)
qed

text \<open>As long as nobody asks the thread to stop.\<close>

definition uninterrupted :: "'w world \<Rightarrow> bool" where
  "uninterrupted W \<longleftrightarrow> (\<forall>w. \<not> fst (wd_stop W w))"

lemma visit_sessions_steps:
  assumes "uninterrupted W" and "set is \<subseteq> {..<length (kc_sessions c)}" and "distinct is"
    and "visit_sessions fuel W is ready c = Some (b, c')"
  shows "fleet_steps (fleet_of c) (fleet_of c') \<and> kc_coordinated c' = kc_coordinated c \<and> kc_config c' = kc_config c \<and>
    length (kc_sessions c') = length (kc_sessions c) \<and>
    (b \<longrightarrow> ready \<and> (\<forall>i < length (kc_sessions c). i \<in> set is \<or> ps_configured (session_at i c) \<longrightarrow> ps_configured (session_at i c')))"
  using assms(2-4)
proof (induction "is" arbitrary: ready c)
  case (Cons i js)
  obtain stop c1 where c1: "ask (wd_stop W) c = (stop, c1)" by fastforce
  have "\<not> stop" using c1 assms(1) by (auto simp: ask_def uninterrupted_def split: prod.splits) (metis fst_conv)
  note m1 = still_ask [OF c1]
  obtain ok c2 where c2: "visit_session fuel W i c1 = Some (ok, c2)"
    using Cons.prems(3) c1 \<open>\<not> stop\<close> by (auto split: option.splits)
  have i: "i < length (kc_sessions c1)" using Cons.prems(1) still_length [OF m1] by simp
  note m2 = visit_session_moves [OF i c2]
  have m: "moves i c c2" using moves_trans [OF still_moves [OF m1]] m2 by blast
  have rest: "visit_sessions fuel W js (ready \<and> ok) c2 = Some (b, c')" using Cons.prems(3) c1 c2 \<open>\<not> stop\<close> by simp
  have IH: "fleet_steps (fleet_of c2) (fleet_of c') \<and> kc_coordinated c' = kc_coordinated c2 \<and> kc_config c' = kc_config c2 \<and>
    length (kc_sessions c') = length (kc_sessions c2) \<and>
    (b \<longrightarrow> (ready \<and> ok) \<and> (\<forall>k < length (kc_sessions c2). k \<in> set js \<or> ps_configured (session_at k c2) \<longrightarrow> ps_configured (session_at k c')))"
    by (rule Cons.IH [OF _ _ rest]) (use Cons.prems(1,2) length_moves [OF m] in auto)
  have other: "ps_configured (session_at k c2) = ps_configured (session_at k c)" if "k \<noteq> i" "k < length (kc_sessions c)" for k
    using moves_other [OF m that] by (simp add: phase_of_def)
  have len: "length (kc_sessions c2) = length (kc_sessions c)" using length_moves [OF m] .
  have "ps_configured (session_at k c')" if "b" "k < length (kc_sessions c)" "k \<in> set (i # js) \<or> ps_configured (session_at k c)" for k
  proof (cases "k = i")
    case True
    then show ?thesis using IH m2 that len by auto
  next
    case False
    then show ?thesis using IH that len other [OF False that(2)] by auto
  qed
  then show ?case using IH m len rtranclp_trans [of fleet_step "fleet_of c" "fleet_of c2" "fleet_of c'"]
    by (auto simp: moves_def)
qed simp

lemma still_submit_starts: "submit_starts W epoch is c = (r, c') \<Longrightarrow> still c c'"
proof (induction "is" arbitrary: c r c')
  case (Cons i js)
  obtain h c1 where c1: "submit W i (Start epoch) c = (h, c1)" by fastforce
  note m1 = still_submit [OF c1]
  show ?case
  proof (cases h)
    case None
    then show ?thesis using Cons.prems still_trans [OF m1 still_count(3)] by (auto simp: c1)
  next
    case (Some k)
    obtain hs c2 where c2: "submit_starts W epoch js (count_submitted c1) = (hs, c2)" by fastforce
    from still_trans [OF still_trans [OF m1 still_count(4)] Cons.IH [OF c2]] show ?thesis
      using Cons.prems Some by (auto simp: c1 c2 split: option.splits)
  qed
qed simp

lemma still_cancels: "still c (foldl (cancel_start W) c ihs)"
proof (induction ihs arbitrary: c)
  case (Cons ih ihs)
  have "still c (cancel_start W c ih)" unfolding cancel_start_def by (rule still_trans [OF still_count(7) still_count(6)])
  from still_trans [OF this Cons] show ?case by simp
qed simp

lemma still_await_starts: "await_starts fuel W epoch earlier later c = Some (b, c') \<Longrightarrow> still c c'"
proof (induction later arbitrary: earlier c)
  case (Cons ih later)
  obtain i h where ih: "ih = (i, h)" by fastforce
  obtain ok c1 where c1: "wait_admission fuel W i h epoch c = Some (ok, c1)" using Cons.prems by (auto simp: ih split: option.splits)
  note m1 = still_calm [OF calm_wait_admission [OF c1]]
  show ?case
  proof (cases ok)
    case True
    then have "await_starts fuel W epoch (earlier @ [(i, h)]) later (count_admitted c1) = Some (b, c')" using Cons.prems by (simp add: ih c1)
    from still_trans [OF still_trans [OF m1 still_count(5)] Cons.IH [OF this]] show ?thesis .
  next
    case False
    then have "c' = foldl (cancel_start W) (protocol_failure c1) earlier" using Cons.prems by (simp add: ih c1)
    then show ?thesis using still_trans [OF still_trans [OF m1 still_count(3)] still_cancels] by simp
  qed
qed simp

lemma coordinate_start_steps:
  assumes "\<not> kc_coordinated c" and "\<forall>i < length (kc_sessions c). ps_configured (session_at i c)"
    and r: "coordinate_start fuel W c = Some (b, c')"
  shows "fleet_steps (fleet_of c) (fleet_of c') \<and> kc_coordinated c' = b \<and> length (kc_sessions c') = length (kc_sessions c) \<and>
    kc_config c' = kc_config c"
proof -
  obtain now c1 where c1: "ask (wd_system_clock W) c = (now, c1)" by fastforce
  obtain hs c2 where c2: "submit_starts W (start_epoch now) [0..<length (kc_sessions c1)] c1 = (hs, c2)" by fastforce
  note m2 = still_trans [OF still_ask [OF c1] still_submit_starts [OF c2]]
  show ?thesis
  proof (cases hs)
    case None
    then have "c' = c2" "b = False" using r by (simp_all add: coordinate_start_def c1 c2 Let_def)
    then show ?thesis using m2 still_fleet [OF m2] still_length [OF m2] assms(1) by (simp add: still_def)
  next
    case (Some ks)
    obtain ok c3 where c3: "await_starts fuel W (start_epoch now) [] (zip [0..<length (kc_sessions c1)] ks) c2 = Some (ok, c3)"
      using r Some by (auto simp: coordinate_start_def c1 c2 Let_def split: option.splits)
    note m3 = still_trans [OF m2 still_await_starts [OF c3]]
    note facts = still_fleet [OF m3] still_length [OF m3]
    show ?thesis
    proof (cases ok)
      case False
      then have "c' = c3" "b = False" using r Some by (simp_all add: coordinate_start_def c1 c2 c3 Let_def)
      then show ?thesis using m3 facts assms(1) by (simp add: still_def)
    next
      case True
      then have res: "c' = mark_started (start_epoch now) c3" "b = True"
        using r Some by (simp_all add: coordinate_start_def c1 c2 c3 Let_def)
      have "list_all ph_configured (fl_phases (fleet_of c3))"
        unfolding facts(1) using assms(2) by (simp add: list_all_length fleet_of_def session_at_def phase_of_def)
      moreover have "\<not> fl_coordinated (fleet_of c3)" unfolding facts(1) using assms(1) by (simp add: fleet_of_def)
      ultimately have "fleet_step (fleet_of c3) ((fleet_of c3)\<lparr>fl_coordinated := True,
          fl_phases := map (\<lambda>p. p\<lparr>ph_started := True\<rparr>) (fl_phases (fleet_of c3))\<rparr>)"
        by (rule fleet_step.coordinated [rotated])
      also have "(fleet_of c3)\<lparr>fl_coordinated := True, fl_phases := map (\<lambda>p. p\<lparr>ph_started := True\<rparr>) (fl_phases (fleet_of c3))\<rparr> = fleet_of c'"
        by (simp add: res(1) mark_started_def report_event_def fleet_of_def phase_of_def)
      finally have "fleet_step (fleet_of c) (fleet_of c')" by (simp only: facts(1))
      then show ?thesis using res facts m3 by (auto simp: mark_started_def report_event_def still_def)
    qed
  qed
qed

lemma still_progress_sessions: "progress_sessions fuel W is ready c = Some (b, c') \<Longrightarrow> still c c'"
proof (induction "is" arbitrary: ready c)
  case (Cons i js)
  obtain ok c1 where c1: "progress fuel W (millis 1) i c = Some (ok, c1)" using Cons.prems by (auto split: option.splits)
  note m1 = still_calm [OF calm_progress [OF c1]]
  show ?case
  proof (cases ok)
    case True
    then show ?thesis using Cons.prems Cons.IH [of ready c1] still_trans [OF m1] by (simp add: c1)
  next
    case False
    then show ?thesis using Cons.prems Cons.IH [of False "protocol_failure c1"] still_trans [OF still_trans [OF m1 still_count(3)]] by (simp add: c1)
  qed
qed simp

lemma run_pass_steps:
  assumes "uninterrupted W" and r: "run_pass fuel W backoff c = Some (b, c')"
  shows "fleet_steps (fleet_of c) (fleet_of c') \<and> kc_config c' = kc_config c"
proof -
  obtain ready c1 where c1: "visit_sessions fuel W [0..<length (kc_sessions c)] True c = Some (ready, c1)"
    using r by (auto simp: run_pass_def split: option.splits)
  have v: "fleet_steps (fleet_of c) (fleet_of c1)" "kc_coordinated c1 = kc_coordinated c" "length (kc_sessions c1) = length (kc_sessions c)"
    "kc_config c1 = kc_config c" "ready \<Longrightarrow> \<forall>i < length (kc_sessions c1). ps_configured (session_at i c1)"
    using visit_sessions_steps [OF assms(1) _ _ c1] by (auto simp: subset_iff)
  obtain ready2 c2 where c2: "coordinate_if_ready fuel W ready c1 = Some (ready2, c2)"
    using r by (auto simp: run_pass_def c1 split: option.splits)
  have "fleet_steps (fleet_of c1) (fleet_of c2)" "kc_config c2 = kc_config c1"
    using c2 coordinate_start_steps [of c1 fuel W ready2 c2] v(5) by (auto simp: coordinate_if_ready_def split: if_splits)
  moreover obtain ready3 c3 where c3: "progress_sessions fuel W [0..<length (kc_sessions c2)] ready2 c2 = Some (ready3, c3)"
    using r by (auto simp: run_pass_def c1 c2 split: option.splits)
  moreover have "still c3 c'" using r still_count(7) by (auto simp: run_pass_def c1 c2 c3 back_off_def split: if_splits)
  ultimately show ?thesis using v still_progress_sessions [OF c3] still_fleet
    by (metis rtranclp_trans still_def)
qed

section \<open>What holds of every run\<close>

text \<open>A number of passes, each with the backoff the one before left.\<close>

fun run_passes :: "nat \<Rightarrow> nat \<Rightarrow> 'w world \<Rightarrow> nanos \<Rightarrow> 'w controller \<Rightarrow> (nanos \<times> 'w controller) option" where
  "run_passes 0 fuel W backoff c = Some (backoff, c)"
| "run_passes (Suc n) fuel W backoff c =
    (case run_pass fuel W backoff c of None \<Rightarrow> None | Some (backoff, c) \<Rightarrow> run_passes n fuel W backoff c)"

lemma run_passes_steps:
  "uninterrupted W \<Longrightarrow> run_passes n fuel W backoff c = Some (b, c') \<Longrightarrow> fleet_steps (fleet_of c) (fleet_of c') \<and> kc_config c' = kc_config c"
proof (induction n arbitrary: backoff c)
  case (Suc n)
  obtain b1 c1 where c1: "run_pass fuel W backoff c = Some (b1, c1)" using Suc.prems(2) by (auto split: option.splits)
  then have "run_passes n fuel W b1 c1 = Some (b, c')" using Suc.prems(2) by simp
  from Suc.IH [OF Suc.prems(1) this] run_pass_steps [OF Suc.prems(1) c1] show ?case by auto
qed simp

lemma new_fleet: "fleet_of (new_controller config origin clock_origin w) =
    \<lparr>fl_coordinated = False, fl_phases = replicate 4 \<lparr>ph_boot = None, ph_configured = False, ph_started = False\<rparr>\<rparr>"
  by (simp add: fleet_of_def new_controller_def phase_of_def new_session_def)


section \<open>The outcome of a coordinated start\<close>

definition start_of :: "protocol_time \<Rightarrow> nat \<times> handle \<Rightarrow> controller_event" where
  "start_of epoch ih = Submitted (fst ih) (Start epoch) (snd ih)"

definition cancel_of :: "nat \<times> handle \<Rightarrow> controller_event" where
  "cancel_of ih = Cancelled (fst ih) (snd ih)"

lemma calm_deeds: "calm c c' \<Longrightarrow> deeds c' = deeds c"
  by (simp add: calm_def)

lemma deeds_count [simp]: "deeds (count_metric f c) = deeds c" "deeds (protocol_failure c) = deeds c" "deeds (count_submitted c) = deeds c"
  "deeds (count_admitted c) = deeds c" "deeds (status_failure c) = deeds c" "deeds (tell g c) = deeds c"
  by (simp_all add: deeds_def count_metric_def protocol_failure_def count_submitted_def count_admitted_def status_failure_def tell_def)

lemma submit_deeds: "submit W i cmd c = (r, c') \<Longrightarrow> deeds c' = deeds c @ (case r of None \<Rightarrow> [] | Some h \<Rightarrow> [Submitted i cmd h])"
  by (auto simp: submit_def deeds_def report_event_def is_deed_def ask_def split: prod.splits option.splits)

lemma submit_starts_deeds:
  "submit_starts W epoch is c = (r, c') \<Longrightarrow>
   \<exists>starts. deeds c' = deeds c @ map (start_of epoch) starts \<and> map fst starts = take (length starts) is \<and> length starts \<le> length is \<and>
     (case r of None \<Rightarrow> length starts < length is \<and> (\<exists>w. wd_command W (is ! length starts) (Start epoch) w = (None, kc_world c'))
      | Some hs \<Rightarrow> starts = zip is hs \<and> length hs = length is)"
proof (induction "is" arbitrary: c r c')
  case Nil
  then show ?case by auto
next
  case (Cons i js)
  obtain h c1 where c1: "submit W i (Start epoch) c = (h, c1)" by fastforce
  note d1 = submit_deeds [OF c1]
  show ?case
  proof (cases h)
    case None
    have "wd_command W i (Start epoch) (kc_world c) = (None, kc_world c1)"
      using c1 None by (auto simp: submit_def ask_def split: prod.splits option.splits)
    then show ?thesis using Cons.prems d1 None
      by (intro exI [of _ "[]"]) (auto simp: c1 protocol_failure_def count_metric_def deeds_def)
  next
    case (Some k)
    obtain hs c2 where c2: "submit_starts W epoch js (count_submitted c1) = (hs, c2)" by fastforce
    from Cons.IH [OF c2] obtain starts where s: "deeds c2 = deeds c1 @ map (start_of epoch) starts" "map fst starts = take (length starts) js"
      "length starts \<le> length js" "case hs of None \<Rightarrow> length starts < length js \<and> (\<exists>w. wd_command W (js ! length starts) (Start epoch) w = (None, kc_world c2))
        | Some hs \<Rightarrow> starts = zip js hs \<and> length hs = length js" by auto
    have "r = map_option (\<lambda>hs. k # hs) hs" "c' = c2" using Cons.prems Some by (auto simp: c1 c2 split: option.splits)
    then show ?thesis using s d1 Some by (intro exI [of _ "(i, k) # starts"]) (auto simp: start_of_def split: option.splits)
  qed
qed

lemma cancels_deeds: "deeds (foldl (cancel_start W) c ihs) = deeds c @ map cancel_of ihs"
proof (induction ihs arbitrary: c)
  case (Cons ih ihs)
  have "deeds (cancel_start W c ih) = deeds c @ [cancel_of ih]"
    by (simp add: cancel_start_def cancel_of_def deeds_def report_event_def is_deed_def tell_def)
  then show ?case using Cons by simp
qed simp

lemma await_starts_deeds:
  "await_starts fuel W epoch earlier later c = Some (b, c') \<Longrightarrow>
   \<exists>k. deeds c' = deeds c @ map cancel_of (if b then [] else take k (earlier @ later)) \<and> (b \<or> k < length (earlier @ later))"
proof (induction later arbitrary: earlier c)
  case Nil
  then show ?case by auto
next
  case (Cons ih later)
  obtain i h where ih: "ih = (i, h)" by fastforce
  obtain ok c1 where c1: "wait_admission fuel W i h epoch c = Some (ok, c1)" using Cons.prems by (auto simp: ih split: option.splits)
  note d1 = calm_deeds [OF calm_wait_admission [OF c1]]
  show ?case
  proof (cases ok)
    case True
    then have "await_starts fuel W epoch (earlier @ [(i, h)]) later (count_admitted c1) = Some (b, c')" using Cons.prems by (simp add: ih c1)
    from Cons.IH [OF this] d1 show ?thesis by (auto simp: ih)
  next
    case False
    then have "c' = foldl (cancel_start W) (protocol_failure c1) earlier" "\<not> b" using Cons.prems by (simp_all add: ih c1)
    then show ?thesis using d1 by (intro exI [of _ "length earlier"]) (simp add: cancels_deeds)
  qed
qed

text \<open>
  The state after each of the starts, one after the other, was admitted before its deadline; None when one was not.
\<close>

fun after_admissions :: "nat \<Rightarrow> 'w world \<Rightarrow> protocol_time \<Rightarrow> (nat \<times> handle) list \<Rightarrow> 'w controller \<Rightarrow> 'w controller option" where
  "after_admissions fuel W epoch [] c = Some c"
| "after_admissions fuel W epoch ((i, h) # starts) c =
    (case wait_admission fuel W i h epoch c of
       Some (True, c) \<Rightarrow> after_admissions fuel W epoch starts (count_admitted c)
     | _ \<Rightarrow> None)"

lemma await_starts_admissions:
  "await_starts fuel W epoch earlier later c = Some (b, c') \<Longrightarrow>
   (if b then after_admissions fuel W epoch later c = Some c' \<and> deeds c' = deeds c
    else \<exists>k < length later. \<exists>d d'. after_admissions fuel W epoch (take k later) c = Some d \<and>
      wait_admission fuel W (fst (later ! k)) (snd (later ! k)) epoch d = Some (False, d') \<and>
      deeds c' = deeds c @ map cancel_of (earlier @ take k later))"
proof (induction later arbitrary: earlier c)
  case Nil
  then show ?case by auto
next
  case (Cons ih later)
  obtain i h where ih: "ih = (i, h)" by fastforce
  obtain ok c1 where c1: "wait_admission fuel W i h epoch c = Some (ok, c1)" using Cons.prems by (auto simp: ih split: option.splits)
  note d1 = calm_deeds [OF calm_wait_admission [OF c1]]
  show ?case
  proof (cases ok)
    case True
    then have "await_starts fuel W epoch (earlier @ [(i, h)]) later (count_admitted c1) = Some (b, c')" using Cons.prems by (simp add: ih c1)
    note IH = Cons.IH [OF this]
    show ?thesis
    proof (cases b)
      case True
      with IH d1 c1 \<open>ok\<close> show ?thesis by (simp add: ih)
    next
      case False
      with IH obtain k d d' where k: "k < length later" "after_admissions fuel W epoch (take k later) (count_admitted c1) = Some d"
        "wait_admission fuel W (fst (later ! k)) (snd (later ! k)) epoch d = Some (False, d')"
        "deeds c' = deeds (count_admitted c1) @ map cancel_of ((earlier @ [(i, h)]) @ take k later)" by auto
      then have "\<exists>d d'. after_admissions fuel W epoch (take (Suc k) (ih # later)) c = Some d \<and>
          wait_admission fuel W (fst ((ih # later) ! Suc k)) (snd ((ih # later) ! Suc k)) epoch d = Some (False, d') \<and>
          deeds c' = deeds c @ map cancel_of (earlier @ take (Suc k) (ih # later))"
        using c1 d1 \<open>ok\<close> by (simp add: ih)
      moreover have "Suc k < length (ih # later)" using k(1) by simp
      ultimately show ?thesis using False by (simp only: if_False) blast
    qed
  next
    case False
    then have "c' = foldl (cancel_start W) (protocol_failure c1) earlier" "\<not> b" using Cons.prems by (simp_all add: ih c1)
    then show ?thesis using d1 c1 False by (auto simp: ih cancels_deeds intro!: exI [of _ "0 :: nat"])
  qed
qed

text \<open>Nothing a coordinated start does before it succeeds marks a radio as started.\<close>

lemma still_started: "still c d \<Longrightarrow> map ps_started (kc_sessions d) = map ps_started (kc_sessions c)"
proof -
  assume "still c d"
  then have "map (ph_started \<circ> phase_of) (kc_sessions d) = map (ph_started \<circ> phase_of) (kc_sessions c)"
    unfolding still_def by (metis map_map)
  moreover have "ph_started \<circ> phase_of = ps_started" by (rule ext) (simp add: phase_of_def)
  ultimately show ?thesis by simp
qed

lemma none_started: "fleet_ok (fleet_of c) \<Longrightarrow> \<not> kc_coordinated c \<Longrightarrow> \<not> list_ex ps_started (kc_sessions c)"
  by (auto simp: fleet_ok_def fleet_of_def phase_of_def list_all_iff list_ex_iff)

text \<open>C14. The outcome of a coordinated start. Starts for one epoch, read from the system clock at its beginning, are submitted to
  the radios in their order. It succeeds only when a start was submitted to every radio and every radio admitted its start
  before the deadline; then none was cancelled and every radio and the fleet count as started. Otherwise either the submission to the next radio was
  refused, and then no start is cancelled at all; or every radio got its start and one of them, the \<open>k\<close>-th, is the
  first whose start was not admitted, and then exactly the starts before it are cancelled: its own and all later ones are left
  standing. In both cases no radio counts as started, when none did.\<close>

theorem coordinate_start_outcome:
  assumes "coordinate_start fuel W c = Some (b, c')"
  defines "n \<equiv> length (kc_sessions c)" and "epoch \<equiv> start_epoch (fst (wd_system_clock W (kc_world c)))"
  shows "\<exists>starts c\<^sub>1. map fst starts = [0..<length starts] \<and> length starts \<le> n \<and> deeds c\<^sub>1 = deeds c @ map (start_of epoch) starts \<and>
    (if b then length starts = n \<and> after_admissions fuel W epoch starts c\<^sub>1 \<noteq> None \<and> deeds c' = deeds c\<^sub>1 \<and>
        kc_coordinated c' \<and> list_all ps_started (kc_sessions c')
     else kc_coordinated c' = kc_coordinated c \<and> map ps_started (kc_sessions c') = map ps_started (kc_sessions c) \<and>
       ((length starts < n \<and> c' = c\<^sub>1 \<and> (\<exists>w. wd_command W (length starts) (Start epoch) w = (None, kc_world c'))) \<or>
        (length starts = n \<and> (\<exists>k < n. \<exists>d d'. after_admissions fuel W epoch (take k starts) c\<^sub>1 = Some d \<and>
           wait_admission fuel W k (snd (starts ! k)) epoch d = Some (False, d') \<and>
           deeds c' = deeds c\<^sub>1 @ map cancel_of (take k starts)))) \<and>
       (fleet_ok (fleet_of c) \<and> \<not> kc_coordinated c \<longrightarrow> \<not> list_ex ps_started (kc_sessions c')))"
proof -
  obtain now c1 where c1: "ask (wd_system_clock W) c = (now, c1)" by fastforce
  let ?is = "[0..<length (kc_sessions c1)]"
  have e: "start_epoch now = epoch" using c1 by (auto simp: epoch_def ask_def split: prod.splits)
  obtain hs c2 where c2: "submit_starts W epoch ?is c1 = (hs, c2)" by fastforce
  have d1: "deeds c1 = deeds c" "length (kc_sessions c1) = n"
    using calm_deeds [OF calm_ask [OF c1]] still_length [OF still_ask [OF c1]] by (simp_all add: n_def)
  note m2 = still_trans [OF still_ask [OF c1] still_submit_starts [OF c2]]
  from submit_starts_deeds [OF c2] obtain starts where s0: "deeds c2 = deeds c1 @ map (start_of epoch) starts"
    "map fst starts = take (length starts) ?is" "length starts \<le> length ?is"
    "case hs of None \<Rightarrow> length starts < length ?is \<and> (\<exists>w. wd_command W (?is ! length starts) (Start epoch) w = (None, kc_world c2))
      | Some hs \<Rightarrow> starts = zip ?is hs \<and> length hs = length ?is" by blast
  then have s: "deeds c2 = deeds c @ map (start_of epoch) starts" "length starts \<le> n" using d1 by simp_all
  have idx: "map fst starts = [0..<length starts]" using s0(2,3) d1(2) by (simp add: take_upt)
  have failed: "kc_coordinated d = kc_coordinated c \<and> map ps_started (kc_sessions d) = map ps_started (kc_sessions c) \<and>
      (fleet_ok (fleet_of c) \<and> \<not> kc_coordinated c \<longrightarrow> \<not> list_ex ps_started (kc_sessions d))" if "still c d" for d
  proof -
    have "list_ex ps_started (kc_sessions d) = list_ex id (map ps_started (kc_sessions d))" by (simp add: list_ex_iff)
    also have "\<dots> = list_ex ps_started (kc_sessions c)" unfolding still_started [OF that] by (simp add: list_ex_iff)
    finally show ?thesis using still_started [OF that] none_started [of c] that by (auto simp: still_def)
  qed
  show ?thesis
  proof (cases hs)
    case None
    then have res: "c' = c2" "b = False" using assms(1) by (simp_all add: coordinate_start_def c1 c2 e Let_def)
    have "length starts < n" "\<exists>w. wd_command W (length starts) (Start epoch) w = (None, kc_world c2)" using s0(4) None d1(2) by auto
    then show ?thesis using s idx failed [OF m2] unfolding res if_False by blast
  next
    case (Some ks)
    then have st: "starts = zip ?is ks" "length starts = n" using s0(4) d1(2) by auto
    obtain ok c3 where c3: "await_starts fuel W epoch [] starts c2 = Some (ok, c3)"
      using assms(1) Some st by (auto simp: coordinate_start_def c1 c2 e Let_def split: option.splits)
    note m3 = still_trans [OF m2 still_await_starts [OF c3]]
    note a = await_starts_admissions [OF c3]
    show ?thesis
    proof (cases ok)
      case False
      then have res: "c' = c3" "b = False" using assms(1) Some c3 [unfolded st(1)] by (simp_all add: coordinate_start_def c1 c2 e Let_def)
      from a False obtain k d d' where k: "k < n" "after_admissions fuel W epoch (take k starts) c2 = Some d"
        "wait_admission fuel W (fst (starts ! k)) (snd (starts ! k)) epoch d = Some (False, d')"
        "deeds c3 = deeds c2 @ map cancel_of (take k starts)" by (auto simp: st(2))
      have "fst (starts ! k) = k" using arg_cong [OF idx, of "\<lambda>xs. xs ! k"] k(1) st(2) by simp
      with k st(2) s(1) idx failed [OF m3] show ?thesis unfolding res if_False by (metis order_refl)
    next
      case True
      then have res: "c' = mark_started epoch c3" "b = True"
        using assms(1) Some c3 [unfolded st(1)] by (simp_all add: coordinate_start_def c1 c2 e Let_def)
      have "deeds c' = deeds c3" "kc_coordinated c'" "list_all ps_started (kc_sessions c')"
        by (auto simp: res(1) mark_started_def deeds_def report_event_def is_deed_def list_all_iff)
      moreover have "after_admissions fuel W epoch starts c2 = Some c3" "deeds c3 = deeds c2" using a True by simp_all
      ultimately show ?thesis using s(1) idx st(2) unfolding res(2) if_True by (metis option.distinct(1) order_refl)
    qed
  qed
qed

section \<open>Stopping in the middle of a pass\<close>

lemma progress_sessions_deeds: "progress_sessions fuel W is ready c = Some (b, c') \<Longrightarrow> deeds c' = deeds c"
proof (induction "is" arbitrary: ready c)
  case (Cons i js)
  obtain ok c1 where c1: "progress fuel W (millis 1) i c = Some (ok, c1)" using Cons.prems by (auto split: option.splits)
  note d = calm_deeds [OF calm_progress [OF c1]]
  show ?case using Cons.prems Cons.IH [of ready c1] Cons.IH [of False "protocol_failure c1"] d by (cases ok) (simp_all add: c1)
qed simp

text \<open>When the stop is seen by the loop over the sessions before it looks at the first one, that pass still counts as ready: it submits a
  start to the radios although none was looked at.\<close>

lemma stop_submits_starts:
  assumes "ask (wd_stop W) c = (True, c\<^sub>1)" and "kc_sessions c \<noteq> []" and "\<not> kc_coordinated c" and "\<forall>i cmd w. fst (wd_command W i cmd w) \<noteq> None"
    and r: "run_pass fuel W backoff c = Some (b, c')"
  shows "\<exists>epoch starts k. map fst starts = [0..<length (kc_sessions c)] \<and>
    deeds c' = deeds c @ map (start_of epoch) starts @ map cancel_of (take k starts)"
proof -
  have same: "kc_sessions c\<^sub>1 = kc_sessions c" "kc_coordinated c\<^sub>1 = kc_coordinated c" "deeds c\<^sub>1 = deeds c"
    using assms(1) by (auto simp: ask_def deeds_def split: prod.splits)
  have "[0..<length (kc_sessions c)] = 0 # [1..<length (kc_sessions c)]" using assms(2) by (simp add: upt_conv_Cons)
  then have v: "visit_sessions fuel W [0..<length (kc_sessions c)] True c = Some (True, c\<^sub>1)" using assms(1) by simp
  obtain ready c2 where c2: "coordinate_start fuel W c\<^sub>1 = Some (ready, c2)"
    using r same assms(3) by (auto simp: run_pass_def v coordinate_if_ready_def split: option.splits)
  obtain ready3 c3 where c3: "progress_sessions fuel W [0..<length (kc_sessions c2)] ready c2 = Some (ready3, c3)"
    using r same assms(3) by (auto simp: run_pass_def v coordinate_if_ready_def c2 split: option.splits)
  have d: "deeds c' = deeds c2" using r same assms(3) progress_sessions_deeds [OF c3]
    by (auto simp: run_pass_def v coordinate_if_ready_def c2 c3 back_off_def split: if_splits)
  obtain now c4 where c4: "ask (wd_system_clock W) c\<^sub>1 = (now, c4)" by fastforce
  have accepts: "\<exists>hs c'. submit_starts W epoch is d = (Some hs, c')" for epoch "is" d
  proof (induction "is" arbitrary: d)
    case (Cons i js)
    obtain h d1 where d1: "submit W i (Start epoch) d = (h, d1)" by fastforce
    moreover have "h \<noteq> None" using d1 assms(4) by (auto simp: submit_def ask_def split: prod.splits option.splits) (metis fst_conv option.distinct(1))
    ultimately show ?case using Cons [of "count_submitted d1"] by auto
  qed simp
  have c4': "deeds c4 = deeds c" "length (kc_sessions c4) = length (kc_sessions c)"
    using same calm_deeds [OF calm_ask [OF c4]] still_length [OF still_ask [OF c4]] by simp_all
  obtain hs c5 where c5: "submit_starts W (start_epoch now) [0..<length (kc_sessions c)] c4 = (Some hs, c5)" using accepts by blast
  from submit_starts_deeds [OF c5] c4' obtain starts where s: "deeds c5 = deeds c @ map (start_of (start_epoch now)) starts"
    "map fst starts = take (length starts) [0..<length (kc_sessions c)]" "starts = zip [0..<length (kc_sessions c)] hs" "length hs = length (kc_sessions c)"
    by auto
  obtain ok c6 where c6: "await_starts fuel W (start_epoch now) [] starts c5 = Some (ok, c6)"
    using c2 s(3) by (auto simp: coordinate_start_def c4 c4'(2) c5 Let_def split: option.splits)
  obtain k where k: "deeds c6 = deeds c5 @ map cancel_of (if ok then [] else take k starts)" using await_starts_deeds [OF c6] unfolding append_Nil by blast
  have "deeds c2 = deeds c6" using c2 s(3) c6
    by (auto simp: coordinate_start_def c4 c4'(2) c5 Let_def mark_started_def deeds_def report_event_def is_deed_def split: bool.splits)
  then have "deeds c' = deeds c @ map (start_of (start_epoch now)) starts @ map cancel_of (take (if ok then 0 else k) starts)" using d k s(1) by simp
  moreover have "map fst starts = [0..<length (kc_sessions c)]" using s(3,4) by simp
  ultimately show ?thesis by blast
qed

section \<open>Examples\<close>

text \<open>A world in which everything succeeds: the state is the clock, every reading takes a nanosecond, sleeping takes ten times its time.\<close>

definition calm_world :: "int world" where
  "calm_world = \<lparr>wd_stop = (\<lambda>w. (False, w)), wd_clock = (\<lambda>w. (w, w + 1)), wd_system_clock = (\<lambda>w. (max 0 w, w)), wd_sleep = (\<lambda>d w. w + 10 * max 0 d),
     wd_read_status = (\<lambda>i w. (Some \<lparr>sn_boot_id = ''b'', sn_generation = Some (of_int w), sn_admitted_id = 0, sn_association = 1, sn_ready = True,
        sn_active = True, sn_streaming = False\<rparr>, w)),
     wd_connected = (\<lambda>i w. True), wd_generation = (\<lambda>i w. 1), wd_request_reconnect = (\<lambda>i w. w), wd_observe_pps = (\<lambda>i n t w. (True, w)),
     wd_progress = (\<lambda>i n w. (Progressed, w)), wd_command = (\<lambda>i cmd w. (Some 7, w)), wd_cancel = (\<lambda>i h w. w),
     wd_wait = (\<lambda>i h ev w. (Some \<lparr>wr_received = True, wr_validation_accepted = True, wr_confirms_execution = True\<rparr>, w)),
     wd_state = (\<lambda>i h w. (True, w)), wd_release = (\<lambda>i h w. (True, w)), wd_resume_after = (\<lambda>i n w. (True, w))\<rparr>"

definition example_controller :: "int controller" where
  "example_controller = new_controller \<lparr>cc_radios = replicate 4 (cs_radio client_example_setup), cc_queue_limit = 64, cc_retry_limit = 8,
     cc_io_timeout = millis 2000, cc_maximum_backoff = millis 2000, cc_liveness_interval = millis 1000\<rparr> 0 (ProtocolTime 100 0) 1000"

lemma example_start_eval:
  "case coordinate_start 10 calm_world example_controller of None \<Rightarrow> False | Some (b, c) \<Rightarrow> b"
  by code_simp

lemma example_reconcile_eval:
  "case reconcile 10 calm_world 0 example_controller of None \<Rightarrow> False | Some (b, c) \<Rightarrow> b"
  by code_simp

lemma example_pass_eval:
  "case run_pass 10 calm_world (millis 100) example_controller of None \<Rightarrow> False | Some (b, c) \<Rightarrow> kc_coordinated c"
  by code_simp


theorem coordinate_start_outcome_witness:
  "\<exists>starts c. map fst starts = [0..<4] \<and> deeds c = deeds example_controller @ map (start_of (start_epoch 1000)) starts \<and> kc_coordinated c \<and>
    coordinate_start 10 calm_world example_controller = Some (True, c)"
proof -
  obtain c where c: "coordinate_start 10 calm_world example_controller = Some (True, c)"
    using example_start_eval by (auto split: option.splits)
  have "length (kc_sessions example_controller) = 4" "fst (wd_system_clock calm_world (kc_world example_controller)) = 1000"
    by (simp_all add: example_controller_def new_controller_def calm_world_def)
  moreover from coordinate_start_outcome [OF c] obtain starts and c\<^sub>1 :: "int controller" where "map fst starts = [0..<length starts]"
    "length starts = length (kc_sessions example_controller)" "kc_coordinated c" "deeds c = deeds c\<^sub>1"
    "deeds c\<^sub>1 = deeds example_controller @ map (start_of (start_epoch (fst (wd_system_clock calm_world (kc_world example_controller))))) starts"
    unfolding if_True by blast
  ultimately have "map fst starts = [0..<4]" "deeds c = deeds example_controller @ map (start_of (start_epoch 1000)) starts" "kc_coordinated c" by simp_all
  with c show ?thesis by blast
qed

end
