(* ===== verification/Reconciliation.thy ===== *)
theory Reconciliation
  imports Fleet
begin

text \<open>
  The evidence a reconciliation of a session rests on: the course of the world from the first reading
  of the radio's status to the session that results.
\<close>

section \<open>Polling\<close>

text \<open>
  What happens in the world while the controller only waits for a radio: it looks at the stop flag and
  the clock, sleeps, passes a pulse, lets the runtime progress, or looks at the state of a transaction. No status is read,
  nothing is submitted and no connection is asked for.
\<close>

inductive polls :: "'w world \<Rightarrow> nat \<Rightarrow> 'w \<Rightarrow> 'w \<Rightarrow> bool" for W i where
  polls_none: "polls W i w w"
| polls_stop: "polls W i w v \<Longrightarrow> polls W i w (snd (wd_stop W v))"
| polls_clock: "polls W i w v \<Longrightarrow> polls W i w (snd (wd_clock W v))"
| polls_sleep: "polls W i w v \<Longrightarrow> polls W i w (wd_sleep W d v)"
| polls_pulse: "polls W i w v \<Longrightarrow> polls W i w (snd (wd_observe_pps W i n t v))"
| polls_progress: "polls W i w v \<Longrightarrow> polls W i w (snd (wd_progress W i n v))"
| polls_state: "polls W i w v \<Longrightarrow> polls W i w (snd (wd_state W i h v))"

lemma polls_trans: "polls W i v w \<Longrightarrow> polls W i u v \<Longrightarrow> polls W i u w"
  by (induction rule: polls.induct) (auto intro: polls.intros)

definition polled :: "'w world \<Rightarrow> nat \<Rightarrow> 'w controller \<Rightarrow> 'w controller \<Rightarrow> bool" where
  "polled W i c d \<longleftrightarrow> polls W i (kc_world c) (kc_world d)"

lemma polled_refl [simp, intro]: "polled W i c c"
  by (simp add: polled_def polls_none)

lemma polled_trans: "polled W i c d \<Longrightarrow> polled W i d e \<Longrightarrow> polled W i c e"
  unfolding polled_def by (rule polls_trans)

lemma asked: "ask f c = (x, d) \<Longrightarrow> f (kc_world c) = (x, kc_world d)"
  by (auto simp: ask_def split: prod.splits)

lemma polled_ask:
  assumes "ask f c = (x, d)" and "\<And>w. polls W i w (snd (f w))"
  shows "polled W i c d"
  using assms(2) [of "kc_world c"] asked [OF assms(1)] by (simp add: polled_def)

lemmas polled_stop = polled_ask [OF _ polls_stop [OF polls_none]]
lemmas polled_clock = polled_ask [OF _ polls_clock [OF polls_none]]
lemmas polled_pulse = polled_ask [OF _ polls_pulse [OF polls_none]]
lemmas polled_progress = polled_ask [OF _ polls_progress [OF polls_none]]
lemmas polled_state = polled_ask [OF _ polls_state [OF polls_none]]

lemma polled_update [simp]:
  "polled W i c (update_session j f d) = polled W i c d" "polled W i c (tell (wd_sleep W n) d) = polls W i (kc_world c) (wd_sleep W n (kc_world d))"
  by (simp_all add: polled_def update_session_def tell_def)

lemma polled_running:
  assumes "running W deadline c = (b, d)"
  shows "polled W i c d"
proof -
  obtain s c1 where c1: "ask (wd_stop W) c = (s, c1)" by fastforce
  obtain now c2 where c2: "ask (wd_clock W) c1 = (now, c2)" by fastforce
  show ?thesis
    using assms polled_stop [OF c1, of i] polled_trans [OF polled_stop [OF c1] polled_clock [OF c2], of i]
    by (auto simp: running_def c1 c2 split: bool.splits)
qed

lemma polled_pulse_round:
  assumes "pulse W i elapsed c = (b, d)"
  shows "polled W i c d"
  using assms polled_pulse [of W i _ _ c] by (auto simp: pulse_def Let_def split: prod.splits bool.splits if_splits)

lemma polled_round:
  assumes "progress_round W i c = (b, d)"
  shows "polled W i c d"
proof -
  obtain now c1 where c1: "ask (wd_clock W) c = (now, c1)" by fastforce
  define e where "e = (of_int (now - kc_origin c1) :: u64)"
  obtain ok c2 where c2: "pulse W i e c1 = (ok, c2)" by fastforce
  obtain res c3 where c3: "ask (wd_progress W i e) c2 = (res, c3)" by fastforce
  note p2 = polled_trans [OF polled_clock [OF c1] polled_pulse_round [OF c2]]
  note p3 = polled_trans [OF p2 polled_progress [OF c3]]
  have "polls W i (kc_world c) (wd_sleep W n (kc_world c3))" for n
    using p3 by (simp add: polled_def polls_sleep)
  then show ?thesis using assms p2 p3
    by (auto simp: progress_round_def c1 e_def [symmetric] c2 c3 Let_def simp del: of_int_diff split: bool.splits runtime_result.splits)
qed

lemma polled_progress_loop: "progress_loop fuel W deadline i c = Some (b, d) \<Longrightarrow> polled W i c d"
proof (induction fuel arbitrary: c)
  case (Suc fuel)
  obtain r c1 where c1: "running W deadline c = (r, c1)" by fastforce
  obtain ok c2 where c2: "progress_round W i c1 = (ok, c2)" by fastforce
  note p1 = polled_running [OF c1, of i]
  note p2 = polled_trans [OF p1 polled_round [OF c2]]
  show ?case using Suc.prems Suc.IH [of c2] p1 p2 polled_trans [OF p2]
    by (auto simp: c1 c2 split: bool.splits)
qed simp

lemma polled_progress_call: "progress fuel W budget i c = Some (b, d) \<Longrightarrow> polled W i c d"
  using polled_trans [OF polled_clock polled_progress_loop] by (auto simp: progress_def split: prod.splits)

lemma polled_connect_loop: "connect_loop rounds fuel W deadline i c = Some (b, d) \<Longrightarrow> polled W i c d"
proof (induction rounds arbitrary: c)
  case (Suc rounds)
  obtain r c1 where c1: "running W deadline c = (r, c1)" by fastforce
  note p1 = polled_running [OF c1, of i]
  show ?case
  proof (cases "\<not> r \<or> wd_connected W i (kc_world c1)")
    case True
    then show ?thesis using Suc.prems p1 by (auto simp: c1 split: bool.splits)
  next
    case False
    then obtain ok c2 where c2: "progress fuel W (millis 1) i c1 = Some (ok, c2)"
      using Suc.prems by (auto simp: c1 split: option.splits)
    note p2 = polled_trans [OF p1 polled_progress_call [OF c2]]
    show ?thesis using Suc.prems Suc.IH [of c2] p2 polled_trans [OF p2] False
      by (auto simp: c1 c2 split: bool.splits)
  qed
qed simp

text \<open>A loop whose check was met polled until the check held.\<close>

lemma polled_wait_loop:
  assumes "\<And>w. polls W i w (snd (check w))"
  shows "wait_loop rounds fuel W deadline i check c = Some (Met, d) \<Longrightarrow>
    \<exists>w. polls W i (kc_world c) w \<and> check w = (True, kc_world d)"
proof (induction rounds arbitrary: c)
  case (Suc rounds)
  obtain r c1 where c1: "running W deadline c = (r, c1)" by fastforce
  with Suc.prems have r: r by (auto split: bool.splits)
  then obtain ok c2 where c2: "progress fuel W (millis 1) i c1 = Some (ok, c2)"
    using Suc.prems by (auto simp: c1 split: option.splits)
  with Suc.prems r have ok: ok by (auto simp: c1 split: bool.splits)
  obtain met c3 where c3: "ask check c2 = (met, c3)" by fastforce
  note p2 = polled_trans [OF polled_running [OF c1] polled_progress_call [OF c2]]
  show ?case
  proof (cases met)
    case True
    then show ?thesis using Suc.prems r ok asked [OF c3] p2 by (auto simp: c1 c2 c3 polled_def)
  next
    case False
    then have "wait_loop rounds fuel W deadline i check c3 = Some (Met, d)" using Suc.prems r ok by (simp add: c1 c2 c3)
    from Suc.IH [OF this] obtain w where w: "polls W i (kc_world c3) w" "check w = (True, kc_world d)" by blast
    have "polls W i (kc_world c) (kc_world c3)"
      using polled_trans [OF p2 polled_ask [OF c3 assms]] by (simp add: polled_def)
    from polls_trans [OF w(1) this] w(2) show ?thesis by blast
  qed
qed simp

text \<open>A status query that succeeds: it was accepted, answered and released.\<close>

lemma query_succeeds:
  assumes "query_state fuel W i c = Some (True, d)"
  shows "\<exists>h w v u. wd_command W i Query_status (kc_world c) = (Some h, w) \<and> polls W i w v \<and>
    wd_state W i h v = (True, u) \<and> wd_release W i h u = (True, kc_world d)"
proof -
  obtain h c1 where c1: "submit W i Query_status c = (Some h, c1)"
    "wait_state fuel W i h (cc_io_timeout (kc_config c1)) c1 = Some (True, d)"
    using assms by (auto simp: query_state_def split: prod.splits option.splits)
  have command: "wd_command W i Query_status (kc_world c) = (Some h, kc_world c1)"
    using c1(1) by (auto simp: submit_def ask_def report_event_def split: prod.splits option.splits)
  obtain now c2 where c2: "ask (wd_clock W) c1 = (now, c2)" by fastforce
  from c1(2) obtain c3 where
    c3: "wait_loop fuel fuel W (now + cc_io_timeout (kc_config c1)) i (wd_state W i h) c2 = Some (Met, c3)" "ask (wd_release W i h) c3 = (True, d)"
    by (auto simp: wait_state_def wait_for_check_def c2 split: option.splits prod.splits loop_end.splits)
  from polled_wait_loop [OF polls_state [OF polls_none] c3(1)] obtain v where
    v: "polls W i (kc_world c2) v" "wd_state W i h v = (True, kc_world c3)" by blast
  have "polls W i (kc_world c1) v"
    using polls_trans [OF v(1)] polled_clock [OF c2, of i] by (simp add: polled_def)
  with command v(2) asked [OF c3(2)] show ?thesis by blast
qed

section \<open>What reconciling establishes\<close>

lemma accept_session:
  assumes "i < length (kc_sessions c)"
  shows "ps_status (session_at i (accept_status W i after changed c)) = Some after"
    and "ps_reconciled_generation (session_at i (accept_status W i after changed c)) = wd_generation W i (kc_world c)"
    and "ps_configured (session_at i (accept_status W i after changed c)) = (ps_configured (session_at i c) \<and> \<not> changed)"
    and "ps_started (session_at i (accept_status W i after changed c)) = (ps_started (session_at i c) \<and> \<not> changed)"
    and "ps_failures (session_at i (accept_status W i after changed c)) = 0"
  using assms
  by (auto simp: accept_status_def Let_def ask_def session_at_def update_session_def count_metric_def split: prod.splits)

lemma accept_world: "kc_world (accept_status W i after changed c) = snd (wd_clock W (kc_world c))"
  by (auto simp: accept_status_def Let_def ask_def update_session_def count_metric_def split: prod.splits)

text \<open>C9. A session is reconciled only on evidence, and in this order. A status read first, before anything else, said that the
  radio is ready. Then a connection was asked for and polled for until there was one. The status read next
  is of the same boot, with an active control connection of another generation than before and the
  same association. The commands were resumed after the last one that status admits; and a status query
  submitted after that was answered. The session then has the second status and the generation that the transport has at
  that moment, before the last reading of the clock, and stays configured and started exactly if the radio has not
  rebooted since the status the session had.\<close>

theorem reconcile_evidence:
  assumes "i < length (kc_sessions c)" and "reconcile fuel W i c = Some (True, c')"
  shows "\<exists>before w\<^sub>1 w\<^sub>2 after w\<^sub>3 w\<^sub>4 h w\<^sub>5 w\<^sub>6 w\<^sub>7 w\<^sub>8.
    wd_read_status W i (kc_world c) = (Some before, w\<^sub>1) \<and> sn_ready before \<and>
    polls W i (wd_request_reconnect W i w\<^sub>1) w\<^sub>2 \<and> wd_connected W i w\<^sub>2 \<and>
    wd_read_status W i w\<^sub>2 = (Some after, w\<^sub>3) \<and> sn_boot_id after = sn_boot_id before \<and> sn_active after \<and>
    sn_generation after \<noteq> None \<and> sn_generation after \<noteq> sn_generation before \<and> sn_association after = sn_association before \<and>
    wd_resume_after W i (sn_admitted_id after) w\<^sub>3 = (True, w\<^sub>4) \<and>
    wd_command W i Query_status w\<^sub>4 = (Some h, w\<^sub>5) \<and> polls W i w\<^sub>5 w\<^sub>6 \<and> wd_state W i h w\<^sub>6 = (True, w\<^sub>7) \<and> wd_release W i h w\<^sub>7 = (True, w\<^sub>8) \<and>
    kc_world c' = snd (wd_clock W w\<^sub>8) \<and>
    (let s = session_at i c; s' = session_at i c';
         rebooted = (case ps_status s of None \<Rightarrow> False | Some st \<Rightarrow> sn_boot_id st \<noteq> sn_boot_id after)
     in ps_status s' = Some after \<and> ps_reconciled_generation s' = wd_generation W i w\<^sub>8 \<and> ps_failures s' = 0 \<and>
       ps_configured s' = (ps_configured s \<and> \<not> rebooted) \<and> ps_started s' = (ps_started s \<and> \<not> rebooted))"
proof -
  obtain before c1 where c1: "ask (wd_read_status W i) c = (Some before, c1)" "sn_ready before"
    using assms(2) by (auto simp: reconcile_def split: prod.splits option.splits if_splits)
  define c2 where "c2 = tell (wd_request_reconnect W i) (count_metric (\<lambda>m. m\<lparr>km_connection_attempts := km_connection_attempts m + 1\<rparr>) c1)"
  obtain now c3 where c3: "ask (wd_clock W) c2 = (now, c3)" by fastforce
  obtain c4 where c4: "connect_loop fuel fuel W (now + cc_io_timeout (kc_config c3)) i c3 = Some (True, c4)"
    "wd_connected W i (kc_world c4)" "reconcile_after fuel W i before c4 = Some (True, c')"
    using assms(2) c1 by (auto simp: reconcile_def c2_def [symmetric] c3 Let_def split: option.splits bool.splits if_splits)
  have "still c1 c2" unfolding c2_def by (rule still_trans [OF still_count(1) still_count(7)])
  then have m4: "still c c4"
    using still_trans [OF still_trans [OF still_ask [OF c1(1)]] still_trans [OF still_ask [OF c3] still_calm [OF calm_connect_loop [OF c4(1)]]]] by blast
  obtain after c5 where c5: "ask (wd_read_status W i) c4 = (Some after, c5)" "same_boot before after"
    using c4(3) by (auto simp: reconcile_after_def split: prod.splits option.splits if_splits)
  define changed where "changed = (case ps_status (session_at i c5) of None \<Rightarrow> False | Some s \<Rightarrow> sn_boot_id s \<noteq> sn_boot_id after)"
  obtain c6 where c6: "ask (wd_resume_after W i (sn_admitted_id after)) c5 = (True, c6)"
    using c4(3) c5 by (auto simp: reconcile_after_def Let_def split: prod.splits bool.splits)
  obtain c7 where c7: "query_state fuel W i c6 = Some (True, c7)" "c' = accept_status W i after changed c7"
    using c4(3) c5 c6 by (auto simp: reconcile_after_def changed_def Let_def split: option.splits bool.splits)
  note m5 = still_trans [OF m4 still_ask [OF c5(1)]]
  note m7 = still_trans [OF still_trans [OF m5 still_ask [OF c6]] still_query [OF c7(1)]]
  have i: "i < length (kc_sessions c7)" using assms(1) still_length [OF m7] by simp
  have phases: "phase_of (session_at i c5) = phase_of (session_at i c)" "phase_of (session_at i c7) = phase_of (session_at i c)"
    using still_phase [OF m5 assms(1)] still_phase [OF m7 assms(1)] by simp_all
  then have flags: "ps_configured (session_at i c7) = ps_configured (session_at i c)" "ps_started (session_at i c7) = ps_started (session_at i c)"
    and ch: "changed = (case ps_status (session_at i c) of None \<Rightarrow> False | Some st \<Rightarrow> sn_boot_id st \<noteq> sn_boot_id after)"
    unfolding changed_def by (auto simp: phase_of_def split: option.splits)
  have waited: "polls W i (wd_request_reconnect W i (kc_world c1)) (kc_world c4)"
    using polled_trans [OF polled_clock [OF c3] polled_connect_loop [OF c4(1)]]
    by (simp add: polled_def c2_def tell_def count_metric_def)
  from query_succeeds [OF c7(1)] obtain h w v u where q: "wd_command W i Query_status (kc_world c6) = (Some h, w)"
    "polls W i w v" "wd_state W i h v = (True, u)" "wd_release W i h u = (True, kc_world c7)" by blast
  have result: "(let s = session_at i c; s' = session_at i c';
         rebooted = (case ps_status s of None \<Rightarrow> False | Some st \<Rightarrow> sn_boot_id st \<noteq> sn_boot_id after)
     in ps_status s' = Some after \<and> ps_reconciled_generation s' = wd_generation W i (kc_world c7) \<and> ps_failures s' = 0 \<and>
       ps_configured s' = (ps_configured s \<and> \<not> rebooted) \<and> ps_started s' = (ps_started s \<and> \<not> rebooted))"
    using accept_session [OF i, of W after changed] unfolding c7(2) flags by (simp add: ch [symmetric])
  show ?thesis
    using asked [OF c1(1)] c1(2) waited c4(2) asked [OF c5(1)] c5(2) asked [OF c6] q accept_world [of W i after changed c7] result
    unfolding c7(2) same_boot_def by metis
qed

theorem reconcile_evidence_witness:
  "\<exists>c after. reconcile 10 calm_world 0 example_controller = Some (True, c) \<and> ps_status (session_at 0 c) = Some after \<and> sn_active after"
proof -
  obtain c where c: "reconcile 10 calm_world 0 example_controller = Some (True, c)"
    using example_reconcile_eval by (auto split: option.splits)
  have "0 < length (kc_sessions example_controller)" by (simp add: example_controller_def new_controller_def)
  from reconcile_evidence [OF this c] c show ?thesis by (auto simp: Let_def)
qed

end
