(* ===== verification/ControllerClock.thy ===== *)
theory ControllerClock
  imports Fleet
begin

text \<open>
  Every pass of the controller returns, in a world whose clocks advance: each of its loops polls the
  clock against a deadline.
\<close>

section \<open>Every pass returns\<close>

text \<open>
  The clocks of the world: a reading of the steady clock advances it, the system clock does not go
  back, and nothing the world does turns either back.
\<close>

definition onward :: "('w \<Rightarrow> int) \<Rightarrow> ('w \<Rightarrow> int) \<Rightarrow> ('w \<Rightarrow> 'w) \<Rightarrow> bool" where
  "onward \<tau> \<sigma> f \<longleftrightarrow> (\<forall>w. \<tau> w \<le> \<tau> (f w) \<and> \<sigma> w \<le> \<sigma> (f w))"

definition clocked :: "'w world \<Rightarrow> ('w \<Rightarrow> int) \<Rightarrow> ('w \<Rightarrow> int) \<Rightarrow> bool" where
  "clocked W \<tau> \<sigma> \<longleftrightarrow>
     (\<forall>w. fst (wd_clock W w) = \<tau> w \<and> \<tau> w < \<tau> (snd (wd_clock W w)) \<and> \<sigma> w \<le> \<sigma> (snd (wd_clock W w))) \<and>
     (\<forall>w. fst (wd_system_clock W w) = \<sigma> w \<and> 0 \<le> \<sigma> w) \<and>
     onward \<tau> \<sigma> (snd \<circ> wd_system_clock W) \<and> onward \<tau> \<sigma> (snd \<circ> wd_stop W) \<and> (\<forall>d. onward \<tau> \<sigma> (wd_sleep W d)) \<and>
     (\<forall>i. onward \<tau> \<sigma> (snd \<circ> wd_read_status W i) \<and> onward \<tau> \<sigma> (wd_request_reconnect W i)) \<and>
     (\<forall>i n t. onward \<tau> \<sigma> (snd \<circ> wd_observe_pps W i n t)) \<and> (\<forall>i n. onward \<tau> \<sigma> (snd \<circ> wd_progress W i n)) \<and>
     (\<forall>i cmd. onward \<tau> \<sigma> (snd \<circ> wd_command W i cmd)) \<and> (\<forall>i h. onward \<tau> \<sigma> (wd_cancel W i h)) \<and>
     (\<forall>i h ev. onward \<tau> \<sigma> (snd \<circ> wd_wait W i h ev)) \<and> (\<forall>i h. onward \<tau> \<sigma> (snd \<circ> wd_state W i h)) \<and>
     (\<forall>i h. onward \<tau> \<sigma> (snd \<circ> wd_release W i h)) \<and> (\<forall>i n. onward \<tau> \<sigma> (snd \<circ> wd_resume_after W i n))"

definition later :: "('w \<Rightarrow> int) \<Rightarrow> ('w \<Rightarrow> int) \<Rightarrow> 'w controller \<Rightarrow> 'w controller \<Rightarrow> bool" where
  "later \<tau> \<sigma> c c' \<longleftrightarrow> \<tau> (kc_world c) \<le> \<tau> (kc_world c') \<and> \<sigma> (kc_world c) \<le> \<sigma> (kc_world c') \<and> kc_config c' = kc_config c"

definition returns :: "('w \<Rightarrow> int) \<Rightarrow> ('w \<Rightarrow> int) \<Rightarrow> 'w controller \<Rightarrow> ('a \<times> 'w controller) option \<Rightarrow> bool" where
  "returns \<tau> \<sigma> c r \<longleftrightarrow> (\<exists>x c'. r = Some (x, c') \<and> later \<tau> \<sigma> c c')"

lemma later_refl [simp, intro]: "later \<tau> \<sigma> c c"
  by (simp add: later_def)

lemma later_trans [trans]: "later \<tau> \<sigma> a b \<Longrightarrow> later \<tau> \<sigma> b c \<Longrightarrow> later \<tau> \<sigma> a c"
  by (auto simp: later_def)

lemma returns_Some: "returns \<tau> \<sigma> c (Some (x, c')) \<longleftrightarrow> later \<tau> \<sigma> c c'"
  by (simp add: returns_def)

lemma returns_later: "later \<tau> \<sigma> a b \<Longrightarrow> returns \<tau> \<sigma> b r \<Longrightarrow> returns \<tau> \<sigma> a r"
  by (auto simp: returns_def intro: later_trans)

lemma later_same [simp]:
  "later \<tau> \<sigma> c (count_metric f c)" "later \<tau> \<sigma> c (status_failure c)" "later \<tau> \<sigma> c (protocol_failure c)" "later \<tau> \<sigma> c (count_submitted c)"
  "later \<tau> \<sigma> c (count_admitted c)" "later \<tau> \<sigma> c (report_event e c)" "later \<tau> \<sigma> c (update_session i g c)" "later \<tau> \<sigma> c (mark_started epoch c)"
  by (simp_all add: later_def count_metric_def status_failure_def protocol_failure_def count_submitted_def count_admitted_def
      report_event_def update_session_def mark_started_def)

lemma later_ask: "ask f c = (x, c') \<Longrightarrow> onward \<tau> \<sigma> (snd \<circ> f) \<Longrightarrow> later \<tau> \<sigma> c c'"
  by (auto simp: ask_def onward_def later_def split: prod.splits) (metis snd_conv)+

lemma later_tell: "onward \<tau> \<sigma> f \<Longrightarrow> later \<tau> \<sigma> c (tell f c)"
  by (simp add: tell_def onward_def later_def)

lemma clock_reading:
  "clocked W \<tau> \<sigma> \<Longrightarrow> ask (wd_clock W) c = (now, c') \<Longrightarrow> now = \<tau> (kc_world c) \<and> \<tau> (kc_world c) < \<tau> (kc_world c') \<and> later \<tau> \<sigma> c c'"
  unfolding clocked_def by (auto simp: ask_def later_def split: prod.splits) (metis fst_conv snd_conv less_imp_le)+

lemma system_reading:
  "clocked W \<tau> \<sigma> \<Longrightarrow> ask (wd_system_clock W) c = (now, c') \<Longrightarrow> now = \<sigma> (kc_world c) \<and> 0 \<le> now \<and> later \<tau> \<sigma> c c'"
proof -
  assume W: "clocked W \<tau> \<sigma>" and a: "ask (wd_system_clock W) c = (now, c')"
  have "onward \<tau> \<sigma> (snd \<circ> wd_system_clock W)" "fst (wd_system_clock W w) = \<sigma> w" "0 \<le> \<sigma> w" for w using W by (simp_all add: clocked_def)
  with later_ask [OF a this(1)] a show ?thesis by (auto simp: ask_def split: prod.splits) (metis fst_conv)+
qed

lemma running_clock:
  assumes "clocked W \<tau> \<sigma>" and "running W deadline c = (b, c')"
  shows "later \<tau> \<sigma> c c' \<and> (b \<longrightarrow> \<tau> (kc_world c) < deadline \<and> \<tau> (kc_world c) < \<tau> (kc_world c'))"
proof -
  obtain s c1 where c1: "ask (wd_stop W) c = (s, c1)" by fastforce
  have l: "later \<tau> \<sigma> c c1" by (rule later_ask [OF c1]) (use assms(1) in \<open>simp add: clocked_def\<close>)
  obtain now c2 where c2: "ask (wd_clock W) c1 = (now, c2)" by fastforce
  note r = clock_reading [OF assms(1) c2]
  show ?thesis using assms(2) l r later_trans [OF l, of c2] by (auto simp: running_def c1 c2 later_def split: bool.splits)
qed

lemma pulse_later:
  assumes "clocked W \<tau> \<sigma>" and "pulse W i e c = (b, c')"
  shows "later \<tau> \<sigma> c c'"
proof -
  have a: "later \<tau> \<sigma> c c1" if "ask (wd_observe_pps W i n t) c = (x, c1)" for n t x c1
    by (rule later_ask [OF that]) (use assms(1) in \<open>simp add: clocked_def\<close>)
  have "later \<tau> \<sigma> c (update_session i g c1)" if "ask (wd_observe_pps W i n t) c = (x, c1)" for n t x c1 g
    using later_trans [OF a [OF that] later_same(7)] .
  with a show ?thesis using assms(2) by (auto simp: pulse_def Let_def split: prod.splits bool.splits if_splits)
qed

lemma round_later:
  assumes "clocked W \<tau> \<sigma>" and "progress_round W i c = (b, c')"
  shows "later \<tau> \<sigma> c c'"
proof -
  obtain now c1 where c1: "ask (wd_clock W) c = (now, c1)" by fastforce
  define e where "e = (of_int (now - kc_origin c1) :: u64)"
  obtain ok c2 where c2: "pulse W i e c1 = (ok, c2)" by fastforce
  obtain res c3 where c3: "ask (wd_progress W i e) c2 = (res, c3)" by fastforce
  have l2: "later \<tau> \<sigma> c c2" using clock_reading [OF assms(1) c1] pulse_later [OF assms(1) c2] later_trans by blast
  moreover have l3: "later \<tau> \<sigma> c c3"
    by (rule later_trans [OF l2 later_ask [OF c3]]) (use assms(1) in \<open>simp add: clocked_def\<close>)
  moreover have "later \<tau> \<sigma> c (tell (wd_sleep W d) c3)" for d
    by (rule later_trans [OF l3 later_tell]) (use assms(1) in \<open>simp add: clocked_def\<close>)
  ultimately show ?thesis using assms(2)
    by (auto simp: progress_round_def c1 e_def [symmetric] c2 c3 Let_def simp del: of_int_diff split: bool.splits runtime_result.splits)
qed

lemma progress_loop_returns:
  assumes "clocked W \<tau> \<sigma>"
  shows "nat (deadline - \<tau> (kc_world c)) < fuel \<Longrightarrow> returns \<tau> \<sigma> c (progress_loop fuel W deadline i c)"
proof (induction fuel arbitrary: c)
  case (Suc fuel)
  obtain b c1 where c1: "running W deadline c = (b, c1)" by fastforce
  note r = running_clock [OF assms c1]
  obtain ok c2 where c2: "progress_round W i c1 = (ok, c2)" by fastforce
  note l2 = round_later [OF assms c2]
  show ?case
  proof (cases "b \<and> ok")
    case False
    then show ?thesis using r l2 later_trans [of \<tau> \<sigma> c c1 c2] by (auto simp: c1 c2 returns_Some split: bool.splits)
  next
    case True
    then have "nat (deadline - \<tau> (kc_world c2)) < fuel" using Suc.prems r l2 by (auto simp: later_def)
    from returns_later [OF _ Suc.IH [OF this]] True r l2 show ?thesis by (auto simp: c1 c2 intro: later_trans)
  qed
qed simp

lemma progress_returns: "clocked W \<tau> \<sigma> \<Longrightarrow> nat budget < fuel \<Longrightarrow> returns \<tau> \<sigma> c (progress fuel W budget i c)"
proof -
  assume W: "clocked W \<tau> \<sigma>" and b: "nat budget < fuel"
  obtain now c1 where c1: "ask (wd_clock W) c = (now, c1)" by fastforce
  note r = clock_reading [OF W c1]
  have "nat (now + budget - \<tau> (kc_world c1)) < fuel" using r b by linarith
  from returns_later [OF _ progress_loop_returns [OF W this]] r show ?thesis by (simp add: progress_def c1)
qed

lemma wait_loop_returns:
  assumes "clocked W \<tau> \<sigma>" and "1000000 < fuel" and "onward \<tau> \<sigma> (snd \<circ> check)"
  shows "nat (deadline - \<tau> (kc_world c)) < rounds \<Longrightarrow> returns \<tau> \<sigma> c (wait_loop rounds fuel W deadline i check c)"
proof (induction rounds arbitrary: c)
  case (Suc rounds)
  obtain b c1 where c1: "running W deadline c = (b, c1)" by fastforce
  note r = running_clock [OF assms(1) c1]
  obtain ok c2 where c2: "progress fuel W (millis 1) i c1 = Some (ok, c2)" "later \<tau> \<sigma> c1 c2"
    using progress_returns [OF assms(1), of "millis 1" fuel c1 i] assms(2) by (auto simp: returns_def millis_def)
  obtain met c3 where c3: "ask check c2 = (met, c3)" by fastforce
  note l3 = later_ask [OF c3 assms(3)]
  have l: "later \<tau> \<sigma> c c1" "later \<tau> \<sigma> c c2" "later \<tau> \<sigma> c c3" using r c2(2) l3 later_trans by blast+
  show ?case
  proof (cases "b \<and> ok \<and> \<not> met")
    case False
    then show ?thesis using l by (auto simp: c1 c2(1) c3 returns_Some split: bool.splits)
  next
    case True
    then have "nat (deadline - \<tau> (kc_world c3)) < rounds" using Suc.prems r l3 c2(2) by (auto simp: later_def)
    from returns_later [OF l(3) Suc.IH [OF this]] True show ?thesis by (simp add: c1 c2(1) c3)
  qed
qed simp

lemma connect_loop_returns:
  assumes "clocked W \<tau> \<sigma>" and "1000000 < fuel"
  shows "nat (deadline - \<tau> (kc_world c)) < rounds \<Longrightarrow> returns \<tau> \<sigma> c (connect_loop rounds fuel W deadline i c)"
proof (induction rounds arbitrary: c)
  case (Suc rounds)
  obtain b c1 where c1: "running W deadline c = (b, c1)" by fastforce
  note r = running_clock [OF assms(1) c1]
  obtain ok c2 where c2: "progress fuel W (millis 1) i c1 = Some (ok, c2)" "later \<tau> \<sigma> c1 c2"
    using progress_returns [OF assms(1), of "millis 1" fuel c1 i] assms(2) by (auto simp: returns_def millis_def)
  have l: "later \<tau> \<sigma> c c1" "later \<tau> \<sigma> c c2" using r c2(2) later_trans by blast+
  show ?case
  proof (cases "b \<and> \<not> wd_connected W i (kc_world c1) \<and> ok")
    case False
    then show ?thesis using l by (auto simp: c1 c2(1) returns_Some split: bool.splits)
  next
    case True
    then have "nat (deadline - \<tau> (kc_world c2)) < rounds" using Suc.prems r c2(2) by (auto simp: later_def)
    from returns_later [OF l(2) Suc.IH [OF this]] True show ?thesis by (simp add: c1 c2(1))
  qed
qed simp

lemma wait_for_check_returns:
  assumes "clocked W \<tau> \<sigma>" and "1000000 < fuel" and "nat timeout < fuel" and "onward \<tau> \<sigma> (snd \<circ> check)" and "\<And>c. later \<tau> \<sigma> c (timed_out c)"
  shows "returns \<tau> \<sigma> c (wait_for_check fuel W i h check timed_out timeout c)"
proof -
  obtain now c1 where c1: "ask (wd_clock W) c = (now, c1)" by fastforce
  note r = clock_reading [OF assms(1) c1]
  have "nat (now + timeout - \<tau> (kc_world c1)) < fuel" using r assms(3) by linarith
  from wait_loop_returns [OF assms(1,2,4) this, of i] obtain e c2 where
    c2: "wait_loop fuel fuel W (now + timeout) i check c1 = Some (e, c2)" "later \<tau> \<sigma> c1 c2" by (auto simp: returns_def)
  have l2: "later \<tau> \<sigma> c c2" using r c2(2) later_trans by blast
  have rel: "later \<tau> \<sigma> d (snd (ask (wd_release W i h) d))" for d
    by (rule later_ask [of "wd_release W i h" d "fst (ask (wd_release W i h) d)"]) (use assms(1) in \<open>simp_all add: clocked_def\<close>)
  have "later \<tau> \<sigma> c (snd (ask (wd_release W i h) c2))" "later \<tau> \<sigma> c (snd (ask (wd_release W i h) (timed_out c2)))"
    using later_trans [OF l2 rel] later_trans [OF later_trans [OF l2 assms(5)] rel] by blast+
  then show ?thesis
    by (cases e; cases "ask (wd_release W i h) c2") (simp_all add: wait_for_check_def c1 c2(1) returns_Some)
qed

text \<open>The bounds under which a fuel suffices: the timeouts are at most 2 seconds, a start is admitted within 4 seconds.\<close>

definition enough :: "nat \<Rightarrow> 'w controller \<Rightarrow> bool" where
  "enough fuel c \<longleftrightarrow> 4000000000 < fuel \<and> cc_io_timeout (kc_config c) \<le> millis 2000"

lemma enough_later: "later \<tau> \<sigma> c c' \<Longrightarrow> enough fuel c \<Longrightarrow> enough fuel c'"
  by (simp add: later_def enough_def)

lemma enough_timeout: "enough fuel c \<Longrightarrow> nat (cc_io_timeout (kc_config c)) < fuel \<and> 1000000 < fuel"
  by (auto simp: enough_def millis_def)

lemma submit_later: "clocked W \<tau> \<sigma> \<Longrightarrow> submit W i cmd c = (r, c') \<Longrightarrow> later \<tau> \<sigma> c c'"
proof -
  assume W: "clocked W \<tau> \<sigma>" and s: "submit W i cmd c = (r, c')"
  obtain h c1 where c1: "ask (wd_command W i cmd) c = (h, c1)" by fastforce
  have l: "later \<tau> \<sigma> c c1" by (rule later_ask [OF c1]) (use W in \<open>simp add: clocked_def\<close>)
  show ?thesis using s l later_trans [OF l later_same(6)] by (auto simp: submit_def c1 split: option.splits)
qed

lemma evidence_returns: "clocked W \<tau> \<sigma> \<Longrightarrow> 1000000 < fuel \<Longrightarrow> nat timeout < fuel \<Longrightarrow> returns \<tau> \<sigma> c (wait_evidence fuel W i h ev timeout c)"
proof -
  assume W: "clocked W \<tau> \<sigma>" and f: "1000000 < fuel" "nat timeout < fuel"
  have "onward \<tau> \<sigma> (snd \<circ> wd_wait W i h ev)" using W by (simp add: clocked_def)
  then have "onward \<tau> \<sigma> (snd \<circ> accepted W i h ev)"
    unfolding onward_def accepted_def by (auto split: prod.splits option.splits) (metis snd_conv)+
  from wait_for_check_returns [OF W f this, of "report_event (Evidence_timeout i)"] show ?thesis by (simp add: wait_evidence_def)
qed

lemma state_returns: "clocked W \<tau> \<sigma> \<Longrightarrow> 1000000 < fuel \<Longrightarrow> nat timeout < fuel \<Longrightarrow> returns \<tau> \<sigma> c (wait_state fuel W i h timeout c)"
  unfolding wait_state_def by (rule wait_for_check_returns) (simp_all add: clocked_def)

lemma query_returns: "clocked W \<tau> \<sigma> \<Longrightarrow> enough fuel c \<Longrightarrow> returns \<tau> \<sigma> c (query_state fuel W i c)"
proof -
  assume W: "clocked W \<tau> \<sigma>" and e: "enough fuel c"
  obtain h c1 where c1: "submit W i Query_status c = (h, c1)" by fastforce
  note l = submit_later [OF W c1]
  note t = enough_timeout [OF enough_later [OF l e]]
  show ?thesis using returns_later [OF l state_returns [OF W]] t l by (cases h) (auto simp: query_state_def c1 returns_Some)
qed

lemma execute_returns: "clocked W \<tau> \<sigma> \<Longrightarrow> enough fuel c \<Longrightarrow> returns \<tau> \<sigma> c (execute fuel W i cmd c)"
proof -
  assume W: "clocked W \<tau> \<sigma>" and e: "enough fuel c"
  obtain r c1 where c1: "submit W i cmd c = (r, c1)" by fastforce
  note l = submit_later [OF W c1]
  note t = enough_timeout [OF enough_later [OF l e]]
  show ?thesis
  proof (cases r)
    case None
    then show ?thesis using later_trans [OF l later_same(3)] by (simp add: execute_def c1 returns_Some)
  next
    case (Some h)
    obtain ok c2 where c2: "wait_evidence fuel W i h Execution (cc_io_timeout (kc_config c1)) c1 = Some (ok, c2)" "later \<tau> \<sigma> c1 c2"
      using evidence_returns [OF W] t unfolding returns_def by blast
    then show ?thesis using Some later_trans [OF l c2(2)] later_trans [OF later_trans [OF l c2(2)] later_same(3)]
      by (cases ok) (simp_all add: execute_def c1 returns_Some)
  qed
qed

lemma liveness_returns: "clocked W \<tau> \<sigma> \<Longrightarrow> enough fuel c \<Longrightarrow> returns \<tau> \<sigma> c (liveness fuel W i c)"
proof -
  assume W: "clocked W \<tau> \<sigma>" and e: "enough fuel c"
  obtain now c1 where c1: "ask (wd_clock W) c = (now, c1)" by fastforce
  have l: "later \<tau> \<sigma> c c1" using clock_reading [OF W c1] by simp
  obtain q c2 where c2: "query_state fuel W i c1 = Some (q, c2)" "later \<tau> \<sigma> c1 c2"
    using query_returns [OF W enough_later [OF l e]] unfolding returns_def by blast
  note l2 = later_trans [OF l c2(2)]
  obtain t c3 where c3: "ask (wd_clock W) c2 = (t, c3)" by fastforce
  have l3: "later \<tau> \<sigma> c c3" using clock_reading [OF W c3] later_trans [OF l2] by blast
  have "later \<tau> \<sigma> c (tell (wd_request_reconnect W i) (protocol_failure c2))"
    by (rule later_trans [OF later_trans [OF l2 later_same(3)] later_tell]) (use W in \<open>simp add: clocked_def\<close>)
  then show ?thesis using l later_trans [OF l3 later_same(7)]
    by (cases q) (simp_all add: liveness_def c1 c2(1) c3 returns_Some)
qed

lemma quiesce_returns: "clocked W \<tau> \<sigma> \<Longrightarrow> enough fuel c \<Longrightarrow> returns \<tau> \<sigma> c (quiesce fuel W i c)"
proof -
  assume W: "clocked W \<tau> \<sigma>" and e: "enough fuel c"
  obtain ok c1 where c1: "execute fuel W i Stop_streaming c = Some (ok, c1)" "later \<tau> \<sigma> c c1"
    using execute_returns [OF W e] unfolding returns_def by blast
  have "later \<tau> \<sigma> c (report_event v (update_session i g c1))" for v g by (rule later_trans [OF later_trans [OF c1(2) later_same(7)] later_same(6)])
  then show ?thesis using c1 by (cases ok) (auto simp: quiesce_def returns_Some split: option.splits)
qed

lemma configure_returns: "clocked W \<tau> \<sigma> \<Longrightarrow> enough fuel c \<Longrightarrow> returns \<tau> \<sigma> c (configure fuel W i c)"
proof -
  assume W: "clocked W \<tau> \<sigma>" and e: "enough fuel c"
  obtain ok c1 where c1: "quiesce fuel W i c = Some (ok, c1)" "later \<tau> \<sigma> c c1"
    using quiesce_returns [OF W e] unfolding returns_def by blast
  obtain ok2 c2 where c2: "execute fuel W i (Configure (settings_of (radio_of i c1))) c1 = Some (ok2, c2)" "later \<tau> \<sigma> c1 c2"
    using execute_returns [OF W enough_later [OF c1(2) e]] unfolding returns_def by blast
  note l = later_trans [OF c1(2) c2(2)]
  have "later \<tau> \<sigma> c (count_metric f (update_session i g c2))" for f g by (rule later_trans [OF later_trans [OF l later_same(7)] later_same(1)])
  then show ?thesis using c1 c2 l by (cases ok; cases ok2) (simp_all add: configure_def returns_Some)
qed

text \<open>The deadline of a start's admission is 4 seconds after the clock it was made from.\<close>

lemma admission_bound: "0 \<le> now \<Longrightarrow> admission_deadline (start_epoch now) \<le> now + 4000000000"
proof -
  assume n: "0 \<le> now"
  let ?s = "now div 1000000000" and ?r = "now mod 1000000000"
  have "uint (of_int ?s + 4 :: u64) \<le> ?s + 4"
  proof -
    have eq: "(of_int ?s + 4 :: u64) = word_of_int (?s + 4)" by simp
    have "uint (of_int ?s + 4 :: u64) = (?s + 4) mod 2 ^ 64" unfolding eq uint_word_of_int by simp
    then show ?thesis using n zmod_le_nonneg_dividend [of "?s + 4" "2 ^ 64"] by simp
  qed
  moreover have "uint ((of_int ?r * 1000 :: u64) div 1000) = ?r"
  proof -
    have r: "0 \<le> ?r" "?r < 1000000000" by simp_all
    have "uint (of_int ?r * 1000 :: u64) = ?r * 1000"
      using r by (simp add: uint_word_ariths uint_word_of_int mod_mult_left_eq)
    then show ?thesis using r by (simp add: uint_div)
  qed
  moreover have "?s * 1000000000 + ?r = now" by simp
  moreover have eq: "seconds (start_epoch now) - 1 = of_int ?s + 4" "picoseconds (start_epoch now) = of_int ?r * 1000"
    by (simp_all add: start_epoch_def utc_time_def Let_def)
  ultimately show ?thesis unfolding admission_deadline_def eq by linarith
qed

lemma admission_returns:
  assumes "clocked W \<tau> \<sigma>" and "4000000000 < fuel" and "0 \<le> now" and "now \<le> \<sigma> (kc_world c)"
  shows "returns \<tau> \<sigma> c (wait_admission fuel W i h (start_epoch now) c)"
proof -
  obtain t c1 where c1: "ask (wd_system_clock W) c = (t, c1)" by fastforce
  have t: "t = \<sigma> (kc_world c)" "later \<tau> \<sigma> c c1" using system_reading [OF assms(1) c1] by simp_all
  define d where "d = whole_millis (admission_deadline (start_epoch now) - t)"
  have "admission_deadline (start_epoch now) - t \<le> 4000000000" using admission_bound [OF assms(3)] t(1) assms(4) by linarith
  moreover have "d \<le> admission_deadline (start_epoch now) - t" by (simp add: d_def whole_millis_def)
  ultimately have "nat d \<le> nat 4000000000" by (intro nat_mono) (rule order_trans)
  then have "nat d < fuel" using assms(2) by simp
  from returns_later [OF t(2) evidence_returns [OF assms(1) _ this]] assms(2) t(2)
  show ?thesis by (simp add: wait_admission_def c1 Let_def returns_Some d_def)
qed

lemma restart_returns: "clocked W \<tau> \<sigma> \<Longrightarrow> enough fuel c \<Longrightarrow> returns \<tau> \<sigma> c (restart_after_boot_change fuel W i c)"
proof -
  assume W: "clocked W \<tau> \<sigma>" and e: "enough fuel c"
  obtain now c1 where c1: "ask (wd_system_clock W) c = (now, c1)" by fastforce
  note n = system_reading [OF W c1]
  obtain h c2 where c2: "submit W i (Start (start_epoch now)) c1 = (h, c2)" by fastforce
  have l1: "later \<tau> \<sigma> c c1" using n by simp
  note l2 = later_trans [OF l1 submit_later [OF W c2]]
  note l3 = later_trans [OF l2 later_same(4)]
  show ?thesis
  proof (cases h)
    case None
    then show ?thesis using later_trans [OF l2 later_same(3)] by (simp add: restart_after_boot_change_def c1 c2 Let_def returns_Some)
  next
    case (Some k)
    have "now \<le> \<sigma> (kc_world (count_submitted c2))" using n l3 by (simp add: later_def)
    then obtain ok c3 where c3: "wait_admission fuel W i k (start_epoch now) (count_submitted c2) = Some (ok, c3)"
      "later \<tau> \<sigma> (count_submitted c2) c3"
      using admission_returns [OF W, of fuel now] e n unfolding returns_def enough_def by blast
    note l4 = later_trans [OF l3 c3(2)]
    have "later \<tau> \<sigma> c (report_event v (update_session i g (count_admitted c3)))" "later \<tau> \<sigma> c (protocol_failure c3)" for v g
      using later_trans [OF later_trans [OF later_trans [OF l4 later_same(5)] later_same(7)] later_same(6)] later_trans [OF l4 later_same(3)] by blast+
    then show ?thesis using Some c3(1) by (cases ok) (simp_all add: restart_after_boot_change_def c1 c2 Let_def returns_Some)
  qed
qed

lemma submit_starts_later: "clocked W \<tau> \<sigma> \<Longrightarrow> submit_starts W epoch is c = (r, c') \<Longrightarrow> later \<tau> \<sigma> c c'"
proof (induction "is" arbitrary: c r c')
  case (Cons i js)
  obtain h c1 where c1: "submit W i (Start epoch) c = (h, c1)" by fastforce
  note l1 = submit_later [OF Cons.prems(1) c1]
  obtain hs c2 where c2: "submit_starts W epoch js (count_submitted c1) = (hs, c2)" by fastforce
  note l2 = later_trans [OF later_trans [OF l1 later_same(4)] Cons.IH [OF Cons.prems(1) c2]]
  show ?case using Cons.prems(2) l2 later_trans [OF l1 later_same(3)]
    by (cases h; cases hs) (auto simp: c1 c2)
qed simp

lemma cancels_later: "clocked W \<tau> \<sigma> \<Longrightarrow> later \<tau> \<sigma> c (foldl (cancel_start W) c ihs)"
proof (induction ihs arbitrary: c)
  case (Cons ih ihs)
  have "later \<tau> \<sigma> c (cancel_start W c ih)" unfolding cancel_start_def
    by (rule later_trans [OF later_tell later_same(6)]) (use Cons.prems in \<open>simp add: clocked_def\<close>)
  from later_trans [OF this Cons.IH [OF Cons.prems]] show ?case by simp
qed simp

lemma await_starts_returns:
  assumes "clocked W \<tau> \<sigma>" and "4000000000 < fuel" and "0 \<le> now"
  shows "now \<le> \<sigma> (kc_world c) \<Longrightarrow> returns \<tau> \<sigma> c (await_starts fuel W (start_epoch now) earlier starts c)"
proof (induction starts arbitrary: earlier c)
  case (Cons ih starts)
  obtain i h where ih: "ih = (i, h)" by fastforce
  obtain ok c1 where c1: "wait_admission fuel W i h (start_epoch now) c = Some (ok, c1)" "later \<tau> \<sigma> c c1"
    using admission_returns [OF assms Cons.prems] unfolding returns_def by blast
  have "later \<tau> \<sigma> c (foldl (cancel_start W) (protocol_failure c1) earlier)"
    by (rule later_trans [OF later_trans [OF c1(2) later_same(3)] cancels_later [OF assms(1)]])
  moreover have l: "later \<tau> \<sigma> c (count_admitted c1)" by (rule later_trans [OF c1(2) later_same(5)])
  moreover have "returns \<tau> \<sigma> c (await_starts fuel W (start_epoch now) (earlier @ [(i, h)]) starts (count_admitted c1))"
    by (rule returns_later [OF l Cons.IH]) (use l Cons.prems in \<open>simp add: later_def\<close>)
  ultimately show ?case by (cases ok) (simp_all add: ih c1(1) returns_Some)
qed (simp add: returns_Some)

lemma coordinate_returns: "clocked W \<tau> \<sigma> \<Longrightarrow> enough fuel c \<Longrightarrow> returns \<tau> \<sigma> c (coordinate_start fuel W c)"
proof -
  assume W: "clocked W \<tau> \<sigma>" and e: "enough fuel c"
  obtain now c1 where c1: "ask (wd_system_clock W) c = (now, c1)" by fastforce
  note n = system_reading [OF W c1]
  obtain hs c2 where c2: "submit_starts W (start_epoch now) [0..<length (kc_sessions c1)] c1 = (hs, c2)" by fastforce
  have l1: "later \<tau> \<sigma> c c1" using n by simp
  note l2 = later_trans [OF l1 submit_starts_later [OF W c2]]
  show ?thesis
  proof (cases hs)
    case None
    then show ?thesis using l2 by (simp add: coordinate_start_def c1 c2 Let_def returns_Some)
  next
    case (Some ks)
    have "now \<le> \<sigma> (kc_world c2)" using n l2 by (simp add: later_def)
    then obtain ok c3 where c3: "await_starts fuel W (start_epoch now) [] (zip [0..<length (kc_sessions c1)] ks) c2 = Some (ok, c3)" "later \<tau> \<sigma> c2 c3"
      using await_starts_returns [OF W, of fuel now] e n unfolding returns_def enough_def by blast
    note l3 = later_trans [OF l2 c3(2)]
    show ?thesis using Some c3(1) l3 later_trans [OF l3 later_same(8)]
      by (cases ok) (simp_all add: coordinate_start_def c1 c2 Let_def returns_Some)
  qed
qed

lemma accept_later: "clocked W \<tau> \<sigma> \<Longrightarrow> later \<tau> \<sigma> c (accept_status W i after changed c)"
proof -
  assume W: "clocked W \<tau> \<sigma>"
  define c1 where "c1 = (if changed then count_metric (\<lambda>m. m\<lparr>km_boot_changes := km_boot_changes m + 1\<rparr>)
      (update_session i (\<lambda>s. s\<lparr>ps_configured := False, ps_started := False\<rparr>) c) else c)"
  define g where "g = wd_generation W i (kc_world c1)"
  define c2 where "c2 = update_session i (\<lambda>s. s\<lparr>ps_status := Some after, ps_reconciled_generation := g\<rparr>) c1"
  have l1: "later \<tau> \<sigma> c c1" unfolding c1_def by (auto intro: later_trans [OF later_same(7) later_same(1)])
  have l2: "later \<tau> \<sigma> c c2" unfolding c2_def by (rule later_trans [OF l1 later_same(7)])
  obtain now c3 where c3: "ask (wd_clock W) c2 = (now, c3)" by fastforce
  have l3: "later \<tau> \<sigma> c c3" using clock_reading [OF W c3] later_trans [OF l2] by blast
  show ?thesis using later_trans [OF later_trans [OF l3 later_same(7)] later_same(1)]
    by (simp add: accept_status_def c1_def [symmetric] g_def [symmetric] c2_def [symmetric] c3 Let_def)
qed

lemma reconcile_after_returns: "clocked W \<tau> \<sigma> \<Longrightarrow> enough fuel c \<Longrightarrow> returns \<tau> \<sigma> c (reconcile_after fuel W i before c)"
proof -
  assume W: "clocked W \<tau> \<sigma>" and e: "enough fuel c"
  obtain after c1 where c1: "ask (wd_read_status W i) c = (after, c1)" by fastforce
  have l1: "later \<tau> \<sigma> c c1" by (rule later_ask [OF c1]) (use W in \<open>simp add: clocked_def\<close>)
  show ?thesis
  proof (cases after)
    case None
    then show ?thesis using later_trans [OF l1 later_same(2)] by (simp add: reconcile_after_def c1 returns_Some)
  next
    case (Some a)
    obtain ok c2 where c2: "ask (wd_resume_after W i (sn_admitted_id a)) c1 = (ok, c2)" by fastforce
    have l2: "later \<tau> \<sigma> c c2" by (rule later_trans [OF l1 later_ask [OF c2]]) (use W in \<open>simp add: clocked_def\<close>)
    obtain q c3 where c3: "query_state fuel W i c2 = Some (q, c3)" "later \<tau> \<sigma> c2 c3"
      using query_returns [OF W enough_later [OF l2 e]] unfolding returns_def by blast
    note l3 = later_trans [OF l2 c3(2)]
    have "later \<tau> \<sigma> c (status_failure c1)" "later \<tau> \<sigma> c (report_event v (protocol_failure c2))"
      "later \<tau> \<sigma> c (report_event v (protocol_failure c3))" "later \<tau> \<sigma> c (accept_status W i a ch c3)" for v ch
      using later_trans [OF l1 later_same(2)] later_trans [OF later_trans [OF l2 later_same(3)] later_same(6)]
        later_trans [OF later_trans [OF l3 later_same(3)] later_same(6)] later_trans [OF l3 accept_later [OF W]] by blast+
    then show ?thesis using Some c3(1) by (cases ok; cases q) (simp_all add: reconcile_after_def c1 c2 Let_def returns_Some)
  qed
qed

lemma reconcile_returns: "clocked W \<tau> \<sigma> \<Longrightarrow> enough fuel c \<Longrightarrow> returns \<tau> \<sigma> c (reconcile fuel W i c)"
proof -
  assume W: "clocked W \<tau> \<sigma>" and e: "enough fuel c"
  obtain before c1 where c1: "ask (wd_read_status W i) c = (before, c1)" by fastforce
  have l1: "later \<tau> \<sigma> c c1" by (rule later_ask [OF c1]) (use W in \<open>simp add: clocked_def\<close>)
  show ?thesis
  proof (cases "case before of None \<Rightarrow> False | Some s \<Rightarrow> sn_ready s")
    case False
    then show ?thesis using later_trans [OF l1 later_same(2)] by (auto simp: reconcile_def c1 returns_Some split: option.splits)
  next
    case True
    then obtain s where s: "before = Some s" "sn_ready s" by (auto split: option.splits)
    define c2 where "c2 = tell (wd_request_reconnect W i) (count_metric (\<lambda>m. m\<lparr>km_connection_attempts := km_connection_attempts m + 1\<rparr>) c1)"
    have l2: "later \<tau> \<sigma> c c2" unfolding c2_def
      by (rule later_trans [OF later_trans [OF l1 later_same(1)] later_tell]) (use W in \<open>simp add: clocked_def\<close>)
    obtain now c3 where c3: "ask (wd_clock W) c2 = (now, c3)" by fastforce
    note r = clock_reading [OF W c3]
    have l3: "later \<tau> \<sigma> c c3" using r later_trans [OF l2] by blast
    have "nat (now + cc_io_timeout (kc_config c3) - \<tau> (kc_world c3)) < fuel"
      using r enough_timeout [OF enough_later [OF l3 e]] by linarith
    then obtain ok c4 where c4: "connect_loop fuel fuel W (now + cc_io_timeout (kc_config c3)) i c3 = Some (ok, c4)" "later \<tau> \<sigma> c3 c4"
      using connect_loop_returns [OF W] enough_timeout [OF e] unfolding returns_def by blast
    note l4 = later_trans [OF l3 c4(2)]
    from returns_later [OF l4 reconcile_after_returns [OF W enough_later [OF l4 e]]] l4 show ?thesis
      using s by (cases ok) (simp_all add: reconcile_def c1 c2_def [symmetric] c3 c4(1) Let_def returns_Some)
  qed
qed

lemma if_returns: "returns \<tau> \<sigma> c r \<Longrightarrow> returns \<tau> \<sigma> c (if p then r else Some (x, c))"
  by (simp add: returns_Some)

lemma keep_returns: "clocked W \<tau> \<sigma> \<Longrightarrow> enough fuel c \<Longrightarrow> returns \<tau> \<sigma> c (keep_session fuel W i c)"
proof -
  assume W: "clocked W \<tau> \<sigma>" and e: "enough fuel c"
  obtain x c1 where c1: "(if \<not> ps_configured (session_at i c) then configure fuel W i c else Some (True, c)) = Some (x, c1)" "later \<tau> \<sigma> c c1"
    using if_returns [OF configure_returns [OF W e]] unfolding returns_def by blast
  obtain y c2 where c2: "(if kc_coordinated c1 \<and> ps_configured (session_at i c1) \<and> \<not> ps_started (session_at i c1)
      then restart_after_boot_change fuel W i c1 else Some (True, c1)) = Some (y, c2)" "later \<tau> \<sigma> c1 c2"
    using if_returns [OF restart_returns [OF W enough_later [OF c1(2) e]]] unfolding returns_def by blast
  note l2 = later_trans [OF c1(2) c2(2)]
  obtain z c3 where c3: "(if ps_configured (session_at i c2) then liveness fuel W i c2 else Some (True, c2)) = Some (z, c3)" "later \<tau> \<sigma> c2 c3"
    using if_returns [OF liveness_returns [OF W enough_later [OF l2 e]]] unfolding returns_def by blast
  show ?thesis using later_trans [OF l2 c3(2)] unfolding keep_session_def c1(1) option.case prod.case c2(1) c3(1) by (simp add: returns_Some)
qed

lemma visit_returns: "clocked W \<tau> \<sigma> \<Longrightarrow> enough fuel c \<Longrightarrow> returns \<tau> \<sigma> c (visit_session fuel W i c)"
proof -
  assume W: "clocked W \<tau> \<sigma>" and e: "enough fuel c"
  obtain ok c1 where c1: "reconcile fuel W i c = Some (ok, c1)" "later \<tau> \<sigma> c c1"
    using reconcile_returns [OF W e] unfolding returns_def by blast
  have "later \<tau> \<sigma> c (note_failure i c1)"
    using later_trans [OF later_trans [OF c1(2) later_same(7)] later_same(6)] later_trans [OF c1(2) later_same(7)]
    by (simp add: note_failure_def Let_def)
  then show ?thesis using keep_returns [OF W e] returns_later [OF c1(2) keep_returns [OF W enough_later [OF c1(2) e]]]
    by (cases ok) (simp_all add: visit_session_def c1(1) returns_Some)
qed

lemma visits_return: "clocked W \<tau> \<sigma> \<Longrightarrow> enough fuel c \<Longrightarrow> returns \<tau> \<sigma> c (visit_sessions fuel W is ready c)"
proof (induction "is" arbitrary: ready c)
  case (Cons i js)
  obtain s c1 where c1: "ask (wd_stop W) c = (s, c1)" by fastforce
  have l1: "later \<tau> \<sigma> c c1" by (rule later_ask [OF c1]) (use Cons.prems(1) in \<open>simp add: clocked_def\<close>)
  obtain ok c2 where c2: "visit_session fuel W i c1 = Some (ok, c2)" "later \<tau> \<sigma> c1 c2"
    using visit_returns [OF Cons.prems(1) enough_later [OF l1 Cons.prems(2)]] unfolding returns_def by blast
  note l2 = later_trans [OF l1 c2(2)]
  show ?case using l1 returns_later [OF l2 Cons.IH [OF Cons.prems(1) enough_later [OF l2 Cons.prems(2)]]]
    by (cases s) (simp_all add: c1 c2(1) returns_Some)
qed (simp add: returns_Some)

lemma progress_sessions_return: "clocked W \<tau> \<sigma> \<Longrightarrow> enough fuel c \<Longrightarrow> returns \<tau> \<sigma> c (progress_sessions fuel W is ready c)"
proof (induction "is" arbitrary: ready c)
  case (Cons i js)
  obtain ok c1 where c1: "progress fuel W (millis 1) i c = Some (ok, c1)" "later \<tau> \<sigma> c c1"
    using progress_returns [OF Cons.prems(1), of "millis 1" fuel c i] enough_timeout [OF Cons.prems(2)] unfolding returns_def millis_def by auto
  note l2 = later_trans [OF c1(2) later_same(3)]
  show ?case using returns_later [OF c1(2) Cons.IH [OF Cons.prems(1) enough_later [OF c1(2) Cons.prems(2)]]]
      returns_later [OF l2 Cons.IH [OF Cons.prems(1) enough_later [OF l2 Cons.prems(2)]]]
    by (cases ok) (simp_all add: c1(1))
qed (simp add: returns_Some)

text \<open>C12. Every pass of the controller returns: whatever the radios, the status services and the runtimes answer, as long as the steady
  clock advances with every reading, the system clock does not go back and the I/O timeout is at most 2 seconds, a pass (the
  four sessions, a coordinated start, the progress of each session) ends, its loops within 4 000 000 001 rounds.\<close>

theorem pass_returns:
  assumes "clocked W \<tau> \<sigma>" and "cc_io_timeout (kc_config c) \<le> millis 2000" and "4000000000 < fuel"
  shows "\<exists>backoff' c'. run_pass fuel W backoff c = Some (backoff', c') \<and> kc_config c' = kc_config c \<and>
    (backoff' = millis 100 \<or> backoff' = min (backoff * 2) (cc_maximum_backoff (kc_config c)))"
proof -
  have e: "enough fuel c" using assms(2,3) by (simp add: enough_def)
  obtain r1 c1 where c1: "visit_sessions fuel W [0..<length (kc_sessions c)] True c = Some (r1, c1)" "later \<tau> \<sigma> c c1"
    using visits_return [OF assms(1) e] unfolding returns_def by blast
  note e1 = enough_later [OF c1(2) e]
  have "returns \<tau> \<sigma> c1 (coordinate_if_ready fuel W r1 c1)"
    unfolding coordinate_if_ready_def by (rule if_returns [OF coordinate_returns [OF assms(1) e1]])
  then obtain r2 c2 where c2: "coordinate_if_ready fuel W r1 c1 = Some (r2, c2)" "later \<tau> \<sigma> c1 c2" unfolding returns_def by blast
  note l2 = later_trans [OF c1(2) c2(2)]
  obtain r3 c3 where c3: "progress_sessions fuel W [0..<length (kc_sessions c2)] r2 c2 = Some (r3, c3)" "later \<tau> \<sigma> c2 c3"
    using progress_sessions_return [OF assms(1) enough_later [OF l2 e]] unfolding returns_def by blast
  have "kc_config c3 = kc_config c" using later_trans [OF l2 c3(2)] by (simp add: later_def)
  then show ?thesis by (simp add: run_pass_def c1(1) c2(1) c3(1) back_off_def tell_def)
qed

section \<open>An example\<close>

theorem pass_returns_witness:
  "\<exists>backoff c. run_pass 4000000001 calm_world (millis 100) example_controller = Some (backoff, c) \<and>
    (backoff = millis 100 \<or> backoff = millis 200)"
proof -
  have "clocked calm_world (\<lambda>w. w) (max 0)" by (auto simp: clocked_def onward_def calm_world_def)
  from pass_returns [OF this, of example_controller 4000000001 "millis 100"] show ?thesis
    by (auto simp: example_controller_def new_controller_def millis_def)
qed

end
