(* ===== verification/Spec2Isabelle.thy ===== *)
theory Spec2Isabelle
  imports Config MetricsFile Sockets Signal RadioApp RadioTransport Fleet Reconciliation ControllerClock
begin

text \<open>
  \<^bold>\<open>The four-radio SDR lab: a verification development of its C++ programs.\<close>

  \<^bold>\<open>The program.\<close> Four radio processes, a processor, a detector and a recorder. A radio makes the samples
  of a tone and sends them as VITA data packets to the processor; it takes its settings and its
  start from the processor over a TCP control connection and describes itself over a TCP
  status service. The processor cuts the samples of each radio into windows, turns each window into a
  power spectrum and sends it as a record to the detector, which reports the frequency of the
  strongest bin. A second thread of the processor, the controller, keeps the four radios connected,
  configured and started together. The recorder captures what passes on a network interface. Every
  program writes bounded telemetry lines. The VITA framework (codec, runtime, transactions,
  admission, ingress), the JSON library, the driver library and the operating system are not part
  of the repository: they are parameters of the definitions (records of functions such as \<open>vita\<close>,
  \<open>runtime\<close>, \<open>world\<close>, \<open>reader\<close>, \<open>doubles\<close>, \<open>soapy\<close>) or inputs (the outcome of each system call and each
  reading of a clock). What the theorems need of them is a named hypothesis: \<open>arithmetic_ok\<close>,
  \<open>profile_ok\<close>, \<open>views_readable\<close>, \<open>reader_ok\<close>, \<open>uninterrupted\<close>, \<open>clocked\<close>, \<open>good_rounding\<close>, \<open>spaced\<close>. Each has
  an instance in the witness of a theorem that uses it.

  \<^bold>\<open>Theories and sources\<close> (paths under \<open>src/\<close>).

  Foundations. \<open>Prelude\<close>: words, exceptions as the left side of a sum (\<open>result\<close>), \<open>ebind\<close> and \<open>ensure\<close>,
  big-endian strings, and the locales \<open>transition_system\<close>, \<open>monotone_system\<close> and \<open>wire_format\<close>. \<open>Numbers\<close>: text
  and little-endian numbers. \<open>Timebase\<close>: \<open>time.hpp\<close>, \<open>add_samples\<close>, \<open>subtract_samples\<close>.
  \<open>Json\<close>: what the programs use of the JSON library, and a datatype of values.

  The data path. \<open>SpectrumWire\<close>, \<open>Detection\<close>, \<open>Fft\<close>: \<open>src/spectrum.cpp\<close>, the record and its wire
  format, \<open>detect_frequency\<close>, \<open>power_spectrum\<close>. \<open>ProcessorCore\<close>, \<open>DetectorCore\<close>: the datagram handlers in
  \<open>apps/udp_pipeline.cpp\<close>; \<open>Pipeline\<close>: \<open>run_processor\<close> and \<open>run_detector\<close>; \<open>Delivery\<close>: one handler after
  the other; \<open>Config\<close>: the loaders, the command line, the printed lines and both \<open>main\<close> functions. \<open>VirtualRadio\<close>,
  \<open>VirtualDevice\<close>, \<open>RadioAdapter\<close>: \<open>src/virtual_radio.cpp\<close>, \<open>src/soapy_virtual_device.cpp\<close>,
  \<open>src/vrt_radio_adapter.cpp\<close>. \<open>Signal\<close>: from the radio's samples to the detector's report.

  The control path. \<open>Slots\<close>: what both control transports share; \<open>RadioTransport\<close>: \<open>src/radio_transport.cpp\<close>;
  \<open>ClientTransport\<close>, \<open>StatusClient\<close>, \<open>Controller\<close>, \<open>Fleet\<close>, \<open>Reconciliation\<close>, \<open>ControllerClock\<close>: \<open>src/processor_controller.cpp\<close>.
  \<open>Status\<close>: \<open>src/status.cpp\<close> and the status transaction; \<open>RadioServices\<close>: the rest of
  \<open>src/radio_services.cpp\<close>; \<open>RadioApp\<close>: \<open>apps/radio.cpp\<close>. \<open>Sockets\<close>: every function that opens a socket.

  The recorder and telemetry. \<open>Recorder\<close>: \<open>src/recorder.cpp\<close> and \<open>apps/recorder.cpp\<close>; \<open>MetricsFile\<close>: its
  metrics document and file; \<open>Telemetry\<close>: \<open>src/telemetry.cpp\<close>.

  \<^bold>\<open>State and operations.\<close> A class is a record with the fields of the source and one definition per
  method; a method that throws returns a \<open>result\<close>; 64-bit counters are words that wrap, lengths are
  natural numbers, clock readings are integers in nanoseconds. The loop of a program runs over a list
  with what each turn reads; the end of the list is the stop request. The threads of the status
  service are a step relation (\<open>cache_step\<close>) over all interleavings. Floating point: single-precision
  powers are bit patterns; the frequency of the detector is a rational, exact in the source; the
  transform and the radio run over a record of operations and their theorems are about exact
  complex and real numbers, with the rounding to 16-bit samples as the code does it.

  \<^bold>\<open>What the lemmas show.\<close>
  The data path: encoding and decoding a record are inverse; the in-place transform is the
  discrete Fourier transform; a data packet yields the windows of the abstract sample stream with the
  missing samples marked; no datagram makes the processor's handler throw, and every frame
  it sends is one the detector accepts; with configurations that load, in whatever order they list
  the radios, the two programs agree on the records and, when the data queue holds sixteen frames, no
  sequence gap arises between them (\<open>configured_programs_agree\<close>); a radio whose tone is in band is reported at its exact
  frequency, quantization included (\<open>radio_signal_detected\<close>).
  The control path: both transports refine a board of tokens on which every accepted submission is
  completed exactly once; closing completes everything; no slot starves; the bytes on a connection
  are whole commands in order; a generation names one connection; the controller's passes are steps
  of an abstract fleet in which nothing counts as started without having been configured since its
  last boot; a coordinated start succeeds only when every radio admitted its start, and what it cancels when it fails is
  determined; a reconciliation rests on evidence read in order (\<open>Reconciliation\<close>); every pass returns.
  The status service: a request may arrive in any pieces; what a connection receives determines what it is
  sent; what the radio says is what the controller reads; a worker never serves the empty document, and no request is lost.
  The device: settings stay supported; a batch is all or nothing; the samples after a start are
  consecutive. The recorder: the capture can be read back and is bounded; the metrics file is
  always whole. Telemetry: the health policy, bounded lines, the rate limit. Opening sockets: no
  descriptor is lost.

  \<^bold>\<open>Interfaces.\<close> \<open>wire_format\<close> (interpreted on the spectrum codec), \<open>transition_system\<close>
  (on the two datagram handlers, the delivery to the detector with and without the bound on the queue, and the reporter), its extension
  \<open>monotone_system\<close> (on the generations of the control slot), \<open>fragment_parser\<close> (on the request decoder),
  \<open>exclusive_slot\<close> (on the control slot), \<open>completion_board\<close> (on both transports), \<open>sample_source\<close> (on the
  radio and on the adapter's windows), \<open>socket_opener\<close> (on the functions that open a socket).

  \<^bold>\<open>Bounds and fuel.\<close> The controller's loops that poll a clock against a deadline take fuel and have the value
  None when it runs out; \<open>pass_returns\<close> shows that 4000000001 rounds are enough when every
  reading of the steady clock advances and the I/O timeout is at most two seconds: the longest wait, of
  at most four seconds, then has fewer readings than nanoseconds. The wait for a source address ends
  within 301 rounds of 100 ms (\<open>transport_sockets_no_leak\<close>). Theorems over counters that wrap state their
  bounds, for example fewer than \<open>2 ^ 64\<close> published documents. All other recursions are structural or
  have a measure.

  \<^bold>\<open>What modelling showed\<close> about the code, as theorems and lemmas: two control packets may interleave on
  a connection after a partial write (\<open>control_packets_interleave\<close>); detaching the binding leaves
  datagrams uncompleted (\<open>binding_detach_abandons_data\<close>); a connection before the association
  occupies the control slot for good (\<open>early_connection_leaks_slot\<close>); a failed coordinated start leaves
  the start of the radio that did not admit it, and the later ones, submitted (\<open>coordinate_start_outcome\<close>), and a controller that is being stopped may still submit one
  (\<open>stop_submits_starts\<close>); time stamps of reads wrap after 18446744073 samples (\<open>read_stream_time\<close>); a
  window that opens inside a packet has the packet's time (\<open>mid_packet_window_begin\<close>); an overlong datagram
  is cut, not refused (\<open>detector_accepts_oversize\<close>); the decoder drops the upper half of a rate field
  (\<open>decode_truncates_rate\<close>); a status document can be older than its request (\<open>status_freshness\<close>); a control queue
  above 64 loads but cannot start (\<open>loaded_config_starts\<close>); an accepted duration can exceed the
  range of nanoseconds (\<open>duration_beyond_nanoseconds\<close>).

  \<^bold>\<open>Not modelled.\<close> Opening, reading and parsing files into JSON values and the printing of JSON values (the
  library's); the texts of the controller's event lines and of the UTC time stamps; the
  construction of the framework's runtime and its pools; the key and hardware strings of the device and its wait on
  an inactive stream; validation and quiescence callbacks of the adapter, which only forward or are
  constant; accessors; rounding of double arithmetic in the transform. The regression program
  under \<open>artifacts/\<close>, the capture tool under \<open>tools/\<close>, the scripts, the tests and the vendored framework
  patches carry no logic of the programs.
\<close>

end
